(* ===== verification/Prelude.thy ===== *)
theory Prelude
  imports Main "HOL-Library.Word" "HOL-Library.Monad_Syntax"
begin

unbundle bit_operations_syntax

text \<open>
  Shared vocabulary of the development: the C integer types of the i386 target, the
  fixed-size array accesses (an access outside the array is undefined behaviour of the C
  program and is the value \<open>None\<close>), the first-match scan that the kernel's table lookups
  are written as, a generic drain loop, and the locale of transition systems with an
  invariant that the component theories interpret.
\<close>

section \<open>Machine types\<close>

type_synonym u8 = "8 word"
type_synonym u16 = "16 word"
type_synonym u32 = "32 word"
type_synonym u64 = "64 word"

text \<open>Byte-addressed memory with 32-bit addresses.\<close>

type_synonym mem = "u32 \<Rightarrow> u8"

text \<open>Bytes and characters; the byte of a character is \<open>of_char\<close>.\<close>

definition u8_char :: "u8 \<Rightarrow> char" where
  "u8_char b = char_of (unat b)"

lemma unat_of_char [simp]: "unat (of_char c :: u8) = of_char c"
proof -
  have "(of_char c :: u8) = of_nat (of_char c)" by (simp add: of_nat_of_char)
  then show ?thesis by (simp only: unat_of_nat) (simp add: take_bit_eq_mod)
qed

lemma uint_of_char [simp]: "uint (of_char c :: u8) = int (of_char c)"
  by (metis unat_of_char of_nat_unat)

lemma u8_char_of_char [simp]: "u8_char (of_char c) = c"
  by (simp add: u8_char_def)

lemma of_char_u8_inject [simp]: "(of_char c = (of_char d :: u8)) \<longleftrightarrow> c = d"
  by (metis u8_char_of_char)

lemma of_char_u8_eq_0 [simp]: "(of_char c = (0 :: u8)) \<longleftrightarrow> c = CHR 0x00"
proof -
  have "(of_char (CHR 0x00) :: u8) = 0" by simp
  then show ?thesis by (metis of_char_u8_inject)
qed

lemma nat_of_char_eq_0 [simp]: "(of_char c = (0 :: nat)) \<longleftrightarrow> c = CHR 0x00"
proof -
  have "(of_char (CHR 0x00) :: nat) = 0" by simp
  then show ?thesis by (metis of_char_eq_iff)
qed

lemma of_char_u8_char [simp]: "of_char (u8_char b) = b"
proof -
  have "unat b < 256" using unsigned_less [of b] by simp
  then have "unat (of_char (u8_char b) :: u8) = unat b" by (simp add: u8_char_def)
  then show ?thesis by (rule unsigned_word_eqI)
qed

named_theorems op_defs \<open>definitions of the modelled operations\<close>
named_theorems const_defs \<open>definitions of the constants of the headers\<close>

section \<open>Arithmetic of 32-bit words without wrap-around\<close>

lemma unat_u32_less: "unat (w :: u32) < 4294967296"
proof -
  have "unat w < 2 ^ LENGTH(32)" by (rule unsigned_less)
  then show ?thesis by simp
qed

lemma unat_of_nat32: "n < 4294967296 \<Longrightarrow> unat (of_nat n :: u32) = n"
  by (simp add: unat_of_nat take_bit_nat_eq_self)

lemma of_nat32_eq_iff: "x < 4294967296 \<Longrightarrow> y < 4294967296 \<Longrightarrow> (of_nat x = (of_nat y :: u32)) = (x = y)"
  by (metis unat_of_nat32)

lemma unat_add_small: "unat a + unat b < 4294967296 \<Longrightarrow> unat (a + b) = unat a + unat b" for a b :: u32
  by (subst unat_add_lem [THEN iffD1]) auto

lemma unat_add_num: "unat a + n < 4294967296 \<Longrightarrow> unat (a + of_nat n) = unat a + n" for a :: u32
  by (subst unat_add_small) (auto simp: unat_of_nat take_bit_nat_eq_self)

lemma unat_sub_le: "unat b \<le> unat a \<Longrightarrow> unat (a - b) = unat a - unat b" for a b :: u32
  by (rule unat_sub) (simp add: word_le_nat_alt)

lemma unat_double: "unat a < 2147483648 \<Longrightarrow> unat (a * 2) = unat a * 2" for a :: u32
  by (subst unat_mult_lem [THEN iffD1]) auto

lemma sint_small: "unat w < 2147483648 \<Longrightarrow> sint w = int (unat w)" for w :: u32
proof -
  assume "unat w < 2147483648"
  then have "int (unat w) < 2147483648" by linarith
  then have "uint w < 2147483648" by simp
  then have "signed_take_bit 31 (uint w) = uint w"
    using order_trans [OF _ uint_ge_0 [of w], of "-2147483648"]
    by (intro signed_take_bit_int_eq_self) simp_all
  then show ?thesis by (simp add: sint_uint)
qed

lemma and_not_mask: "unat (w AND NOT (mask k)) = unat w div 2 ^ k * 2 ^ k" if "k < 32" for w :: u32
proof -
  have "(2 :: nat) ^ k < 2 ^ 32" using that by (intro power_strict_increasing) simp_all
  then have "unat (of_nat (2 ^ k) :: u32) = 2 ^ k" by (intro unat_of_nat32) simp
  then have p: "unat (2 ^ k :: u32) = 2 ^ k" by simp
  have "w AND NOT (mask k) = push_bit k (drop_bit k w)"
    by (rule bit_eqI) (auto simp: bit_simps)
  then have "w AND NOT (mask k) = of_nat (unat w div 2 ^ k * 2 ^ k)"
    by (simp add: push_bit_eq_mult drop_bit_eq_div word_arith_nat_div p)
  moreover have "unat w div 2 ^ k * 2 ^ k < 4294967296"
    using unat_u32_less [of w] by (meson div_times_less_eq_dividend le_less_trans)
  ultimately show ?thesis by (metis unat_of_nat32)
qed

lemma and_not_15: "unat (w AND NOT 15) = unat w div 16 * 16" for w :: u32
  using and_not_mask [of 4 w] by (simp add: mask_eq_exp_minus_1)

lemma and_not_3: "unat (w AND NOT 3) = unat w div 4 * 4" for w :: u32
  using and_not_mask [of 2 w] by (simp add: mask_eq_exp_minus_1)

text \<open>The signed value of a word.\<close>

lemma wrap_mod:
  fixes x h :: int
  assumes "0 \<le> x" "x < 2 * h"
  shows "(x + h) mod (2 * h) - h = (if x < h then x else x - 2 * h)"
proof (cases "x < h")
  case False
  have "(x + h) mod (2 * h) = (x - h + 2 * h) mod (2 * h)" by (simp add: add.commute)
  also have "\<dots> = x - h" using False assms by (simp only: mod_add_self2) simp
  finally show ?thesis using False by simp
qed (use assms in simp)

lemma sint_u8: "sint c = (if uint c < 128 then uint c else uint c - 256)" for c :: u8
  using wrap_mod [of "uint c" 128] uint_lt2p [of c]
  by (simp add: sint_uint signed_take_bit_eq_take_bit_shift take_bit_eq_mod)

lemma sint_u32: "sint w = (if uint w < 2147483648 then uint w else uint w - 4294967296)" for w :: u32
  using wrap_mod [of "uint w" 2147483648] uint_lt2p [of w]
  by (simp add: sint_uint signed_take_bit_eq_take_bit_shift take_bit_eq_mod)

lemma sint_of_nat_small: "k < 2 ^ 31 \<Longrightarrow> sint (of_nat k :: u32) = int k"
  by (simp add: signed_of_nat signed_take_bit_int_eq_self)

section \<open>Arrays with checked accesses\<close>

definition arr_get :: "'a list \<Rightarrow> nat \<Rightarrow> 'a option" where
  "arr_get xs i = (if i < length xs then Some (xs ! i) else None)"

definition arr_set :: "'a list \<Rightarrow> nat \<Rightarrow> 'a \<Rightarrow> 'a list option" where
  "arr_set xs i v = (if i < length xs then Some (xs[i := v]) else None)"

lemma arr_get_eq_Some [simp]: "arr_get xs i = Some v \<longleftrightarrow> i < length xs \<and> xs ! i = v"
  by (auto simp: arr_get_def)

lemma arr_get_in [simp]: "i < length xs \<Longrightarrow> arr_get xs i = Some (xs ! i)"
  by simp

lemma arr_set_eq_Some [simp]: "arr_set xs i v = Some ys \<longleftrightarrow> i < length xs \<and> ys = xs[i := v]"
  by (auto simp: arr_set_def)

lemma arr_set_in [simp]: "i < length xs \<Longrightarrow> arr_set xs i v = Some (xs[i := v])"
  by simp

lemma nth_upd: "j < length xs \<Longrightarrow> xs[i := x] ! j = (if i = j then x else xs ! j)"
  by (cases "i = j") auto

section \<open>Counting loops\<close>

text \<open>\<open>for (i = lo; i < lo + n; i++) body (i);\<close> with a body that may be undefined.\<close>

fun for_loop :: "nat \<Rightarrow> nat \<Rightarrow> (nat \<Rightarrow> 's \<Rightarrow> 's option) \<Rightarrow> 's \<Rightarrow> 's option" where
  "for_loop lo 0 body s = Some s"
| "for_loop lo (Suc n) body s = Option.bind (body lo s) (for_loop (Suc lo) n body)"

lemma for_loop_rule:
  assumes "P lo s" "\<And>i t. lo \<le> i \<Longrightarrow> i < lo + n \<Longrightarrow> P i t \<Longrightarrow> \<exists>t'. body i t = Some t' \<and> P (Suc i) t'"
  shows "\<exists>s'. for_loop lo n body s = Some s' \<and> P (lo + n) s'"
  using assms
proof (induction n arbitrary: lo s)
  case (Suc n)
  obtain t where t: "body lo s = Some t" "P (Suc lo) t" using Suc.prems(2) [of lo s] Suc.prems(1) by auto
  have "\<exists>s'. for_loop (Suc lo) n body t = Some s' \<and> P (Suc lo + n) s'"
    using Suc.prems(2) by (intro Suc.IH t(2)) auto
  with t(1) show ?case by simp
qed simp

section \<open>First match in a table\<close>

text \<open>\<open>for (i = 0; i < N; i++) if (P (t[i])) return i;\<close> over a table, starting at a given
  index.\<close>

fun find_from :: "('a \<Rightarrow> bool) \<Rightarrow> nat \<Rightarrow> 'a list \<Rightarrow> nat option" where
  "find_from P i [] = None"
| "find_from P i (x # xs) = (if P x then Some i else find_from P (Suc i) xs)"

abbreviation find_idx :: "('a \<Rightarrow> bool) \<Rightarrow> 'a list \<Rightarrow> nat option" where
  "find_idx P xs \<equiv> find_from P 0 xs"

lemma find_from_None_iff: "find_from P i xs = None \<longleftrightarrow> (\<forall>x \<in> set xs. \<not> P x)"
  by (induction xs arbitrary: i) auto

lemma find_from_replicate:
  "find_from P i (replicate n x) = (if 0 < n \<and> P x then Some i else None)"
proof (cases "0 < n \<and> P x")
  case True
  then show ?thesis by (cases n) auto
qed (auto simp: find_from_None_iff)

lemma find_from_Some_iff:
  "find_from P i xs = Some k \<longleftrightarrow>
     i \<le> k \<and> k - i < length xs \<and> P (xs ! (k - i)) \<and> (\<forall>j < k - i. \<not> P (xs ! j))"
proof (induction xs arbitrary: i)
  case (Cons x xs)
  show ?case
  proof (cases "P x")
    case True
    show ?thesis
    proof
      assume "find_from P i (x # xs) = Some k"
      with True show "i \<le> k \<and> k - i < length (x # xs) \<and> P ((x # xs) ! (k - i)) \<and>
          (\<forall>j < k - i. \<not> P ((x # xs) ! j))"
        by simp
    next
      assume r: "i \<le> k \<and> k - i < length (x # xs) \<and> P ((x # xs) ! (k - i)) \<and>
          (\<forall>j < k - i. \<not> P ((x # xs) ! j))"
      have "k - i = 0"
        using r True by (metis gr0I nth_Cons_0)
      with r True show "find_from P i (x # xs) = Some k" by simp
    qed
  next
    case False
    have shift: "(x # xs) ! (k - i) = xs ! (k - Suc i)" if "Suc i \<le> k"
      using that by (simp add: nth_Cons' Suc_diff_Suc)
    have all: "(\<forall>j < k - i. \<not> P ((x # xs) ! j)) \<longleftrightarrow> (\<forall>j < k - Suc i. \<not> P (xs ! j))"
      if "Suc i \<le> k"
    proof -
      have "k - i = Suc (k - Suc i)" using that by simp
      then show ?thesis using False by (simp add: All_less_Suc2)
    qed
    show ?thesis
    proof (cases "Suc i \<le> k")
      case True
      with False Cons shift all show ?thesis by auto
    next
      case nle: False
      have "find_from P (Suc i) xs \<noteq> Some k" using nle Cons by simp
      moreover have "\<not> (i \<le> k \<and> P ((x # xs) ! (k - i)))"
        using nle False by auto
      ultimately show ?thesis using False by auto
    qed
  qed
qed simp

lemma find_from_cong_nth:
  assumes "length xs = length ys" "\<And>i. i < length xs \<Longrightarrow> P (xs ! i) \<longleftrightarrow> Q (ys ! i)"
  shows "find_from P n xs = find_from Q n ys"
  using assms
proof (induction xs ys arbitrary: n rule: list_induct2)
  case (Cons x xs y ys)
  have "P x \<longleftrightarrow> Q y" using Cons.prems [of 0] by simp
  moreover have "find_from P (Suc n) xs = find_from Q (Suc n) ys"
    using Cons.prems [of "Suc i" for i] by (intro Cons.IH) auto
  ultimately show ?case by simp
qed simp

lemma find_idx_SomeD:
  assumes "find_idx P xs = Some k"
  shows "k < length xs" and "P (xs ! k)" and "j < k \<Longrightarrow> \<not> P (xs ! j)"
  using assms by (auto simp: find_from_Some_iff)

lemma find_idx_ex: "i < length xs \<Longrightarrow> P (xs ! i) \<Longrightarrow> \<exists>k. find_idx P xs = Some k"
  by (metis find_from_None_iff not_None_eq nth_mem)

lemma find_idx_unique:
  assumes "i < length xs" "P (xs ! i)" "\<And>j. j < length xs \<Longrightarrow> P (xs ! j) \<Longrightarrow> j = i"
  shows "find_idx P xs = Some i"
proof -
  obtain k where k: "find_idx P xs = Some k" using find_idx_ex [of i xs P] assms(1,2) by blast
  then have "k = i" using assms(3) find_idx_SomeD(1,2) by metis
  with k show ?thesis by simp
qed

lemma take_take_append: "take n (take n xs @ ys) = take n (xs @ ys)"
  by (auto simp: min_def)

section \<open>Draining a queue\<close>

text \<open>\<open>while (n < count && has_data()) out[n++] = pop();\<close>\<close>

fun drain :: "('q \<Rightarrow> bool) \<Rightarrow> ('q \<Rightarrow> 'a \<times> 'q) \<Rightarrow> nat \<Rightarrow> 'q \<Rightarrow> 'a list \<times> 'q" where
  "drain has pop 0 q = ([], q)"
| "drain has pop (Suc n) q =
     (if has q then (let (c, q') = pop q; (cs, q'') = drain has pop n q' in (c # cs, q''))
      else ([], q))"

text \<open>
  The contract of a bounded first-in first-out buffer: \<open>contents\<close> is the abstraction to a
  list, a push on a full buffer is dropped, a pop on an empty one returns a default.
\<close>

locale bounded_queue =
  fixes push :: "'a \<Rightarrow> 'q \<Rightarrow> 'q"
    and pop :: "'q \<Rightarrow> 'a \<times> 'q"
    and has_data :: "'q \<Rightarrow> bool"
    and contents :: "'q \<Rightarrow> 'a list"
    and invar :: "'q \<Rightarrow> bool"
    and cap :: nat
    and dflt :: 'a
  assumes push_inv: "invar q \<Longrightarrow> invar (push c q)"
    and pop_inv: "invar q \<Longrightarrow> invar (snd (pop q))"
    and contents_cap: "invar q \<Longrightarrow> length (contents q) \<le> cap"
    and push_contents: "invar q \<Longrightarrow> contents (push c q) =
          (if length (contents q) < cap then contents q @ [c] else contents q)"
    and pop_contents: "invar q \<Longrightarrow> contents (snd (pop q)) = tl (contents q)"
    and pop_value: "invar q \<Longrightarrow> fst (pop q) = (if contents q = [] then dflt else hd (contents q))"
    and has_data_iff: "invar q \<Longrightarrow> has_data q \<longleftrightarrow> contents q \<noteq> []"
begin

lemma fold_push_inv: "invar q \<Longrightarrow> invar (fold push cs q)"
  by (induction cs arbitrary: q) (auto simp: push_inv)

lemma fold_push_contents:
  "invar q \<Longrightarrow> contents (fold push cs q) = take cap (contents q @ cs)"
proof (induction cs arbitrary: q)
  case Nil
  then show ?case by (simp add: contents_cap)
next
  case (Cons c cs)
  have "contents (fold push (c # cs) q) = take cap (contents (push c q) @ cs)"
    using Cons by (simp add: push_inv)
  also have "\<dots> = take cap (contents q @ c # cs)"
    using contents_cap [OF Cons.prems] push_contents [OF Cons.prems, of c]
    by (auto simp: take_Cons' less_imp_le)
  finally show ?case .
qed

lemma drain_spec:
  assumes "invar q"
  shows "fst (drain has_data pop n q) = take n (contents q)"
    and "contents (snd (drain has_data pop n q)) = drop n (contents q)"
    and "invar (snd (drain has_data pop n q))"
proof -
  have "fst (drain has_data pop n q) = take n (contents q) \<and>
      contents (snd (drain has_data pop n q)) = drop n (contents q) \<and>
      invar (snd (drain has_data pop n q))"
    using assms
  proof (induction n arbitrary: q)
    case 0
    then show ?case by simp
  next
    case (Suc n)
    show ?case
    proof (cases "contents q")
      case Nil
      with Suc.prems show ?thesis by (simp add: has_data_iff)
    next
      case (Cons x xs)
      have "invar (snd (pop q))" "contents (snd (pop q)) = xs" "fst (pop q) = x" "has_data q"
        using Suc.prems Cons by (simp_all add: pop_inv pop_contents pop_value has_data_iff)
      with Suc.IH [of "snd (pop q)"] Cons show ?thesis
        by (simp add: case_prod_beta Let_def)
    qed
  qed
  then show "fst (drain has_data pop n q) = take n (contents q)"
    and "contents (snd (drain has_data pop n q)) = drop n (contents q)"
    and "invar (snd (drain has_data pop n q))" by auto
qed

end

section \<open>Systems that keep an invariant\<close>

text \<open>
  A deterministic machine that takes one operation at a time; an operation may be undefined
  (\<open>None\<close>). \<open>ok\<close> is what the caller has to respect, and the number that indexes the invariant
  is a budget of operations: a resource such as a 32-bit counter that every operation may use
  once.
\<close>

fun run_ops :: "('o \<Rightarrow> 's \<Rightarrow> 's option) \<Rightarrow> 'o list \<Rightarrow> 's \<Rightarrow> 's option" where
  "run_ops step [] s = Some s"
| "run_ops step (x # xs) s = Option.bind (step x s) (run_ops step xs)"

locale invariant_machine =
  fixes step :: "'o \<Rightarrow> 's \<Rightarrow> 's option"
    and ok :: "'o \<Rightarrow> bool"
    and invar :: "nat \<Rightarrow> 's \<Rightarrow> bool"
  assumes step_ok: "ok x \<Longrightarrow> invar (Suc n) s \<Longrightarrow> \<exists>s'. step x s = Some s' \<and> invar n s'"
begin

lemma run_ok:
  "list_all ok xs \<Longrightarrow> invar (length xs + n) s \<Longrightarrow> \<exists>s'. run_ops step xs s = Some s' \<and> invar n s'"
proof (induction xs arbitrary: s)
  case (Cons x xs)
  then obtain s1 where s1: "step x s = Some s1" "invar (length xs + n) s1"
    using step_ok [of x "length xs + n" s] by auto
  then have "\<exists>s'. run_ops step xs s1 = Some s' \<and> invar n s'"
    using Cons by simp
  with s1 show ?case by simp
qed simp

end

end
