(* ===== verification/Keyboard.thy ===== *)
theory Keyboard
  imports Prelude
begin

text \<open>
  The PS/2 keyboard driver, \<open>kernel/arch/i386/keyboard.c\<close> with the constants of
  \<open>kernel/include/kernel/keyboard.h\<close>: the key-state table, the scancode table and the ring
  buffer between the interrupt handler (push) and the system calls (pop). The ring buffer is
  shown to be a bounded first-in first-out queue by interpreting \<open>bounded_queue\<close>.
\<close>

section \<open>State\<close>

definition KEYBOARD_BUFFER_SIZE :: nat where
  "KEYBOARD_BUFFER_SIZE = 256"

definition KEY_BACKSPACE :: u8 where
  "KEY_BACKSPACE = 0x0E"

definition KEY_ENTER :: u8 where
  "KEY_ENTER = 0x1C"

record kbd =
  key_states :: "u8 list"
  keyboard_buffer :: "char list"
  buffer_head :: nat
  buffer_tail :: nat
  buffer_count :: nat

definition kbd_init :: kbd where
  "kbd_init = \<lparr>key_states = replicate 128 0,
     keyboard_buffer = replicate KEYBOARD_BUFFER_SIZE (CHR 0x00),
     buffer_head = 0, buffer_tail = 0, buffer_count = 0\<rparr>"

section \<open>Scancodes\<close>

text \<open>The key state is recorded under the code without its release bit; the result says
  whether the scancode is a press.\<close>

definition keyboard_is_key_pressed :: "u8 \<Rightarrow> kbd \<Rightarrow> bool \<times> kbd" where
  "keyboard_is_key_pressed scancode s =
     (let key_code = unat (scancode AND 0x7F);
          is_release = scancode AND 0x80 in
      if is_release \<noteq> 0 then (False, s\<lparr>key_states := (key_states s)[key_code := 0]\<rparr>)
      else (True, s\<lparr>key_states := (key_states s)[key_code := 1]\<rparr>))"

definition scancode_to_ascii :: "char list" where
  "scancode_to_ascii =
     [CHR 0x00, CHR 0x00] @ ''1234567890-='' @ [CHR 0x00, CHR 0x00] @
     ''qwertyuiop[]'' @ [CHR 0x00, CHR 0x00] @
     ''asdfghjkl;'' @ [CHR 0x27] @ ''`'' @ [CHR 0x00] @
     [CHR 0x5C] @ ''zxcvbnm,./'' @ [CHR 0x00, CHR 0x00, CHR 0x00] @ '' '' @ [CHR 0x00]"

text \<open>The names that \<open>keyboard.h\<close> gives to the scancodes.\<close>

definition scancodes :: "(string \<times> u8) list" where
  "scancodes =
    [(''KEY_ESC'', 0x01), (''KEY_1'', 0x02), (''KEY_2'', 0x03), (''KEY_3'', 0x04), (''KEY_4'', 0x05),
     (''KEY_5'', 0x06), (''KEY_6'', 0x07), (''KEY_7'', 0x08), (''KEY_8'', 0x09), (''KEY_9'', 0x0A),
     (''KEY_0'', 0x0B), (''KEY_MINUS'', 0x0C), (''KEY_EQUAL'', 0x0D), (''KEY_BACKSPACE'', KEY_BACKSPACE),
     (''KEY_TAB'', 0x0F), (''KEY_Q'', 0x10), (''KEY_W'', 0x11), (''KEY_E'', 0x12), (''KEY_R'', 0x13),
     (''KEY_T'', 0x14), (''KEY_Y'', 0x15), (''KEY_U'', 0x16), (''KEY_I'', 0x17), (''KEY_O'', 0x18),
     (''KEY_P'', 0x19), (''KEY_LEFTBRACKET'', 0x1A), (''KEY_RIGHTBRACKET'', 0x1B), (''KEY_ENTER'', KEY_ENTER),
     (''KEY_LEFTCTRL'', 0x1D), (''KEY_A'', 0x1E), (''KEY_S'', 0x1F), (''KEY_D'', 0x20), (''KEY_F'', 0x21),
     (''KEY_G'', 0x22), (''KEY_H'', 0x23), (''KEY_J'', 0x24), (''KEY_K'', 0x25), (''KEY_L'', 0x26),
     (''KEY_SEMICOLON'', 0x27), (''KEY_QUOTE'', 0x28), (''KEY_BACKTICK'', 0x29), (''KEY_LEFTSHIFT'', 0x2A),
     (''KEY_BACKSLASH'', 0x2B), (''KEY_Z'', 0x2C), (''KEY_X'', 0x2D), (''KEY_C'', 0x2E), (''KEY_V'', 0x2F),
     (''KEY_B'', 0x30), (''KEY_N'', 0x31), (''KEY_M'', 0x32), (''KEY_COMMA'', 0x33), (''KEY_PERIOD'', 0x34),
     (''KEY_SLASH'', 0x35), (''KEY_RIGHTSHIFT'', 0x36), (''KEY_KEYPADASTERISK'', 0x37),
     (''KEY_LEFTALT'', 0x38), (''KEY_SPACE'', 0x39), (''KEY_CAPSLOCK'', 0x3A)]"

definition keyboard_scancode_to_ascii :: "u8 \<Rightarrow> char" where
  "keyboard_scancode_to_ascii scancode =
     (if unat scancode < length scancode_to_ascii then scancode_to_ascii ! unat scancode
      else CHR 0x00)"

text \<open>The two tables agree: a key named after a letter or digit gives that character, in lower case, and
  no scancode has two names.\<close>

definition lower_letter :: "char \<Rightarrow> char" where
  "lower_letter c = (if 65 \<le> (of_char c :: nat) \<and> (of_char c :: nat) \<le> 90 then char_of (of_char c + 32 :: nat) else c)"

lemma scancode_names:
  assumes "(''KEY_'' @ [c], code) \<in> set scancodes"
  shows "keyboard_scancode_to_ascii code = lower_letter c" "map_of (map (\<lambda>(n, k). (k, n)) scancodes) code = Some (''KEY_'' @ [c])"
proof -
  have "list_all (\<lambda>(n, k). length n = 5 \<longrightarrow> keyboard_scancode_to_ascii k = lower_letter (n ! 4) \<and>
      map_of (map (\<lambda>(n, k). (k, n)) scancodes) k = Some n) scancodes"
    by code_simp
  with assms show "keyboard_scancode_to_ascii code = lower_letter c"
    "map_of (map (\<lambda>(n, k). (k, n)) scancodes) code = Some (''KEY_'' @ [c])"
    by (auto simp: list_all_iff)
qed

section \<open>The ring buffer\<close>

definition keyboard_buffer_push :: "char \<Rightarrow> kbd \<Rightarrow> kbd" where
  "keyboard_buffer_push c s =
     (if buffer_count s < KEYBOARD_BUFFER_SIZE then
        s\<lparr>keyboard_buffer := (keyboard_buffer s)[buffer_tail s := c],
          buffer_tail := (buffer_tail s + 1) mod KEYBOARD_BUFFER_SIZE,
          buffer_count := buffer_count s + 1\<rparr>
      else s)"

definition keyboard_buffer_pop :: "kbd \<Rightarrow> char \<times> kbd" where
  "keyboard_buffer_pop s =
     (if buffer_count s > 0 then
        (keyboard_buffer s ! buffer_head s,
         s\<lparr>buffer_head := (buffer_head s + 1) mod KEYBOARD_BUFFER_SIZE,
           buffer_count := buffer_count s - 1\<rparr>)
      else (CHR 0x00, s))"

definition keyboard_buffer_has_data :: "kbd \<Rightarrow> bool" where
  "keyboard_buffer_has_data s \<longleftrightarrow> buffer_count s > 0"

text \<open>The keyboard branch of \<open>irq_handler\<close> in \<open>interrupt.c\<close>, for the scancode that the
  controller delivered.\<close>

definition irq_keyboard :: "u8 \<Rightarrow> kbd \<Rightarrow> kbd" where
  "irq_keyboard scancode s =
     (let (pressed, s1) = keyboard_is_key_pressed scancode s in
      if pressed then
        (if scancode = KEY_BACKSPACE then keyboard_buffer_push (CHR 0x08) s1
         else if scancode = KEY_ENTER then keyboard_buffer_push (CHR 0x0A) s1
         else (let ascii = keyboard_scancode_to_ascii scancode in
               if ascii \<noteq> CHR 0x00 then keyboard_buffer_push ascii s1 else s1))
      else s1)"

section \<open>Invariant and abstraction\<close>

definition kbd_inv :: "kbd \<Rightarrow> bool" where
  "kbd_inv s \<longleftrightarrow> length (key_states s) = 128 \<and>
     length (keyboard_buffer s) = KEYBOARD_BUFFER_SIZE \<and>
     buffer_head s < KEYBOARD_BUFFER_SIZE \<and> buffer_count s \<le> KEYBOARD_BUFFER_SIZE \<and>
     buffer_tail s = (buffer_head s + buffer_count s) mod KEYBOARD_BUFFER_SIZE"

definition kbd_contents :: "kbd \<Rightarrow> char list" where
  "kbd_contents s = map (\<lambda>i. keyboard_buffer s ! ((buffer_head s + i) mod KEYBOARD_BUFFER_SIZE))
                        [0..<buffer_count s]"

lemma mod_shift_neq: "(h + i) mod n \<noteq> (h + k) mod n" if "i < k" "k < n" for h i k n :: nat
proof
  assume "(h + i) mod n = (h + k) mod n"
  then have "n dvd k - i" by (metis add_diff_cancel_left mod_eq_dvd_iff_nat nat_add_left_cancel_le
        nat_less_le that(1))
  with that show False by (auto dest: dvd_imp_le)
qed

lemma push_contents:
  assumes "kbd_inv s"
  shows "kbd_contents (keyboard_buffer_push c s) =
    (if length (kbd_contents s) < KEYBOARD_BUFFER_SIZE then kbd_contents s @ [c]
     else kbd_contents s)"
  using assms
  by (auto simp: kbd_contents_def keyboard_buffer_push_def kbd_inv_def KEYBOARD_BUFFER_SIZE_def
      nth_list_update) (metis mod_shift_neq)

lemma pop_contents:
  assumes "kbd_inv s"
  shows "kbd_contents (snd (keyboard_buffer_pop s)) = tl (kbd_contents s)"
proof (cases "buffer_count s")
  case (Suc n)
  have tail: "[0..<Suc n] = 0 # map Suc [0..<n]" by (simp add: map_Suc_upt upt_conv_Cons)
  show ?thesis
    using Suc by (simp add: kbd_contents_def keyboard_buffer_pop_def tail comp_def mod_simps
        del: upt_Suc)
qed (simp add: kbd_contents_def keyboard_buffer_pop_def)

interpretation kq: bounded_queue keyboard_buffer_push keyboard_buffer_pop
  keyboard_buffer_has_data kbd_contents kbd_inv KEYBOARD_BUFFER_SIZE "CHR 0x00"
proof (unfold_locales, goal_cases)
  case (1 q c)
  then show ?case
    by (auto simp: kbd_inv_def keyboard_buffer_push_def KEYBOARD_BUFFER_SIZE_def mod_simps)
next
  case (2 q)
  then show ?case
    by (cases "buffer_count q")
      (auto simp: kbd_inv_def keyboard_buffer_pop_def KEYBOARD_BUFFER_SIZE_def mod_simps)
next
  case (3 q)
  then show ?case by (simp add: kbd_contents_def kbd_inv_def)
next
  case (4 q c)
  then show ?case by (rule push_contents)
next
  case (5 q)
  then show ?case by (rule pop_contents)
next
  case (6 q)
  then show ?case
    by (auto simp: kbd_contents_def keyboard_buffer_pop_def kbd_inv_def hd_map)
next
  case (7 q)
  then show ?case by (simp add: kbd_contents_def keyboard_buffer_has_data_def)
qed

lemma irq_keyboard_inv: "kbd_inv s \<Longrightarrow> kbd_inv (irq_keyboard scancode s)"
  by (auto simp: irq_keyboard_def keyboard_is_key_pressed_def Let_def kbd_inv_def
      intro!: kq.push_inv [unfolded kbd_inv_def])

text \<open>What one keyboard interrupt delivers to the reader.\<close>

definition key_char :: "u8 \<Rightarrow> char option" where
  "key_char scancode =
     (if scancode AND 0x80 \<noteq> 0 then None
      else if scancode = KEY_BACKSPACE then Some (CHR 0x08)
      else if scancode = KEY_ENTER then Some (CHR 0x0A)
      else if keyboard_scancode_to_ascii scancode \<noteq> CHR 0x00
           then Some (keyboard_scancode_to_ascii scancode)
      else None)"

lemma kbd_contents_key_states [simp]: "kbd_contents (s\<lparr>key_states := ks\<rparr>) = kbd_contents s"
  by (simp add: kbd_contents_def)

lemma irq_keyboard_contents:
  assumes "kbd_inv s"
  shows "kbd_contents (irq_keyboard scancode s) =
    take KEYBOARD_BUFFER_SIZE
      (kbd_contents s @ (case key_char scancode of None \<Rightarrow> [] | Some c \<Rightarrow> [c]))"
proof -
  have inv: "kbd_inv (s\<lparr>key_states := (key_states s)[i := v]\<rparr>)" for i v
    using assms by (simp add: kbd_inv_def)
  have le: "length (kbd_contents s) \<le> KEYBOARD_BUFFER_SIZE" by (rule kq.contents_cap [OF assms])
  show ?thesis
    using le by (auto simp: irq_keyboard_def keyboard_is_key_pressed_def Let_def key_char_def
        kq.push_contents [OF inv])
qed

section \<open>Properties\<close>

lemma keys_fifo:
  assumes "kbd_inv s"
  shows "kbd_inv (fold irq_keyboard scs s) \<and>
    kbd_contents (fold irq_keyboard scs s) =
      take KEYBOARD_BUFFER_SIZE (kbd_contents s @ List.map_filter key_char scs)"
  using assms
proof (induction scs arbitrary: s)
  case Nil
  then show ?case using kq.contents_cap [of s] by simp
next
  case (Cons c scs)
  have "kbd_inv (irq_keyboard c s)" using Cons.prems by (rule irq_keyboard_inv)
  note IH = Cons.IH [OF this, unfolded irq_keyboard_contents [OF Cons.prems] take_take_append]
  have "List.map_filter key_char (c # scs) =
      (case key_char c of None \<Rightarrow> [] | Some k \<Rightarrow> [k]) @ List.map_filter key_char scs"
    by (simp add: List.map_filter_def split: option.split)
  with IH show ?case by (simp only: fold_Cons o_apply append_assoc)
qed

text \<open>The keyboard ring buffer refines a queue of capacity 256. Whatever sequence of key
  interrupts arrives at a consistent buffer, the buffer holds the earlier characters followed
  by the characters of the keys pressed, in order, cut off at 256 (later keys are dropped and
  nothing is overwritten), and it stays consistent.\<close>

theorem keyboard_fifo:
  assumes "kbd_inv s"
  shows "kbd_inv (fold irq_keyboard scs s) \<and>
    kbd_contents (fold irq_keyboard scs s) =
      take KEYBOARD_BUFFER_SIZE (kbd_contents s @ List.map_filter key_char scs)"
  by (rule keys_fifo [OF assms])

theorem keyboard_fifo_witness:
  "kbd_contents (fold irq_keyboard [0x10, 0x90, 0x1C] kbd_init) = ''q'' @ [CHR 0x0A]"
proof -
  have inv: "kbd_inv kbd_init" by (simp add: kbd_inv_def kbd_init_def KEYBOARD_BUFFER_SIZE_def)
  have keys: "List.map_filter key_char [0x10, 0x90, 0x1C] = ''q'' @ [CHR 0x0A]" by code_simp
  have "kbd_contents kbd_init = []" by (simp add: kbd_contents_def kbd_init_def)
  with keyboard_fifo [OF inv, of "[0x10, 0x90, 0x1C]"] keys show ?thesis
    by (simp add: KEYBOARD_BUFFER_SIZE_def)
qed

end
