(* ===== verification/CString.thy ===== *)
theory CString
  imports Prelude
begin

text \<open>
  The freestanding string library of the kernel, \<open>libc/string/*.c\<close>, over a byte memory with
  32-bit addresses. Every loop is written as in the source: the block functions count bytes,
  the string functions walk pointers until a NUL byte and are \<open>partial_function\<close>s, so that a
  walk over memory without a NUL byte has no result. The theorems relate each function to a
  reference definition on lists, which the other components then use.
\<close>

section \<open>Block functions\<close>

text \<open>The memory after the first \<open>n\<close> iterations of the loop of \<open>memcpy\<close>.\<close>

primrec memcpy :: "mem \<Rightarrow> u32 \<Rightarrow> u32 \<Rightarrow> nat \<Rightarrow> mem" where
  "memcpy m dst src 0 = m"
| "memcpy m dst src (Suc i) =
     (let m' = memcpy m dst src i in m'(dst + of_nat i := m' (src + of_nat i)))"

primrec memset :: "mem \<Rightarrow> u32 \<Rightarrow> u8 \<Rightarrow> nat \<Rightarrow> mem" where
  "memset m buf v 0 = m"
| "memset m buf v (Suc i) = (memset m buf v i)(buf + of_nat i := v)"

text \<open>The downward loop of \<open>memmove\<close>: \<open>for (i = size; i != 0; i--) dst[i-1] = src[i-1];\<close>\<close>

primrec memmove_down :: "mem \<Rightarrow> u32 \<Rightarrow> u32 \<Rightarrow> nat \<Rightarrow> mem" where
  "memmove_down m dst src 0 = m"
| "memmove_down m dst src (Suc i) =
     memmove_down (m(dst + of_nat i := m (src + of_nat i))) dst src i"

definition memmove :: "mem \<Rightarrow> u32 \<Rightarrow> u32 \<Rightarrow> nat \<Rightarrow> mem" where
  "memmove m dst src n =
     (if dst < src then memcpy m dst src n else memmove_down m dst src n)"

text \<open>The loop of \<open>memcmp\<close> from index \<open>i\<close> with \<open>k\<close> bytes left.\<close>

primrec memcmp_from :: "mem \<Rightarrow> u32 \<Rightarrow> u32 \<Rightarrow> nat \<Rightarrow> nat \<Rightarrow> int" where
  "memcmp_from m a b i 0 = 0"
| "memcmp_from m a b i (Suc k) =
     (if m (a + of_nat i) < m (b + of_nat i) then -1
      else if m (b + of_nat i) < m (a + of_nat i) then 1
      else memcmp_from m a b (Suc i) k)"

definition memcmp :: "mem \<Rightarrow> u32 \<Rightarrow> u32 \<Rightarrow> nat \<Rightarrow> int" where
  "memcmp m a b n = memcmp_from m a b 0 n"

section \<open>String functions\<close>

partial_function (option) strlen_from :: "mem \<Rightarrow> u32 \<Rightarrow> u32 \<Rightarrow> u32 option" where
  "strlen_from m str len =
     (if m (str + len) \<noteq> 0 then strlen_from m str (len + 1) else Some len)"

definition strlen :: "mem \<Rightarrow> u32 \<Rightarrow> u32 option" where
  "strlen m str = strlen_from m str 0"

partial_function (option) strcmp :: "mem \<Rightarrow> u32 \<Rightarrow> u32 \<Rightarrow> int option" where
  "strcmp m s1 s2 =
     (if m s1 \<noteq> 0 \<and> m s2 \<noteq> 0 \<and> m s1 = m s2 then strcmp m (s1 + 1) (s2 + 1)
      else Some (uint (m s1) - uint (m s2)))"

fun strncmp :: "mem \<Rightarrow> u32 \<Rightarrow> u32 \<Rightarrow> nat \<Rightarrow> int" where
  "strncmp m s1 s2 0 = 0"
| "strncmp m s1 s2 (Suc n) =
     (if m s1 \<noteq> 0 \<and> m s2 \<noteq> 0 \<and> m s1 = m s2 then strncmp m (s1 + 1) (s2 + 1) n
      else uint (m s1) - uint (m s2))"

partial_function (option) strcpy :: "mem \<Rightarrow> u32 \<Rightarrow> u32 \<Rightarrow> mem option" where
  "strcpy m d src =
     (if m src \<noteq> 0 then strcpy (m(d := m src)) (d + 1) (src + 1) else Some (m(d := 0)))"

text \<open>\<open>strcat\<close> first walks to the end of \<open>dest\<close>, then copies as \<open>strcpy\<close> does.\<close>

partial_function (option) str_end :: "mem \<Rightarrow> u32 \<Rightarrow> u32 option" where
  "str_end m d = (if m d \<noteq> 0 then str_end m (d + 1) else Some d)"

definition strcat :: "mem \<Rightarrow> u32 \<Rightarrow> u32 \<Rightarrow> mem option" where
  "strcat m dest src = Option.bind (str_end m dest) (\<lambda>d. strcpy m d src)"

text \<open>\<open>strrchr\<close> returns a pointer or NULL, here \<open>Some (Some p)\<close> or \<open>Some None\<close>; \<open>None\<close> is a
  walk that does not end.\<close>

partial_function (option) strrchr_from ::
  "mem \<Rightarrow> u32 \<Rightarrow> u8 \<Rightarrow> u32 option \<Rightarrow> u32 option option" where
  "strrchr_from m s c lst =
     (if m s \<noteq> 0 then strrchr_from m (s + 1) c (if m s = c then Some s else lst)
      else if c = 0 then Some (Some s) else Some lst)"

definition strrchr :: "mem \<Rightarrow> u32 \<Rightarrow> u8 \<Rightarrow> u32 option option" where
  "strrchr m s c = strrchr_from m s c None"

section \<open>Regions of memory as lists\<close>

definition read_bytes :: "mem \<Rightarrow> u32 \<Rightarrow> nat \<Rightarrow> u8 list" where
  "read_bytes m a n = map (\<lambda>i. m (a + of_nat i)) [0..<n]"

definition write_bytes :: "mem \<Rightarrow> u32 \<Rightarrow> u8 list \<Rightarrow> mem" where
  "write_bytes m a bs = (\<lambda>x. if unat (x - a) < length bs then bs ! unat (x - a) else m x)"

definition in_region :: "u32 \<Rightarrow> u32 \<Rightarrow> nat \<Rightarrow> bool" where
  "in_region x a n \<longleftrightarrow> unat (x - a) < n"

definition disjoint_regions :: "u32 \<Rightarrow> nat \<Rightarrow> u32 \<Rightarrow> nat \<Rightarrow> bool" where
  "disjoint_regions a n b k \<longleftrightarrow> (\<forall>x. \<not> (in_region x a n \<and> in_region x b k))"

lemma length_read_bytes [simp]: "length (read_bytes m a n) = n"
  by (simp add: read_bytes_def)

lemma nth_read_bytes [simp]: "i < n \<Longrightarrow> read_bytes m a n ! i = m (a + of_nat i)"
  by (simp add: read_bytes_def)

lemma unat_of_nat_pow: "i < 2 ^ 32 \<Longrightarrow> unat (of_nat i :: u32) = i"
  by (simp add: unat_of_nat take_bit_nat_eq_self)

lemma of_nat_eq32: "(of_nat i = (of_nat j :: u32)) \<longleftrightarrow> i = j" if "i < 2 ^ 32" "j < 2 ^ 32"
  using that by (metis unat_of_nat_pow)

lemma addr_eq_iff: "x = a + of_nat i \<longleftrightarrow> unat (x - a) = i" if "i < 2 ^ 32" for x a :: u32
proof
  assume "unat (x - a) = i"
  then have "x - a = of_nat i" by (metis unat_of_nat_pow that unsigned_word_eqI)
  then show "x = a + of_nat i" by (metis add.commute diff_add_cancel)
qed (simp add: unat_of_nat_pow [OF that])

lemma in_region_offset [simp]: "i < n \<Longrightarrow> n \<le> 2 ^ 32 \<Longrightarrow> in_region (a + of_nat i) a n"
  by (simp add: in_region_def unat_of_nat_pow)

lemma in_region_iff:
  "unat a + n \<le> 2 ^ 32 \<Longrightarrow> in_region x a n \<longleftrightarrow> unat a \<le> unat x \<and> unat x < unat a + n"
  using unsigned_less [of x] by (auto simp: in_region_def unat_sub_if')

lemma disjoint_regions_below:
  assumes "unat a + n \<le> unat b" "unat b + k \<le> 2 ^ 32"
  shows "disjoint_regions a n b k" and "disjoint_regions b k a n"
  using assms by (auto simp: disjoint_regions_def in_region_iff)

lemma write_bytes_in: "in_region x a (length bs) \<Longrightarrow> write_bytes m a bs x = bs ! unat (x - a)"
  by (simp add: write_bytes_def in_region_def)

lemma write_bytes_out: "\<not> in_region x a (length bs) \<Longrightarrow> write_bytes m a bs x = m x"
  by (simp add: write_bytes_def in_region_def)

lemma write_bytes_Nil [simp]: "write_bytes m a [] = m"
  by (simp add: write_bytes_def)

lemma read_write_same [simp]:
  "length bs \<le> 2 ^ 32 \<Longrightarrow> read_bytes (write_bytes m a bs) a (length bs) = bs"
  by (rule nth_equalityI) (auto simp: write_bytes_def unat_of_nat_pow)

lemma read_write_disjoint:
  assumes "disjoint_regions a (length bs) b n" "n \<le> 2 ^ 32"
  shows "read_bytes (write_bytes m a bs) b n = read_bytes m b n"
proof (rule nth_equalityI)
  fix i assume "i < length (read_bytes (write_bytes m a bs) b n)"
  then have i: "i < n" by simp
  with assms have "\<not> in_region (b + of_nat i) a (length bs)"
    unfolding disjoint_regions_def using in_region_offset by blast
  with i show "read_bytes (write_bytes m a bs) b n ! i = read_bytes m b n ! i"
    by (simp add: write_bytes_out)
qed simp

lemma write_bytes_snoc:
  assumes "length bs < 2 ^ 32"
  shows "(write_bytes m a bs)(a + of_nat (length bs) := v) = write_bytes m a (bs @ [v])"
proof
  fix x
  show "((write_bytes m a bs)(a + of_nat (length bs) := v)) x = write_bytes m a (bs @ [v]) x"
    using addr_eq_iff [OF assms, of x a]
    by (auto simp: write_bytes_def nth_append less_Suc_eq)
qed

lemma read_bytes_Suc: "read_bytes m a (Suc n) = read_bytes m a n @ [m (a + of_nat n)]"
  by (simp add: read_bytes_def)

section \<open>Block functions against the list view\<close>

lemma memset_eq: "n \<le> 2 ^ 32 \<Longrightarrow> memset m a v n = write_bytes m a (replicate n v)"
proof (induction n)
  case (Suc n)
  then show ?case
    using write_bytes_snoc [of "replicate n v" m a v] by (simp add: replicate_append_same)
qed simp

text \<open>An upward copy is right as soon as no byte is read after it was overwritten.\<close>

lemma memcpy_upward:
  assumes "n \<le> 2 ^ 32" "\<And>i j. i < n \<Longrightarrow> j < i \<Longrightarrow> src + of_nat i \<noteq> dst + of_nat j"
  shows "memcpy m dst src n = write_bytes m dst (read_bytes m src n)"
  using assms
proof (induction n)
  case (Suc n)
  then have IH: "memcpy m dst src n = write_bytes m dst (read_bytes m src n)" by simp
  have "\<not> in_region (src + of_nat n) dst n"
  proof
    assume r: "in_region (src + of_nat n) dst n"
    then have "unat (src + of_nat n - dst) < n" by (simp add: in_region_def)
    moreover from this have "src + of_nat n = dst + of_nat (unat (src + of_nat n - dst))" by simp
    ultimately show False using Suc.prems(2) [of n "unat (src + of_nat n - dst)"] by blast
  qed
  then have "memcpy m dst src n (src + of_nat n) = m (src + of_nat n)"
    by (simp add: IH write_bytes_out)
  then show ?case
    using write_bytes_snoc [of "read_bytes m src n" m dst "m (src + of_nat n)"] Suc.prems(1)
    by (simp add: IH Let_def read_bytes_Suc)
qed (simp add: read_bytes_def)

lemma memcpy_disjoint:
  assumes "n \<le> 2 ^ 32" "disjoint_regions dst n src n"
  shows "memcpy m dst src n = write_bytes m dst (read_bytes m src n)"
proof (rule memcpy_upward [OF assms(1)])
  fix i j assume "i < n" "j < i"
  then have "in_region (src + of_nat i) src n" "in_region (dst + of_nat j) dst n"
    using assms(1) by simp_all
  with assms(2) show "src + of_nat i \<noteq> dst + of_nat j"
    unfolding disjoint_regions_def by metis
qed

lemma memmove_down_eq:
  assumes "unat dst + n \<le> 2 ^ 32" "unat src + n \<le> 2 ^ 32" "src \<le> dst"
  shows "memmove_down m dst src n x =
    (if unat (x - dst) < n then m (src + (x - dst)) else m x)"
  using assms
proof (induction n arbitrary: m)
  case (Suc n)
  let ?m = "m(dst + of_nat n := m (src + of_nat n))"
  have IH: "memmove_down ?m dst src n x = (if unat (x - dst) < n then ?m (src + (x - dst)) else ?m x)"
    using Suc by simp
  have n: "n < 2 ^ 32" using Suc.prems by simp
  show ?case
  proof (cases "unat (x - dst) < n")
    case True
    have "src + (x - dst) \<noteq> dst + of_nat n"
    proof
      assume eq: "src + (x - dst) = dst + of_nat n"
      have "unat (src + (x - dst)) = unat src + unat (x - dst)"
        using Suc.prems(2) True by (subst unat_add_lem [THEN iffD1]) auto
      moreover have "unat (dst + of_nat n) = unat dst + n"
        using Suc.prems(1) n by (subst unat_add_lem [THEN iffD1]) (auto simp: unat_of_nat_pow)
      ultimately have "unat src + unat (x - dst) = unat dst + n" using eq by simp
      with True Suc.prems(3) show False by (simp add: word_le_nat_alt)
    qed
    with True IH show ?thesis by simp
  next
    case False
    with IH addr_eq_iff [OF n, of x dst] show ?thesis by auto
  qed
qed simp

text \<open>C29: \<open>memmove\<close> is right for overlapping buffers: for any two buffers of \<open>n\<close> bytes
  that do not wrap around the end of the address space, however they overlap, the destination
  ends up with the bytes the source had before the call, and no other byte changes.\<close>

theorem memmove_correct:
  assumes "unat dst + n \<le> 2 ^ 32" "unat src + n \<le> 2 ^ 32"
  shows "memmove m dst src n = write_bytes m dst (read_bytes m src n)"
proof (cases "dst < src")
  case True
  have "src + of_nat i \<noteq> dst + of_nat j" if "i < n" "j < i" for i j
  proof
    assume eq: "src + of_nat i = dst + of_nat j"
    have "unat (src + of_nat i) = unat src + i"
      using assms(2) that by (subst unat_add_lem [THEN iffD1]) (auto simp: unat_of_nat_pow)
    moreover have "unat (dst + of_nat j) = unat dst + j"
      using assms(1) that by (subst unat_add_lem [THEN iffD1]) (auto simp: unat_of_nat_pow)
    ultimately show False using eq True that by (simp add: word_less_nat_alt)
  qed
  with True assms(1) show ?thesis by (simp add: memmove_def memcpy_upward)
next
  case False
  then have le: "src \<le> dst" by simp
  show ?thesis
  proof
    fix x
    have "read_bytes m src n ! unat (x - dst) = m (src + (x - dst))" if "unat (x - dst) < n"
      using that by simp
    then show "memmove m dst src n x = write_bytes m dst (read_bytes m src n) x"
      using False memmove_down_eq [OF assms le] by (simp add: memmove_def write_bytes_def)
  qed
qed

theorem memmove_correct_witness:
  "memmove (\<lambda>a. of_nat (unat a)) 102 100 4 = write_bytes (\<lambda>a. of_nat (unat a)) 102 [100, 101, 102, 103]"
proof -
  have "read_bytes (\<lambda>a. of_nat (unat a)) 100 4 = [100, 101, 102, 103 :: u8]"
    by (simp add: read_bytes_def upt_rec)
  with memmove_correct [of 102 4 100 "\<lambda>a. of_nat (unat a)"] show ?thesis by simp
qed

lemma read_bytes_Cons: "read_bytes m a (Suc n) = m a # read_bytes m (a + 1) n"
  by (simp add: read_bytes_def upt_conv_Cons map_Suc_upt [symmetric] comp_def ac_simps
      del: upt_Suc)

lemma memcmp_from_shift: "memcmp_from m a b (Suc i) k = memcmp_from m (a + 1) (b + 1) i k"
  by (induction k arbitrary: i) (simp_all add: ac_simps)

lemma memcmp_from_range: "memcmp_from m a b i k \<in> {-1, 0, 1}"
  by (induction k arbitrary: i) auto

text \<open>\<open>memcmp\<close> is the lexicographic order on unsigned bytes: the result is -1 exactly
  when the first block precedes the second, 1 exactly when the second precedes the first, and
  0 exactly when the blocks are equal.\<close>

theorem memcmp_lexicographic:
  "(memcmp m a b n = -1 \<longleftrightarrow>
      (read_bytes m a n, read_bytes m b n) \<in> lexord {(x, y). x < y}) \<and>
   (memcmp m a b n = 1 \<longleftrightarrow>
      (read_bytes m b n, read_bytes m a n) \<in> lexord {(x, y). x < y}) \<and>
   (memcmp m a b n = 0 \<longleftrightarrow> read_bytes m a n = read_bytes m b n)"
  unfolding memcmp_def
proof (induction n arbitrary: a b)
  case 0
  then show ?case by (simp add: read_bytes_def)
next
  case (Suc n)
  from Suc [of "a + 1" "b + 1"] show ?case
    by (auto simp: read_bytes_Cons memcmp_from_shift)
qed

section \<open>NUL-terminated strings\<close>

text \<open>\<open>cstr m a s\<close>: the string \<open>s\<close> (without its terminator) is stored at address \<open>a\<close>.\<close>

fun cstr :: "mem \<Rightarrow> u32 \<Rightarrow> string \<Rightarrow> bool" where
  "cstr m a [] \<longleftrightarrow> m a = 0"
| "cstr m a (c # s) \<longleftrightarrow> c \<noteq> CHR 0x00 \<and> m a = of_char c \<and> cstr m (a + 1) s"

text \<open>The string at an address, read up to its terminator.\<close>

partial_function (option) read_cstr :: "mem \<Rightarrow> u32 \<Rightarrow> string option" where
  "read_cstr m a =
     (if m a = 0 then Some []
      else Option.bind (read_cstr m (a + 1)) (\<lambda>s. Some (u8_char (m a) # s)))"

text \<open>The comparison functions on the strings themselves; \<open>strncmp_l\<close> reads the end of a list
  as the terminator.\<close>

definition cbyte :: "string \<Rightarrow> u8" where
  "cbyte s = (case s of [] \<Rightarrow> 0 | c # _ \<Rightarrow> of_char c)"

fun strcmp_l :: "string \<Rightarrow> string \<Rightarrow> int" where
  "strcmp_l (c # s) (d # t) =
     (if c = d then strcmp_l s t else uint (cbyte (c # s)) - uint (cbyte (d # t)))"
| "strcmp_l s t = uint (cbyte s) - uint (cbyte t)"

fun strncmp_l :: "string \<Rightarrow> string \<Rightarrow> nat \<Rightarrow> int" where
  "strncmp_l s t 0 = 0"
| "strncmp_l (c # s) (d # t) (Suc n) =
     (if c = d then strncmp_l s t n else uint (cbyte (c # s)) - uint (cbyte (d # t)))"
| "strncmp_l s t (Suc n) = uint (cbyte s) - uint (cbyte t)"

lemma cbyte_Cons [simp]: "cbyte (c # s) = of_char c" and cbyte_Nil [simp]: "cbyte [] = 0"
  by (simp_all add: cbyte_def)

lemma cstr_byte: "cstr m a s \<Longrightarrow> m a = cbyte s"
  by (cases s) auto

lemma cstr_no_nul: "cstr m a s \<Longrightarrow> CHR 0x00 \<notin> set s"
  by (induction s arbitrary: a) auto

lemma cstr_strlen_from:
  "cstr m (a + l) s \<Longrightarrow> strlen_from m a l = Some (l + of_nat (length s))"
proof (induction s arbitrary: l)
  case Nil
  then show ?case by (subst strlen_from.simps) simp
next
  case (Cons c s)
  then have "strlen_from m a (l + 1) = Some (l + 1 + of_nat (length s))"
    by (simp add: add.assoc)
  with Cons.prems show ?case by (subst strlen_from.simps) (simp add: ac_simps)
qed

lemma cstr_strlen: "cstr m a s \<Longrightarrow> strlen m a = Some (of_nat (length s))"
  using cstr_strlen_from [of m a 0 s] by (simp add: strlen_def)

lemma cstr_read_cstr: "cstr m a s \<Longrightarrow> read_cstr m a = Some s"
proof (induction s arbitrary: a)
  case Nil
  then show ?case by (subst read_cstr.simps) simp
next
  case (Cons c s)
  then show ?case by (subst read_cstr.simps) simp
qed

lemma cstr_strcmp: "cstr m a s \<Longrightarrow> cstr m b t \<Longrightarrow> strcmp m a b = Some (strcmp_l s t)"
proof (induction s t arbitrary: a b rule: strcmp_l.induct, goal_cases)
  case 1
  then show ?case by (subst strcmp.simps) auto
next
  case (2 t a b)
  then show ?case by (subst strcmp.simps) (simp add: cstr_byte [of m b t])
next
  case (3 s a b)
  then show ?case by (subst strcmp.simps) (auto simp: cstr_byte [of m a])
qed

lemma cstr_strncmp: "cstr m a s \<Longrightarrow> cstr m b t \<Longrightarrow> strncmp m a b n = strncmp_l s t n"
proof (induction s t n arbitrary: a b rule: strncmp_l.induct, goal_cases)
  case (3 t n a b)
  then show ?case by (simp add: cstr_byte [of m b t])
next
  case (4 s n a b)
  then show ?case by (auto simp: cstr_byte [of m a])
qed auto

lemma strcmp_l_eq_0: "CHR 0x00 \<notin> set s \<Longrightarrow> CHR 0x00 \<notin> set t \<Longrightarrow> strcmp_l s t = 0 \<longleftrightarrow> s = t"
  by (induction s t rule: strcmp_l.induct) (auto simp: cbyte_def split: list.splits)

text \<open>The test by which a path component is compared with a directory entry's name:
  \<open>strncmp (name, seg, n) == 0 && name[n] == 0\<close>.\<close>

lemma strncmp_l_name:
  assumes "CHR 0x00 \<notin> set nm" "CHR 0x00 \<notin> set seg" "n \<le> length seg"
  shows "strncmp_l nm seg n = 0 \<and> n \<ge> length nm \<longleftrightarrow> nm = take n seg"
  using assms
proof (induction nm seg n rule: strncmp_l.induct)
  case (2 c s d t n)
  then show ?case by auto
qed (auto simp: cbyte_def split: list.splits)

lemma cstr_strcmp_eq_0:
  "cstr m a s \<Longrightarrow> cstr m b t \<Longrightarrow> strcmp m a b = Some 0 \<longleftrightarrow> s = t"
  using cstr_no_nul by (simp add: cstr_strcmp strcmp_l_eq_0)

section \<open>Copying strings\<close>

lemma cstr_cong:
  "(\<And>i. i \<le> length s \<Longrightarrow> m' (a + of_nat i) = m (a + of_nat i)) \<Longrightarrow> cstr m' a s \<longleftrightarrow> cstr m a s"
proof (induction s arbitrary: a)
  case Nil
  from Nil [of 0] show ?case by simp
next
  case (Cons c s)
  have "m' (a + 1 + of_nat i) = m (a + 1 + of_nat i)" if "i \<le> length s" for i
    using Cons.prems [of "Suc i"] that by (simp add: add.assoc)
  moreover have "m' a = m a" using Cons.prems [of 0] by simp
  ultimately show ?case using Cons.IH [of "a + 1"] by simp
qed

lemma write_bytes_Cons:
  assumes "length bs < 2 ^ 32"
  shows "write_bytes (m(d := b)) (d + 1) bs = write_bytes m d (b # bs)"
proof
  fix x
  show "write_bytes (m(d := b)) (d + 1) bs x = write_bytes m d (b # bs) x"
  proof (cases "x = d")
    case True
    have "unat (- 1 :: u32) = 2 ^ 32 - 1" by (simp add: unsigned_minus_1_eq_mask mask_eq_exp_minus_1)
    with True assms show ?thesis by (simp add: write_bytes_def)
  next
    case False
    then have "x - d \<noteq> 0" by simp
    then have "unat (x - d) \<noteq> 0" by (simp add: unat_eq_zero)
    moreover have "unat (x - (d + 1)) = unat (x - d) - 1"
      using unat_minus_one [OF \<open>x - d \<noteq> 0\<close>] by (simp add: diff_diff_eq)
    ultimately show ?thesis using False by (cases "unat (x - d)") (auto simp: write_bytes_def)
  qed
qed

lemma strcpy_writes:
  assumes "cstr m src s" "length s < 2 ^ 32 - 1"
    "\<And>i j. i \<le> length s \<Longrightarrow> j < i \<Longrightarrow> src + of_nat i \<noteq> d + of_nat j"
  shows "strcpy m d src = Some (write_bytes m d (map of_char s @ [0]))"
  using assms
proof (induction s arbitrary: m d src)
  case Nil
  then show ?case
    using write_bytes_Cons [of "[]" m d 0] by (subst strcpy.simps) simp
next
  case (Cons c s)
  let ?m = "m(d := of_char c)"
  have "?m (src + 1 + of_nat i) = m (src + 1 + of_nat i)" if "i \<le> length s" for i
    using Cons.prems(3) [of "Suc i" 0] that by (simp add: add.assoc)
  then have "cstr ?m (src + 1) s" using Cons.prems(1) cstr_cong [of s ?m "src + 1" m] by simp
  then have "strcpy ?m (d + 1) (src + 1) = Some (write_bytes ?m (d + 1) (map of_char s @ [0]))"
  proof (rule Cons.IH)
    show "length s < 2 ^ 32 - 1" using Cons.prems(2) by simp
    fix i j assume "i \<le> length s" "j < i"
    with Cons.prems(3) [of "Suc i" "Suc j"] show "src + 1 + of_nat i \<noteq> d + 1 + of_nat j"
      by (simp add: add.assoc)
  qed
  with Cons.prems(1,2) show ?case
    by (subst strcpy.simps) (simp add: write_bytes_Cons)
qed

lemma cstr_write_bytes:
  assumes "CHR 0x00 \<notin> set s" "length s < 2 ^ 32 - 1"
  shows "cstr (write_bytes m d (map of_char s @ [0])) d s"
  using assms
proof (induction s arbitrary: m d)
  case Nil
  then show ?case by (simp add: write_bytes_def)
next
  case (Cons c s)
  have "write_bytes m d (map of_char (c # s) @ [0]) d = of_char c" by (simp add: write_bytes_def)
  moreover have "cstr (write_bytes (m(d := of_char c)) (d + 1) (map of_char s @ [0])) (d + 1) s"
    using Cons by simp
  ultimately show ?case using Cons.prems by (auto simp: write_bytes_Cons)
qed

lemma cstr_str_end: "cstr m a s \<Longrightarrow> str_end m a = Some (a + of_nat (length s))"
proof (induction s arbitrary: a)
  case Nil
  then show ?case by (subst str_end.simps) simp
next
  case (Cons c s)
  then show ?case by (subst str_end.simps) (simp add: add.assoc)
qed

lemma cstr_append:
  "cstr m a (s @ t) \<longleftrightarrow>
    (\<forall>i < length s. m (a + of_nat i) = of_char (s ! i)) \<and> CHR 0x00 \<notin> set s \<and>
    cstr m (a + of_nat (length s)) t"
proof (induction s arbitrary: a)
  case (Cons c s)
  then show ?case by (auto simp: All_less_Suc2 add.assoc)
qed simp

lemma strrchr_from_spec:
  "cstr m a s \<Longrightarrow> c \<noteq> CHR 0x00 \<Longrightarrow> strrchr_from m a (of_char c) l =
    Some (if c \<in> set s then Some (a + of_nat (GREATEST i. i < length s \<and> s ! i = c)) else l)"
proof (induction s arbitrary: a l)
  case Nil
  then show ?case by (subst strrchr_from.simps) simp
next
  case (Cons d s)
  let ?g = "GREATEST i. i < length s \<and> s ! i = c"
  let ?g' = "GREATEST i. i < length (d # s) \<and> (d # s) ! i = c"
  have IH: "strrchr_from m (a + 1) (of_char c) l' =
      Some (if c \<in> set s then Some (a + 1 + of_nat ?g) else l')" for l'
    using Cons by simp
  have last_tail: "?g' = Suc ?g" if mem: "c \<in> set s"
  proof (rule Greatest_equality)
    obtain i where i: "i < length s" "s ! i = c" using mem by (auto simp: in_set_conv_nth)
    have "?g < length s \<and> s ! ?g = c"
      by (rule GreatestI_nat [where b = "length s"]) (use i in auto)
    then show "Suc ?g < length (d # s) \<and> (d # s) ! Suc ?g = c" by simp
    fix y assume y: "y < length (d # s) \<and> (d # s) ! y = c"
    show "y \<le> Suc ?g"
    proof (cases y)
      case (Suc z)
      with y have "z \<le> ?g" by (intro Greatest_le_nat [where b = "length s"]) auto
      with Suc show ?thesis by simp
    qed simp
  qed
  have last_head: "?g' = 0" if "c \<notin> set s" "d = c"
    by (rule Greatest_equality) (use that in \<open>auto simp: nth_Cons split: nat.splits\<close>)
  show ?case
    using Cons.prems IH last_tail last_head
    by (subst strrchr_from.simps) (auto simp: add.assoc)
qed

section \<open>Properties of the string functions\<close>

text \<open>\<open>strcat\<close> appends: when a string is stored at \<open>dest\<close> and another at \<open>src\<close>, and
  the bytes that receive the copy do not overlap the source, the call returns and \<open>dest\<close>
  holds the concatenation; every byte outside the appended part (with its terminator) is as
  before.\<close>

theorem strcat_appends:
  assumes "cstr m dest t" "cstr m src s" "length t + length s < 2 ^ 32 - 1"
    "disjoint_regions (dest + of_nat (length t)) (Suc (length s)) src (Suc (length s))"
  shows "\<exists>m'. strcat m dest src = Some m' \<and> cstr m' dest (t @ s) \<and>
    (\<forall>x. \<not> in_region x (dest + of_nat (length t)) (Suc (length s)) \<longrightarrow> m' x = m x)"
proof -
  let ?d = "dest + of_nat (length t)"
  let ?m' = "write_bytes m ?d (map of_char s @ [0])"
  have "src + of_nat i \<noteq> ?d + of_nat j" if "i \<le> length s" "j < i" for i j
  proof -
    have "in_region (src + of_nat i) src (Suc (length s))"
      "in_region (?d + of_nat j) ?d (Suc (length s))"
      by (rule in_region_offset; use assms(3) that in simp)+
    with assms(4) show ?thesis unfolding disjoint_regions_def by metis
  qed
  then have "strcat m dest src = Some ?m'"
    using assms(3) strcpy_writes [OF assms(2)] by (simp add: strcat_def cstr_str_end [OF assms(1)])
  moreover have "cstr ?m' ?d s"
    using assms(3) cstr_no_nul [OF assms(2)] by (intro cstr_write_bytes) auto
  moreover have "?m' (dest + of_nat i) = of_char (t ! i)" if i: "i < length t" for i
  proof -
    have "unat (dest + of_nat i - ?d) = unat (of_nat i - of_nat (length t) :: u32)" by simp
    also have "\<dots> = i + 2 ^ 32 - length t"
      using i assms(3) by (simp add: unat_sub_if' unat_of_nat_pow)
    finally have "\<not> in_region (dest + of_nat i) ?d (Suc (length s))"
      using assms(3) i by (simp add: in_region_def)
    moreover have "m (dest + of_nat i) = of_char (t ! i)"
      using assms(1) cstr_append [of m dest t "[]"] i by simp
    ultimately show ?thesis by (simp add: write_bytes_out)
  qed
  moreover have "?m' x = m x" if "\<not> in_region x ?d (Suc (length s))" for x
    using that by (simp add: write_bytes_out)
  ultimately show ?thesis
    using cstr_no_nul [OF assms(1)] by (auto simp: cstr_append)
qed

theorem strcat_appends_witness:
  "\<exists>m'. strcat (write_bytes (write_bytes (\<lambda>_. 0) 16 [47, 97]) 32 [98]) 16 32 = Some m' \<and>
     cstr m' 16 ''/ab''"
proof -
  let ?m = "write_bytes (write_bytes (\<lambda>_. 0) 16 [47, 97]) 32 [98] :: mem"
  have d: "disjoint_regions (16 + of_nat (length ''/a'')) (Suc (length ''b'')) 32 (Suc (length ''b''))"
    by (rule disjoint_regions_below(1)) simp_all
  have "cstr ?m 16 ''/a''" "cstr ?m 32 ''b''" by (simp_all add: write_bytes_def)
  from strcat_appends [OF this _ d] show ?thesis by auto
qed

lemma strncmp_l_le: "strncmp_l s t n = 0 \<Longrightarrow> n \<le> length t \<Longrightarrow> CHR 0x00 \<notin> set t \<Longrightarrow>
    CHR 0x00 \<notin> set s \<Longrightarrow> n \<le> length s"
  by (induction s t n rule: strncmp_l.induct) (auto simp: cbyte_def split: list.splits if_splits)

lemma cstr_nul_iff: "cstr m a s \<Longrightarrow> n \<le> length s \<Longrightarrow> m (a + of_nat n) = 0 \<longleftrightarrow> n = length s"
proof (induction s arbitrary: a n)
  case (Cons c s)
  show ?case
  proof (cases n)
    case 0
    with Cons.prems show ?thesis by simp
  next
    case (Suc k)
    with Cons.prems Cons.IH [of "a + 1" k] show ?thesis by (simp add: add.assoc)
  qed
qed simp

text \<open>The string comparisons of the file system are exact. On two stored strings
  \<open>strcmp\<close> returns, with zero exactly when they are equal; and the test by which the first
  \<open>n\<close> characters of a path are matched with a stored name
  (\<open>strncmp (name, path, n) == 0 && name[n] == 0\<close>) holds exactly when the name is that
  component.\<close>

theorem strcmp_exact:
  assumes "cstr m a s" "cstr m b t"
  shows "(\<exists>r. strcmp m a b = Some r \<and> (r = 0 \<longleftrightarrow> s = t)) \<and>
    (\<forall>n \<le> length t. strncmp m a b n = 0 \<and> m (a + of_nat n) = 0 \<longleftrightarrow> s = take n t)"
proof -
  have nul: "CHR 0x00 \<notin> set s" "CHR 0x00 \<notin> set t"
    using cstr_no_nul assms by auto
  have "strncmp m a b n = 0 \<and> m (a + of_nat n) = 0 \<longleftrightarrow> s = take n t" if n: "n \<le> length t" for n
  proof -
    have "m (a + of_nat n) = 0 \<longleftrightarrow> n \<ge> length s" if "strncmp_l s t n = 0"
      using strncmp_l_le [OF that n nul(2,1)] cstr_nul_iff [OF assms(1), of n] by auto
    then show ?thesis
      unfolding cstr_strncmp [OF assms] strncmp_l_name [OF nul n, symmetric] by blast
  qed
  then show ?thesis using nul by (simp add: cstr_strcmp [OF assms] strcmp_l_eq_0)
qed

theorem strcmp_exact_witness:
  "\<exists>r. strcmp (write_bytes (\<lambda>_. 0) 16 [98, 105]) 16 16 = Some r \<and> r = 0"
proof -
  have "cstr (write_bytes (\<lambda>_. 0) 16 [98, 105]) 16 ''bi''" by (simp add: write_bytes_def)
  from strcmp_exact [OF this this] show ?thesis by simp
qed

text \<open>\<open>strrchr\<close> finds the last occurrence: on a stored string and a character other
  than NUL it returns the address of the last occurrence, or NULL when there is none; for the
  NUL character it returns the address of the terminator.\<close>

theorem strrchr_last:
  assumes "cstr m a s"
  shows "(c \<noteq> CHR 0x00 \<longrightarrow> strrchr m a (of_char c) =
      Some (if c \<in> set s then Some (a + of_nat (GREATEST i. i < length s \<and> s ! i = c)) else None)) \<and>
    strrchr m a 0 = Some (Some (a + of_nat (length s)))"
proof -
  have "strrchr_from m a 0 l = Some (Some (a + of_nat (length s)))" for l
    using assms
  proof (induction s arbitrary: a l)
    case Nil
    then show ?case by (subst strrchr_from.simps) simp
  next
    case (Cons d s)
    then show ?case by (subst strrchr_from.simps) (simp add: add.assoc)
  qed
  then show ?thesis using strrchr_from_spec [OF assms] by (simp add: strrchr_def)
qed

theorem strrchr_last_witness:
  "strrchr (write_bytes (\<lambda>_. 0) 16 [47, 97, 47]) 16 0 = Some (Some 19)"
proof -
  have "cstr (write_bytes (\<lambda>_. 0) 16 [47, 97, 47]) 16 ''/a/''" by (simp add: write_bytes_def)
  from strrchr_last [OF this] show ?thesis by simp
qed

lemma cstr_cut: "cstr m a (s @ t) \<Longrightarrow> length s < 2 ^ 32 \<Longrightarrow> cstr (m(a + of_nat (length s) := 0)) a s"
proof (induction s arbitrary: a)
  case (Cons c s)
  have "a \<noteq> a + of_nat (length (c # s))" using addr_eq_iff [of "length (c # s)" a a] Cons.prems(2) by auto
  then show ?case using Cons.IH [of "a + 1"] Cons.prems by (simp add: add.assoc)
qed simp

lemma behind: "i < j \<Longrightarrow> j + n \<le> 2 ^ 32 \<Longrightarrow> n \<le> unat (of_nat i - of_nat j :: u32)"
  using unat_of_nat_pow [of i] unat_of_nat_pow [of j] by (cases "n = 0") (simp_all add: unat_sub_if' del: unat_of_nat unsigned_of_nat)

lemma ahead: "j + n \<le> unat x \<Longrightarrow> n \<le> unat (x - of_nat j :: u32)"
  using unsigned_less [of x, where 'a = nat] unat_of_nat_pow [of j] by (simp add: unat_sub_if' del: unat_of_nat unsigned_of_nat)


lemma in_region_split: "\<not> in_region x a (k + n) \<Longrightarrow> \<not> in_region x a k \<and> \<not> in_region x (a + of_nat k) n"
  using ahead [of k n "x - a"] by (auto simp: in_region_def diff_diff_eq)

lemma in_region_mono: "in_region x a n \<Longrightarrow> n \<le> k \<Longrightarrow> in_region x a k"
  by (simp add: in_region_def)

lemma in_region_shift: "in_region x (a + of_nat k) n \<Longrightarrow> in_region x a (k + n)"
  using in_region_split by blast

lemma write_bytes_append:
  "length (xs @ ys) \<le> 2 ^ 32 \<Longrightarrow> write_bytes (write_bytes m a xs) (a + of_nat (length xs)) ys = write_bytes m a (xs @ ys)"
proof (induction ys rule: rev_induct)
  case (snoc v ys)
  have "write_bytes (write_bytes m a xs) (a + of_nat (length xs)) (ys @ [v]) =
      (write_bytes (write_bytes m a xs) (a + of_nat (length xs)) ys)(a + of_nat (length xs) + of_nat (length ys) := v)"
    using snoc.prems by (simp add: write_bytes_snoc)
  also have "\<dots> = (write_bytes m a (xs @ ys))(a + of_nat (length (xs @ ys)) := v)" using snoc by (simp add: add.assoc)
  also have "\<dots> = write_bytes m a (xs @ ys @ [v])" using snoc.prems write_bytes_snoc [of "xs @ ys" m a v] by simp
  finally show ?case .
qed simp

lemma cstr_read_bytes: "cstr m a s \<Longrightarrow> read_bytes m a (length s) = map of_char s"
  by (induction s arbitrary: a) (simp_all add: read_bytes_Cons, simp add: read_bytes_def)

lemma cstr_of_bytes:
  "read_bytes m a (length l + 1) = l @ [0] \<Longrightarrow> 0 \<notin> set l \<Longrightarrow> cstr m a (map u8_char l)"
proof (induction l arbitrary: a)
  case Nil
  then show ?case by (simp add: read_bytes_def)
next
  case (Cons x l)
  have "read_bytes m (a + 1) (length l + 1) = l @ [0]" "m a = x" using Cons.prems(1) read_bytes_Cons [of m a "length l + 1"] by simp_all
  moreover have "u8_char x \<noteq> CHR 0x00" using Cons.prems(2) of_char_u8_char [of x] of_char_u8_eq_0 [of "u8_char x"] by auto
  ultimately show ?case using Cons by simp
qed

end
