(* ===== verification/Mem32.thy ===== *)
theory Mem32
  imports CString
begin

text \<open>
  Little-endian 32-bit and 16-bit accesses of the i386 to byte-addressed memory, at any
  alignment, and their frame lemmas.
\<close>

definition load16 :: "mem \<Rightarrow> u32 \<Rightarrow> u16" where
  "load16 m a = ucast (m a) OR push_bit 8 (ucast (m (a + 1)))"

definition load32 :: "mem \<Rightarrow> u32 \<Rightarrow> u32" where
  "load32 m a = ucast (m a) OR push_bit 8 (ucast (m (a + 1))) OR
     push_bit 16 (ucast (m (a + 2))) OR push_bit 24 (ucast (m (a + 3)))"

definition store32 :: "mem \<Rightarrow> u32 \<Rightarrow> u32 \<Rightarrow> mem" where
  "store32 m a v = m(a := ucast v, a + 1 := ucast (drop_bit 8 v),
     a + 2 := ucast (drop_bit 16 v), a + 3 := ucast (drop_bit 24 v))"

text \<open>Words stored one after the other, as the members of a structure or an array are.\<close>

fun store_words :: "u32 \<Rightarrow> u32 list \<Rightarrow> mem \<Rightarrow> mem" where
  "store_words a [] m = m"
| "store_words a (w # ws) m = store_words (a + 4) ws (store32 m a w)"

lemma u32_add_neq [simp]: "a + 1 \<noteq> a" "a + 2 \<noteq> a" "a + 3 \<noteq> a" "a \<noteq> a + 1" "a \<noteq> a + 2" "a \<noteq> a + 3"
  "a + 1 \<noteq> a + 2" "a + 1 \<noteq> a + 3" "a + 2 \<noteq> a + 3" for a :: u32
  by simp_all

lemma bytes_join: "ucast (ucast v :: u8) OR push_bit 8 (ucast (ucast (drop_bit 8 v) :: u8)) OR
    push_bit 16 (ucast (ucast (drop_bit 16 v) :: u8)) OR push_bit 24 (ucast (ucast (drop_bit 24 v) :: u8)) = v"
  for v :: u32
proof (rule bit_eqI)
  fix n assume "possible_bit TYPE(32 word) n"
  then have "n < 32" by simp
  then consider "n < 8" | "8 \<le> n" "n < 16" | "16 \<le> n" "n < 24" | "24 \<le> n" by linarith
  then show "bit (ucast (ucast v :: u8) OR push_bit 8 (ucast (ucast (drop_bit 8 v) :: u8)) OR
      push_bit 16 (ucast (ucast (drop_bit 16 v) :: u8)) OR
      push_bit 24 (ucast (ucast (drop_bit 24 v) :: u8)) :: u32) n = bit v n"
    using \<open>n < 32\<close> by cases (auto simp: bit_simps)
qed

lemma load32_store32_same [simp]: "load32 (store32 m a v) a = v"
  by (simp add: load32_def store32_def bytes_join)

lemma load32_cong:
  assumes "m' a = m a" "m' (a + 1) = m (a + 1)" "m' (a + 2) = m (a + 2)" "m' (a + 3) = m (a + 3)"
  shows "load32 m' a = load32 m a"
  using assms by (simp add: load32_def)

text \<open>Frame lemmas over addresses given as natural numbers, so that the bounds are linear
  arithmetic.\<close>

lemma store32_other:
  assumes "x + 4 \<le> 4294967296" "y < 4294967296" "y < x \<or> x + 4 \<le> y"
  shows "store32 m (of_nat x) v (of_nat y) = m (of_nat y)"
proof -
  have "of_nat y \<noteq> (of_nat x + of_nat i :: u32)" if "i < 4" for i
    using assms that of_nat32_eq_iff [of y "x + i"] by auto
  from this [of 0] this [of 1] this [of 2] this [of 3] show ?thesis
    by (simp add: store32_def)
qed

lemma load32_store32_other:
  assumes "x + 4 \<le> 4294967296" "y + 4 \<le> 4294967296" "y + 4 \<le> x \<or> x + 4 \<le> y"
  shows "load32 (store32 m (of_nat x) v) (of_nat y) = load32 m (of_nat y)"
proof -
  have "store32 m (of_nat x) v (of_nat y + of_nat i) = m (of_nat y + of_nat i)" if "i < 4" for i
    using store32_other [of x "y + i" m v] that assms by auto
  from this [of 0] this [of 1] this [of 2] this [of 3] show ?thesis
    by (intro load32_cong) simp_all
qed

lemma load32_cong_range:
  assumes "\<And>y. x \<le> y \<Longrightarrow> y < x + 4 \<Longrightarrow> m' (of_nat y) = m (of_nat y)"
  shows "load32 m' (of_nat x) = load32 m (of_nat x)"
  using assms [of x] assms [of "x + 1"] assms [of "x + 2"] assms [of "x + 3"]
  by (intro load32_cong) (simp_all add: add.commute)

lemma load32_store32_apart:
  assumes "\<And>i j. i < 4 \<Longrightarrow> j < 4 \<Longrightarrow> y + of_nat i \<noteq> x + of_nat j"
  shows "load32 (store32 m x v) y = load32 m y"
proof -
  have "store32 m x v (y + of_nat i) = m (y + of_nat i)" if "i < 4" for i
    using assms [of i 0] assms [of i 1] assms [of i 2] assms [of i 3] that by (simp add: store32_def)
  from this [of 0] this [of 1] this [of 2] this [of 3] show ?thesis by (intro load32_cong) simp_all
qed

lemma load32_store32_off:
  assumes "d < 4294967296" "4 \<le> d" "d + 4 \<le> 4294967296"
  shows "load32 (store32 m (a + of_nat d) v) a = load32 m a" "load32 (store32 m a v) (a + of_nat d) = load32 m (a + of_nat d)"
proof -
  have "a + of_nat i \<noteq> a + of_nat d + of_nat j" if "i < 4" "j < 4" for i j
    using that assms of_nat32_eq_iff [of i "d + j"] by simp
  note n = this
  show "load32 (store32 m (a + of_nat d) v) a = load32 m a" by (rule load32_store32_apart) (rule n)
  show "load32 (store32 m a v) (a + of_nat d) = load32 m (a + of_nat d)" by (rule load32_store32_apart) (rule n [symmetric])
qed

section \<open>Pushing words on a stack\<close>

text \<open>\<open>*--sp = w\<close> for each word.\<close>

fun push_words :: "u32 list \<Rightarrow> mem \<times> u32 \<Rightarrow> mem \<times> u32" where
  "push_words [] mc = mc"
| "push_words (w # ws) (m, cursor) = push_words ws (store32 m (cursor - 4) w, cursor - 4)"

lemma push_words_append: "push_words (xs @ ys) mc = push_words ys (push_words xs mc)"
  by (induction xs mc rule: push_words.induct) auto

lemma push_words_spec:
  assumes "4 * length ws \<le> c" "c < 4294967296"
  shows "\<exists>m'. push_words ws (m, of_nat c) = (m', of_nat (c - 4 * length ws)) \<and>
    (\<forall>j < length ws. load32 m' (of_nat (c - 4 * length ws + 4 * j)) = rev ws ! j) \<and>
    (\<forall>y < 4294967296. y < c - 4 * length ws \<or> c \<le> y \<longrightarrow> m' (of_nat y) = m (of_nat y))"
  using assms
proof (induction ws arbitrary: m c)
  case (Cons w ws)
  let ?m1 = "store32 m (of_nat (c - 4)) w"
  have c4: "of_nat c - 4 = (of_nat (c - 4) :: u32)" using Cons.prems by (simp add: of_nat_diff)
  have b: "c - 4 - 4 * length ws = c - 4 * length (w # ws)" by simp
  have pre: "4 * length ws \<le> c - 4" "c - 4 < 4294967296" using Cons.prems by auto
  obtain m' where m': "push_words ws (?m1, of_nat (c - 4)) = (m', of_nat (c - 4 * length (w # ws)))"
    "\<forall>j < length ws. load32 m' (of_nat (c - 4 * length (w # ws) + 4 * j)) = rev ws ! j"
    "\<forall>y < 4294967296. y < c - 4 * length (w # ws) \<or> c - 4 \<le> y \<longrightarrow> m' (of_nat y) = ?m1 (of_nat y)"
    using Cons.IH [OF pre, of ?m1] unfolding b by blast
  have "load32 m' (of_nat (c - 4)) = load32 ?m1 (of_nat (c - 4))"
    using m'(3) Cons.prems by (intro load32_cong_range) auto
  then have last: "load32 m' (of_nat (c - 4 * length (w # ws) + 4 * length ws)) = w"
    using Cons.prems(1) by simp
  have "load32 m' (of_nat (c - 4 * length (w # ws) + 4 * j)) = rev (w # ws) ! j" if "j < length (w # ws)" for j
    using that m'(2) last by (cases "j = length ws") (auto simp: nth_append)
  moreover have "m' (of_nat y) = m (of_nat y)" if "y < 4294967296" "y < c - 4 * length (w # ws) \<or> c \<le> y" for y
  proof -
    have "m' (of_nat y) = ?m1 (of_nat y)" using m'(3) that by auto
    also have "\<dots> = m (of_nat y)" using that Cons.prems by (intro store32_other) auto
    finally show ?thesis .
  qed
  ultimately show ?case using m'(1) c4 by simp
qed simp

text \<open>Arrays of words.\<close>

lemma store32_out: "\<not> in_region x a 4 \<Longrightarrow> store32 m a v x = m x"
  using in_region_offset [of 0 4 a] in_region_offset [of 1 4 a] in_region_offset [of 2 4 a] in_region_offset [of 3 4 a]
  by (auto simp: store32_def)

lemma store_words_out: "\<not> in_region x a (4 * length ws) \<Longrightarrow> store_words a ws m x = m x"
proof (induction ws arbitrary: a m)
  case (Cons w ws)
  then show ?case using in_region_split [of x a 4 "4 * length ws"] by (simp add: store32_out)
qed simp

lemma load32_store_words:
  "i < length ws \<Longrightarrow> 4 * length ws \<le> 2 ^ 32 \<Longrightarrow> load32 (store_words a ws m) (a + of_nat (4 * i)) = ws ! i"
proof (induction ws arbitrary: a m i)
  case (Cons w ws)
  show ?case
  proof (cases i)
    case 0
    have "\<not> in_region (a + of_nat j) (a + 4) (4 * length ws)" if "j < 4" for j
      using behind [of j 4 "4 * length ws"] that Cons.prems(2) by (simp add: in_region_def not_less)
    from this [of 0] this [of 1] this [of 2] this [of 3]
    have "load32 (store_words (a + 4) ws (store32 m a w)) a = load32 (store32 m a w) a"
      by (intro load32_cong) (simp_all add: store_words_out)
    then show ?thesis using 0 by simp
  next
    case (Suc k)
    then show ?thesis using Cons.IH [of k "a + 4" "store32 m a w"] Cons.prems by (simp add: add.assoc)
  qed
qed simp

end
