(* ===== verification/Kmalloc.thy ===== *)
theory Kmalloc
  imports Mem32
begin

text \<open>
  The kernel heap, \<open>libc/stdlib/kmalloc.c\<close>: a first-fit allocator over a chain of blocks, each
  with a 12-byte header (size, magic, free flag) in the heap itself. The model keeps the heap as
  bytes; the header fields are 32-bit loads and stores. The linker's \<open>_heap_start\<close> and
  \<open>_heap_end\<close> are the arguments \<open>hs\<close> and \<open>he\<close>; NULL is the address 0. The walks over the chain
  may not end on a corrupt heap, so they are partial functions.
\<close>

section \<open>Code\<close>

record kheap =
  km_mem :: mem
  heap_base :: u32
  heap_ptr :: u32

definition KMALLOC_MAGIC :: u32 where "KMALLOC_MAGIC = 0xDEADBEEF"

abbreviation (input) KMALLOC_METADATA_SIZE :: u32 where "KMALLOC_METADATA_SIZE \<equiv> 12"

text \<open>The fields of \<open>kmalloc_metadata_t\<close> at a block address.\<close>

abbreviation md_size :: "mem \<Rightarrow> u32 \<Rightarrow> u32" where "md_size m b \<equiv> load32 m b"
abbreviation md_magic :: "mem \<Rightarrow> u32 \<Rightarrow> u32" where "md_magic m b \<equiv> load32 m (b + 4)"
abbreviation md_is_free :: "mem \<Rightarrow> u32 \<Rightarrow> u32" where "md_is_free m b \<equiv> load32 m (b + 8)"

text \<open>Writing a whole header, field by field.\<close>

definition put_header :: "mem \<Rightarrow> u32 \<Rightarrow> u32 \<Rightarrow> u32 \<Rightarrow> mem" where
  "put_header m b sz is_free =
     store32 (store32 (store32 m b sz) (b + 4) KMALLOC_MAGIC) (b + 8) is_free"

definition kmalloc_init :: "u32 \<Rightarrow> kheap \<Rightarrow> kheap" where
  "kmalloc_init hs s =
     (if heap_base s = 0
      then s\<lparr>heap_base := hs, km_mem := put_header (km_mem s) hs 0 0, heap_ptr := hs\<rparr>
      else s)"

definition next_block :: "u32 \<Rightarrow> mem \<Rightarrow> u32 \<Rightarrow> u32" where
  "next_block he m block =
     (let next = block + 12 + md_size m block in if next \<ge> he then 0 else next)"

partial_function (option) prev_loop :: "u32 \<Rightarrow> mem \<Rightarrow> u32 \<Rightarrow> u32 \<Rightarrow> u32 \<Rightarrow> u32 option" where
  "prev_loop he m block cur prev =
     (if cur < he \<and> cur \<noteq> block then
        (if md_magic m cur \<noteq> KMALLOC_MAGIC then Some 0
         else prev_loop he m block (cur + 12 + md_size m cur) cur)
      else Some prev)"

definition prev_block :: "u32 \<Rightarrow> u32 \<Rightarrow> kheap \<Rightarrow> u32 option" where
  "prev_block he block s = prev_loop he (km_mem s) block (heap_base s) 0"

partial_function (option) find_loop :: "u32 \<Rightarrow> mem \<Rightarrow> u32 \<Rightarrow> u32 \<Rightarrow> u32 option" where
  "find_loop he m sz block =
     (if block < he then
        (if md_magic m block \<noteq> KMALLOC_MAGIC then Some 0
         else if md_is_free m block \<noteq> 0 \<and> md_size m block \<ge> sz then Some block
         else find_loop he m sz (block + 12 + md_size m block))
      else Some 0)"

definition find_free_block :: "u32 \<Rightarrow> u32 \<Rightarrow> kheap \<Rightarrow> u32 option" where
  "find_free_block he sz s = find_loop he (km_mem s) sz (heap_base s)"

definition coalesce_next :: "u32 \<Rightarrow> u32 \<Rightarrow> kheap \<Rightarrow> kheap" where
  "coalesce_next he block s =
     (let m = km_mem s; next = next_block he m block in
      if next \<noteq> 0 \<and> md_magic m next = KMALLOC_MAGIC \<and> md_is_free m next \<noteq> 0
      then s\<lparr>km_mem := store32 m block (md_size m block + (12 + md_size m next)),
             heap_ptr := (if next = heap_ptr s then block else heap_ptr s)\<rparr>
      else s)"

definition coalesce_prev :: "u32 \<Rightarrow> u32 \<Rightarrow> kheap \<Rightarrow> kheap option" where
  "coalesce_prev he block s =
     do {
       prev \<leftarrow> prev_block he block s;
       (let m = km_mem s in
        if prev \<noteq> 0 \<and> md_magic m prev = KMALLOC_MAGIC \<and> md_is_free m prev \<noteq> 0
        then Some (s\<lparr>km_mem := store32 m prev (md_size m prev + (12 + md_size m block)),
                     heap_ptr := (if block = heap_ptr s then prev else heap_ptr s)\<rparr>)
        else Some s)
     }"

definition coalesce :: "u32 \<Rightarrow> u32 \<Rightarrow> kheap \<Rightarrow> kheap option" where
  "coalesce he block s = coalesce_prev he block (coalesce_next he block s)"

definition expand_heap :: "u32 \<Rightarrow> u32 \<Rightarrow> kheap \<Rightarrow> u32 \<times> kheap" where
  "expand_heap he sz s =
     (let nb = heap_ptr s + 12 + md_size (km_mem s) (heap_ptr s) in
      if nb + KMALLOC_METADATA_SIZE + sz > he then (0, s)
      else (nb, s\<lparr>km_mem := put_header (km_mem s) nb sz 0, heap_ptr := nb\<rparr>))"

definition kmalloc :: "u32 \<Rightarrow> u32 \<Rightarrow> u32 \<Rightarrow> kheap \<Rightarrow> (u32 \<times> kheap) option" where
  "kmalloc hs he sz s =
     (if sz = 0 then Some (0, s)
      else
        (let s1 = kmalloc_init hs s in
         do {
           block \<leftarrow> find_free_block he sz s1;
           (if block = 0 then
              (case expand_heap he sz s1 of
                 (nb, s2) \<Rightarrow> if nb = 0 then Some (0, s2) else Some (nb + 12, s2))
            else Some (block + 12, s1\<lparr>km_mem := store32 (km_mem s1) (block + 8) 0\<rparr>))
         }))"

definition kfree :: "u32 \<Rightarrow> u32 \<Rightarrow> kheap \<Rightarrow> kheap option" where
  "kfree he ptr s =
     (if ptr = 0 then Some s
      else
        (let block = ptr - 12 in
         if md_magic (km_mem s) block \<noteq> KMALLOC_MAGIC then Some s
         else coalesce he block (s\<lparr>km_mem := store32 (km_mem s) (block + 8) 1\<rparr>)))"

definition krealloc :: "u32 \<Rightarrow> u32 \<Rightarrow> u32 \<Rightarrow> u32 \<Rightarrow> kheap \<Rightarrow> (u32 \<times> kheap) option" where
  "krealloc hs he ptr sz s =
     (if sz = 0 then map_option (\<lambda>s'. (0, s')) (kfree he ptr s)
      else if ptr = 0 then kmalloc hs he sz s
      else
        (let s1 = kmalloc_init hs s; block = ptr - 12 in
         if md_magic (km_mem s1) block \<noteq> KMALLOC_MAGIC then Some (0, s1)
         else if md_size (km_mem s1) block \<ge> sz then Some (ptr, s1)
         else do {
           (new_ptr, s2) \<leftarrow> kmalloc hs he sz s1;
           (if new_ptr = 0 then Some (0, s2)
            else do {
              s3 \<leftarrow> kfree he ptr
                (s2\<lparr>km_mem := memcpy (km_mem s2) new_ptr ptr (unat (md_size (km_mem s2) block))\<rparr>);
              Some (new_ptr, s3)
            })
         }))"

section \<open>The chain of blocks\<close>

text \<open>A block as its address, its size and whether it is free. \<open>chain m a bs e\<close>: from address
  \<open>a\<close> to address \<open>e\<close> the headers in memory are exactly the blocks \<open>bs\<close>, back to back.\<close>

type_synonym block = "nat \<times> nat \<times> bool"

definition header :: "mem \<Rightarrow> nat \<Rightarrow> nat \<Rightarrow> bool \<Rightarrow> bool" where
  "header m b sz fr \<longleftrightarrow> md_size m (of_nat b) = of_nat sz \<and> md_magic m (of_nat b) = KMALLOC_MAGIC \<and>
     (md_is_free m (of_nat b) \<noteq> 0 \<longleftrightarrow> fr)"

fun chain :: "mem \<Rightarrow> nat \<Rightarrow> block list \<Rightarrow> nat \<Rightarrow> bool" where
  "chain m a [] e \<longleftrightarrow> a = e"
| "chain m a ((b, sz, fr) # bs) e \<longleftrightarrow> b = a \<and> header m b sz fr \<and> chain m (a + 12 + sz) bs e"

lemma chain_append: "chain m a (xs @ ys) e \<longleftrightarrow> (\<exists>c. chain m a xs c \<and> chain m c ys e)"
  by (induction xs arbitrary: a) auto

lemma chain_det: "chain m a us c \<Longrightarrow> chain m a us d \<Longrightarrow> c = d"
  by (induction us arbitrary: a) auto

lemma chain_le: "chain m a bs e \<Longrightarrow> a \<le> e"
  by (induction m a bs e rule: chain.induct) auto

lemma chain_member:
  assumes "chain m a bs e" "(b, sz, fr) \<in> set bs"
  shows "a \<le> b" "b + 12 + sz \<le> e" "header m b sz fr"
  using assms by (induction m a bs e rule: chain.induct) (auto dest: chain_le)

lemma header_cong:
  assumes "\<And>y. b \<le> y \<Longrightarrow> y < b + 12 \<Longrightarrow> m' (of_nat y) = m (of_nat y)"
  shows "header m' b sz fr = header m b sz fr"
  using load32_cong_range [of b m' m] load32_cong_range [of "b + 4" m' m]
    load32_cong_range [of "b + 8" m' m] assms
  by (simp add: header_def add.commute)

lemma chain_cong_headers:
  "(\<And>b z f y. (b, z, f) \<in> set bs \<Longrightarrow> b \<le> y \<Longrightarrow> y < b + 12 \<Longrightarrow> m' (of_nat y) = m (of_nat y)) \<Longrightarrow>
    chain m a bs e \<Longrightarrow> chain m' a bs e"
proof (induction m a bs e rule: chain.induct)
  case (2 m a b sz fr bs e)
  then have "header m' b sz fr = header m b sz fr" by (intro header_cong) auto
  with 2 show ?case by auto
qed simp

lemma chain_cong:
  assumes "\<And>y. a \<le> y \<Longrightarrow> y < e \<Longrightarrow> m' (of_nat y) = m (of_nat y)" "chain m a bs e"
  shows "chain m' a bs e"
  using chain_member [OF assms(2)] by (intro chain_cong_headers [OF assms(1) assms(2)]) fastforce+

lemma put_header_other:
  assumes "b + 12 \<le> 4294967296" "y < 4294967296" "y < b \<or> b + 12 \<le> y"
  shows "put_header m (of_nat b) sz fr (of_nat y) = m (of_nat y)"
  using store32_other [of b y] store32_other [of "b + 4" y] store32_other [of "b + 8" y] assms
  by (auto simp: put_header_def add.commute)

lemma header_put_header:
  assumes "b + 12 \<le> 4294967296"
  shows "header (put_header m (of_nat b) (of_nat sz) fr) b sz (fr \<noteq> 0)"
proof -
  let ?b = "of_nat b :: u32"
  have w: "?b + 4 = of_nat (b + 4)" "?b + 8 = of_nat (b + 8)" by simp_all
  show ?thesis
    unfolding header_def put_header_def w
    using assms by (simp add: load32_store32_other del: of_nat_add)
qed

lemma header_set_free:
  assumes "b + 12 \<le> 4294967296" "header m b sz fr"
  shows "header (store32 m (of_nat b + 8) v) b sz (v \<noteq> 0)"
proof -
  let ?b = "of_nat b :: u32"
  have w: "?b + 4 = of_nat (b + 4)" "?b + 8 = of_nat (b + 8)" by simp_all
  show ?thesis
    using assms unfolding header_def w
    by (simp add: load32_store32_other del: of_nat_add)
qed

lemma header_set_size:
  assumes "b + 12 \<le> 4294967296" "header m b sz fr"
  shows "header (store32 m (of_nat b) (of_nat z)) b z fr"
proof -
  let ?b = "of_nat b :: u32"
  have w: "?b + 4 = of_nat (b + 4)" "?b + 8 = of_nat (b + 8)" by simp_all
  show ?thesis
    using assms unfolding header_def w
    by (simp add: load32_store32_other del: of_nat_add)
qed

text \<open>Replacing a run of blocks by a new run over the same range, with memory changed inside
  that range only.\<close>

lemma chain_replace:
  assumes c: "chain m a (xs @ ys @ zs) e" and e: "e \<le> 4294967296"
    and ys: "chain m a xs b" "chain m b ys d"
    and ys': "chain m' b ys' d"
    and frame: "\<And>y. y < 4294967296 \<Longrightarrow> y < b \<or> d \<le> y \<Longrightarrow> m' (of_nat y) = m (of_nat y)"
  shows "chain m' a (xs @ ys' @ zs) e"
proof -
  from c ys have zs: "chain m d zs e" unfolding chain_append using chain_det by blast
  have "chain m' a xs b"
    using ys chain_le [OF zs] chain_le [OF ys(2)] e by (intro chain_cong [OF _ ys(1)] frame) auto
  moreover have "chain m' d zs e" using e by (intro chain_cong [OF _ zs] frame) auto
  ultimately show ?thesis using ys' unfolding chain_append by blast
qed

section \<open>The invariant\<close>

text \<open>The untouched part of the heap holds no header.\<close>

definition virgin :: "mem \<Rightarrow> nat \<Rightarrow> u32 \<Rightarrow> bool" where
  "virgin m e he \<longleftrightarrow> (\<forall>a. e \<le> a \<and> a < unat he \<longrightarrow> md_magic m (of_nat a) \<noteq> KMALLOC_MAGIC)"

abbreviation base_block :: "u32 \<Rightarrow> block" where
  "base_block hs \<equiv> (unat hs, 0, False)"

definition heap_end_is :: "u32 \<Rightarrow> u32 \<Rightarrow> kheap \<Rightarrow> block list \<Rightarrow> nat \<Rightarrow> bool" where
  "heap_end_is hs he s bs e \<longleftrightarrow>
     hs \<noteq> 0 \<and> unat he \<le> 4294967280 \<and> heap_base s = hs \<and> e \<le> unat he \<and>
     chain (km_mem s) (unat hs) (base_block hs # bs) e \<and>
     heap_ptr s = of_nat (fst (last (base_block hs # bs))) \<and> virgin (km_mem s) e he"

text \<open>Free blocks are always merged: no two neighbours are free.\<close>

definition no_adj_free :: "block list \<Rightarrow> bool" where
  "no_adj_free bs \<longleftrightarrow> successively (\<lambda>x y. \<not> (snd (snd x) \<and> snd (snd y))) bs"

definition kheap_ok :: "u32 \<Rightarrow> u32 \<Rightarrow> kheap \<Rightarrow> block list \<Rightarrow> bool" where
  "kheap_ok hs he s bs \<longleftrightarrow>
     (\<exists>e. heap_end_is hs he s bs e) \<and> no_adj_free bs"

lemma virgin_frame:
  assumes v: "virgin m e he" and he: "unat he \<le> 4294967280" and e: "e \<le> e'"
    and f: "\<And>y. y < 4294967296 \<Longrightarrow> e' \<le> y \<Longrightarrow> m' (of_nat y) = m (of_nat y)"
  shows "virgin m' e' he"
  unfolding virgin_def
proof (intro allI impI)
  fix a assume a: "e' \<le> a \<and> a < unat he"
  then have "load32 m' (of_nat (a + 4)) = load32 m (of_nat (a + 4))"
    using he by (intro load32_cong_range f) auto
  then show "md_magic m' (of_nat a) \<noteq> KMALLOC_MAGIC"
    using v e a by (auto simp: virgin_def)
qed

section \<open>The walks\<close>

lemma find_loop_spec:
  assumes "chain m a bs e" "e \<le> unat he" "virgin m e he"
  shows "find_loop he m sz (of_nat a) =
    Some (case find (\<lambda>(b, z, fr). fr \<and> unat sz \<le> z) bs of None \<Rightarrow> 0 | Some x \<Rightarrow> of_nat (fst x))"
  using assms
proof (induction bs arbitrary: a)
  case Nil
  have "a < 4294967296" using Nil unat_u32_less [of he] by simp
  then have "(of_nat a < he) = (a < unat he)" by (simp add: word_less_nat_alt unat_of_nat32)
  then show ?case
    using Nil by (subst find_loop.simps) (auto simp: virgin_def)
next
  case (Cons x bs)
  obtain b z fr where x: "x = (b, z, fr)" by (cases x)
  have h: "b = a" "header m a z fr" "chain m (a + 12 + z) bs e" using Cons.prems x by auto
  have le: "a + 12 + z \<le> unat he" using chain_le [OF h(3)] Cons.prems(2) by simp
  have lt: "a < 4294967296" "z < 4294967296" using le unat_u32_less [of he] by auto
  have "of_nat a < he" using lt le by (simp add: word_less_nat_alt unat_of_nat32)
  moreover have "(sz \<le> of_nat z) = (unat sz \<le> z)" using lt by (simp add: word_le_nat_alt unat_of_nat32)
  moreover have "of_nat a + 12 + of_nat z = (of_nat (a + 12 + z) :: u32)" by simp
  ultimately show ?case
    using Cons.IH [OF h(3) Cons.prems(2,3)] h(1,2) x
    by (subst find_loop.simps) (auto simp: header_def)
qed

lemma prev_loop_spec:
  assumes "chain m a (xs @ (b, z, fr) # ys) e" "e \<le> unat he"
  shows "prev_loop he m (of_nat b) (of_nat a) p = Some (if xs = [] then p else of_nat (fst (last xs)))"
  using assms
proof (induction xs arbitrary: a p)
  case Nil
  then show ?case by (subst prev_loop.simps) simp
next
  case (Cons x xs)
  obtain c w fr' where x: "x = (c, w, fr')" by (cases x)
  have h: "c = a" "header m a w fr'" "chain m (a + 12 + w) (xs @ (b, z, fr) # ys) e"
    using Cons.prems x by auto
  have b: "a + 12 + w \<le> b" "b + 12 + z \<le> e" using chain_member [OF h(3), of b z fr] by auto
  have lt: "a < 4294967296" "b < 4294967296" using b Cons.prems(2) unat_u32_less [of he] by auto
  have "of_nat a < he" using lt b Cons.prems(2) by (simp add: word_less_nat_alt unat_of_nat32)
  moreover have "of_nat a \<noteq> (of_nat b :: u32)" using lt b by (simp add: of_nat32_eq_iff)
  moreover have "of_nat a + 12 + of_nat w = (of_nat (a + 12 + w) :: u32)" by simp
  ultimately show ?case
    using Cons.IH [OF h(3) Cons.prems(2), of "of_nat a"] h(1,2) x
    by (subst prev_loop.simps) (simp add: header_def)
qed

section \<open>One step on the chain\<close>

lemma chain_disjoint:
  assumes "chain m a bs e" "(b, z, f) \<in> set bs" "(c, w, g) \<in> set bs"
  shows "(b, z, f) = (c, w, g) \<or> b + 12 + z \<le> c \<or> c + 12 + w \<le> b"
  using assms
proof (induction bs arbitrary: a)
  case (Cons x bs)
  obtain k y h where x: "x = (k, y, h)" by (cases x)
  have c: "k = a" "chain m (a + 12 + y) bs e" using Cons.prems(1) x by auto
  then have *: "(b', z', f') \<in> set bs \<Longrightarrow> a + 12 + y \<le> b'" for b' z' f'
    using chain_member(1) by blast
  show ?case
    using Cons.IH [OF c(2)] Cons.prems(2,3) * [of b z f] * [of c w g] x c(1) by auto
qed simp

lemma chain_distinct: "chain m a bs e \<Longrightarrow> distinct bs"
  by (induction m a bs e rule: chain.induct) (fastforce dest: chain_member(1))+

text \<open>The bytes a client may own: inside a block, after its header.\<close>

definition payload :: "block list \<Rightarrow> nat \<Rightarrow> bool" where
  "payload bs y \<longleftrightarrow> (\<exists>b z f. (b, z, f) \<in> set bs \<and> b + 12 \<le> y \<and> y < b + 12 + z)"

lemma payload_not_header:
  assumes "chain m a bs e" "payload bs y" "(c, w, g) \<in> set bs"
  shows "y < c \<or> c + 12 \<le> y"
  using assms chain_disjoint [OF assms(1) _ assms(3)] by (fastforce simp: payload_def)

text \<open>The bytes the allocator never writes: the blocks' contents and everything outside the heap.\<close>

definition client_byte :: "u32 \<Rightarrow> u32 \<Rightarrow> block list \<Rightarrow> nat \<Rightarrow> bool" where
  "client_byte hs he bs y \<longleftrightarrow> y < 4294967296 \<and> (payload bs y \<or> y < unat hs \<or> unat he \<le> y)"

lemma client_byte_not_header:
  assumes c: "chain m (unat hs) (base_block hs # bs) e" "e \<le> unat he" and y: "client_byte hs he bs y"
    and b: "(c, w, g) \<in> set (base_block hs # bs)"
  shows "y < c \<or> c + 12 \<le> y"
proof (cases "payload bs y")
  case True
  then have "payload (base_block hs # bs) y" by (auto simp: payload_def)
  then show ?thesis by (rule payload_not_header [OF c(1) _ b])
next
  case False
  then show ?thesis using y chain_member(1,2) [OF c(1) b] c(2) by (auto simp: client_byte_def)
qed

lemma payload_less: "chain m a bs e \<Longrightarrow> payload bs y \<Longrightarrow> y < e"
  by (auto simp: payload_def dest: chain_member(2))

lemma heap_replace:
  assumes h: "heap_end_is hs he s (xs @ ys @ zs) e"
    and ys: "chain (km_mem s) (unat hs) (base_block hs # xs) b" "chain (km_mem s) b ys d"
    and ys': "chain (km_mem s') b ys' d"
    and frame: "\<And>y. y < 4294967296 \<Longrightarrow> y < b \<or> d \<le> y \<Longrightarrow> km_mem s' (of_nat y) = km_mem s (of_nat y)"
    and ptr: "heap_base s' = heap_base s" "heap_ptr s' = of_nat (fst (last (base_block hs # xs @ ys' @ zs)))"
  shows "heap_end_is hs he s' (xs @ ys' @ zs) e"
proof -
  have H: "hs \<noteq> 0" "unat he \<le> 4294967280" "heap_base s = hs" "e \<le> unat he"
    "chain (km_mem s) (unat hs) (base_block hs # xs @ ys @ zs) e" "virgin (km_mem s) e he"
    using h by (auto simp: heap_end_is_def)
  have c: "chain (km_mem s) (unat hs) ((base_block hs # xs) @ ys @ zs) e" using H(5) by simp
  have "chain (km_mem s') (unat hs) ((base_block hs # xs) @ ys' @ zs) e"
    by (rule chain_replace [OF c _ ys ys' frame]) (use H(2,4) in auto)
  moreover have "virgin (km_mem s') e he"
  proof (rule virgin_frame [OF H(6,2) le_refl])
    have "d \<le> e"
    proof -
      obtain d' where d': "chain (km_mem s) b ys d'" "chain (km_mem s) d' zs e"
        using c ys(1) unfolding chain_append by (metis chain_det)
      then show ?thesis using chain_det [OF d'(1) ys(2)] chain_le by blast
    qed
    then show "km_mem s' (of_nat y) = km_mem s (of_nat y)" if "y < 4294967296" "e \<le> y" for y
      using that by (intro frame) auto
  qed
  ultimately show ?thesis using H ptr by (simp add: heap_end_is_def)
qed

text \<open>The position of a block in the chain.\<close>

lemma heap_split:
  assumes h: "heap_end_is hs he s (xs @ ys) e"
  obtains b where "chain (km_mem s) (unat hs) (base_block hs # xs) b" "chain (km_mem s) b ys e"
    "unat hs + 12 \<le> b" "b \<le> e" "e \<le> unat he" "unat he \<le> 4294967280"
proof -
  have "chain (km_mem s) (unat hs) ((base_block hs # xs) @ ys) e" using h by (simp add: heap_end_is_def)
  then obtain b where b: "chain (km_mem s) (unat hs) (base_block hs # xs) b" "chain (km_mem s) b ys e"
    unfolding chain_append by blast
  from b(1) have "chain (km_mem s) (unat hs + 12) xs b" by simp
  with b chain_le [OF this] chain_le [OF b(2)] h show ?thesis
    by (intro that) (auto simp: heap_end_is_def)
qed

lemma set_free_ok:
  assumes h: "heap_end_is hs he s (xs @ (b, z, f) # ys) e"
  shows "heap_end_is hs he (s\<lparr>km_mem := store32 (km_mem s) (of_nat b + 8) v\<rparr>) (xs @ (b, z, v \<noteq> 0) # ys) e"
    (is "heap_end_is hs he ?s' _ e")
proof -
  obtain a where a: "chain (km_mem s) (unat hs) (base_block hs # xs) a"
    "chain (km_mem s) a ((b, z, f) # ys) e" "a \<le> e" "e \<le> unat he" "unat he \<le> 4294967280"
    by (rule heap_split [OF h])
  then have ab: "b = a" "header (km_mem s) b z f" "b + 12 + z \<le> e" by (auto dest: chain_le)
  have "heap_end_is hs he ?s' (xs @ [(b, z, v \<noteq> 0)] @ ys) e"
  proof (rule heap_replace [where s = s and ys = "[(b, z, f)]" and b = b and d = "b + 12 + z"])
    show "chain (km_mem ?s') b [(b, z, v \<noteq> 0)] (b + 12 + z)"
      using ab a by (simp add: header_set_free)
    show "km_mem ?s' (of_nat y) = km_mem s (of_nat y)" if "y < 4294967296" "y < b \<or> b + 12 + z \<le> y" for y
      using store32_other [of "b + 8" y "km_mem s" v] that ab a by auto
  qed (use h a ab in \<open>auto simp: heap_end_is_def\<close>)
  then show ?thesis by simp
qed

lemma set_size_ok:
  assumes h: "heap_end_is hs he s (xs @ (b, z, f) # (n, zn, g) # ys) e"
    and p: "p = (if ys = [] then of_nat b else heap_ptr s)"
  shows "heap_end_is hs he (s\<lparr>km_mem := store32 (km_mem s) (of_nat b) (of_nat (z + 12 + zn)), heap_ptr := p\<rparr>)
    (xs @ (b, z + 12 + zn, f) # ys) e" (is "heap_end_is hs he ?s' _ e")
proof -
  obtain a where a: "chain (km_mem s) (unat hs) (base_block hs # xs) a"
    "chain (km_mem s) a ((b, z, f) # (n, zn, g) # ys) e" "a \<le> e" "e \<le> unat he" "unat he \<le> 4294967280"
    by (rule heap_split [OF h])
  then have ab: "b = a" "header (km_mem s) b z f" "n = b + 12 + z" "header (km_mem s) n zn g"
    "b + 12 + z + 12 + zn \<le> e" by (auto dest: chain_le)
  have "heap_end_is hs he ?s' (xs @ [(b, z + 12 + zn, f)] @ ys) e"
  proof (rule heap_replace [where s = s and ys = "[(b, z, f), (n, zn, g)]" and b = b and d = "b + 12 + z + 12 + zn"])
    show "chain (km_mem ?s') b [(b, z + 12 + zn, f)] (b + 12 + z + 12 + zn)"
      using header_set_size [OF _ ab(2), of "z + 12 + zn"] ab a by simp
    show "km_mem ?s' (of_nat y) = km_mem s (of_nat y)"
      if "y < 4294967296" "y < b \<or> b + 12 + z + 12 + zn \<le> y" for y
      using store32_other [of b y "km_mem s" "of_nat (z + 12 + zn)"] that ab a by auto
  qed (use h a ab p in \<open>auto simp: heap_end_is_def\<close>)
  then show ?thesis by simp
qed

section \<open>Allocation\<close>

lemma no_adj_free_append:
  "no_adj_free (xs @ ys) \<longleftrightarrow> no_adj_free xs \<and> no_adj_free ys \<and>
     (xs = [] \<or> ys = [] \<or> \<not> (snd (snd (last xs)) \<and> snd (snd (hd ys))))"
  by (auto simp: no_adj_free_def successively_append_iff)

lemma no_adj_free_Cons:
  "no_adj_free (x # ys) \<longleftrightarrow> no_adj_free ys \<and> (ys = [] \<or> \<not> (snd (snd x) \<and> snd (snd (hd ys))))"
  by (auto simp: no_adj_free_def successively_Cons)

lemma no_adj_free_Nil [simp]: "no_adj_free []"
  by (simp add: no_adj_free_def)

lemma no_adj_unfree: "no_adj_free (xs @ (b, z, f) # ys) \<Longrightarrow> no_adj_free (xs @ (b, z, False) # ys)"
  by (auto simp: no_adj_free_append no_adj_free_Cons)

lemma heap_ptr_end:
  assumes h: "heap_end_is hs he s bs e"
  shows "heap_ptr s + 12 + md_size (km_mem s) (heap_ptr s) = of_nat e"
proof -
  obtain b z f where l: "last (base_block hs # bs) = (b, z, f)" by (metis prod_cases3)
  obtain pre where pre: "base_block hs # bs = pre @ [(b, z, f)]" by (metis l append_butlast_last_id list.distinct(1))
  have "chain (km_mem s) (unat hs) (pre @ [(b, z, f)]) e" using h pre by (simp add: heap_end_is_def)
  then have "header (km_mem s) b z f" "e = b + 12 + z" unfolding chain_append by auto
  then show ?thesis using h l by (simp add: header_def heap_end_is_def)
qed

lemma expand_heap_ok:
  assumes h: "heap_end_is hs he s bs e" and sz: "e + 12 + unat sz < 4294967296"
  shows "expand_heap he sz s = (if unat he < e + 12 + unat sz then (0, s)
      else (of_nat e, s\<lparr>km_mem := put_header (km_mem s) (of_nat e) sz 0, heap_ptr := of_nat e\<rparr>))"
    and "e + 12 + unat sz \<le> unat he \<Longrightarrow>
      heap_end_is hs he (s\<lparr>km_mem := put_header (km_mem s) (of_nat e) sz 0, heap_ptr := of_nat e\<rparr>)
        (bs @ [(e, unat sz, False)]) (e + 12 + unat sz)"
proof -
  have H: "unat he \<le> 4294967280" "e \<le> unat he" "virgin (km_mem s) e he"
    "chain (km_mem s) (unat hs) (base_block hs # bs) e" "hs \<noteq> 0" "heap_base s = hs"
    "heap_ptr s = of_nat (fst (last (base_block hs # bs)))"
    using h by (auto simp: heap_end_is_def)
  note nb = heap_ptr_end [OF h]
  have "unat (of_nat e + 12 + sz :: u32) = e + 12 + unat sz"
  proof -
    have "(of_nat e + 12 + sz :: u32) = of_nat (e + 12 + unat sz)" by simp
    then show ?thesis using unat_of_nat32 [OF sz] by (simp only:)
  qed
  then show "expand_heap he sz s = (if unat he < e + 12 + unat sz then (0, s)
      else (of_nat e, s\<lparr>km_mem := put_header (km_mem s) (of_nat e) sz 0, heap_ptr := of_nat e\<rparr>))"
    unfolding expand_heap_def nb Let_def by (simp add: word_less_nat_alt)
  assume room: "e + 12 + unat sz \<le> unat he"
  let ?m = "put_header (km_mem s) (of_nat e) sz 0"
  have other: "?m (of_nat y) = km_mem s (of_nat y)" if "y < 4294967296" "y < e \<or> e + 12 \<le> y" for y
    using that sz by (intro put_header_other) auto
  have "chain ?m (unat hs) (base_block hs # bs) e"
    using H(1,2) by (intro chain_cong [OF _ H(4)] other) auto
  moreover have "header ?m e (unat sz) False"
    using header_put_header [of e "km_mem s" "unat sz" 0] sz by simp
  ultimately have "chain ?m (unat hs) ((base_block hs # bs) @ [(e, unat sz, False)]) (e + 12 + unat sz)"
    unfolding chain_append by auto
  moreover have "virgin ?m (e + 12 + unat sz) he"
    using H(1) by (intro virgin_frame [OF H(3)] other) auto
  ultimately show "heap_end_is hs he (s\<lparr>km_mem := ?m, heap_ptr := of_nat e\<rparr>)
        (bs @ [(e, unat sz, False)]) (e + 12 + unat sz)"
    using H room by (simp add: heap_end_is_def)
qed

text \<open>The abstract allocator on the list of blocks: first fit, else a new block at the end.\<close>

definition fits :: "nat \<Rightarrow> block \<Rightarrow> bool" where
  "fits n x \<longleftrightarrow> snd (snd x) \<and> n \<le> fst (snd x)"

text \<open>Memory is unchanged on all bytes that belong to clients and outside the heap.\<close>

definition same_payload :: "u32 \<Rightarrow> u32 \<Rightarrow> block list \<Rightarrow> kheap \<Rightarrow> kheap \<Rightarrow> bool" where
  "same_payload hs he bs s s' \<longleftrightarrow> (\<forall>y. client_byte hs he bs y \<longrightarrow> km_mem s' (of_nat y) = km_mem s (of_nat y))"

lemma kmalloc_spec:
  assumes ok: "kheap_ok hs he s bs" and sz: "sz \<noteq> 0" "unat he + 12 + unat sz < 4294967296"
  obtains (reuse) xs b z ys s' where "bs = xs @ (b, z, True) # ys" "unat sz \<le> z"
      "kmalloc hs he sz s = Some (of_nat (b + 12), s')" "kheap_ok hs he s' (xs @ (b, z, False) # ys)"
      "same_payload hs he bs s s'"
  | (fresh) e s' where "\<forall>x \<in> set bs. \<not> fits (unat sz) x"
      "kmalloc hs he sz s = Some (of_nat (e + 12), s')" "kheap_ok hs he s' (bs @ [(e, unat sz, False)])"
      "same_payload hs he bs s s'" "0 < e" "e + 12 + unat sz \<le> unat he"
  | (full) e where "\<forall>x \<in> set bs. \<not> fits (unat sz) x" "heap_end_is hs he s bs e"
      "unat he < e + 12 + unat sz" "kmalloc hs he sz s = Some (0, s)"
proof -
  obtain e where h: "heap_end_is hs he s bs e" using ok by (auto simp: kheap_ok_def)
  have H: "unat he \<le> 4294967280" "e \<le> unat he" "virgin (km_mem s) e he"
    "chain (km_mem s) (unat hs) (base_block hs # bs) e" "hs \<noteq> 0" "heap_base s = hs"
    using h by (auto simp: heap_end_is_def)
  let ?P = "\<lambda>(b, z, fr). fr \<and> unat sz \<le> z"
  have init: "kmalloc_init hs s = s" using H by (simp add: kmalloc_init_def)
  have ff: "find_free_block he sz s = Some (case find ?P bs of None \<Rightarrow> 0 | Some x \<Rightarrow> of_nat (fst x))"
    using find_loop_spec [OF H(4,2,3), of sz] H(6) by (simp add: find_free_block_def)
  show thesis
  proof (cases "find ?P bs")
    case (Some x)
    obtain b z f where x: "x = (b, z, f)" by (cases x)
    have "?P x" "x \<in> set bs" using Some nth_mem [of _ bs] by (auto simp: find_Some_iff simp del: nth_mem)
    then obtain xs ys where bs: "bs = xs @ (b, z, True) # ys" "unat sz \<le> z"
      using x split_list by fastforce
    have mem: "(b, z, True) \<in> set (base_block hs # bs)" using bs by simp
    have b: "unat hs \<le> b" "b + 12 + z \<le> e" using chain_member [OF H(4) mem] by auto
    have "b \<noteq> 0" using b(1) H(5) by (metis le_zero_eq unat_eq_zero)
    then have b0: "(of_nat b :: u32) \<noteq> 0" using b H of_nat32_eq_iff [of b 0] by simp
    let ?s' = "s\<lparr>km_mem := store32 (km_mem s) (of_nat b + 8) 0\<rparr>"
    have "heap_end_is hs he ?s' (xs @ (b, z, False) # ys) e"
      using set_free_ok [OF h [unfolded bs(1)], of 0] by simp
    moreover have "same_payload hs he bs s ?s'"
      unfolding same_payload_def
    proof (intro allI impI)
      fix y assume y: "client_byte hs he bs y"
      from client_byte_not_header [OF H(4,2) y mem] y b H(1,2)
      have "store32 (km_mem s) (of_nat (b + 8)) 0 (of_nat y) = km_mem s (of_nat y)"
        by (intro store32_other) (auto simp: client_byte_def)
      then show "km_mem ?s' (of_nat y) = km_mem s (of_nat y)" by simp
    qed
    moreover have "kmalloc hs he sz s = Some (of_nat (b + 12), ?s')"
      using sz(1) init ff Some x b0 by (simp add: kmalloc_def Let_def)
    ultimately show thesis
      using ok bs by (intro reuse [of xs b z ys ?s']) (auto simp: kheap_ok_def intro: no_adj_unfree)
  next
    case None
    then have nf: "\<forall>x \<in> set bs. \<not> fits (unat sz) x" by (auto simp: find_None_iff fits_def)
    note X = expand_heap_ok [OF h, of sz]
    have e12: "e + 12 + unat sz < 4294967296" using sz(2) H(2) by simp
    show thesis
    proof (cases "unat he < e + 12 + unat sz")
      case True
      then show thesis
        using X(1) [OF e12] sz(1) init ff None nf h by (intro full) (simp_all add: kmalloc_def Let_def)
    next
      case False
      let ?s' = "s\<lparr>km_mem := put_header (km_mem s) (of_nat e) sz 0, heap_ptr := of_nat e\<rparr>"
      have e0: "0 < e" using chain_le [OF H(4)] H(5) by (metis gr0I le_zero_eq unat_eq_zero)
      then have "(of_nat e :: u32) \<noteq> 0" using H of_nat32_eq_iff [of e 0] by simp
      then have k: "kmalloc hs he sz s = Some (of_nat (e + 12), ?s')"
        using X(1) [OF e12] False sz(1) init ff None by (simp add: kmalloc_def Let_def)
      have "same_payload hs he bs s ?s'"
        unfolding same_payload_def
      proof (intro allI impI)
        fix y assume y: "client_byte hs he bs y"
        have "y < e \<or> e + 12 \<le> y"
        proof (cases "payload bs y")
          case True
          then have "payload (base_block hs # bs) y" by (auto simp: payload_def)
          from payload_less [OF H(4) this] show ?thesis by simp
        next
          case False
          with \<open>client_byte hs he bs y\<close> chain_le [OF H(4)] \<open>\<not> unat he < e + 12 + unat sz\<close> show ?thesis by (auto simp: client_byte_def)
        qed
        then show "km_mem ?s' (of_nat y) = km_mem s (of_nat y)"
          using y e12 by (simp add: put_header_other client_byte_def)
      qed
      moreover have "kheap_ok hs he ?s' (bs @ [(e, unat sz, False)])"
        using X(2) [OF e12] False ok by (auto simp: kheap_ok_def no_adj_free_append no_adj_free_Cons)
      ultimately show thesis using k nf e0 False by (intro fresh) auto
    qed
  qed
qed

section \<open>Freeing\<close>

fun merge_next :: "block \<Rightarrow> block list \<Rightarrow> block list" where
  "merge_next (b, z, f) ((n, zn, True) # ys) = (b, z + 12 + zn, f) # ys"
| "merge_next x ys = x # ys"

definition merge_prev :: "block list \<Rightarrow> block list \<Rightarrow> block list" where
  "merge_prev xs ys =
     (if xs \<noteq> [] \<and> snd (snd (last xs)) \<and> ys \<noteq> []
      then butlast xs @ (fst (last xs), fst (snd (last xs)) + 12 + fst (snd (hd ys)), True) # tl ys
      else xs @ ys)"

text \<open>The abstract free: the block at the position becomes free and is merged with a free
  neighbour on either side.\<close>

abbreviation free_at :: "block list \<Rightarrow> nat \<Rightarrow> nat \<Rightarrow> block list \<Rightarrow> block list" where
  "free_at xs b z ys \<equiv> merge_prev xs (merge_next (b, z, True) ys)"

lemma merge_next_hd: "merge_next (b, z, f) ys = (b, fst (snd (hd (merge_next (b, z, f) ys))), f) # tl (merge_next (b, z, f) ys)"
  by (cases "((b, z, f), ys)" rule: merge_next.cases) auto

lemma coalesce_next_ok:
  assumes h: "heap_end_is hs he s (xs @ (b, z, True) # ys) e"
  shows "heap_end_is hs he (coalesce_next he (of_nat b) s) (xs @ merge_next (b, z, True) ys) e"
    and "\<And>y. y < 4294967296 \<Longrightarrow> y < b \<or> b + 12 \<le> y \<Longrightarrow>
      km_mem (coalesce_next he (of_nat b) s) (of_nat y) = km_mem s (of_nat y)"
proof -
  obtain a where a: "chain (km_mem s) (unat hs) (base_block hs # xs) a"
    "chain (km_mem s) a ((b, z, True) # ys) e" "a \<le> e" "e \<le> unat he" "unat he \<le> 4294967280"
    "unat hs + 12 \<le> a"
    by (rule heap_split [OF h])
  have ab: "b = a" "header (km_mem s) b z True" "chain (km_mem s) (b + 12 + z) ys e" using a by auto
  have le: "b + 12 + z \<le> e" using chain_le [OF ab(3)] .
  have V: "virgin (km_mem s) e he" and P: "heap_ptr s = of_nat (fst (last ((b, z, True) # ys)))"
    using h by (auto simp: heap_end_is_def)
  let ?n = "of_nat (b + 12 + z) :: u32"
  have un: "unat ?n = b + 12 + z" using le a by (intro unat_of_nat32) simp
  have nx: "next_block he (km_mem s) (of_nat b) = (if he \<le> ?n then 0 else ?n)"
    using ab(2) by (simp add: next_block_def header_def)
  have n0: "?n \<noteq> 0" using un by auto
  have "heap_end_is hs he (coalesce_next he (of_nat b) s) (xs @ merge_next (b, z, True) ys) e \<and>
    (\<forall>y < 4294967296. y < b \<or> b + 12 \<le> y \<longrightarrow>
      km_mem (coalesce_next he (of_nat b) s) (of_nat y) = km_mem s (of_nat y))"
  proof (cases ys)
    case Nil
    then have "b + 12 + z = e" using ab(3) by simp
    then have "next_block he (km_mem s) (of_nat b) = 0 \<or> md_magic (km_mem s) (next_block he (km_mem s) (of_nat b)) \<noteq> KMALLOC_MAGIC"
      using V un by (auto simp: nx virgin_def word_le_nat_alt)
    then have "coalesce_next he (of_nat b) s = s" by (auto simp: coalesce_next_def Let_def)
    then show ?thesis using h Nil by simp
  next
    case (Cons x ys')
    obtain n zn g where x: "x = (n, zn, g)" by (cases x)
    have n: "n = b + 12 + z" "header (km_mem s) n zn g" "n + 12 + zn \<le> e"
      using ab(3) Cons x by (auto dest: chain_le)
    have "\<not> he \<le> ?n" using un n a(4) by (simp add: word_le_nat_alt del: of_nat_add)
    then have nn: "next_block he (km_mem s) (of_nat b) = of_nat n" using n(1) by (simp add: nx)
    have n0': "(of_nat n :: u32) \<noteq> 0" using n0 n(1) by simp
    show ?thesis
    proof (cases g)
      case True
      have "(of_nat n = heap_ptr s) = (ys' = [])"
      proof (cases "ys' = []")
        case False
        obtain l zl fl where l: "last ys' = (l, zl, fl)" by (metis prod_cases3)
        have c: "chain (km_mem s) (n + 12 + zn) ys' e" using ab(3) Cons x n(1) by simp
        have "(l, zl, fl) \<in> set ys'" using l False last_in_set by metis
        from chain_member(1,2) [OF c this] have "n < l" "l < e" by auto
        then have "(of_nat n :: u32) \<noteq> of_nat l" using a by (subst of_nat32_eq_iff) auto
        then show ?thesis using P l Cons False by simp
      qed (use P Cons x in simp)
      then have c: "coalesce_next he (of_nat b) s =
          s\<lparr>km_mem := store32 (km_mem s) (of_nat b) (of_nat (z + 12 + zn)),
            heap_ptr := (if ys' = [] then of_nat b else heap_ptr s)\<rparr>"
        using nn n0' n ab(2) True by (simp add: coalesce_next_def Let_def header_def add.assoc)
      have "heap_end_is hs he (coalesce_next he (of_nat b) s) (xs @ (b, z + 12 + zn, True) # ys') e"
        unfolding c by (rule set_size_ok [OF h [unfolded Cons x]]) simp
      then show ?thesis
        using Cons x True store32_other [of b _ "km_mem s" "of_nat (z + 12 + zn)"] le a unfolding c by auto
    next
      case False
      then have "coalesce_next he (of_nat b) s = s"
        using nn n by (simp add: coalesce_next_def Let_def header_def)
      then show ?thesis using h Cons x False by simp
    qed
  qed
  then show "heap_end_is hs he (coalesce_next he (of_nat b) s) (xs @ merge_next (b, z, True) ys) e"
    and "\<And>y. y < 4294967296 \<Longrightarrow> y < b \<or> b + 12 \<le> y \<Longrightarrow>
      km_mem (coalesce_next he (of_nat b) s) (of_nat y) = km_mem s (of_nat y)" by auto
qed

lemma coalesce_prev_ok:
  assumes h: "heap_end_is hs he s (xs @ (b, z, True) # ys) e"
  shows "\<exists>s'. coalesce_prev he (of_nat b) s = Some s' \<and>
    heap_end_is hs he s' (merge_prev xs ((b, z, True) # ys)) e \<and>
    (\<forall>y < 4294967296. (\<forall>(p, zp, g) \<in> set xs. y < p \<or> p + 12 \<le> y) \<longrightarrow>
      km_mem s' (of_nat y) = km_mem s (of_nat y))"
proof -
  obtain a where a: "chain (km_mem s) (unat hs) (base_block hs # xs) a"
    "chain (km_mem s) a ((b, z, True) # ys) e" "a \<le> e" "e \<le> unat he" "unat he \<le> 4294967280"
    by (rule heap_split [OF h])
  have ab: "b = a" "header (km_mem s) b z True" using a by auto
  have H: "hs \<noteq> 0" "heap_base s = hs" "chain (km_mem s) (unat hs) ((base_block hs # xs) @ (b, z, True) # ys) e"
    and P: "heap_ptr s = of_nat (fst (last ((b, z, True) # ys)))"
    using h by (auto simp: heap_end_is_def)
  obtain p zp g where l: "last (base_block hs # xs) = (p, zp, g)" by (metis prod_cases3)
  have pm: "(p, zp, g) \<in> set (base_block hs # xs)" using l by (metis last_in_set list.distinct(1))
  note M = chain_member [OF a(1) pm]
  have pb: "prev_block he (of_nat b) s = Some (of_nat p)"
    using prev_loop_spec [OF H(3) a(4), of 0] H(2) l by (simp add: prev_block_def split: if_splits)
  have "0 < unat hs" using H(1) by (simp add: unat_gt_0)
  then have "(of_nat p :: u32) \<noteq> of_nat 0"
    using M a(3-5) ab by (subst of_nat32_eq_iff) auto
  then have p0: "(of_nat p :: u32) \<noteq> 0" by simp
  show ?thesis
  proof (cases "xs \<noteq> [] \<and> g")
    case False
    then have "\<not> g" using l by (cases "xs = []") auto
    then have "coalesce_prev he (of_nat b) s = Some s"
      using pb M(3) by (simp add: coalesce_prev_def Let_def header_def)
    moreover have "merge_prev xs ((b, z, True) # ys) = xs @ (b, z, True) # ys"
      using l \<open>\<not> g\<close> by (auto simp: merge_prev_def)
    ultimately show ?thesis using h by simp
  next
    case True
    define xs' where "xs' = butlast xs"
    have xs: "xs = xs' @ [(p, zp, True)]" using True l append_butlast_last_id [of xs] by (simp add: xs'_def)
    have "(of_nat b = heap_ptr s) = (ys = [])"
    proof (cases "ys = []")
      case False
      obtain q zq fq where q: "last ys = (q, zq, fq)" by (metis prod_cases3)
      have "(q, zq, fq) \<in> set ys" using q False last_in_set by metis
      moreover have "chain (km_mem s) (b + 12 + z) ys e" using a ab by simp
      ultimately have "b < q" "q < e" using chain_member(1,2) by fastforce+
      then have "(of_nat b :: u32) \<noteq> of_nat q" using a by (subst of_nat32_eq_iff) auto
      then show ?thesis using P q False by simp
    qed (use P in simp)
    then have c: "coalesce_prev he (of_nat b) s = Some (s\<lparr>km_mem := store32 (km_mem s) (of_nat p) (of_nat (zp + 12 + z)),
        heap_ptr := (if ys = [] then of_nat p else heap_ptr s)\<rparr>)" (is "_ = Some ?s'")
      using pb M(3) p0 True ab(2) by (simp add: coalesce_prev_def Let_def header_def add.assoc)
    have "heap_end_is hs he ?s' (xs' @ (p, zp + 12 + z, True) # ys) e"
      by (rule set_size_ok [of _ _ _ _ _ _ _ b z True]) (use h xs in simp_all)
    moreover have "merge_prev xs ((b, z, True) # ys) = xs' @ (p, zp + 12 + z, True) # ys"
      by (simp add: merge_prev_def xs)
    moreover have "km_mem ?s' (of_nat y) = km_mem s (of_nat y)" if "y < 4294967296" "y < p \<or> p + 12 \<le> y" for y
      using that M a ab store32_other [of p y "km_mem s" "of_nat (zp + 12 + z)"] by auto
    ultimately show ?thesis using c xs by auto
  qed
qed

lemma no_adj_merge:
  assumes "no_adj_free (xs @ (b, z, f) # ys)"
  shows "no_adj_free (free_at xs b z ys)"
proof -
  have x: "no_adj_free xs" and y: "no_adj_free ys"
    using assms by (auto simp: no_adj_free_append no_adj_free_Cons)
  have n: "no_adj_free (merge_next (b, z, True) ys)" "merge_next (b, z, True) ys \<noteq> []"
    using y by (cases "((b, z, True), ys)" rule: merge_next.cases; auto simp: no_adj_free_Cons)+
  obtain w rest where r: "merge_next (b, z, True) ys = (b, w, True) # rest"
    using merge_next_hd [of b z True ys] by metis
  show ?thesis
  proof (cases "xs \<noteq> [] \<and> snd (snd (last xs))")
    case True
    then obtain xs' p zp where xs: "xs = xs' @ [(p, zp, True)]"
      by (metis append_butlast_last_id prod.collapse)
    show ?thesis
      using n(1) x r by (auto simp: merge_prev_def xs no_adj_free_append no_adj_free_Cons)
  next
    case False
    then show ?thesis
      using n x by (auto simp: merge_prev_def no_adj_free_append)
  qed
qed

lemma kfree_spec:
  assumes ok: "kheap_ok hs he s (xs @ (b, z, False) # ys)"
  shows "\<exists>s'. kfree he (of_nat (b + 12)) s = Some s' \<and> kheap_ok hs he s' (free_at xs b z ys) \<and>
    same_payload hs he (xs @ (b, z, False) # ys) s s'"
proof -
  obtain e where h: "heap_end_is hs he s (xs @ (b, z, False) # ys) e" using ok by (auto simp: kheap_ok_def)
  let ?bs = "base_block hs # xs @ (b, z, False) # ys"
  have H: "chain (km_mem s) (unat hs) ?bs e" "e \<le> unat he" "unat he \<le> 4294967280"
    using h by (auto simp: heap_end_is_def)
  have bm: "(b, z, False) \<in> set ?bs" by simp
  note B = chain_member [OF H(1) bm]
  have p0: "(of_nat (b + 12) :: u32) \<noteq> of_nat 0" using B(2) H by (subst of_nat32_eq_iff) auto
  let ?s1 = "s\<lparr>km_mem := store32 (km_mem s) (of_nat b + 8) 1\<rparr>"
  let ?s2 = "coalesce_next he (of_nat b) ?s1"
  have h1: "heap_end_is hs he ?s1 (xs @ (b, z, True) # ys) e" using set_free_ok [OF h, of 1] by simp
  note c2 = coalesce_next_ok [OF h1]
  obtain w rest where r: "merge_next (b, z, True) ys = (b, w, True) # rest"
    using merge_next_hd [of b z True ys] by metis
  obtain s' where s': "coalesce_prev he (of_nat b) ?s2 = Some s'"
    "heap_end_is hs he s' (free_at xs b z ys) e"
    "\<forall>y < 4294967296. (\<forall>(p, zp, g) \<in> set xs. y < p \<or> p + 12 \<le> y) \<longrightarrow>
      km_mem s' (of_nat y) = km_mem ?s2 (of_nat y)"
    using coalesce_prev_ok [OF c2(1) [unfolded r]] r by auto
  have k: "kfree he (of_nat (b + 12)) s = Some s'"
    using p0 B(3) s'(1) by (simp add: kfree_def Let_def header_def coalesce_def)
  have "same_payload hs he (xs @ (b, z, False) # ys) s s'"
    unfolding same_payload_def
  proof (intro allI impI)
    fix y assume y: "client_byte hs he (xs @ (b, z, False) # ys) y"
    then have yl: "y < 4294967296" by (simp add: client_byte_def)
    note nh = client_byte_not_header [OF H(1,2) y]
    have "\<forall>(p, zp, g) \<in> set xs. y < p \<or> p + 12 \<le> y" using nh by auto
    then have "km_mem s' (of_nat y) = km_mem ?s2 (of_nat y)" using s'(3) yl by blast
    also have "\<dots> = km_mem ?s1 (of_nat y)" using nh [OF bm] by (intro c2(2) yl)
    also have "\<dots> = km_mem s (of_nat y)"
      using store32_other [of "b + 8" y "km_mem s" 1] nh [OF bm] yl B(2) H by auto
    finally show "km_mem s' (of_nat y) = km_mem s (of_nat y)" .
  qed
  moreover have "no_adj_free (free_at xs b z ys)"
    using ok by (intro no_adj_merge) (auto simp: kheap_ok_def)
  ultimately show ?thesis using k s'(2) by (auto simp: kheap_ok_def)
qed

section \<open>The contract of an allocator\<close>

text \<open>
  What a client of \<open>malloc\<close> and \<open>free\<close> may rely on, over the set of live regions (address and
  length): regions lie in the arena and never overlap, allocation and release leave the bytes of
  the other live regions alone, and the client may write its own bytes. The client below holds
  pointers, writes bytes through them and frees them in any order; each entry it holds carries
  the bytes it has written so far.
\<close>

type_synonym held = "(nat \<times> u8 option list) list"

datatype heap_op = Alloc u32 | Free nat | Put nat nat u8

fun client_step :: "(u32 \<Rightarrow> 's \<Rightarrow> (u32 \<times> 's) option) \<Rightarrow> (u32 \<Rightarrow> 's \<Rightarrow> 's option) \<Rightarrow>
    (nat \<Rightarrow> u8 \<Rightarrow> 's \<Rightarrow> 's) \<Rightarrow> heap_op \<Rightarrow> 's \<times> held \<Rightarrow> ('s \<times> held) option" where
  "client_step alloc free put (Alloc sz) (s, h) =
     do {
       (p, s') \<leftarrow> alloc sz s;
       Some (s', if p = 0 then h else (unat p, replicate (unat sz) None) # h)
     }"
| "client_step alloc free put (Free i) (s, h) =
     (if i < length h
      then map_option (\<lambda>s'. (s', take i h @ drop (Suc i) h)) (free (of_nat (fst (h ! i))) s)
      else Some (s, h))"
| "client_step alloc free put (Put i off v) (s, h) =
     Some (if i < length h \<and> off < length (snd (h ! i))
           then (put (fst (h ! i) + off) v s, h[i := (fst (h ! i), (snd (h ! i))[off := Some v])])
           else (s, h))"

definition holds :: "mem \<Rightarrow> nat \<times> u8 option list \<Rightarrow> bool" where
  "holds m x \<longleftrightarrow> (\<forall>i < length (snd x). \<forall>v. snd x ! i = Some v \<longrightarrow> m (of_nat (fst x + i)) = v)"

definition client_inv ::
  "('s \<Rightarrow> mem) \<Rightarrow> ('s \<Rightarrow> (nat \<times> nat) set \<Rightarrow> bool) \<Rightarrow> 's \<times> held \<Rightarrow> bool" where
  "client_inv memory rep st \<longleftrightarrow>
     (\<exists>L. rep (fst st) L \<and> distinct (map fst (snd st)) \<and>
        (\<forall>x \<in> set (snd st). holds (memory (fst st)) x \<and>
           (\<exists>n \<ge> length (snd x). (fst x, n) \<in> L)))"

definition same_on :: "(nat \<times> nat) set \<Rightarrow> mem \<Rightarrow> mem \<Rightarrow> bool" where
  "same_on L m m' \<longleftrightarrow> (\<forall>(p, n) \<in> L. \<forall>y. p \<le> y \<and> y < p + n \<longrightarrow> m' (of_nat y) = m (of_nat y))"

definition same_out :: "nat \<Rightarrow> nat \<Rightarrow> mem \<Rightarrow> mem \<Rightarrow> bool" where
  "same_out lo hi m m' \<longleftrightarrow> (\<forall>y < 4294967296. y < lo \<or> hi \<le> y \<longrightarrow> m' (of_nat y) = m (of_nat y))"

lemma same_out_refl [simp]: "same_out lo hi m m"
  by (simp add: same_out_def)

lemma same_out_trans: "same_out lo hi m m' \<Longrightarrow> same_out lo hi m' m'' \<Longrightarrow> same_out lo hi m m''"
  by (simp add: same_out_def)

lemma same_outD: "same_out lo hi m m' \<Longrightarrow> unat a < lo \<or> hi \<le> unat a \<Longrightarrow> m' a = m a"
  using unat_u32_less [of a] by (auto simp: same_out_def dest!: spec [where x = "unat a"])

lemma holds_same_on:
  assumes "same_on L m m'" "(fst x, n) \<in> L" "length (snd x) \<le> n" "holds m x"
  shows "holds m' x"
proof -
  have "\<forall>y. fst x \<le> y \<and> y < fst x + n \<longrightarrow> m' (of_nat y) = m (of_nat y)"
    using assms(1,2) by (auto simp: same_on_def)
  from this [rule_format, of "fst x + i" for i]
  have "m' (of_nat (fst x + i)) = m (of_nat (fst x + i))" if "i < length (snd x)" for i
    using assms(3) that by (simp del: of_nat_add)
  then show ?thesis using assms(4) by (simp add: holds_def)
qed

definition heap_op_ok :: "nat \<Rightarrow> heap_op \<Rightarrow> bool" where
  "heap_op_ok limit x \<longleftrightarrow> (case x of Alloc sz \<Rightarrow> sz \<noteq> 0 \<and> unat sz \<le> limit | _ \<Rightarrow> True)"

locale allocator =
  fixes alloc :: "u32 \<Rightarrow> 's \<Rightarrow> (u32 \<times> 's) option"
    and free :: "u32 \<Rightarrow> 's \<Rightarrow> 's option"
    and put :: "nat \<Rightarrow> u8 \<Rightarrow> 's \<Rightarrow> 's"
    and memory :: "'s \<Rightarrow> mem"
    and rep :: "'s \<Rightarrow> (nat \<times> nat) set \<Rightarrow> bool"
    and lo :: nat and hi :: nat and limit :: nat
  assumes hi: "hi < 4294967296"
    and region_in: "rep s L \<Longrightarrow> (p, n) \<in> L \<Longrightarrow> lo \<le> p \<and> p + n \<le> hi"
    and region_apart: "rep s L \<Longrightarrow> (p, n) \<in> L \<Longrightarrow> (q, k) \<in> L \<Longrightarrow>
          (p, n) = (q, k) \<or> p + n < q \<or> q + k < p"
    and alloc_ok: "rep s L \<Longrightarrow> sz \<noteq> 0 \<Longrightarrow> unat sz \<le> limit \<Longrightarrow>
          \<exists>p s'. alloc sz s = Some (p, s') \<and> same_on L (memory s) (memory s') \<and>
            same_out lo hi (memory s) (memory s') \<and>
            (p = 0 \<and> rep s' L \<or>
             (\<exists>q n. p = of_nat q \<and> unat sz \<le> n \<and> (\<forall>k. (q, k) \<notin> L) \<and> rep s' (insert (q, n) L)))"
    and free_ok: "rep s L \<Longrightarrow> (p, n) \<in> L \<Longrightarrow>
          \<exists>s'. free (of_nat p) s = Some s' \<and> rep s' (L - {(p, n)}) \<and> same_on L (memory s) (memory s') \<and>
            same_out lo hi (memory s) (memory s')"
    and put_ok: "rep s L \<Longrightarrow> (p, n) \<in> L \<Longrightarrow> p \<le> y \<Longrightarrow> y < p + n \<Longrightarrow> rep (put y v s) L"
    and put_mem: "memory (put y v s) = (memory s)(of_nat y := v)"
begin

lemma step_alloc:
  assumes "client_inv memory rep (s, h)" "sz \<noteq> 0" "unat sz \<le> limit"
  shows "\<exists>st'. client_step alloc free put (Alloc sz) (s, h) = Some st' \<and> client_inv memory rep st'"
proof -
  obtain L where L: "rep s L" "distinct (map fst h)"
    "\<And>x. x \<in> set h \<Longrightarrow> holds (memory s) x \<and> (\<exists>n \<ge> length (snd x). (fst x, n) \<in> L)"
    using assms(1) by (auto simp: client_inv_def)
  obtain p s' where a: "alloc sz s = Some (p, s')" "same_on L (memory s) (memory s')"
    "p = 0 \<and> rep s' L \<or> (\<exists>q n. p = of_nat q \<and> unat sz \<le> n \<and> (\<forall>k. (q, k) \<notin> L) \<and> rep s' (insert (q, n) L))"
    using alloc_ok [OF L(1) assms(2,3)] by blast
  have keep: "holds (memory s') x \<and> (\<exists>n \<ge> length (snd x). (fst x, n) \<in> L)" if "x \<in> set h" for x
    using L(3) [OF that] holds_same_on [OF a(2)] by blast
  show ?thesis
  proof (cases "p = 0 \<and> rep s' L")
    case True
    then have "client_inv memory rep (s', h)"
      unfolding client_inv_def using L(2) keep by (intro exI [of _ L]) auto
    with True a(1) show ?thesis by simp
  next
    case False
    then obtain q n where q: "p = of_nat q" "unat sz \<le> n" "\<forall>k. (q, k) \<notin> L" "rep s' (insert (q, n) L)"
      using a(3) by blast
    have "q < 4294967296" using region_in [OF q(4), of q n] hi by auto
    then have uq: "unat p = q" using q(1) unat_of_nat32 by blast
    have "fst ` set h \<subseteq> fst ` L" using L(3) by force
    then have "q \<notin> fst ` set h" using q(3) by force
    moreover have more: "holds (memory s') x \<and> (\<exists>k \<ge> length (snd x). (fst x, k) \<in> insert (q, n) L)"
      if "x \<in> set h" for x using keep [OF that] by blast
    moreover have "holds (memory s') (q, replicate (unat sz) None)" by (simp add: holds_def)
    ultimately have "client_inv memory rep (s', (q, replicate (unat sz) None) # h)"
      unfolding client_inv_def using L(2) q(2,4) by (intro exI [of _ "insert (q, n) L"]) auto
    moreover have "client_inv memory rep (s', h)"
      unfolding client_inv_def using L(2) more q(4) by (intro exI [of _ "insert (q, n) L"]) auto
    ultimately show ?thesis using a(1) uq by simp
  qed
qed

lemma step_free:
  assumes "client_inv memory rep (s, h)"
  shows "\<exists>st'. client_step alloc free put (Free i) (s, h) = Some st' \<and> client_inv memory rep st'"
proof (cases "i < length h")
  case i: True
  obtain L where L: "rep s L" "distinct (map fst h)"
    "\<And>x. x \<in> set h \<Longrightarrow> holds (memory s) x \<and> (\<exists>n \<ge> length (snd x). (fst x, n) \<in> L)"
    using assms(1) by (auto simp: client_inv_def)
  obtain n where n: "(fst (h ! i), n) \<in> L" using L(3) i nth_mem by blast
  obtain s' where f: "free (of_nat (fst (h ! i))) s = Some s'" "rep s' (L - {(fst (h ! i), n)})"
    "same_on L (memory s) (memory s')"
    using free_ok [OF L(1) n] by blast
  let ?h = "take i h @ drop (Suc i) h"
  have hi: "h = take i h @ h ! i # drop (Suc i) h" using i by (rule id_take_nth_drop)
  then have "distinct (map fst (take i h @ h ! i # drop (Suc i) h))" using L(2) by metis
  then have d: "distinct (map fst ?h)" "fst (h ! i) \<notin> fst ` set ?h" by auto
  have sub: "set ?h \<subseteq> set h" by (auto dest: in_set_takeD in_set_dropD)
  have "holds (memory s') x \<and> (\<exists>k \<ge> length (snd x). (fst x, k) \<in> L - {(fst (h ! i), n)})"
    if x: "x \<in> set ?h" for x
  proof -
    have "fst x \<noteq> fst (h ! i)" using d(2) x by (metis image_eqI)
    moreover obtain k where "length (snd x) \<le> k" "(fst x, k) \<in> L" "holds (memory s) x"
      using L(3) [of x] x sub by blast
    ultimately show ?thesis using holds_same_on [OF f(3)] by blast
  qed
  then have "client_inv memory rep (s', ?h)"
    unfolding client_inv_def using d(1) f(2) by (intro exI [of _ "L - {(fst (h ! i), n)}"]) simp
  with i f(1) show ?thesis by simp
qed (use assms in simp)

lemma step_put:
  assumes "client_inv memory rep (s, h)"
  shows "\<exists>st'. client_step alloc free put (Put i off v) (s, h) = Some st' \<and> client_inv memory rep st'"
proof (cases "i < length h \<and> off < length (snd (h ! i))")
  case i: True
  obtain L where L: "rep s L" "distinct (map fst h)"
    "\<And>x. x \<in> set h \<Longrightarrow> holds (memory s) x \<and> (\<exists>n \<ge> length (snd x). (fst x, n) \<in> L)"
    using assms(1) by (auto simp: client_inv_def)
  let ?x = "h ! i" let ?x' = "(fst ?x, (snd ?x)[off := Some v])" let ?s = "put (fst ?x + off) v s"
  have xh: "?x \<in> set h" using i by simp
  obtain n where n: "length (snd ?x) \<le> n" "(fst ?x, n) \<in> L" using L(3) [OF xh] by blast
  have "rep ?s L" using put_ok [OF L(1) n(2)] i n(1) by simp
  moreover have "map fst (h[i := ?x']) = map fst h" using i by (simp add: list_eq_iff_nth_eq nth_list_update)
  moreover have "holds (memory ?s) y \<and> (\<exists>k \<ge> length (snd y). (fst y, k) \<in> L)" if y: "y \<in> set (h[i := ?x'])" for y
  proof -
    obtain j where j: "j < length h" "y = (h[i := ?x']) ! j" using y by (auto simp: in_set_conv_nth)
    have lt: "a + b < 4294967296" if "(a, k) \<in> L" "b < k" for a b k
      using region_in [OF L(1) that(1)] that(2) hi by simp
    show ?thesis
    proof (cases "j = i")
      case True
      then have y': "y = ?x'" using j i by simp
      have "(of_nat (fst ?x + a) = (of_nat (fst ?x + off) :: u32)) = (a = off)" if "a < length (snd ?x)" for a
        using lt [OF n(2), of a] lt [OF n(2), of off] i that n(1) by (subst of_nat32_eq_iff) auto
      then have "holds (memory ?s) y"
        using L(3) [OF xh] i y' unfolding holds_def put_mem by (auto simp: nth_list_update)
      then show ?thesis using n y' by auto
    next
      case False
      then have yh: "y = h ! j" "y \<in> set h" using j by auto
      obtain k where k: "length (snd y) \<le> k" "(fst y, k) \<in> L" using L(3) yh(2) by blast
      have "fst y \<noteq> fst ?x" using L(2) False j(1) i yh(1) by (auto simp: distinct_conv_nth)
      then have ap: "fst y + k < fst ?x \<or> fst ?x + n < fst y"
        using region_apart [OF L(1) k(2) n(2)] by auto
      have "(of_nat (fst y + a) :: u32) \<noteq> of_nat (fst ?x + off)" if "a < length (snd y)" for a
        using lt [OF k(2), of a] lt [OF n(2), of off] i that n(1) k(1) ap by (subst of_nat32_eq_iff) auto
      then have "holds (memory ?s) y"
        using L(3) [OF yh(2)] unfolding holds_def put_mem by (auto simp del: of_nat_add)
      then show ?thesis using k by auto
    qed
  qed
  ultimately have "client_inv memory rep (?s, h[i := ?x'])"
    unfolding client_inv_def using L(2) by (intro exI [of _ L]) simp
  with i show ?thesis by simp
qed (use assms in auto)

lemma step_ok_client:
  assumes "heap_op_ok limit x" "client_inv memory rep st"
  shows "\<exists>st'. client_step alloc free put x st = Some st' \<and> client_inv memory rep st'"
  using assms step_alloc step_free step_put by (cases st; cases x) (auto simp: heap_op_ok_def)

end

sublocale allocator \<subseteq> client: invariant_machine "client_step alloc free put" "heap_op_ok limit" "\<lambda>n. client_inv memory rep"
  by unfold_locales (rule step_ok_client)

section \<open>The kernel heap is an allocator\<close>

definition live :: "block list \<Rightarrow> (nat \<times> nat) set" where
  "live bs = {(b + 12, z) | b z. (b, z, False) \<in> set bs}"

definition put_byte :: "nat \<Rightarrow> u8 \<Rightarrow> kheap \<Rightarrow> kheap" where
  "put_byte y v s = s\<lparr>km_mem := (km_mem s)(of_nat y := v)\<rparr>"

text \<open>The heap before the first call: nothing in it looks like a header.\<close>

definition kheap_fresh :: "u32 \<Rightarrow> u32 \<Rightarrow> kheap \<Rightarrow> bool" where
  "kheap_fresh hs he s \<longleftrightarrow> heap_base s = 0 \<and> hs \<noteq> 0 \<and> unat hs + 12 \<le> unat he \<and>
     unat he \<le> 4294967280 \<and> virgin (km_mem s) (unat hs) he"

definition krep :: "u32 \<Rightarrow> u32 \<Rightarrow> kheap \<Rightarrow> (nat \<times> nat) set \<Rightarrow> bool" where
  "krep hs he s L \<longleftrightarrow> (kheap_fresh hs he s \<and> L = {}) \<or> (\<exists>bs. kheap_ok hs he s bs \<and> L = live bs)"

lemma live_append: "live (xs @ ys) = live xs \<union> live ys"
  by (auto simp: live_def)

lemma live_Cons: "live ((b, z, f) # ys) = (if f then live ys else insert (b + 12, z) (live ys))"
  by (auto simp: live_def)

lemma live_merge_next: "live (merge_next (b, z, True) ys) = live ys"
  by (cases "((b, z, True), ys)" rule: merge_next.cases) (auto simp: live_Cons)

lemma live_merge_prev:
  assumes "ys \<noteq> []" "snd (snd (hd ys))"
  shows "live (merge_prev xs ys) = live xs \<union> live ys"
proof (cases "xs \<noteq> [] \<and> snd (snd (last xs))")
  case True
  then obtain xs' p zp where xs: "xs = xs' @ [(p, zp, True)]"
    by (metis append_butlast_last_id prod.collapse)
  obtain b z ys' where ys: "ys = (b, z, True) # ys'" using assms by (cases ys) auto
  show ?thesis by (simp add: merge_prev_def xs ys live_append live_Cons) (simp add: live_def)
next
  case False
  then show ?thesis by (auto simp: merge_prev_def live_append)
qed

lemma live_free_at: "live (free_at xs b z ys) = live xs \<union> live ys"
  using merge_next_hd [of b z True ys]
  by (subst live_merge_prev) (auto simp: live_merge_next dest: arg_cong [where f = hd], metis list.sel(1) snd_conv)

lemma kheap_okD:
  assumes "kheap_ok hs he s bs"
  obtains e where "chain (km_mem s) (unat hs) (base_block hs # bs) e" "e \<le> unat he"
    "unat he \<le> 4294967280" "hs \<noteq> 0" "heap_base s = hs" "heap_end_is hs he s bs e"
  using assms by (auto simp: kheap_ok_def heap_end_is_def)

lemma kmalloc_init_ok:
  assumes "kheap_fresh hs he s"
  shows "kheap_ok hs he (kmalloc_init hs s) []" "sz \<noteq> 0 \<Longrightarrow> kmalloc hs he sz s = kmalloc hs he sz (kmalloc_init hs s)"
proof -
  have F: "heap_base s = 0" "hs \<noteq> 0" "unat hs + 12 \<le> unat he" "unat he \<le> 4294967280"
    "virgin (km_mem s) (unat hs) he" using assms by (auto simp: kheap_fresh_def)
  let ?m = "put_header (km_mem s) hs 0 0"
  have "header ?m (unat hs) 0 False"
    using header_put_header [of "unat hs" "km_mem s" 0 0] F(3,4) by simp
  moreover have "virgin ?m (unat hs + 12) he"
    using F(3,4) put_header_other [of "unat hs" _ "km_mem s" 0 0] by (intro virgin_frame [OF F(5,4)]) auto
  ultimately show "kheap_ok hs he (kmalloc_init hs s) []"
    using F by (auto simp: kheap_ok_def heap_end_is_def kmalloc_init_def)
  show "sz \<noteq> 0 \<Longrightarrow> kmalloc hs he sz s = kmalloc hs he sz (kmalloc_init hs s)"
    using F(1,2) by (simp add: kmalloc_def kmalloc_init_def Let_def)
qed

lemma kmalloc_init_out:
  assumes "kheap_fresh hs he s"
  shows "same_out (unat hs) (unat he) (km_mem s) (km_mem (kmalloc_init hs s))"
  using assms put_header_other [of "unat hs" _ "km_mem s" 0 0]
  by (auto simp: kheap_fresh_def kmalloc_init_def same_out_def)

lemma same_payload_on:
  assumes ok: "kheap_ok hs he s bs" and "same_payload hs he bs s s'"
  shows "same_on (live bs) (km_mem s) (km_mem s')" "same_out (unat hs) (unat he) (km_mem s) (km_mem s')"
proof -
  obtain e where e: "chain (km_mem s) (unat hs) (base_block hs # bs) e" "e \<le> unat he" by (rule kheap_okD [OF ok])
  have "client_byte hs he bs y" if "payload bs y" for y
  proof -
    have "payload (base_block hs # bs) y" using that by (auto simp: payload_def)
    from payload_less [OF e(1) this] e(2) unat_u32_less [of he] that show ?thesis by (auto simp: client_byte_def)
  qed
  then show "same_on (live bs) (km_mem s) (km_mem s')"
    using assms(2) by (fastforce simp: same_payload_def same_on_def live_def payload_def)
  show "same_out (unat hs) (unat he) (km_mem s) (km_mem s')"
    using assms(2) by (auto simp: same_payload_def same_out_def client_byte_def)
qed

lemma kmalloc_rep_ok:
  assumes ok: "kheap_ok hs he s bs" and sz: "sz \<noteq> 0" "unat he + 12 + unat sz < 4294967296"
  shows "\<exists>p s'. kmalloc hs he sz s = Some (p, s') \<and> same_on (live bs) (km_mem s) (km_mem s') \<and>
    same_out (unat hs) (unat he) (km_mem s) (km_mem s') \<and>
    (p = 0 \<and> krep hs he s' (live bs) \<or> (\<exists>q n. p = of_nat q \<and> unat sz \<le> n \<and> (\<forall>k. (q, k) \<notin> live bs) \<and>
       krep hs he s' (insert (q, n) (live bs))))"
proof (rule kmalloc_spec [OF ok sz], goal_cases)
  case (1 xs b z ys s')
  obtain e where e: "chain (km_mem s) (unat hs) (base_block hs # bs) e" by (rule kheap_okD [OF ok])
  have "(b + 12, k) \<notin> live bs" for k
    using chain_disjoint [OF e, of b z True b k False] 1(1) by (auto simp: live_def)
  moreover have "live (xs @ (b, z, False) # ys) = insert (b + 12, z) (live bs)"
    using 1(1) by (auto simp: live_append live_Cons)
  ultimately show ?case
    using 1 same_payload_on [OF ok] unfolding krep_def by blast
next
  case (2 e s')
  obtain e' where e: "chain (km_mem s') (unat hs) (base_block hs # bs @ [(e, unat sz, False)]) e'"
    by (rule kheap_okD [OF 2(3)])
  have "(e + 12, k) \<notin> live bs" for k
  proof
    assume "(e + 12, k) \<in> live bs"
    then have "(e, k, False) \<in> set bs" by (auto simp: live_def)
    then have "k = unat sz" "(e, k, False) \<in> set bs"
      using chain_disjoint [OF e, of e k False e "unat sz" False] by auto
    then show False using chain_distinct [OF e] by auto
  qed
  moreover have "live (bs @ [(e, unat sz, False)]) = insert (e + 12, unat sz) (live bs)"
    by (auto simp: live_def)
  ultimately show ?case using 2 same_payload_on [OF ok] unfolding krep_def by blast
next
  case (3 e)
  then show ?case using ok by (auto simp: krep_def same_on_def same_out_def)
qed

lemma kmalloc_rep:
  assumes "krep hs he s L" "sz \<noteq> 0" "unat sz \<le> 4294967283 - unat he"
  shows "\<exists>p s'. kmalloc hs he sz s = Some (p, s') \<and> same_on L (km_mem s) (km_mem s') \<and>
    same_out (unat hs) (unat he) (km_mem s) (km_mem s') \<and>
    (p = 0 \<and> krep hs he s' L \<or> (\<exists>q n. p = of_nat q \<and> unat sz \<le> n \<and> (\<forall>k. (q, k) \<notin> L) \<and>
       krep hs he s' (insert (q, n) L)))"
proof -
  have "0 < unat sz" using assms(2) by (simp add: unat_gt_0)
  then have sz: "unat he + 12 + unat sz < 4294967296" using assms(3) by linarith
  show ?thesis
  proof (cases "kheap_fresh hs he s \<and> L = {}")
    case True
    then have fr: "kheap_fresh hs he s" by simp
    have l: "live [] = {}" by (simp add: live_def)
    obtain p s' where p: "kmalloc hs he sz s = Some (p, s')" "same_out (unat hs) (unat he) (km_mem (kmalloc_init hs s)) (km_mem s')"
      "p = 0 \<and> krep hs he s' {} \<or> (\<exists>q n. p = of_nat q \<and> unat sz \<le> n \<and> krep hs he s' (insert (q, n) {}))"
      using kmalloc_rep_ok [OF kmalloc_init_ok(1) [OF fr] assms(2) sz] kmalloc_init_ok(2) [OF fr assms(2)] l by auto
    have "same_out (unat hs) (unat he) (km_mem s) (km_mem s')"
      using p(2) kmalloc_init_out [OF fr] by (auto simp: same_out_def)
    then show ?thesis using p(1,3) True by (intro exI [of _ p] exI [of _ s']) (auto simp: same_on_def)
  next
    case False
    with assms(1) obtain bs where "kheap_ok hs he s bs" "L = live bs" by (auto simp: krep_def)
    then show ?thesis using kmalloc_rep_ok [OF _ assms(2) sz] by blast
  qed
qed

lemma kfree_rep:
  assumes "krep hs he s L" "(p, n) \<in> L"
  shows "\<exists>s'. kfree he (of_nat p) s = Some s' \<and> krep hs he s' (L - {(p, n)}) \<and>
    same_on L (km_mem s) (km_mem s') \<and> same_out (unat hs) (unat he) (km_mem s) (km_mem s')"
proof -
  obtain bs where bs: "kheap_ok hs he s bs" "L = live bs" using assms by (auto simp: krep_def)
  obtain b where b: "p = b + 12" "(b, n, False) \<in> set bs" using assms(2) bs(2) by (auto simp: live_def)
  then obtain xs ys where xy: "bs = xs @ (b, n, False) # ys" by (metis split_list)
  obtain e where e: "chain (km_mem s) (unat hs) (base_block hs # bs) e" by (rule kheap_okD [OF bs(1)])
  have "(b, n, False) \<notin> set xs \<union> set ys" using chain_distinct [OF e] xy by auto
  then have "live bs - {(p, n)} = live (free_at xs b n ys)"
    unfolding live_free_at xy live_append live_Cons using b(1) by (auto simp: live_def)
  moreover obtain s' where "kfree he (of_nat (b + 12)) s = Some s'" "kheap_ok hs he s' (free_at xs b n ys)"
    "same_payload hs he bs s s'"
    using kfree_spec [OF bs(1) [unfolded xy]] xy by blast
  ultimately show ?thesis using bs(2) b(1) same_payload_on [OF bs(1)] unfolding krep_def by blast
qed

text \<open>Clients may change the bytes of the blocks as they like.\<close>

lemma payload_write_ok:
  assumes ok: "kheap_ok hs he s bs"
    and f: "\<And>y. y < 4294967296 \<Longrightarrow> \<not> payload bs y \<Longrightarrow> m' (of_nat y) = km_mem s (of_nat y)"
  shows "kheap_ok hs he (s\<lparr>km_mem := m'\<rparr>) bs"
proof -
  obtain e where h: "heap_end_is hs he s bs e" using ok by (auto simp: kheap_ok_def)
  have c: "chain (km_mem s) (unat hs) (base_block hs # bs) e" "e \<le> unat he" "unat he \<le> 4294967280"
    "virgin (km_mem s) e he" using h by (auto simp: heap_end_is_def)
  have p: "payload (base_block hs # bs) y" if "payload bs y" for y using that by (auto simp: payload_def)
  have "chain m' (unat hs) (base_block hs # bs) e"
  proof (rule chain_cong_headers [OF f c(1)])
    fix b z f x assume b: "(b, z, f) \<in> set (base_block hs # bs)" "b \<le> x" "x < b + 12"
    show "x < 4294967296" using chain_member(2) [OF c(1) b(1)] b(3) c by simp
    show "\<not> payload bs x" using payload_not_header [OF c(1) p b(1)] b(2,3) by fastforce
  qed
  moreover have "virgin m' e he"
    using payload_less [OF c(1) p] by (intro virgin_frame [OF c(4,3) le_refl] f) fastforce+
  ultimately show ?thesis
    using ok h by (auto simp: kheap_ok_def heap_end_is_def)
qed

lemma krep_write_ok:
  assumes r: "krep hs he s L" "(p, n) \<in> L"
    and f: "\<And>y. y < 4294967296 \<Longrightarrow> y < p \<or> p + n \<le> y \<Longrightarrow> m' (of_nat y) = km_mem s (of_nat y)"
  shows "krep hs he (s\<lparr>km_mem := m'\<rparr>) L"
proof -
  obtain bs where bs: "kheap_ok hs he s bs" "L = live bs" using r by (auto simp: krep_def)
  obtain b where b: "p = b + 12" "(b, n, False) \<in> set bs" using r(2) bs(2) by (auto simp: live_def)
  have "kheap_ok hs he (s\<lparr>km_mem := m'\<rparr>) bs"
  proof (rule payload_write_ok [OF bs(1) f])
    show "y < p \<or> p + n \<le> y" if "\<not> payload bs y" for y
    proof -
      have "p \<le> y \<Longrightarrow> y < p + n \<Longrightarrow> payload bs y" using b by (auto simp: payload_def)
      then show ?thesis using that by linarith
    qed
  qed
  then show ?thesis using bs(2) by (auto simp: krep_def)
qed

lemma krep_region:
  assumes "krep hs he s L" "(p, n) \<in> L"
  shows "unat hs \<le> p \<and> p + n \<le> unat he"
    and "(q, k) \<in> L \<Longrightarrow> (p, n) = (q, k) \<or> p + n < q \<or> q + k < p"
    and "p \<le> y \<Longrightarrow> y < p + n \<Longrightarrow> krep hs he (put_byte y v s) L"
proof -
  obtain bs where bs: "kheap_ok hs he s bs" "L = live bs" using assms by (auto simp: krep_def)
  obtain e where e: "chain (km_mem s) (unat hs) (base_block hs # bs) e" "e \<le> unat he" by (rule kheap_okD [OF bs(1)])
  obtain b where b: "p = b + 12" "(b, n, False) \<in> set bs" using assms(2) bs(2) by (auto simp: live_def)
  show "unat hs \<le> p \<and> p + n \<le> unat he" using chain_member [OF e(1), of b n False] b e(2) by auto
  show "(p, n) = (q, k) \<or> p + n < q \<or> q + k < p" if "(q, k) \<in> L"
    using that bs(2) b chain_disjoint [OF e(1), of b n False "q - 12" k False] by (auto simp: live_def)
  show "krep hs he (put_byte y v s) L" if "p \<le> y" "y < p + n"
  proof -
    have "p + n < 4294967296"
      using chain_member(2) [OF e(1), of b n False] b e(2) unat_u32_less [of he] by simp
    then have "((km_mem s)(of_nat y := v)) (of_nat x) = km_mem s (of_nat x)"
      if "x < 4294967296" "x < p \<or> p + n \<le> x" for x
      using that \<open>p \<le> y\<close> \<open>y < p + n\<close> of_nat32_eq_iff [of x y] by auto
    then show ?thesis unfolding put_byte_def by (intro krep_write_ok [OF assms]) auto
  qed
qed

text \<open>Nor does the allocator read anything but the heap (and the few bytes after it that a header
  at its end would take).\<close>

lemma virgin_cong:
  assumes v: "virgin m e he" "unat he \<le> 4294967280"
    and f: "\<And>y. y < 4294967296 \<Longrightarrow> e \<le> y \<Longrightarrow> y < unat he + 8 \<Longrightarrow> m' (of_nat y) = m (of_nat y)"
  shows "virgin m' e he"
  unfolding virgin_def
proof (intro allI impI)
  fix a assume a: "e \<le> a \<and> a < unat he"
  then have "load32 m' (of_nat (a + 4)) = load32 m (of_nat (a + 4))"
    using v by (intro load32_cong_range f) auto
  then show "md_magic m' (of_nat a) \<noteq> KMALLOC_MAGIC" using v(1) a by (auto simp: virgin_def)
qed

lemma kheap_fresh_frame:
  assumes r: "kheap_fresh hs he s"
    and f: "\<And>y. y < 4294967296 \<Longrightarrow> unat hs \<le> y \<Longrightarrow> y < unat he + 8 \<Longrightarrow> m' (of_nat y) = km_mem s (of_nat y)"
  shows "kheap_fresh hs he (s\<lparr>km_mem := m'\<rparr>)"
proof -
  have v: "virgin (km_mem s) (unat hs) he" "unat he \<le> 4294967280" using r by (auto simp: kheap_fresh_def)
  have "virgin m' (unat hs) he" by (rule virgin_cong [OF v]) (rule f)
  then show ?thesis using r by (simp add: kheap_fresh_def)
qed

lemma krep_frame:
  assumes r: "krep hs he s L"
    and f: "\<And>y. y < 4294967296 \<Longrightarrow> unat hs \<le> y \<Longrightarrow> y < unat he + 8 \<Longrightarrow> m' (of_nat y) = km_mem s (of_nat y)"
  shows "krep hs he (s\<lparr>km_mem := m'\<rparr>) L"
proof (cases "kheap_fresh hs he s \<and> L = {}")
  case True
  then have "kheap_fresh hs he (s\<lparr>km_mem := m'\<rparr>)" by (intro kheap_fresh_frame f) auto
  with True show ?thesis by (simp add: krep_def)
next
  case False
  then obtain bs where 2: "kheap_ok hs he s bs" "L = live bs" using r by (auto simp: krep_def)
  obtain e where e: "heap_end_is hs he s bs e" "no_adj_free bs" using 2 by (auto simp: kheap_ok_def)
  then have c: "chain (km_mem s) (unat hs) (base_block hs # bs) e" "e \<le> unat he" "unat he \<le> 4294967280"
    "virgin (km_mem s) e he" by (auto simp: heap_end_is_def)
  have le: "unat hs \<le> e" by (rule chain_le [OF c(1)])
  have "chain m' (unat hs) (base_block hs # bs) e" by (rule chain_cong [OF f c(1)]) (use c in auto)
  moreover have "virgin m' e he" by (rule virgin_cong [OF c(4,3)], rule f) (use le in auto)
  ultimately have "heap_end_is hs he (s\<lparr>km_mem := m'\<rparr>) bs e" using e(1) by (auto simp: heap_end_is_def)
  then show ?thesis using 2 e(2) by (auto simp: krep_def kheap_ok_def)
qed

text \<open>On a fresh heap with room, the first two allocations succeed.\<close>

lemma chain_length: "chain m a bs e \<Longrightarrow> e = a + sum_list (map (\<lambda>(b, z, f). 12 + z) bs)"
  by (induction m a bs e rule: chain.induct) auto

lemma kmalloc_at_end:
  assumes ok: "kheap_ok hs he s bs" "list_all (\<lambda>(b, z, f). \<not> f) bs"
    and e: "e = unat hs + 12 + sum_list (map (\<lambda>(b, z, f). 12 + z) bs)"
    and sz: "sz \<noteq> 0" "unat he + 12 + unat sz < 4294967296" "e + 12 + unat sz \<le> unat he"
  shows "\<exists>s'. kmalloc hs he sz s = Some (of_nat (e + 12), s') \<and> (of_nat (e + 12) :: u32) \<noteq> 0 \<and>
    kheap_ok hs he s' (bs @ [(e, unat sz, False)])"
proof (rule kmalloc_spec [OF ok(1) sz(1,2)], goal_cases)
  case (1 xs b z ys s')
  then show ?case using ok(2) by simp
next
  case (2 e' s')
  obtain d where "chain (km_mem s') (unat hs) (base_block hs # bs @ [(e', unat sz, False)]) d" by (rule kheap_okD [OF 2(3)])
  then have "e' = e" using chain_length by (auto simp: chain_append e)
  moreover have "(of_nat (e' + 12) :: u32) \<noteq> 0"
    using 2(6) unat_u32_less [of he] of_nat32_eq_iff [of "e' + 12" 0] by auto
  ultimately show ?case using 2 by auto
next
  case (3 e')
  then have "e' = e" using chain_length [of "km_mem s"] by (auto simp: heap_end_is_def e)
  then show ?case using 3 sz(3) by simp
qed

lemma kmalloc_two_fresh:
  assumes fr: "kheap_fresh hs he s" and sz: "x \<noteq> 0" "y \<noteq> 0" "unat hs + 36 + unat x + unat y \<le> unat he"
    "unat he + 12 + unat x < 4294967296" "unat he + 12 + unat y < 4294967296"
  shows "\<exists>p s1 q s2. kmalloc hs he x s = Some (p, s1) \<and> p \<noteq> 0 \<and> kmalloc hs he y s1 = Some (q, s2) \<and> q \<noteq> 0"
proof -
  note i = kmalloc_init_ok [OF fr]
  obtain s1 where s1: "kmalloc hs he x s = Some (of_nat (unat hs + 12 + 12), s1)"
      "(of_nat (unat hs + 12 + 12) :: u32) \<noteq> 0" "kheap_ok hs he s1 [(unat hs + 12, unat x, False)]"
    using kmalloc_at_end [OF i(1) _ refl sz(1,4)] i(2) [OF sz(1)] sz(3) by auto
  from kmalloc_at_end [OF s1(3) _ refl sz(2,5)] obtain q s2 where
    "kmalloc hs he y s1 = Some (q, s2)" "q \<noteq> 0" using sz(3) by auto
  with s1 show ?thesis by blast
qed

interpretation kh: allocator "kmalloc hs he" "kfree he" put_byte km_mem "krep hs he"
  "unat hs" "unat he" "4294967283 - unat he" for hs he
proof (unfold_locales, goal_cases)
  case 1
  show ?case by (rule unat_u32_less)
next
  case (2 s L p n)
  then show ?case by (rule krep_region(1))
next
  case (3 s L p n q k)
  then show ?case by (rule krep_region(2))
next
  case (4 s L sz)
  then show ?case by (rule kmalloc_rep)
next
  case (5 s L p n)
  then show ?case by (rule kfree_rep)
next
  case (6 s L p n y v)
  then show ?case by (rule krep_region(3))
next
  case (7 y v s)
  show ?case by (simp add: put_byte_def)
qed

section \<open>Properties\<close>


lemma kheap_fresh_example: "kheap_fresh 0x1000 0x2000 \<lparr>km_mem = (\<lambda>a. 0), heap_base = 0, heap_ptr = 0\<rparr>"
  by (simp add: kheap_fresh_def virgin_def load32_def KMALLOC_MAGIC_def)


text \<open>\<open>kmalloc\<close> refuses (NULL, heap unchanged) only when no free block is large enough and
  the block would not fit between the last block and the end of the heap; otherwise it returns a
  block of at least the requested size: a free block it takes out of the chain, or a new one at
  the end. No byte of an existing block and none outside the heap changes.\<close>

theorem kmalloc_first_fit:
  assumes ok: "kheap_ok hs he s bs" and sz: "sz \<noteq> 0" "unat he + 12 + unat sz < 4294967296"
  shows "(\<exists>xs b z ys s'. bs = xs @ (b, z, True) # ys \<and> unat sz \<le> z \<and>
       kmalloc hs he sz s = Some (of_nat (b + 12), s') \<and> kheap_ok hs he s' (xs @ (b, z, False) # ys) \<and>
       same_payload hs he bs s s') \<or>
    (\<exists>e s'. (\<forall>x \<in> set bs. \<not> fits (unat sz) x) \<and> kmalloc hs he sz s = Some (of_nat (e + 12), s') \<and>
       kheap_ok hs he s' (bs @ [(e, unat sz, False)]) \<and> same_payload hs he bs s s' \<and>
       e + 12 + unat sz \<le> unat he) \<or>
    (\<exists>e. (\<forall>x \<in> set bs. \<not> fits (unat sz) x) \<and> heap_end_is hs he s bs e \<and>
       unat he < e + 12 + unat sz \<and> kmalloc hs he sz s = Some (0, s))"
  by (rule kmalloc_spec [OF assms]) blast+

lemma kheap_ok_example:
  "kheap_ok 0x1000 0x2000 (kmalloc_init 0x1000 \<lparr>km_mem = (\<lambda>a. 0), heap_base = 0, heap_ptr = 0\<rparr>) []"
  by (rule kmalloc_init_ok(1) [OF kheap_fresh_example])

theorem kmalloc_first_fit_witness:
  "\<exists>s. kheap_ok 0x1000 0x2000 s [] \<and>
    ((\<exists>e s'. kmalloc 0x1000 0x2000 64 s = Some (of_nat (e + 12), s') \<and>
       kheap_ok 0x1000 0x2000 s' [(e, 64, False)]) \<or>
     (\<exists>e. heap_end_is 0x1000 0x2000 s [] e \<and> kmalloc 0x1000 0x2000 64 s = Some (0, s)))"
  using kmalloc_first_fit [OF kheap_ok_example, of 64] kheap_ok_example by auto

text \<open>C30: \<open>kfree\<close> of a live block ends, marks the block free and merges it with a free block on
  either side, so that the heap again has no two neighbouring free blocks; every other live block
  stays live with its bytes unchanged.\<close>

theorem kfree_coalesces:
  assumes "kheap_ok hs he s (xs @ (b, z, False) # ys)"
  shows "\<exists>s'. kfree he (of_nat (b + 12)) s = Some s' \<and> kheap_ok hs he s' (free_at xs b z ys) \<and>
    live (free_at xs b z ys) = live xs \<union> live ys \<and> no_adj_free (free_at xs b z ys) \<and>
    same_payload hs he (xs @ (b, z, False) # ys) s s'"
  using kfree_spec [OF assms] live_free_at by (auto simp: kheap_ok_def)

theorem kfree_coalesces_witness:
  "\<exists>e s s'. kheap_ok 0x1000 0x2000 s [(e, 64, False)] \<and> kfree 0x2000 (of_nat (e + 12)) s = Some s' \<and>
    kheap_ok 0x1000 0x2000 s' [(e, 64, True)]"
proof -
  obtain e s where s: "kheap_ok 0x1000 0x2000 s ([] @ (e, 64, False) # [])"
    using kmalloc_spec [OF kheap_ok_example, of 64]
  proof (cases, goal_cases)
    case (5 e)
    then have "e = 0x100C" by (simp add: heap_end_is_def)
    with 5 show ?case by simp
  qed auto
  from kfree_coalesces [OF this] s show ?thesis by (auto simp: merge_prev_def)
qed

lemma krep_header:
  assumes "krep hs he s L" "(p, n) \<in> L"
  shows "md_size (km_mem s) (of_nat p - 12) = of_nat n" "md_magic (km_mem s) (of_nat p - 12) = KMALLOC_MAGIC"
    "heap_base s = hs" "hs \<noteq> 0" "12 \<le> p"
proof -
  obtain bs where bs: "kheap_ok hs he s bs" "L = live bs" using assms by (auto simp: krep_def)
  obtain e where e: "chain (km_mem s) (unat hs) (base_block hs # bs) e" "hs \<noteq> 0" "heap_base s = hs"
    by (rule kheap_okD [OF bs(1)])
  obtain b where b: "p = b + 12" "(b, n, False) \<in> set bs" using assms(2) bs(2) by (auto simp: live_def)
  have "header (km_mem s) b n False" using chain_member(3) [OF e(1)] b(2) by simp
  then show "md_size (km_mem s) (of_nat p - 12) = of_nat n" "md_magic (km_mem s) (of_nat p - 12) = KMALLOC_MAGIC"
    using b(1) by (simp_all add: header_def)
  show "heap_base s = hs" "hs \<noteq> 0" "12 \<le> p" using e b(1) by simp_all
qed

lemma copy_block:
  assumes "q + n \<le> 4294967296" "p + n \<le> 4294967296" "q + n \<le> p \<or> p + n \<le> q"
  shows "\<And>y. y < 4294967296 \<Longrightarrow> y < q \<or> q + n \<le> y \<Longrightarrow> memcpy m (of_nat q) (of_nat p) n (of_nat y) = m (of_nat y)"
    and "\<And>i. i < n \<Longrightarrow> memcpy m (of_nat q) (of_nat p) n (of_nat (q + i)) = m (of_nat (p + i))"
proof -
  have "memcpy m (of_nat q) (of_nat p) n = write_bytes m (of_nat q) (read_bytes m (of_nat p) n)"
  proof (cases "n = 0")
    case False
    then have u: "unat (of_nat q :: u32) = q" "unat (of_nat p :: u32) = p"
      using assms by (auto intro!: unat_of_nat32)
    then have "disjoint_regions (of_nat q) n (of_nat p) n"
      using assms disjoint_regions_below(1) [of "of_nat q" n "of_nat p" n]
        disjoint_regions_below(2) [of "of_nat p" n "of_nat q" n] by auto
    then show ?thesis using assms by (intro memcpy_disjoint) auto
  qed (simp add: read_bytes_def)
  note w = this
  have reg: "in_region (of_nat y) (of_nat q) n \<longleftrightarrow> q \<le> y \<and> y < q + n" if "y < 4294967296" "0 < n" for y
    using assms(1) that by (subst in_region_iff) (auto simp: unat_of_nat32)
  show "memcpy m (of_nat q) (of_nat p) n (of_nat y) = m (of_nat y)" if "y < 4294967296" "y < q \<or> q + n \<le> y" for y
    using that reg [of y] by (cases "n = 0") (auto simp: w write_bytes_out read_bytes_def)
  show "memcpy m (of_nat q) (of_nat p) n (of_nat (q + i)) = m (of_nat (p + i))" if "i < n" for i
    using that assms(1) reg [of "q + i"] by (simp add: w write_bytes_in unat_of_nat32)
qed

text \<open>Copying a live block into a larger fresh one and freeing it.\<close>

lemma move_block:
  assumes q: "krep hs he s2 (insert (q, kk) L)" and p: "(p, n) \<in> L" and f: "\<forall>j. (q, j) \<notin> L"
    and nk: "n \<le> kk" and same: "same_on L m0 (km_mem s2)"
  shows "\<exists>s'. kfree he (of_nat p) (s2\<lparr>km_mem := memcpy (km_mem s2) (of_nat q) (of_nat p) n\<rparr>) = Some s' \<and>
    krep hs he s' (insert (q, kk) L - {(p, n)}) \<and> same_on (L - {(p, n)}) m0 (km_mem s') \<and>
    (\<forall>i < n. km_mem s' (of_nat (q + i)) = m0 (of_nat (p + i)))"
proof -
  have qi: "(q, kk) \<in> insert (q, kk) L" and pi: "(p, n) \<in> insert (q, kk) L" using p by auto
  note Q = krep_region [OF q qi] and R = krep_region [OF q pi]
  have hl: "unat he < 4294967296" by (rule unat_u32_less)
  have ql: "q + kk < 4294967296" using Q(1) hl by auto
  have apart: "q + kk < p \<or> p + n < q" using Q(2) [OF pi] f p by auto
  let ?m = "memcpy (km_mem s2) (of_nat q) (of_nat p) n"
  have cb: "\<And>y. y < 4294967296 \<Longrightarrow> y < q \<or> q + n \<le> y \<Longrightarrow> ?m (of_nat y) = km_mem s2 (of_nat y)"
    "\<And>i. i < n \<Longrightarrow> ?m (of_nat (q + i)) = km_mem s2 (of_nat (p + i))"
    using copy_block [where q = q and n = n and p = p and m = "km_mem s2"] ql nk apart R(1) hl by auto
  have r3: "krep hs he (s2\<lparr>km_mem := ?m\<rparr>) (insert (q, kk) L)"
    using nk by (intro krep_write_ok [OF q qi] cb(1)) auto
  obtain s' where s': "kfree he (of_nat p) (s2\<lparr>km_mem := ?m\<rparr>) = Some s'"
    "krep hs he s' (insert (q, kk) L - {(p, n)})" "same_on (insert (q, kk) L) ?m (km_mem s')"
    using kfree_rep [OF r3 pi] by auto
  have cp: "km_mem s' (of_nat (q + i)) = m0 (of_nat (p + i))" if "i < n" for i
  proof -
    have "km_mem s' (of_nat (q + i)) = ?m (of_nat (q + i))"
      using s'(3) that nk unfolding same_on_def by (auto dest!: spec [where x = "q + i"])
    also have "\<dots> = km_mem s2 (of_nat (p + i))" using cb(2) that by blast
    also have "\<dots> = m0 (of_nat (p + i))"
      using same p that unfolding same_on_def by (auto dest!: bspec [OF _ p] spec [where x = "p + i"])
    finally show ?thesis .
  qed
  have "km_mem s' (of_nat y) = m0 (of_nat y)"
    if al: "(a, l) \<in> L" "(a, l) \<noteq> (p, n)" and y: "a \<le> y" "y < a + l" for a l y
  proof -
    have ai: "(a, l) \<in> insert (q, kk) L" using al by simp
    have "q + kk < a \<or> a + l < q" using Q(2) [OF ai] f al(1) by auto
    moreover have "y < 4294967296" using krep_region(1) [OF q ai] y hl by simp
    ultimately have "?m (of_nat y) = km_mem s2 (of_nat y)" using y nk by (intro cb(1)) auto
    moreover have "km_mem s' (of_nat y) = ?m (of_nat y)" using s'(3) ai y by (auto simp: same_on_def)
    moreover have "km_mem s2 (of_nat y) = m0 (of_nat y)" using same al(1) y by (auto simp: same_on_def)
    ultimately show ?thesis by simp
  qed
  then have "same_on (L - {(p, n)}) m0 (km_mem s')" unfolding same_on_def by blast
  with s'(1,2) cp show ?thesis by blast
qed

text \<open>Growing a live block with \<open>krealloc\<close> either fails with NULL, leaving it live with its
  bytes, or returns a block of at least the new size that starts with the bytes of the old one,
  which is freed; all other live blocks keep their bytes. A request that the block already
  satisfies returns the same pointer.\<close>

theorem krealloc_correct:
  assumes r: "krep hs he s L" "(p, n) \<in> L" and sz: "sz \<noteq> 0" "unat sz \<le> 4294967283 - unat he"
  shows "\<exists>r s'. krealloc hs he (of_nat p) sz s = Some (r, s') \<and>
    same_on (L - {(p, n)}) (km_mem s) (km_mem s') \<and>
    (unat sz \<le> n \<and> r = of_nat p \<and> s' = s \<or>
     n < unat sz \<and> r = 0 \<and> krep hs he s' L \<and> same_on L (km_mem s) (km_mem s') \<or>
     n < unat sz \<and> (\<exists>q k. r = of_nat q \<and> unat sz \<le> k \<and> (q, k) \<notin> L \<and>
       krep hs he s' (insert (q, k) L - {(p, n)}) \<and>
       (\<forall>i < n. km_mem s' (of_nat (q + i)) = km_mem s (of_nat (p + i)))))"
proof -
  note H = krep_header [OF r] and R = krep_region [OF r]
  have hl: "unat he < 4294967296" by (rule unat_u32_less)
  have pl: "p < 4294967296" "n < 4294967296" using R(1) hl by auto
  have p0: "(of_nat p :: u32) \<noteq> 0" using H(5) pl of_nat32_eq_iff [of p 0] by auto
  have ini: "kmalloc_init hs s = s" using H(3,4) by (simp add: kmalloc_init_def)
  have sn: "(sz \<le> of_nat n) = (unat sz \<le> n)" using pl by (simp add: word_le_nat_alt unat_of_nat32)
  show ?thesis
  proof (cases "unat sz \<le> n")
    case True
    then have "krealloc hs he (of_nat p) sz s = Some (of_nat p, s)"
      using p0 sz H sn ini by (simp add: krealloc_def Let_def)
    then show ?thesis using True by (auto simp: same_on_def)
  next
    case False
    obtain r2 s2 where k: "kmalloc hs he sz s = Some (r2, s2)" "same_on L (km_mem s) (km_mem s2)"
      "r2 = 0 \<and> krep hs he s2 L \<or> (\<exists>q k. r2 = of_nat q \<and> unat sz \<le> k \<and> (\<forall>j. (q, j) \<notin> L) \<and>
        krep hs he s2 (insert (q, k) L))" using kmalloc_rep [OF r(1) sz] by blast
    have body: "krealloc hs he (of_nat p) sz s = (if r2 = 0 then Some (0, s2) else
        map_option (\<lambda>s3. (r2, s3)) (kfree he (of_nat p)
          (s2\<lparr>km_mem := memcpy (km_mem s2) r2 (of_nat p) (unat (md_size (km_mem s2) (of_nat p - 12)))\<rparr>)))"
      using False p0 sz(1) H sn ini k(1)
      by (simp add: krealloc_def Let_def map_conv_bind_option comp_def)
    show ?thesis
    proof (cases "r2 = 0 \<and> krep hs he s2 L")
      case True
      then have "krealloc hs he (of_nat p) sz s = Some (0, s2)" using body by simp
      then show ?thesis using True k(2) False by (auto simp: same_on_def)
    next
      case f: False
      then obtain q kk where q: "r2 = of_nat q" "unat sz \<le> kk" "\<forall>j. (q, j) \<notin> L" "krep hs he s2 (insert (q, kk) L)"
        using k(3) by blast
      have qi: "(q, kk) \<in> insert (q, kk) L" and pi: "(p, n) \<in> insert (q, kk) L" using r(2) by auto
      have "12 \<le> q" "q < 4294967296" using krep_header(5) [OF q(4) qi] krep_region(1) [OF q(4) qi] hl by auto
      then have q0: "r2 \<noteq> 0" using of_nat32_eq_iff [of q 0] q(1) by auto
      have "n \<le> kk" using False q(2) by simp
      from move_block [OF q(4) r(2) q(3) this k(2)] obtain s' where
        s': "kfree he (of_nat p) (s2\<lparr>km_mem := memcpy (km_mem s2) (of_nat q) (of_nat p) n\<rparr>) = Some s'"
        "krep hs he s' (insert (q, kk) L - {(p, n)})" "same_on (L - {(p, n)}) (km_mem s) (km_mem s')"
        "\<forall>i < n. km_mem s' (of_nat (q + i)) = km_mem s (of_nat (p + i))" by blast
      have "unat (md_size (km_mem s2) (of_nat p - 12)) = n"
        using krep_header(1) [OF q(4) pi] pl by (simp add: unat_of_nat32)
      then have res: "krealloc hs he (of_nat p) sz s = Some (of_nat q, s')"
        using body q0 q(1) s'(1) by simp
      moreover have "n < unat sz" "(q, kk) \<notin> L" using False q(3) by auto
      ultimately show ?thesis
        using s'(2,3,4) q(2) by (intro exI [of _ "of_nat q"] exI [of _ s']) blast
    qed
  qed
qed

theorem krealloc_correct_witness:
  "\<exists>s L p n r s'. krep 0x1000 0x2000 s L \<and> (p, n) \<in> L \<and> n \<ge> 64 \<and>
    krealloc 0x1000 0x2000 (of_nat p) 100 s = Some (r, s') \<and>
    same_on (L - {(p, n)}) (km_mem s) (km_mem s')"
proof -
  obtain e s where s: "kheap_ok 0x1000 0x2000 s [(e, 64, False)]"
    using kmalloc_spec [OF kheap_ok_example, of 64]
  proof (cases, goal_cases)
    case (5 e)
    then have "e = 0x100C" by (simp add: heap_end_is_def)
    with 5 show ?case by simp
  qed auto
  then have r: "krep 0x1000 0x2000 s (live [(e, 64, False)])" unfolding krep_def by blast
  have m: "(e + 12, 64) \<in> live [(e, 64, False)]" by (simp add: live_def)
  from krealloc_correct [OF r m, of 100] r m show ?thesis by fastforce
qed

text \<open>The bound check of \<open>expand_heap\<close> is computed with wrap-around: a request so large that
  the end of the new block passes 2^32 and comes out below the end of the heap is granted, and
  the caller gets a block that is not in the heap.\<close>

theorem kmalloc_huge_granted:
  assumes h: "heap_end_is hs he s bs e" and nf: "\<forall>x \<in> set bs. \<not> fits (unat sz) x" and sz: "sz \<noteq> 0"
    and wrap: "4294967296 \<le> e + 12 + unat sz" "e + 12 + unat sz - 4294967296 \<le> unat he"
  shows "\<exists>s'. kmalloc hs he sz s = Some (of_nat (e + 12), s') \<and> md_size (km_mem s') (of_nat e) = sz"
proof -
  have H: "unat he \<le> 4294967280" "e \<le> unat he" "virgin (km_mem s) e he"
    "chain (km_mem s) (unat hs) (base_block hs # bs) e" "hs \<noteq> 0" "heap_base s = hs"
    "heap_ptr s = of_nat (fst (last (base_block hs # bs)))"
    using h by (auto simp: heap_end_is_def)
  have "find (\<lambda>(b, z, fr). fr \<and> unat sz \<le> z) bs = None"
    using nf by (auto simp: find_None_iff fits_def)
  then have ff: "find_free_block he sz s = Some 0"
    using find_loop_spec [OF H(4,2,3), of sz] H(6) by (simp add: find_free_block_def)
  note nb = heap_ptr_end [OF h]
  have "unat (of_nat e + 12 + sz :: u32) = e + 12 + unat sz - 4294967296"
  proof -
    have "(of_nat e + 12 + sz :: u32) = of_nat (e + 12 + unat sz)" by simp
    also have "\<dots> = of_nat (e + 12 + unat sz - 4294967296)"
      using wrap(1) by (simp add: of_nat_diff)
    finally have w: "(of_nat e + 12 + sz :: u32) = of_nat (e + 12 + unat sz - 4294967296)" .
    show ?thesis unfolding w by (rule unat_of_nat32) (use wrap H in linarith)
  qed
  then have x: "expand_heap he sz s =
      (of_nat e, s\<lparr>km_mem := put_header (km_mem s) (of_nat e) sz 0, heap_ptr := of_nat e\<rparr>)"
    unfolding expand_heap_def nb Let_def using wrap(2) by (simp add: word_less_nat_alt)
  have "0 < e" using chain_le [OF H(4)] H(5) by (metis gr0I le_zero_eq unat_eq_zero)
  then have "(of_nat e :: u32) \<noteq> 0" using H of_nat32_eq_iff [of e 0] by simp
  moreover have "md_size (put_header (km_mem s) (of_nat e) sz 0) (of_nat e) = sz"
    using header_put_header [of e "km_mem s" "unat sz" 0] H by (simp add: header_def)
  ultimately show ?thesis
    using x ff sz H(5,6) by (simp add: kmalloc_def kmalloc_init_def Let_def)
qed

theorem kmalloc_huge_granted_witness:
  "\<exists>s s'. kheap_ok 0x1000 0x2000 s [] \<and> kmalloc 0x1000 0x2000 0xFFFFF000 s = Some (0x1018, s')"
proof -
  obtain e where e: "heap_end_is 0x1000 0x2000
      (kmalloc_init 0x1000 \<lparr>km_mem = (\<lambda>a. 0), heap_base = 0, heap_ptr = 0\<rparr>) [] e"
    using kheap_ok_example by (auto simp: kheap_ok_def)
  then have "e = 0x100C" by (simp add: heap_end_is_def)
  with kmalloc_huge_granted [OF e, where sz = "0xFFFFF000"] kheap_ok_example show ?thesis by auto
qed

end
