(* ===== verification/Tty.thy ===== *)
theory Tty
  imports Prelude
begin

text \<open>
  The text console, \<open>kernel/arch/i386/tty.c\<close> and \<open>kernel/include/kernel/vga.h\<close>: the cursor and
  the 80x25 text buffer at 0xB8000, as a list of its 2000 cells. A write outside the buffer is
  undefined (\<open>None\<close>). A \<open>char\<close> is its byte; it is signed, as gcc has it on i386. The cursor
  coordinates are natural numbers: they never leave the screen, so their width does not matter.
\<close>

section \<open>Code\<close>

datatype vga_color =
  COLOR_BLACK | COLOR_BLUE | COLOR_GREEN | COLOR_CYAN | COLOR_RED | COLOR_MAGENTA | COLOR_BROWN
  | COLOR_LIGHT_GREY | COLOR_DARK_GREY | COLOR_LIGHT_BLUE | COLOR_LIGHT_GREEN | COLOR_LIGHT_CYAN
  | COLOR_LIGHT_RED | COLOR_LIGHT_MAGENTA | COLOR_LIGHT_BROWN | COLOR_WHITE

fun color_code :: "vga_color \<Rightarrow> u8" where
  "color_code COLOR_BLACK = 0" | "color_code COLOR_BLUE = 1" | "color_code COLOR_GREEN = 2"
| "color_code COLOR_CYAN = 3" | "color_code COLOR_RED = 4" | "color_code COLOR_MAGENTA = 5"
| "color_code COLOR_BROWN = 6" | "color_code COLOR_LIGHT_GREY = 7" | "color_code COLOR_DARK_GREY = 8"
| "color_code COLOR_LIGHT_BLUE = 9" | "color_code COLOR_LIGHT_GREEN = 10"
| "color_code COLOR_LIGHT_CYAN = 11" | "color_code COLOR_LIGHT_RED = 12"
| "color_code COLOR_LIGHT_MAGENTA = 13" | "color_code COLOR_LIGHT_BROWN = 14"
| "color_code COLOR_WHITE = 15"

definition make_color :: "vga_color \<Rightarrow> vga_color \<Rightarrow> u8" where
  "make_color fg bg = color_code fg OR push_bit 4 (color_code bg)"

definition make_vgaentry :: "u8 \<Rightarrow> u8 \<Rightarrow> u16" where
  "make_vgaentry c color = scast c OR push_bit 8 (ucast color)"

definition VGA_WIDTH :: nat where "VGA_WIDTH = 80"
definition VGA_HEIGHT :: nat where "VGA_HEIGHT = 25"

record tty =
  terminal_row :: nat
  terminal_column :: nat
  terminal_color :: u8
  terminal_buffer :: "u16 list"

definition put_cell :: "nat \<Rightarrow> u16 \<Rightarrow> tty \<Rightarrow> tty option" where
  "put_cell index v t = map_option (\<lambda>b. t\<lparr>terminal_buffer := b\<rparr>) (arr_set (terminal_buffer t) index v)"

definition terminal_initialize :: "tty \<Rightarrow> tty option" where
  "terminal_initialize t0 =
     (let t = t0\<lparr>terminal_row := 0, terminal_column := 0,
                 terminal_color := make_color COLOR_LIGHT_GREY COLOR_BLACK\<rparr> in
      for_loop 0 VGA_HEIGHT (\<lambda>y. for_loop 0 VGA_WIDTH (\<lambda>x t.
        put_cell (y * VGA_WIDTH + x) (make_vgaentry 32 (terminal_color t)) t)) t)"

definition terminal_setcolor :: "u8 \<Rightarrow> tty \<Rightarrow> tty" where
  "terminal_setcolor color t = t\<lparr>terminal_color := color\<rparr>"

definition terminal_putentryat :: "u8 \<Rightarrow> u8 \<Rightarrow> nat \<Rightarrow> nat \<Rightarrow> tty \<Rightarrow> tty option" where
  "terminal_putentryat c color x y t = put_cell (y * VGA_WIDTH + x) (make_vgaentry c color) t"

definition terminal_scroll :: "tty \<Rightarrow> tty option" where
  "terminal_scroll t =
     do {
       t1 \<leftarrow> for_loop 1 (VGA_HEIGHT - 1) (\<lambda>y. for_loop 0 VGA_WIDTH (\<lambda>x t.
               Option.bind (arr_get (terminal_buffer t) (y * VGA_WIDTH + x))
                 (\<lambda>v. put_cell ((y - 1) * VGA_WIDTH + x) v t))) t;
       for_loop 0 VGA_WIDTH (\<lambda>x t.
         put_cell ((VGA_HEIGHT - 1) * VGA_WIDTH + x) (make_vgaentry 32 (terminal_color t)) t) t1
     }"

definition terminal_newline :: "tty \<Rightarrow> tty option" where
  "terminal_newline t0 =
     (let t = t0\<lparr>terminal_column := 0\<rparr> in
      if terminal_row t + 1 = VGA_HEIGHT then terminal_scroll t
      else Some (t\<lparr>terminal_row := terminal_row t + 1\<rparr>))"

definition terminal_putchar :: "u8 \<Rightarrow> tty \<Rightarrow> tty option" where
  "terminal_putchar c t =
     (if c = 10 then terminal_newline t
      else if c = 13 then Some (t\<lparr>terminal_column := 0\<rparr>)
      else if c = 8 then
        (if terminal_column t > 0 then
           (let t1 = t\<lparr>terminal_column := terminal_column t - 1\<rparr> in
            terminal_putentryat 32 (terminal_color t1) (terminal_column t1) (terminal_row t1) t1)
         else Some t)
      else do {
        t1 \<leftarrow> (if terminal_column t = VGA_WIDTH then terminal_newline t else Some t);
        t2 \<leftarrow> terminal_putentryat c (terminal_color t1) (terminal_column t1) (terminal_row t1) t1;
        Some (t2\<lparr>terminal_column := terminal_column t2 + 1\<rparr>)
      })"

definition terminal_write :: "u8 list \<Rightarrow> tty \<Rightarrow> tty option" where
  "terminal_write data t = run_ops terminal_putchar data t"

definition terminal_writestring :: "string \<Rightarrow> tty \<Rightarrow> tty option" where
  "terminal_writestring s t = terminal_write (map of_char s) t"

section \<open>Invariant\<close>

definition tty_inv :: "tty \<Rightarrow> bool" where
  "tty_inv t \<longleftrightarrow> terminal_row t < VGA_HEIGHT \<and> terminal_column t \<le> VGA_WIDTH \<and>
     length (terminal_buffer t) = VGA_HEIGHT * VGA_WIDTH"

lemmas vga_size = VGA_WIDTH_def VGA_HEIGHT_def

lemma put_cell_eq:
  "i < length (terminal_buffer t) \<Longrightarrow>
    put_cell i v t = Some (t\<lparr>terminal_buffer := (terminal_buffer t)[i := v]\<rparr>)"
  by (simp add: put_cell_def)

text \<open>A row of writes: cells \<open>a\<close> to \<open>a + n\<close> of the buffer are replaced.\<close>

lemma fill_row:
  assumes "a + n \<le> length (terminal_buffer t)"
    and step: "\<And>x t'. x < n \<Longrightarrow> t' = t\<lparr>terminal_buffer := terminal_buffer t'\<rparr> \<Longrightarrow>
          length (terminal_buffer t') = length (terminal_buffer t) \<Longrightarrow>
          (\<forall>i. i < a \<or> a + x \<le> i \<longrightarrow> terminal_buffer t' ! i = terminal_buffer t ! i) \<Longrightarrow>
          body x t' = Some (t'\<lparr>terminal_buffer := (terminal_buffer t')[a + x := f x]\<rparr>)"
  shows "for_loop 0 n body t =
    Some (t\<lparr>terminal_buffer := take a (terminal_buffer t) @ map f [0..<n] @ drop (a + n) (terminal_buffer t)\<rparr>)"
proof -
  let ?b = "terminal_buffer t"
  let ?P = "\<lambda>x t'. t' = t\<lparr>terminal_buffer := take a ?b @ map f [0..<x] @ drop (a + x) ?b\<rparr> \<and> x \<le> n"
  have "\<exists>t'. for_loop 0 n body t = Some t' \<and> ?P (0 + n) t'"
  proof (rule for_loop_rule)
    show "?P 0 t" using assms(1) by simp
    fix x t' assume x: "0 \<le> x" "x < 0 + n" and P: "?P x t'"
    have b': "terminal_buffer t' = take a ?b @ map f [0..<x] @ drop (a + x) ?b" using P by simp
    have len: "length (terminal_buffer t') = length ?b" using b' assms(1) x(2) by simp
    have "terminal_buffer t' ! i = ?b ! i" if "i < a \<or> a + x \<le> i" for i
      using that assms(1) x(2) by (cases "i < length ?b") (auto simp: b' nth_append)
    then have bd: "body x t' = Some (t'\<lparr>terminal_buffer := (terminal_buffer t')[a + x := f x]\<rparr>)"
      using P len x(2) by (intro step) auto
    have d: "drop (a + x) ?b = ?b ! (a + x) # drop (a + Suc x) ?b"
      using assms(1) x(2) by (simp add: Cons_nth_drop_Suc)
    have "(terminal_buffer t')[a + x := f x] = take a ?b @ map f [0..<Suc x] @ drop (a + Suc x) ?b"
      unfolding b' d using assms(1) x(2) by (simp add: list_update_append min_def)
    then show "\<exists>t''. body x t' = Some t'' \<and> ?P (Suc x) t''" using bd P x(2) by auto
  qed
  then show ?thesis by simp
qed

abbreviation blank :: "tty \<Rightarrow> u16" where
  "blank t \<equiv> make_vgaentry 32 (terminal_color t)"

lemma copy_row:
  assumes len: "length (terminal_buffer t) = 2000" and y: "1 \<le> y" "y < 25"
    and b: "terminal_buffer t = take ((y - 1) * 80) (drop 80 b) @ drop ((y - 1) * 80) b"
    and lb: "length b = 2000"
  shows "for_loop 0 80 (\<lambda>x t. Option.bind (arr_get (terminal_buffer t) (y * 80 + x))
      (\<lambda>v. put_cell ((y - 1) * 80 + x) v t)) t =
    Some (t\<lparr>terminal_buffer := take (y * 80) (drop 80 b) @ drop (y * 80) b\<rparr>)"
proof -
  define a where "a = (y - 1) * 80"
  let ?f = "\<lambda>x. terminal_buffer t ! (y * 80 + x)"
  have ya: "y * 80 = a + 80" using y(1) by (cases y) (auto simp: a_def)
  have le: "a \<le> 1840" using y(2) ya by simp
  note b' = b [folded a_def]
  have "for_loop 0 80 (\<lambda>x t. Option.bind (arr_get (terminal_buffer t) (y * 80 + x))
      (\<lambda>v. put_cell (a + x) v t)) t =
    Some (t\<lparr>terminal_buffer := take a (terminal_buffer t) @ map ?f [0..<80] @ drop (a + 80) (terminal_buffer t)\<rparr>)"
  proof (rule fill_row)
    show "a + 80 \<le> length (terminal_buffer t)" using len le by simp
    fix x t' assume x: "x < 80" and t': "t' = t\<lparr>terminal_buffer := terminal_buffer t'\<rparr>"
      "length (terminal_buffer t') = length (terminal_buffer t)"
      "\<forall>i. i < a \<or> a + x \<le> i \<longrightarrow> terminal_buffer t' ! i = terminal_buffer t ! i"
    have "terminal_buffer t' ! (y * 80 + x) = ?f x" using t'(3) ya by simp
    then show "Option.bind (arr_get (terminal_buffer t') (y * 80 + x)) (\<lambda>v. put_cell (a + x) v t') =
        Some (t'\<lparr>terminal_buffer := (terminal_buffer t')[a + x := ?f x]\<rparr>)"
      using t'(2) len le x ya by (simp add: put_cell_eq)
  qed
  also have "take a (terminal_buffer t) @ map ?f [0..<80] @ drop (a + 80) (terminal_buffer t) =
      take (y * 80) (drop 80 b) @ drop (y * 80) b"
    unfolding ya using lb le
    by (intro nth_equalityI) (auto simp: b' nth_append min_def)
  finally show ?thesis by (simp add: a_def)
qed

lemma terminal_scroll_eq:
  assumes len: "length (terminal_buffer t) = 2000"
  shows "terminal_scroll t = Some (t\<lparr>terminal_buffer := drop 80 (terminal_buffer t) @ replicate 80 (blank t)\<rparr>)"
proof -
  let ?b = "terminal_buffer t"
  let ?P = "\<lambda>y t'. t' = t\<lparr>terminal_buffer := take ((y - 1) * 80) (drop 80 ?b) @ drop ((y - 1) * 80) ?b\<rparr>"
  let ?body = "\<lambda>y. for_loop 0 80 (\<lambda>x t. Option.bind (arr_get (terminal_buffer t) (y * 80 + x))
               (\<lambda>v. put_cell ((y - 1) * 80 + x) v t))"
  have "\<exists>t'. for_loop 1 24 ?body t = Some t' \<and> ?P (1 + 24) t'"
  proof (rule for_loop_rule)
    fix y t' assume y: "1 \<le> y" "y < 1 + 24" and P: "?P y t'"
    have "length (terminal_buffer t') = 2000" using P len y by simp
    from copy_row [OF this, of y ?b] P y len
    have "?body y t' = Some (t'\<lparr>terminal_buffer := take (y * 80) (drop 80 ?b) @ drop (y * 80) ?b\<rparr>)" by simp
    then show "\<exists>t''. ?body y t' = Some t'' \<and> ?P (Suc y) t''" using P by simp
  qed simp
  then have l1: "for_loop 1 24 ?body t = Some (t\<lparr>terminal_buffer := drop 80 ?b @ drop 1920 ?b\<rparr>)"
    using len by simp
  let ?t1 = "t\<lparr>terminal_buffer := drop 80 ?b @ drop 1920 ?b\<rparr>"
  have "for_loop 0 80 (\<lambda>x t. put_cell (1920 + x) (blank t) t) ?t1 =
      Some (?t1\<lparr>terminal_buffer := take 1920 (terminal_buffer ?t1) @ map (\<lambda>x. blank t) [0..<80] @
        drop (1920 + 80) (terminal_buffer ?t1)\<rparr>)"
  proof (rule fill_row)
    fix x :: nat and t' assume "x < 80" "t' = ?t1\<lparr>terminal_buffer := terminal_buffer t'\<rparr>"
      "length (terminal_buffer t') = length (terminal_buffer ?t1)"
    then show "put_cell (1920 + x) (blank t') t' =
        Some (t'\<lparr>terminal_buffer := (terminal_buffer t')[1920 + x := blank t]\<rparr>)"
      using len put_cell_eq [of "1920 + x" t' "blank t'"] by (cases t') simp
  qed (use len in simp)
  then have "for_loop 0 80 (\<lambda>x t. put_cell (1920 + x) (blank t) t) ?t1 =
      Some (t\<lparr>terminal_buffer := drop 80 ?b @ replicate 80 (blank t)\<rparr>)"
    using len by (simp add: map_replicate_trivial)
  with l1 show ?thesis by (simp add: terminal_scroll_def vga_size)
qed

lemma terminal_initialize_eq:
  assumes len: "length (terminal_buffer t) = 2000"
  shows "terminal_initialize t = Some \<lparr>terminal_row = 0, terminal_column = 0, terminal_color = 7,
    terminal_buffer = replicate 2000 (make_vgaentry 32 7)\<rparr>"
proof -
  let ?t = "\<lparr>terminal_row = 0, terminal_column = 0, terminal_color = 7, terminal_buffer = terminal_buffer t\<rparr>"
  let ?b = "terminal_buffer t" and ?e = "make_vgaentry 32 7"
  let ?P = "\<lambda>y t'. t' = ?t\<lparr>terminal_buffer := replicate (y * 80) ?e @ drop (y * 80) ?b\<rparr>"
  let ?body = "\<lambda>y. for_loop 0 80 (\<lambda>x t. put_cell (y * 80 + x) (blank t) t)"
  have "\<exists>t'. for_loop 0 25 ?body ?t = Some t' \<and> ?P (0 + 25) t'"
  proof (rule for_loop_rule)
    fix y t' assume y: "0 \<le> y" "y < 0 + 25" and P: "?P y t'"
    have le: "y * 80 + 80 \<le> 2000" using y by simp
    have len': "length (terminal_buffer t') = 2000" using P len le by simp
    have "?body y t' = Some (t'\<lparr>terminal_buffer := take (y * 80) (terminal_buffer t') @
        map (\<lambda>x. ?e) [0..<80] @ drop (y * 80 + 80) (terminal_buffer t')\<rparr>)"
    proof (rule fill_row)
      fix x :: nat and u assume "x < 80" "u = t'\<lparr>terminal_buffer := terminal_buffer u\<rparr>"
        "length (terminal_buffer u) = length (terminal_buffer t')"
      then show "put_cell (y * 80 + x) (blank u) u =
          Some (u\<lparr>terminal_buffer := (terminal_buffer u)[y * 80 + x := ?e]\<rparr>)"
        using len' le put_cell_eq [of "y * 80 + x" u "blank u"] P by (cases u) simp
    qed (use len' le in simp)
    then have "?body y t' = Some (?t\<lparr>terminal_buffer := replicate (y * 80) ?e @ replicate 80 ?e @ drop (y * 80 + 80) ?b\<rparr>)"
      using P by (simp add: map_replicate_trivial add.commute)
    then show "\<exists>t''. ?body y t' = Some t'' \<and> ?P (Suc y) t''"
      by (simp add: append_assoc [symmetric] replicate_add [symmetric] add.commute del: append_assoc)
  qed simp
  then show ?thesis
    using len by (cases t) (simp add: terminal_initialize_def vga_size make_color_def)
qed

lemma terminal_newline_eq:
  assumes "tty_inv t"
  shows "terminal_newline t = Some (if terminal_row t = 24
      then t\<lparr>terminal_column := 0, terminal_buffer := drop 80 (terminal_buffer t) @ replicate 80 (blank t)\<rparr>
      else t\<lparr>terminal_column := 0, terminal_row := terminal_row t + 1\<rparr>)"
  using assms terminal_scroll_eq [of "t\<lparr>terminal_column := 0\<rparr>"]
  by (simp add: terminal_newline_def tty_inv_def vga_size)

lemma terminal_newline_inv:
  assumes "tty_inv t"
  shows "\<exists>t'. terminal_newline t = Some t' \<and> tty_inv t' \<and> terminal_column t' = 0"
  using assms by (auto simp: terminal_newline_eq tty_inv_def vga_size)

lemma putentryat_eq:
  assumes "tty_inv t" "x < 80" "y < 25"
  shows "terminal_putentryat c color x y t =
    Some (t\<lparr>terminal_buffer := (terminal_buffer t)[y * 80 + x := make_vgaentry c color]\<rparr>)"
  using assms by (simp add: terminal_putentryat_def put_cell_eq tty_inv_def vga_size)

lemma terminal_putchar_inv:
  assumes inv: "tty_inv t"
  shows "\<exists>t'. terminal_putchar c t = Some t' \<and> tty_inv t'"
proof -
  consider (ctl) "c = 10 \<or> c = 13 \<or> c = 8" | (wrap) "c \<noteq> 10 \<and> c \<noteq> 13 \<and> c \<noteq> 8" "terminal_column t = 80"
    | (plain) "c \<noteq> 10 \<and> c \<noteq> 13 \<and> c \<noteq> 8" "terminal_column t < 80"
    using inv by (fastforce simp: tty_inv_def vga_size)
  then show ?thesis
  proof cases
    case ctl
    have i1: "tty_inv (t\<lparr>terminal_column := terminal_column t - 1\<rparr>)" using inv by (auto simp: tty_inv_def)
    have "terminal_column t > 0 \<Longrightarrow> terminal_column t - 1 < 80" "terminal_row t < 25"
      using inv by (auto simp: tty_inv_def vga_size)
    with ctl terminal_newline_inv [OF inv] inv putentryat_eq [OF i1] show ?thesis
      by (auto simp: terminal_putchar_def Let_def tty_inv_def)
  next
    case wrap
    obtain t1 where t1: "terminal_newline t = Some t1" "tty_inv t1" "terminal_column t1 = 0"
      using terminal_newline_inv [OF inv] by blast
    then have "terminal_row t1 < 25" by (simp add: tty_inv_def vga_size)
    with wrap t1 putentryat_eq [OF t1(2)] show ?thesis
      by (auto simp: terminal_putchar_def tty_inv_def vga_size)
  next
    case plain
    then show ?thesis
      using inv putentryat_eq [OF inv] by (auto simp: terminal_putchar_def tty_inv_def vga_size)
  qed
qed

interpretation ttym: invariant_machine terminal_putchar "\<lambda>c. True" "\<lambda>n. tty_inv"
  by unfold_locales (rule terminal_putchar_inv)

section \<open>Properties\<close>

text \<open>From the state \<open>terminal_initialize\<close> sets up, writing any bytes at all, control
  characters included, never stores outside the 80x25 text buffer, and the cursor stays on the
  screen.\<close>

theorem terminal_write_safe:
  assumes "length (terminal_buffer t0) = VGA_HEIGHT * VGA_WIDTH"
  shows "\<exists>t t'. terminal_initialize t0 = Some t \<and> terminal_write data t = Some t' \<and> tty_inv t'"
proof -
  have len: "length (terminal_buffer t0) = 2000" using assms by (simp add: vga_size)
  obtain t where t: "terminal_initialize t0 = Some t" "tty_inv t"
    unfolding terminal_initialize_eq [OF len] by (simp add: tty_inv_def vga_size)
  have "\<exists>t'. run_ops terminal_putchar data t = Some t' \<and> tty_inv t'"
    using ttym.run_ok [of data t] t(2) by (simp add: list_all_iff)
  with t show ?thesis by (simp add: terminal_write_def)
qed

theorem terminal_write_safe_witness:
  "\<exists>t t'. terminal_initialize \<lparr>terminal_row = 3, terminal_column = 70, terminal_color = 0,
      terminal_buffer = replicate (VGA_HEIGHT * VGA_WIDTH) 0\<rparr> = Some t \<and>
    terminal_write (replicate 3000 10 @ [200, 8, 65]) t = Some t' \<and> tty_inv t'"
  by (rule terminal_write_safe) simp

text \<open>The screen as a tape with one cursor: printing at the end of the tape first drops the
  oldest row.\<close>

definition linear :: "tty \<Rightarrow> u16 list \<times> nat" where
  "linear t = (terminal_buffer t, terminal_row t * 80 + terminal_column t)"

definition tape_put :: "u16 \<Rightarrow> u16 \<Rightarrow> u16 list \<times> nat \<Rightarrow> u16 list \<times> nat" where
  "tape_put bl e tp =
     (let (b, p) = (if snd tp = 2000 then (drop 80 (fst tp) @ replicate 80 bl, 1920) else tp) in
      (b[p := e], p + 1))"

definition printable :: "u8 \<Rightarrow> bool" where
  "printable c \<longleftrightarrow> c \<noteq> 10 \<and> c \<noteq> 13 \<and> c \<noteq> 8"

lemma putchar_tape:
  assumes inv: "tty_inv t" and c: "printable c"
  shows "\<exists>t'. terminal_putchar c t = Some t' \<and> tty_inv t' \<and> terminal_color t' = terminal_color t \<and>
    linear t' = tape_put (blank t) (make_vgaentry c (terminal_color t)) (linear t)"
proof -
  have I: "terminal_row t < 25" "terminal_column t \<le> 80" "length (terminal_buffer t) = 2000"
    using inv by (auto simp: tty_inv_def vga_size)
  show ?thesis
  proof (cases "terminal_column t = 80")
    case False
    then have "terminal_row t * 80 + terminal_column t \<noteq> 2000" using I by simp
    with False I c inv show ?thesis
      by (simp add: terminal_putchar_def printable_def putentryat_eq linear_def tape_put_def tty_inv_def vga_size)
  next
    case True
    define t1 where "t1 = (if terminal_row t = 24
      then t\<lparr>terminal_column := 0, terminal_buffer := drop 80 (terminal_buffer t) @ replicate 80 (blank t)\<rparr>
      else t\<lparr>terminal_column := 0, terminal_row := terminal_row t + 1\<rparr>)"
    have n: "terminal_newline t = Some t1" unfolding t1_def by (rule terminal_newline_eq [OF inv])
    have i1: "tty_inv t1" using I by (auto simp: t1_def tty_inv_def vga_size)
    have "terminal_row t * 80 + 80 = 2000 \<longleftrightarrow> terminal_row t = 24" by auto
    with I c True n i1 show ?thesis
      by (auto simp: terminal_putchar_def printable_def putentryat_eq linear_def tape_put_def tty_inv_def
          vga_size t1_def add.commute [of 80])
  qed
qed

text \<open>C35: Printing text refines a linear tape: for a string without newline, carriage return
  and backspace, \<open>terminal_write\<close> stores the entries of the characters in the current colour one
  after the other, wrapping at the right margin and scrolling by one row at the bottom, exactly
  as folding \<open>tape_put\<close> does.\<close>

theorem terminal_write_tape:
  assumes "tty_inv t" "list_all printable data"
  shows "\<exists>t'. terminal_write data t = Some t' \<and> tty_inv t' \<and>
    linear t' = fold (\<lambda>c. tape_put (blank t) (make_vgaentry c (terminal_color t))) data (linear t)"
  using assms
proof (induction data arbitrary: t)
  case (Cons c data)
  obtain t1 where t1: "terminal_putchar c t = Some t1" "tty_inv t1" "terminal_color t1 = terminal_color t"
    "linear t1 = tape_put (blank t) (make_vgaentry c (terminal_color t)) (linear t)"
    using putchar_tape [OF Cons.prems(1)] Cons.prems(2) by auto
  then show ?case using Cons.IH [OF t1(2)] Cons.prems(2) by (simp add: terminal_write_def)
qed (simp add: terminal_write_def)

theorem terminal_write_tape_witness:
  "\<exists>t'. terminal_write [72, 105] \<lparr>terminal_row = 24, terminal_column = 80, terminal_color = 7,
      terminal_buffer = replicate 2000 0\<rparr> = Some t' \<and> tty_inv t' \<and> snd (linear t') = 1922"
  using terminal_write_tape [of "\<lparr>terminal_row = 24, terminal_column = 80, terminal_color = 7,
      terminal_buffer = replicate 2000 0\<rparr>" "[72, 105]"]
  by (auto simp: tty_inv_def vga_size printable_def linear_def tape_put_def)

text \<open>A character from 0x80 up is sign-extended to 16 bits before the colour is merged in, so
  the colour byte of its cell is 0xFF whatever colour was set; below 0x80 the entry holds the
  character and the colour.\<close>

theorem make_vgaentry_sign:
  "make_vgaentry c color = (if c < 0x80 then ucast c OR push_bit 8 (ucast color) else 0xFF00 OR ucast c)"
proof (rule bit_eqI)
  fix n assume "possible_bit TYPE(16 word) n"
  then have n: "n < 16" by simp
  have "bit c 7 = bit (unat c) 7" by (simp add: bit_simps)
  also have "\<dots> = odd (unat c div 2 ^ 7)" by (rule bit_iff_odd)
  finally have "bit c 7 = odd (unat c div 2 ^ 7)" .
  moreover have "unat c < 256" using unsigned_less [of c, where ?'a = nat] by simp
  then have "unat c div 128 = (if unat c < 128 then 0 else 1)" by auto
  ultimately have msb: "bit c 7 = (\<not> c < 0x80)" by (simp add: word_less_nat_alt)
  have hi: "(0xFF00 :: u16) = push_bit 8 (mask 8)" by (simp add: mask_eq_exp_minus_1)
  show "bit (make_vgaentry c color) n =
      bit (if c < 0x80 then ucast c OR push_bit 8 (ucast color) else 0xFF00 OR ucast c :: u16) n"
    unfolding make_vgaentry_def hi using n msb
    by (cases "n = 7"; cases "n < 7") (auto simp: bit_simps min_def dest: bit_imp_le_length)
qed

end
