(* ===== verification/Paging.thy ===== *)
theory Paging
  imports Prelude
begin

text \<open>
  The page tables, \<open>kernel/arch/i386/paging.c\<close>: one page table that identity-maps the first
  4 MiB, supervisor-only except for the pages of the \<open>.user\<close> section, the user heap and the
  ranges the program loader adds. The linker symbols and the address of the table are arguments;
  an index outside the table is undefined (\<open>None\<close>).
\<close>

section \<open>Code\<close>

abbreviation (input) PTE_P :: u32 where "PTE_P \<equiv> 0x1"
abbreviation (input) PTE_RW :: u32 where "PTE_RW \<equiv> 0x2"
abbreviation (input) PTE_USER :: u32 where "PTE_USER \<equiv> 0x4"

record paging =
  page_directory :: "u32 list"
  page_table0 :: "u32 list"
  cr0 :: u32
  cr3 :: u32

definition page_index :: "u32 \<Rightarrow> u32" where
  "page_index addr = drop_bit 12 addr"

definition set_pte :: "nat \<Rightarrow> u32 \<Rightarrow> paging \<Rightarrow> paging option" where
  "set_pte i v s = map_option (\<lambda>t. s\<lparr>page_table0 := t\<rparr>) (arr_set (page_table0 s) i v)"

definition set_pde :: "nat \<Rightarrow> u32 \<Rightarrow> paging \<Rightarrow> paging option" where
  "set_pde i v s = map_option (\<lambda>t. s\<lparr>page_directory := t\<rparr>) (arr_set (page_directory s) i v)"

text \<open>\<open>for (; page <= last_page; page++)\<close>: the counters are below 2^20, so they do not wrap.\<close>

definition map_user_pages :: "u32 \<Rightarrow> u32 \<Rightarrow> paging \<Rightarrow> paging option" where
  "map_user_pages page last_page =
     for_loop (unat page) (Suc (unat last_page) - unat page)
       (\<lambda>i. set_pte i (of_nat i * 0x1000 OR PTE_P OR PTE_RW OR PTE_USER))"

definition paging_initialize ::
  "u32 \<Rightarrow> u32 \<Rightarrow> u32 \<Rightarrow> u32 \<Rightarrow> u32 \<Rightarrow> paging \<Rightarrow> paging option" where
  "paging_initialize user_start user_end user_heap_start user_heap_end pt_phys s =
     do {
       s1 \<leftarrow> for_loop 0 1024 (\<lambda>i s. Option.bind (set_pde i 0 s) (set_pte i 0)) s;
       s2 \<leftarrow> for_loop 0 1024 (\<lambda>i. set_pte i (of_nat i * 0x1000 OR PTE_P OR PTE_RW)) s1;
       s3 \<leftarrow> set_pte (0xB8000 div 0x1000) (of_nat (0xB8000 div 0x1000) * 0x1000 OR PTE_P OR PTE_RW) s2;
       s4 \<leftarrow> (if user_end > user_start
             then map_user_pages (page_index user_start) (page_index (user_end - 1)) s3
             else Some s3);
       s5 \<leftarrow> (if user_heap_end > user_heap_start
             then map_user_pages (page_index user_heap_start) (page_index (user_heap_end - 1)) s4
             else Some s4);
       set_pde 0 (pt_phys OR PTE_P OR PTE_RW OR PTE_USER) s5
     }"

definition paging_map_user_range :: "u32 \<Rightarrow> u32 \<Rightarrow> paging \<Rightarrow> paging option" where
  "paging_map_user_range start_addr end_addr s =
     (if end_addr \<le> start_addr then Some s
      else
        (let page = page_index start_addr;
             last_page = page_index (end_addr - 1);
             last_page = (if last_page \<ge> 1024 then 1023 else last_page) in
         map_user_pages page last_page s))"

definition paging_enable :: "u32 \<Rightarrow> paging \<Rightarrow> paging" where
  "paging_enable pd_phys s = s\<lparr>cr3 := pd_phys, cr0 := cr0 s OR 0x80000000\<rparr>"

section \<open>What the entries mean\<close>

definition frame :: "u32 \<Rightarrow> u32" where "frame e = e AND NOT 0xFFF"
definition present :: "u32 \<Rightarrow> bool" where "present e \<longleftrightarrow> bit e 0"
definition user_bit :: "u32 \<Rightarrow> bool" where "user_bit e \<longleftrightarrow> bit e 2"

abbreviation kernel_pte :: "nat \<Rightarrow> u32" where "kernel_pte i \<equiv> of_nat i * 0x1000 OR PTE_P OR PTE_RW"
abbreviation user_pte :: "nat \<Rightarrow> u32" where "user_pte i \<equiv> of_nat i * 0x1000 OR PTE_P OR PTE_RW OR PTE_USER"

lemma pte_mask:
  "kernel_pte i = push_bit 12 (of_nat i) OR mask 2" "user_pte i = push_bit 12 (of_nat i) OR mask 3"
  by (simp_all add: push_bit_eq_mult mask_eq_exp_minus_1 mult.commute)

lemma pte_bits:
  "present (kernel_pte i)" "present (user_pte i)" "\<not> user_bit (kernel_pte i)" "user_bit (user_pte i)"
  unfolding pte_mask present_def user_bit_def by (simp_all add: bit_simps)

lemma pte_frame: "frame (kernel_pte i) = of_nat (i * 4096)" "frame (user_pte i) = of_nat (i * 4096)"
proof -
  have m: "(0xFFF :: u32) = mask 12" by (simp add: mask_eq_exp_minus_1)
  have s: "of_nat (i * 4096) = push_bit 12 (of_nat i :: u32)" by (simp add: push_bit_eq_mult)
  show "frame (kernel_pte i) = of_nat (i * 4096)" "frame (user_pte i) = of_nat (i * 4096)"
    unfolding pte_mask frame_def s m by (rule bit_eqI; auto simp: bit_simps)+
qed

section \<open>The mapping\<close>

text \<open>Page \<open>i\<close> has a byte in the range from \<open>a\<close> to \<open>b\<close>.\<close>

definition page_in :: "u32 \<Rightarrow> u32 \<Rightarrow> nat \<Rightarrow> bool" where
  "page_in a b i \<longleftrightarrow> (\<exists>x. unat a \<le> x \<and> x < unat b \<and> x div 4096 = i)"

text \<open>Every entry identity-maps its page; the pages in \<open>U\<close> are the user's.\<close>

definition pt_maps :: "(nat \<Rightarrow> bool) \<Rightarrow> paging \<Rightarrow> bool" where
  "pt_maps U s \<longleftrightarrow> length (page_table0 s) = 1024 \<and>
     (\<forall>i < 1024. page_table0 s ! i = (if U i then user_pte i else kernel_pte i))"

lemma unat_page_index: "unat (page_index a) = unat a div 4096"
  by (simp add: page_index_def drop_bit_eq_div unat_div)

lemma page_in_iff:
  assumes "a < b"
  shows "page_in a b i \<longleftrightarrow> unat (page_index a) \<le> i \<and> i \<le> unat (page_index (b - 1))"
proof -
  have ab: "unat a < unat b" using assms by (simp add: word_less_nat_alt)
  then have "unat (b - 1) = unat b - 1" using unat_sub_le [of 1 b] by simp
  then have last: "unat (page_index (b - 1)) = (unat b - 1) div 4096" by (simp add: unat_page_index)
  show ?thesis
  proof
    assume "page_in a b i"
    then obtain x where "unat a \<le> x" "x \<le> unat b - 1" "x div 4096 = i" by (auto simp: page_in_def)
    then show "unat (page_index a) \<le> i \<and> i \<le> unat (page_index (b - 1))"
      using last unat_page_index [of a] by (auto intro: div_le_mono)
  next
    assume i: "unat (page_index a) \<le> i \<and> i \<le> unat (page_index (b - 1))"
    then have "unat a div 4096 \<le> i" "i \<le> (unat b - 1) div 4096" using last unat_page_index [of a] by auto
    then have "max (unat a) (i * 4096) div 4096 = i" "max (unat a) (i * 4096) < unat b"
      using ab by (auto simp: max_def)
    then show "page_in a b i" unfolding page_in_def by (intro exI [of _ "max (unat a) (i * 4096)"]) auto
  qed
qed

lemma set_pte_eq: "i < length (page_table0 s) \<Longrightarrow> set_pte i v s = Some (s\<lparr>page_table0 := (page_table0 s)[i := v]\<rparr>)"
  by (simp add: set_pte_def)

lemma set_pde_eq: "i < length (page_directory s) \<Longrightarrow> set_pde i v s = Some (s\<lparr>page_directory := (page_directory s)[i := v]\<rparr>)"
  by (simp add: set_pde_def)

text \<open>A loop that writes entry \<open>i\<close> in its \<open>i\<close>-th round.\<close>

lemma pte_loop:
  assumes "lo + n \<le> length (page_table0 s)"
  shows "\<exists>t. for_loop lo n (\<lambda>i. set_pte i (f i)) s = Some (s\<lparr>page_table0 := t\<rparr>) \<and>
    length t = length (page_table0 s) \<and>
    (\<forall>i < length t. t ! i = (if lo \<le> i \<and> i < lo + n then f i else page_table0 s ! i))"
proof -
  let ?P = "\<lambda>k s'. \<exists>t. s' = s\<lparr>page_table0 := t\<rparr> \<and> length t = length (page_table0 s) \<and>
    (\<forall>i < length t. t ! i = (if lo \<le> i \<and> i < k then f i else page_table0 s ! i))"
  have "\<exists>s'. for_loop lo n (\<lambda>i. set_pte i (f i)) s = Some s' \<and> ?P (lo + n) s'"
  proof (rule for_loop_rule)
    show "?P lo s" by (intro exI [of _ "page_table0 s"]) auto
    fix k s' assume k: "lo \<le> k" "k < lo + n" and P: "?P k s'"
    then obtain t where t: "s' = s\<lparr>page_table0 := t\<rparr>" "length t = length (page_table0 s)"
      "\<forall>i < length t. t ! i = (if lo \<le> i \<and> i < k then f i else page_table0 s ! i)" by auto
    have "set_pte k (f k) s' = Some (s\<lparr>page_table0 := t[k := f k]\<rparr>)"
      using t k assms by (simp add: set_pte_eq)
    then show "\<exists>s''. set_pte k (f k) s' = Some s'' \<and> ?P (Suc k) s''"
      using t k by (intro exI [of _ "s\<lparr>page_table0 := t[k := f k]\<rparr>"] conjI exI [of _ "t[k := f k]"])
        (auto simp: nth_upd less_Suc_eq)
  qed
  then show ?thesis by auto
qed

lemma map_user_pages_maps:
  assumes "pt_maps U s" "unat final < 1024"
  shows "\<exists>s'. map_user_pages first final s = Some s' \<and> s' = s\<lparr>page_table0 := page_table0 s'\<rparr> \<and>
    pt_maps (\<lambda>i. U i \<or> unat first \<le> i \<and> i \<le> unat final) s'"
proof -
  have len: "length (page_table0 s) = 1024" using assms(1) by (simp add: pt_maps_def)
  show ?thesis
  proof (cases "unat first \<le> unat final")
    case True
    then have n: "unat first + (Suc (unat final) - unat first) = Suc (unat final)" by simp
    obtain t where "map_user_pages first final s = Some (s\<lparr>page_table0 := t\<rparr>)" "length t = 1024"
      "\<forall>i < 1024. t ! i = (if unat first \<le> i \<and> i \<le> unat final then user_pte i else page_table0 s ! i)"
      using pte_loop [of "unat first" "Suc (unat final) - unat first" s user_pte] n len assms(2)
      unfolding map_user_pages_def by (auto simp: less_Suc_eq_le)
    with assms(1) show ?thesis by (auto simp: pt_maps_def)
  next
    case False
    then have "map_user_pages first final s = Some s" by (simp add: map_user_pages_def)
    moreover have "pt_maps (\<lambda>i. U i \<or> unat first \<le> i \<and> i \<le> unat final) s"
      using assms(1) False by (auto simp: pt_maps_def)
    ultimately show ?thesis by simp
  qed
qed

lemma map_user_range_maps:
  assumes "pt_maps U s"
  shows "\<exists>s'. paging_map_user_range a b s = Some s' \<and> s' = s\<lparr>page_table0 := page_table0 s'\<rparr> \<and>
    pt_maps (\<lambda>i. U i \<or> page_in a b i) s'"
proof (cases "b \<le> a")
  case True
  then have "\<not> page_in a b i" for i by (auto simp: page_in_def word_le_nat_alt)
  with True assms show ?thesis by (simp add: paging_map_user_range_def)
next
  case False
  define l where "l = (if page_index (b - 1) \<ge> 1024 then 1023 else page_index (b - 1))"
  have ul: "unat l = min 1023 (unat (page_index (b - 1)))"
    by (auto simp: l_def word_le_nat_alt)
  have l1: "unat l < 1024" using ul by simp
  obtain s' where s': "map_user_pages (page_index a) l s = Some s'" "s' = s\<lparr>page_table0 := page_table0 s'\<rparr>"
    "pt_maps (\<lambda>i. U i \<or> unat (page_index a) \<le> i \<and> i \<le> unat l) s'"
    using map_user_pages_maps [OF assms, of l "page_index a"] l1 by blast
  have "pt_maps (\<lambda>i. U i \<or> page_in a b i) s'"
    using s'(3) False page_in_iff [of a b] by (auto simp: pt_maps_def ul)
  with s'(1,2) False show ?thesis by (auto simp: paging_map_user_range_def l_def Let_def)
qed

section \<open>Properties\<close>

text \<open>\<open>paging_map_user_range\<close> never writes outside the page table, whatever range it is
  given, and makes exactly the pages that have a byte in the range and lie in the first 4 MiB
  user pages: every entry stays present and identity-mapped, no other page becomes accessible to
  user code, and no page loses access.\<close>

theorem map_user_range_exact:
  assumes "pt_maps U s"
  shows "\<exists>s'. paging_map_user_range a b s = Some s' \<and> pt_maps (\<lambda>i. U i \<or> page_in a b i) s' \<and>
    (\<forall>i < 1024. present (page_table0 s' ! i) \<and> frame (page_table0 s' ! i) = of_nat (i * 4096) \<and>
       (user_bit (page_table0 s' ! i) \<longleftrightarrow> U i \<or> page_in a b i))"
proof -
  obtain s' where s': "paging_map_user_range a b s = Some s'" "pt_maps (\<lambda>i. U i \<or> page_in a b i) s'"
    using map_user_range_maps [OF assms] by blast
  then have "present (page_table0 s' ! i) \<and> frame (page_table0 s' ! i) = of_nat (i * 4096) \<and>
       (user_bit (page_table0 s' ! i) \<longleftrightarrow> U i \<or> page_in a b i)" if "i < 1024" for i
    using that pte_bits pte_frame unfolding pt_maps_def by (cases "U i \<or> page_in a b i") metis+
  with s' show ?thesis by blast
qed

text \<open>A table without user pages, for the witnesses.\<close>

definition identity_pt :: paging where
  "identity_pt = \<lparr>page_directory = replicate 1024 0, page_table0 = map kernel_pte [0..<1024], cr0 = 0, cr3 = 0\<rparr>"

lemma pt_maps_identity: "pt_maps (\<lambda>i. False) identity_pt"
  unfolding pt_maps_def identity_pt_def by (simp del: upt_rec_numeral)

theorem map_user_range_exact_witness:
  "\<exists>s'. paging_map_user_range 0x2FB000 0xFFFFF000 identity_pt = Some s' \<and>
    pt_maps (\<lambda>i. False \<or> page_in 0x2FB000 0xFFFFF000 i) s'"
  using map_user_range_exact [OF pt_maps_identity] by blast

lemma zero_loop:
  assumes "length (page_directory s) = 1024" "length (page_table0 s) = 1024"
  shows "for_loop 0 1024 (\<lambda>i s. Option.bind (set_pde i 0 s) (set_pte i 0)) s =
    Some (s\<lparr>page_directory := replicate 1024 0, page_table0 := replicate 1024 0\<rparr>)"
proof -
  let ?P = "\<lambda>k s'. s' = s\<lparr>page_directory := replicate k 0 @ drop k (page_directory s),
    page_table0 := replicate k 0 @ drop k (page_table0 s)\<rparr>"
  have "\<exists>s'. for_loop 0 1024 (\<lambda>i s. Option.bind (set_pde i 0 s) (set_pte i 0)) s = Some s' \<and> ?P (0 + 1024) s'"
  proof (rule for_loop_rule)
    fix k s' assume k: "0 \<le> k" "k < 0 + 1024" and P: "?P k s'"
    have upd: "(replicate k 0 @ drop k xs)[k := 0] = replicate (Suc k) 0 @ drop (Suc k) xs"
      if "length xs = 1024" for xs :: "u32 list"
    proof -
      have "drop k xs = xs ! k # drop (Suc k) xs" using that k by (simp add: Cons_nth_drop_Suc)
      then show ?thesis by (simp add: list_update_append replicate_append_same)
    qed
    show "\<exists>s''. Option.bind (set_pde k 0 s') (set_pte k 0) = Some s'' \<and> ?P (Suc k) s''"
      using P k assms upd [OF assms(1)] upd [OF assms(2)] by (simp add: set_pde_eq set_pte_eq)
  qed simp
  then show ?thesis using assms by simp
qed

lemma map_user_section:
  assumes "b \<le> 0x400000" "pt_maps U s'"
  shows "\<exists>s''. (if b > a then map_user_pages (page_index a) (page_index (b - 1)) s' else Some s') = Some s'' \<and>
      s'' = s'\<lparr>page_table0 := page_table0 s''\<rparr> \<and> pt_maps (\<lambda>i. U i \<or> page_in a b i) s''"
proof (cases "a < b")
  case True
  have "unat b \<le> 4194304" using assms(1) by (simp add: word_le_nat_alt)
  moreover have "unat (b - 1) = unat b - 1"
    using True unat_sub_le [of 1 b] by (simp add: word_less_nat_alt)
  ultimately have "unat (page_index (b - 1)) < 1024" by (simp add: unat_page_index)
  from map_user_pages_maps [OF assms(2) this, of "page_index a"] True page_in_iff [OF True] show ?thesis by simp
next
  case False
  then have "\<not> page_in a b i" for i by (auto simp: page_in_def word_less_nat_alt)
  with False assms(2) show ?thesis by simp
qed

text \<open>\<open>paging_initialize\<close> (with the linker's user section and user heap inside the first
  4 MiB) leaves every page of the first 4 MiB present and identity-mapped, user-accessible exactly
  when it holds a byte of the user section or the user heap; in particular the kernel's own pages
  and the VGA page are supervisor-only unless they share a page with those. Only directory entry 0
  is present.\<close>

theorem paging_initialize_correct:
  assumes len: "length (page_directory s) = 1024" "length (page_table0 s) = 1024"
    and us: "user_end \<le> 0x400000" and uh: "heap_end \<le> 0x400000"
  shows "\<exists>s'. paging_initialize user_start user_end heap_start heap_end pt_phys s = Some s' \<and>
    pt_maps (\<lambda>i. page_in user_start user_end i \<or> page_in heap_start heap_end i) s' \<and>
    page_directory s' = (pt_phys OR 7) # replicate 1023 0"
proof -
  let ?s1 = "s\<lparr>page_directory := replicate 1024 0, page_table0 := replicate 1024 0\<rparr>"
  obtain t where t: "for_loop 0 1024 (\<lambda>i. set_pte i (kernel_pte i)) ?s1 = Some (?s1\<lparr>page_table0 := t\<rparr>)"
    "length t = 1024" "\<forall>i < 1024. t ! i = kernel_pte i"
    using pte_loop [of 0 1024 ?s1 kernel_pte] by auto
  let ?s2 = "?s1\<lparr>page_table0 := t\<rparr>"
  have vga: "set_pte (0xB8000 div 0x1000) (kernel_pte (0xB8000 div 0x1000)) ?s2 = Some ?s2"
  proof -
    have "t ! 184 = kernel_pte 184" using t(3) by simp
    then have "t[184 := kernel_pte 184] = t" by (metis list_update_id)
    then show ?thesis using t(2) by (simp add: set_pte_eq)
  qed
  have m0: "pt_maps (\<lambda>i. False) ?s2" using t by (simp add: pt_maps_def)
  from map_user_section [OF us m0, of user_start] obtain s4 where s4:
    "(if user_end > user_start then map_user_pages (page_index user_start) (page_index (user_end - 1)) ?s2
      else Some ?s2) = Some s4" "s4 = ?s2\<lparr>page_table0 := page_table0 s4\<rparr>"
    "pt_maps (\<lambda>i. False \<or> page_in user_start user_end i) s4" by blast
  from map_user_section [OF uh s4(3), of heap_start] obtain s5 where s5:
    "(if heap_end > heap_start then map_user_pages (page_index heap_start) (page_index (heap_end - 1)) s4
      else Some s4) = Some s5" "s5 = s4\<lparr>page_table0 := page_table0 s5\<rparr>"
    "pt_maps (\<lambda>i. (False \<or> page_in user_start user_end i) \<or> page_in heap_start heap_end i) s5" by blast
  have pd: "page_directory s5 = replicate 1024 0"
    by (subst s5(2), subst s4(2)) simp
  let ?s' = "s5\<lparr>page_directory := (page_directory s5)[0 := pt_phys OR PTE_P OR PTE_RW OR PTE_USER]\<rparr>"
  have "set_pde 0 (pt_phys OR PTE_P OR PTE_RW OR PTE_USER) s5 = Some ?s'"
    using pd by (intro set_pde_eq) simp
  then have "paging_initialize user_start user_end heap_start heap_end pt_phys s = Some ?s'"
    unfolding paging_initialize_def
    by (simp only: zero_loop [OF len] t(1) vga s4(1) s5(1) Option.bind_lunit)
  moreover have "pt_maps (\<lambda>i. page_in user_start user_end i \<or> page_in heap_start heap_end i) ?s'"
    using s5(3) by (simp add: pt_maps_def)
  moreover have "page_directory ?s' = (pt_phys OR 7) # replicate 1023 0"
  proof -
    have "replicate 1024 (0 :: u32) = 0 # replicate 1023 0" by (simp add: numeral_eq_Suc)
    then show ?thesis using pd by simp
  qed
  ultimately show ?thesis by blast
qed

theorem paging_initialize_correct_witness:
  "\<exists>s'. paging_initialize 0x106000 0x108123 0x12A000 0x14A000 0x103000
      \<lparr>page_directory = replicate 1024 9, page_table0 = replicate 1024 9, cr0 = 1, cr3 = 0\<rparr> = Some s' \<and>
    pt_maps (\<lambda>i. page_in 0x106000 0x108123 i \<or> page_in 0x12A000 0x14A000 i) s' \<and>
    page_directory s' = (0x103000 OR 7) # replicate 1023 0"
  by (rule paging_initialize_correct) (simp_all add: length_replicate)

end
