(* ===== verification/Elf.thy ===== *)
theory Elf
  imports Mem32 Paging
begin

text \<open>
  The ELF loader, \<open>kernel/arch/i386/elf.c\<close> and \<open>kernel/include/kernel/elf.h\<close>: validation of an
  image, the address range of its segments, loading with user mapping, and the initial user
  stack. An image is its list of bytes; a read outside it is undefined (\<open>None\<close>). In the kernel
  the image lies in the file system's pool, inside the kernel image, which no accepted segment
  overlaps, so loading does not change the image while it is copied. The return value -1 is the
  inner \<open>None\<close>.
\<close>

section \<open>Headers\<close>

record elf32_ehdr =
  e_ident :: "u8 list"
  e_type :: u16
  e_machine :: u16
  e_version :: u32
  e_entry :: u32
  e_phoff :: u32
  e_shoff :: u32
  e_flags :: u32
  e_ehsize :: u16
  e_phentsize :: u16
  e_phnum :: u16
  e_shentsize :: u16
  e_shnum :: u16
  e_shstrndx :: u16

record elf32_phdr =
  p_type :: u32
  p_offset :: u32
  p_vaddr :: u32
  p_paddr :: u32
  p_filesz :: u32
  p_memsz :: u32
  p_flags :: u32
  p_align :: u32

definition ELF_LOAD_LIMIT :: u32 where "ELF_LOAD_LIMIT = 0x400000"

abbreviation (input) EI_NIDENT :: nat where "EI_NIDENT \<equiv> 16"
abbreviation (input) EI_MAG0 :: nat where "EI_MAG0 \<equiv> 0"
abbreviation (input) EI_MAG1 :: nat where "EI_MAG1 \<equiv> 1"
abbreviation (input) EI_MAG2 :: nat where "EI_MAG2 \<equiv> 2"
abbreviation (input) EI_MAG3 :: nat where "EI_MAG3 \<equiv> 3"
abbreviation (input) EI_CLASS :: nat where "EI_CLASS \<equiv> 4"
abbreviation (input) EI_DATA :: nat where "EI_DATA \<equiv> 5"
abbreviation (input) ELFMAG0 :: u8 where "ELFMAG0 \<equiv> 0x7f"
abbreviation (input) ELFMAG1 :: u8 where "ELFMAG1 \<equiv> 0x45"
abbreviation (input) ELFMAG2 :: u8 where "ELFMAG2 \<equiv> 0x4C"
abbreviation (input) ELFMAG3 :: u8 where "ELFMAG3 \<equiv> 0x46"
abbreviation (input) ELFCLASS32 :: u8 where "ELFCLASS32 \<equiv> 1"
abbreviation (input) ELFDATA2LSB :: u8 where "ELFDATA2LSB \<equiv> 1"
abbreviation (input) PT_LOAD :: u32 where "PT_LOAD \<equiv> 1"
abbreviation (input) ET_EXEC :: u16 where "ET_EXEC \<equiv> 2"
abbreviation (input) EM_386 :: u16 where "EM_386 \<equiv> 3"
abbreviation (input) EHDR_SIZE :: nat where "EHDR_SIZE \<equiv> 52"
abbreviation (input) PHDR_SIZE :: nat where "PHDR_SIZE \<equiv> 32"

text \<open>Little-endian fields of the image.\<close>

definition get16 :: "u8 list \<Rightarrow> nat \<Rightarrow> u16" where
  "get16 bs i = load16 (\<lambda>a. bs ! unat a) (of_nat i)"

definition get32 :: "u8 list \<Rightarrow> nat \<Rightarrow> u32" where
  "get32 bs i = load32 (\<lambda>a. bs ! unat a) (of_nat i)"

definition ehdr_of :: "u8 list \<Rightarrow> elf32_ehdr option" where
  "ehdr_of bs =
     (if EHDR_SIZE \<le> length bs then
        Some \<lparr>e_ident = take EI_NIDENT bs, e_type = get16 bs 16, e_machine = get16 bs 18,
              e_version = get32 bs 20, e_entry = get32 bs 24, e_phoff = get32 bs 28,
              e_shoff = get32 bs 32, e_flags = get32 bs 36, e_ehsize = get16 bs 40,
              e_phentsize = get16 bs 42, e_phnum = get16 bs 44, e_shentsize = get16 bs 46,
              e_shnum = get16 bs 48, e_shstrndx = get16 bs 50\<rparr>
      else None)"

definition phdr_of :: "u8 list \<Rightarrow> nat \<Rightarrow> elf32_phdr option" where
  "phdr_of bs off =
     (if off + PHDR_SIZE \<le> length bs then
        Some \<lparr>p_type = get32 bs off, p_offset = get32 bs (off + 4), p_vaddr = get32 bs (off + 8),
              p_paddr = get32 bs (off + 12), p_filesz = get32 bs (off + 16), p_memsz = get32 bs (off + 20),
              p_flags = get32 bs (off + 24), p_align = get32 bs (off + 28)\<rparr>
      else None)"

text \<open>\<open>bytes + eh->e_phoff + (uint32_t)i * eh->e_phentsize\<close>\<close>

definition phdr_at :: "u8 list \<Rightarrow> elf32_ehdr \<Rightarrow> nat \<Rightarrow> elf32_phdr option" where
  "phdr_at bs eh i = phdr_of bs (unat (e_phoff eh + of_nat i * ucast (e_phentsize eh)))"

section \<open>Validation\<close>

definition elf_validate :: "u8 list \<Rightarrow> bool option" where
  "elf_validate img =
     (if length img < EHDR_SIZE then Some False
      else do {
        eh \<leftarrow> ehdr_of img;
        Some (\<not> (e_ident eh ! EI_MAG0 \<noteq> ELFMAG0 \<or> e_ident eh ! EI_MAG1 \<noteq> ELFMAG1 \<or> e_ident eh ! EI_MAG2 \<noteq> ELFMAG2 \<or>
                 e_ident eh ! EI_MAG3 \<noteq> ELFMAG3) \<and>
              \<not> e_ident eh ! EI_CLASS \<noteq> ELFCLASS32 \<and> \<not> e_ident eh ! EI_DATA \<noteq> ELFDATA2LSB \<and>
              \<not> e_type eh \<noteq> ET_EXEC \<and> \<not> e_machine eh \<noteq> EM_386 \<and>
              \<not> (e_phoff eh = 0 \<or> e_phnum eh = 0) \<and>
              \<not> unat (e_phentsize eh) < PHDR_SIZE \<and>
              \<not> unat (e_phoff eh) + unat (e_phnum eh) * unat (e_phentsize eh) > length img)
      })"

section \<open>The range of the segments\<close>

fun extent_loop :: "u8 list \<Rightarrow> elf32_ehdr \<Rightarrow> nat \<Rightarrow> nat \<Rightarrow> u32 \<Rightarrow> u32 \<Rightarrow> (u32 \<times> u32) option option" where
  "extent_loop img eh i 0 lo hi = Some (Some (lo, hi))"
| "extent_loop img eh i (Suc n) lo hi =
     do {
       ph \<leftarrow> phdr_at img eh i;
       (if p_type ph \<noteq> PT_LOAD then extent_loop img eh (Suc i) n lo hi
        else
          (let end = unat (p_vaddr ph) + unat (p_memsz ph) in
           if end > unat ELF_LOAD_LIMIT then Some None
           else extent_loop img eh (Suc i) n
                  (if p_vaddr ph < lo then p_vaddr ph else lo)
                  (if (of_nat end :: u32) > hi then of_nat end else hi)))
     }"

definition elf_extent :: "u8 list \<Rightarrow> (u32 \<times> u32) option option" where
  "elf_extent img =
     do {
       v \<leftarrow> elf_validate img;
       (if \<not> v then Some None
        else do {
          eh \<leftarrow> ehdr_of img;
          r \<leftarrow> extent_loop img eh 0 (unat (e_phnum eh)) 0xFFFFFFFF 0;
          Some (case r of None \<Rightarrow> None | Some (lo, hi) \<Rightarrow> if hi = 0 then None else Some (lo, hi))
        })
     }"

section \<open>Loading\<close>

text \<open>The checks of the first pass on one segment.\<close>

definition seg_accepted :: "u32 \<Rightarrow> u32 \<Rightarrow> u8 list \<Rightarrow> elf32_phdr \<Rightarrow> bool" where
  "seg_accepted kernel_start kernel_end img ph \<longleftrightarrow>
     \<not> p_filesz ph > p_memsz ph \<and>
     \<not> unat (p_offset ph) + unat (p_filesz ph) > length img \<and>
     \<not> unat (p_vaddr ph) + unat (p_memsz ph) > unat ELF_LOAD_LIMIT \<and>
     \<not> (p_vaddr ph < kernel_end \<and>
        (of_nat (unat (p_vaddr ph) + unat (p_memsz ph)) :: u32) > kernel_start)"

fun check_loop :: "u32 \<Rightarrow> u32 \<Rightarrow> u8 list \<Rightarrow> elf32_ehdr \<Rightarrow> nat \<Rightarrow> nat \<Rightarrow> bool option" where
  "check_loop ks ke img eh i 0 = Some True"
| "check_loop ks ke img eh i (Suc n) =
     do {
       ph \<leftarrow> phdr_at img eh i;
       (if p_type ph \<noteq> PT_LOAD then check_loop ks ke img eh (Suc i) n
        else if \<not> seg_accepted ks ke img ph then Some False
        else check_loop ks ke img eh (Suc i) n)
     }"

text \<open>The second pass on one segment: copy, zero the tail, map.\<close>

definition load_segment :: "u8 list \<Rightarrow> elf32_phdr \<Rightarrow> mem \<times> paging \<Rightarrow> (mem \<times> paging) option" where
  "load_segment img ph s =
     (let dst = p_vaddr ph; m = fst s in
      if p_filesz ph > 0 \<and> \<not> unat (p_offset ph) + unat (p_filesz ph) \<le> length img then None
      else
        (let m1 = (if p_filesz ph > 0
                   then write_bytes m dst (take (unat (p_filesz ph)) (drop (unat (p_offset ph)) img))
                   else m);
             m2 = (if p_memsz ph > p_filesz ph
                   then memset m1 (dst + p_filesz ph) 0 (unat (p_memsz ph - p_filesz ph))
                   else m1) in
         map_option (Pair m2) (paging_map_user_range (p_vaddr ph) (p_vaddr ph + p_memsz ph) (snd s))))"

fun load_loop :: "u8 list \<Rightarrow> elf32_ehdr \<Rightarrow> nat \<Rightarrow> nat \<Rightarrow> mem \<times> paging \<Rightarrow> (mem \<times> paging) option" where
  "load_loop img eh i 0 s = Some s"
| "load_loop img eh i (Suc n) s =
     do {
       ph \<leftarrow> phdr_at img eh i;
       (if p_type ph \<noteq> PT_LOAD then load_loop img eh (Suc i) n s
        else Option.bind (load_segment img ph s) (load_loop img eh (Suc i) n))
     }"

definition elf_load ::
  "u32 \<Rightarrow> u32 \<Rightarrow> u8 list \<Rightarrow> mem \<times> paging \<Rightarrow> (u32 option \<times> (mem \<times> paging)) option" where
  "elf_load kernel_start kernel_end img s =
     do {
       v \<leftarrow> elf_validate img;
       (if \<not> v then Some (None, s)
        else do {
          eh \<leftarrow> ehdr_of img;
          ok \<leftarrow> check_loop kernel_start kernel_end img eh 0 (unat (e_phnum eh));
          (if \<not> ok then Some (None, s)
           else if e_entry eh \<ge> ELF_LOAD_LIMIT \<or> (e_entry eh < kernel_end \<and> e_entry eh \<ge> kernel_start)
           then Some (None, s)
           else do {
             s' \<leftarrow> load_loop img eh 0 (unat (e_phnum eh)) s;
             Some (Some (e_entry eh), s')
           })
        })
     }"

section \<open>The initial user stack\<close>

text \<open>The argument vectors are kernel copies; NULL is \<open>None\<close>.\<close>

definition strings_of :: "string list option \<Rightarrow> string list" where
  "strings_of arr = (case arr of None \<Rightarrow> [] | Some ss \<Rightarrow> ss)"

definition strings_total_size :: "string list \<Rightarrow> u32" where
  "strings_total_size ss = fold (\<lambda>s total. total + (of_nat (length s) + 1)) ss 0"

definition cstr_bytes :: "string \<Rightarrow> u8 list" where
  "cstr_bytes s = map of_char s @ [0]"

text \<open>Copying the strings downwards from the cursor; the addresses of the copies are returned.\<close>

fun push_strings :: "string list \<Rightarrow> mem \<times> u32 \<Rightarrow> u32 list \<times> (mem \<times> u32)" where
  "push_strings [] mc = ([], mc)"
| "push_strings (s # ss) (m, cursor) =
     (let cursor' = cursor - (of_nat (length s) + 1);
          (ps, mc) = push_strings ss (write_bytes m cursor' (cstr_bytes s), cursor') in
      (cursor' # ps, mc))"

definition elf_build_user_stack ::
  "u32 \<Rightarrow> u32 \<Rightarrow> string list option \<Rightarrow> string list option \<Rightarrow> mem \<Rightarrow> u32 \<times> mem" where
  "elf_build_user_stack stack_base stack_top argv envp m =
     (let args = strings_of argv; envs = strings_of envp;
          argc = of_nat (length args); envc = of_nat (length envs);
          total = strings_total_size args + strings_total_size envs
                    + (argc + 1) * 4 + (envc + 1) * 4 + 4 in
      if total > stack_top - stack_base then (0, m)
      else
        (let (argv_copied, mc) = push_strings args (m, stack_top);
             (envp_copied, mc) = push_strings envs mc;
             mc = (fst mc, snd mc AND NOT 3);
             mc = push_words [0] mc;
             mc = push_words (rev envp_copied) mc;
             mc = push_words [0] mc;
             mc = push_words (rev argv_copied) mc;
             mc = push_words [argc] mc in
         (snd mc, fst mc)))"

section \<open>The program headers of a valid image\<close>

definition valid_ehdr :: "u8 list \<Rightarrow> elf32_ehdr \<Rightarrow> bool" where
  "valid_ehdr img eh \<longleftrightarrow> ehdr_of img = Some eh \<and> PHDR_SIZE \<le> unat (e_phentsize eh) \<and>
     unat (e_phoff eh) + unat (e_phnum eh) * unat (e_phentsize eh) \<le> length img"

lemma elf_validate_cases:
  obtains "elf_validate img = Some False"
  | eh where "elf_validate img = Some True" "valid_ehdr img eh"
proof (cases "length img < EHDR_SIZE")
  case True
  then show thesis using that(1) by (simp add: elf_validate_def)
next
  case False
  then obtain eh where eh: "ehdr_of img = Some eh" by (simp add: ehdr_of_def)
  obtain v where v: "elf_validate img = Some v" using False eh by (simp add: elf_validate_def)
  show thesis
  proof (cases v)
    case True
    then have "valid_ehdr img eh"
      using v False eh by (simp add: elf_validate_def valid_ehdr_def not_less)
    then show thesis using that(2) v True by simp
  qed (use that(1) v in simp)
qed

lemma valid_ehdr_unique: "valid_ehdr img eh \<Longrightarrow> ehdr_of img = Some eh"
  by (simp add: valid_ehdr_def)

lemma phdr_at_defined:
  assumes v: "valid_ehdr img eh" and l: "length img < 4294967296" and i: "i < unat (e_phnum eh)"
  shows "\<exists>ph. phdr_at img eh i = Some ph"
proof -
  let ?o = "unat (e_phoff eh)" and ?n = "unat (e_phnum eh)" and ?z = "unat (e_phentsize eh)"
  have b: "?o + ?n * ?z \<le> length img" "32 \<le> ?z" using v by (auto simp: valid_ehdr_def)
  have "Suc i * ?z \<le> ?n * ?z" using i by (intro mult_le_mono1) simp
  then have iz: "?o + i * ?z + 32 \<le> length img" using b by simp
  have "(e_phoff eh + of_nat i * ucast (e_phentsize eh)) = (of_nat (?o + i * ?z) :: u32)"
    by simp
  moreover have "?o + i * ?z < 4294967296" using iz l by simp
  ultimately have "unat (e_phoff eh + of_nat i * ucast (e_phentsize eh)) = ?o + i * ?z"
    by (metis unat_of_nat32)
  then show ?thesis using iz by (simp add: phdr_at_def phdr_of_def)
qed

text \<open>The loadable segments from index \<open>i\<close> on.\<close>

definition loads_from :: "u8 list \<Rightarrow> elf32_ehdr \<Rightarrow> nat \<Rightarrow> nat \<Rightarrow> elf32_phdr list" where
  "loads_from img eh i n = filter (\<lambda>ph. p_type ph = PT_LOAD) (map (\<lambda>j. the (phdr_at img eh j)) [i..<i + n])"

abbreviation loads :: "u8 list \<Rightarrow> elf32_ehdr \<Rightarrow> elf32_phdr list" where
  "loads img eh \<equiv> loads_from img eh 0 (unat (e_phnum eh))"

lemma loads_from_0 [simp]: "loads_from img eh i 0 = []"
  by (simp add: loads_from_def)

lemma loads_from_Suc:
  "phdr_at img eh i = Some ph \<Longrightarrow> loads_from img eh i (Suc n) =
    (if p_type ph = PT_LOAD then ph # loads_from img eh (Suc i) n else loads_from img eh (Suc i) n)"
proof -
  have "[i..<i + Suc n] = i # [Suc i..<Suc i + n]" by (simp add: upt_conv_Cons)
  then show "phdr_at img eh i = Some ph \<Longrightarrow> ?thesis" by (simp add: loads_from_def)
qed

lemma check_loop_eq:
  "(\<And>j. i \<le> j \<Longrightarrow> j < i + n \<Longrightarrow> \<exists>ph. phdr_at img eh j = Some ph) \<Longrightarrow>
    check_loop ks ke img eh i n = Some (list_all (seg_accepted ks ke img) (loads_from img eh i n))"
proof (induction n arbitrary: i)
  case (Suc n)
  obtain ph where ph: "phdr_at img eh i = Some ph" using Suc.prems [of i] by auto
  have "check_loop ks ke img eh (Suc i) n = Some (list_all (seg_accepted ks ke img) (loads_from img eh (Suc i) n))"
    using Suc.prems by (intro Suc.IH) auto
  with ph show ?case by (simp add: loads_from_Suc)
qed simp

lemma load_loop_eq:
  "(\<And>j. i \<le> j \<Longrightarrow> j < i + n \<Longrightarrow> \<exists>ph. phdr_at img eh j = Some ph) \<Longrightarrow>
    load_loop img eh i n s = run_ops (load_segment img) (loads_from img eh i n) s"
proof (induction n arbitrary: i s)
  case (Suc n)
  obtain ph where ph: "phdr_at img eh i = Some ph" using Suc.prems [of i] by auto
  have "load_loop img eh (Suc i) n t = run_ops (load_segment img) (loads_from img eh (Suc i) n) t" for t
    using Suc.prems by (intro Suc.IH) auto
  then have "load_loop img eh (Suc i) n = run_ops (load_segment img) (loads_from img eh (Suc i) n)" by (rule ext)
  with ph show ?case by (simp add: loads_from_Suc)
qed simp

text \<open>The addresses a segment covers.\<close>

definition seg_range :: "elf32_phdr \<Rightarrow> u32 \<Rightarrow> bool" where
  "seg_range ph a \<longleftrightarrow> unat (p_vaddr ph) \<le> unat a \<and> unat a < unat (p_vaddr ph) + unat (p_memsz ph)"

lemma extent_loop_spec:
  assumes "\<And>j. i \<le> j \<Longrightarrow> j < i + n \<Longrightarrow> \<exists>ph. phdr_at img eh j = Some ph"
  shows "\<exists>r. extent_loop img eh i n lo hi = Some r \<and>
    (\<forall>lo' hi'. r = Some (lo', hi') \<longrightarrow> lo' \<le> lo \<and> hi \<le> hi' \<and> unat hi' \<le> max (unat hi) 0x400000 \<and>
       (\<forall>ph \<in> set (loads_from img eh i n). lo' \<le> p_vaddr ph \<and>
          unat (p_vaddr ph) + unat (p_memsz ph) \<le> unat hi'))"
  using assms
proof (induction n arbitrary: i lo hi)
  case (Suc n)
  obtain ph where ph: "phdr_at img eh i = Some ph" using Suc.prems [of i] by auto
  let ?e = "unat (p_vaddr ph) + unat (p_memsz ph)"
  let ?lo = "if p_vaddr ph < lo then p_vaddr ph else lo"
  let ?hi = "if (of_nat ?e :: u32) > hi then of_nat ?e else hi"
  have IH: "\<exists>r. extent_loop img eh (Suc i) n lo hi = Some r \<and>
    (\<forall>lo' hi'. r = Some (lo', hi') \<longrightarrow> lo' \<le> lo \<and> hi \<le> hi' \<and> unat hi' \<le> max (unat hi) 0x400000 \<and>
       (\<forall>ph \<in> set (loads_from img eh (Suc i) n). lo' \<le> p_vaddr ph \<and>
          unat (p_vaddr ph) + unat (p_memsz ph) \<le> unat hi'))" for lo hi
    using Suc.prems by (intro Suc.IH) auto
  consider (skip) "p_type ph \<noteq> PT_LOAD" | (bad) "p_type ph = PT_LOAD" "?e > unat ELF_LOAD_LIMIT"
    | (ok) "p_type ph = PT_LOAD" "?e \<le> 0x400000" by (fastforce simp: ELF_LOAD_LIMIT_def)
  then show ?case
  proof cases
    case skip
    then show ?thesis using IH [of lo hi] ph by (simp add: loads_from_Suc)
  next
    case bad
    then show ?thesis using ph by simp
  next
    case ok
    have ue: "unat (of_nat ?e :: u32) = ?e" using ok(2) by (intro unat_of_nat32) simp
    obtain r where r: "extent_loop img eh (Suc i) n ?lo ?hi = Some r"
      "\<And>lo' hi'. r = Some (lo', hi') \<Longrightarrow> lo' \<le> ?lo \<and> ?hi \<le> hi' \<and> unat hi' \<le> max (unat ?hi) 0x400000 \<and>
       (\<forall>ph \<in> set (loads_from img eh (Suc i) n). lo' \<le> p_vaddr ph \<and>
          unat (p_vaddr ph) + unat (p_memsz ph) \<le> unat hi')" using IH [of ?lo ?hi] by blast
    have lo: "?lo \<le> lo" "?lo \<le> p_vaddr ph" by auto
    have hi: "unat hi \<le> unat ?hi" "?e \<le> unat ?hi" "unat ?hi \<le> max (unat hi) 0x400000"
      using ue ok(2) by (auto simp: word_less_nat_alt)
    have "lo' \<le> lo \<and> hi \<le> hi' \<and> unat hi' \<le> max (unat hi) 0x400000 \<and>
       (\<forall>ph \<in> set (loads_from img eh i (Suc n)). lo' \<le> p_vaddr ph \<and>
          unat (p_vaddr ph) + unat (p_memsz ph) \<le> unat hi')" if e: "r = Some (lo', hi')" for lo' hi'
    proof -
      note R = r(2) [OF e]
      have h: "unat ?hi \<le> unat hi'" using R by (simp add: word_le_nat_alt)
      have "lo' \<le> lo" "lo' \<le> p_vaddr ph" using R lo by (meson order_trans)+
      moreover have "hi \<le> hi'" "?e \<le> unat hi'" "unat hi' \<le> max (unat hi) 0x400000"
        using R h hi by (simp_all only: word_le_nat_alt) linarith+
      ultimately show ?thesis using R ph ok(1) by (simp add: loads_from_Suc)
    qed
    moreover have "extent_loop img eh i (Suc n) lo hi = Some r"
      using r(1) ph ok by (simp add: Let_def ELF_LOAD_LIMIT_def)
    ultimately show ?thesis by blast
  qed
qed simp

section \<open>Loading a segment\<close>

text \<open>The bytes a segment has in memory: its bytes of the file, then zeros.\<close>

definition seg_bytes :: "u8 list \<Rightarrow> elf32_phdr \<Rightarrow> u8 list" where
  "seg_bytes img ph = take (unat (p_filesz ph)) (drop (unat (p_offset ph)) img) @
     replicate (unat (p_memsz ph) - unat (p_filesz ph)) 0"

lemma seg_acceptedD:
  assumes "seg_accepted ks ke img ph"
  shows "unat (p_filesz ph) \<le> unat (p_memsz ph)" "unat (p_offset ph) + unat (p_filesz ph) \<le> length img"
    "unat (p_vaddr ph) + unat (p_memsz ph) \<le> 0x400000"
    "seg_range ph a \<Longrightarrow> unat a < 0x400000 \<and> \<not> (ks \<le> a \<and> a < ke)"
proof -
  have A: "unat (p_filesz ph) \<le> unat (p_memsz ph)" "unat (p_offset ph) + unat (p_filesz ph) \<le> length img"
    "unat (p_vaddr ph) + unat (p_memsz ph) \<le> 0x400000"
    using assms by (auto simp: seg_accepted_def word_less_nat_alt ELF_LOAD_LIMIT_def)
  then show "unat (p_filesz ph) \<le> unat (p_memsz ph)" "unat (p_offset ph) + unat (p_filesz ph) \<le> length img"
    "unat (p_vaddr ph) + unat (p_memsz ph) \<le> 0x400000" by auto
  have "unat (of_nat (unat (p_vaddr ph) + unat (p_memsz ph)) :: u32) = unat (p_vaddr ph) + unat (p_memsz ph)"
    using A(3) by (intro unat_of_nat32) simp
  then have "unat ke \<le> unat (p_vaddr ph) \<or> unat (p_vaddr ph) + unat (p_memsz ph) \<le> unat ks"
    using assms unfolding seg_accepted_def word_less_nat_alt by linarith
  then show "unat a < 0x400000 \<and> \<not> (ks \<le> a \<and> a < ke)" if "seg_range ph a"
    using that A(3) by (auto simp: seg_range_def word_le_nat_alt word_less_nat_alt)
qed

lemma load_segment_spec:
  assumes a: "seg_accepted ks ke img ph" and pg: "pt_maps U (snd s)"
  shows "\<exists>s'. load_segment img ph s = Some s' \<and>
    fst s' = write_bytes (fst s) (p_vaddr ph) (seg_bytes img ph) \<and>
    pt_maps (\<lambda>i. U i \<or> page_in (p_vaddr ph) (p_vaddr ph + p_memsz ph) i) (snd s')"
proof -
  note A = seg_acceptedD [OF a]
  let ?f = "take (unat (p_filesz ph)) (drop (unat (p_offset ph)) img)"
  let ?k = "unat (p_memsz ph) - unat (p_filesz ph)"
  obtain pg' where pg': "paging_map_user_range (p_vaddr ph) (p_vaddr ph + p_memsz ph) (snd s) = Some pg'"
    "pt_maps (\<lambda>i. U i \<or> page_in (p_vaddr ph) (p_vaddr ph + p_memsz ph) i) pg'"
    using map_user_range_maps [OF pg] by blast
  have lf: "length ?f = unat (p_filesz ph)" using A(2) by simp
  define m1 where "m1 = (if p_filesz ph > 0 then write_bytes (fst s) (p_vaddr ph) ?f else fst s)"
  have m1: "m1 = write_bytes (fst s) (p_vaddr ph) ?f"
    using lf by (cases "p_filesz ph = 0") (auto simp: m1_def word_gt_0)
  define m2 where "m2 = (if p_memsz ph > p_filesz ph
    then memset m1 (p_vaddr ph + p_filesz ph) 0 (unat (p_memsz ph - p_filesz ph)) else m1)"
  have "unat (p_memsz ph - p_filesz ph) = ?k" by (rule unat_sub_le [OF A(1)])
  moreover have "?k \<le> 2 ^ 32" using A(3) by simp
  ultimately have "m2 = write_bytes m1 (p_vaddr ph + p_filesz ph) (replicate ?k 0)"
    by (auto simp: m2_def memset_eq word_less_nat_alt)
  also have "\<dots> = write_bytes (fst s) (p_vaddr ph) (?f @ replicate ?k 0)"
    using write_bytes_append [of ?f "replicate ?k 0" "fst s" "p_vaddr ph"] lf A(1,3) by (simp add: m1)
  finally have "m2 = write_bytes (fst s) (p_vaddr ph) (seg_bytes img ph)" by (simp add: seg_bytes_def)
  moreover have "load_segment img ph s = Some (m2, pg')"
    using A(2) pg'(1) by (simp add: load_segment_def m1_def m2_def Let_def)
  ultimately show ?thesis using pg'(2) by simp
qed

lemma length_seg_bytes: "seg_accepted ks ke img ph \<Longrightarrow> length (seg_bytes img ph) = unat (p_memsz ph)"
  using seg_acceptedD(1,2) [of ks ke img ph] by (simp add: seg_bytes_def)

lemma write_seg_other:
  assumes "seg_accepted ks ke img ph" "\<not> seg_range ph a"
  shows "write_bytes m (p_vaddr ph) (seg_bytes img ph) a = m a"
proof -
  have "\<not> in_region a (p_vaddr ph) (unat (p_memsz ph))"
    using assms seg_acceptedD(3) [OF assms(1)] by (subst in_region_iff) (auto simp: seg_range_def)
  then show ?thesis using length_seg_bytes [OF assms(1)] by (simp add: write_bytes_out)
qed

lemma load_segments_spec:
  assumes "list_all (seg_accepted ks ke img) phs" "pt_maps U (snd s)"
  shows "\<exists>s'. run_ops (load_segment img) phs s = Some s' \<and>
    (\<forall>a. (\<forall>ph \<in> set phs. \<not> seg_range ph a) \<longrightarrow> fst s' a = fst s a) \<and>
    pt_maps (\<lambda>i. U i \<or> (\<exists>ph \<in> set phs. page_in (p_vaddr ph) (p_vaddr ph + p_memsz ph) i)) (snd s') \<and>
    (\<forall>k < length phs. (\<forall>j < length phs. k < j \<longrightarrow> (\<forall>a. \<not> (seg_range (phs ! k) a \<and> seg_range (phs ! j) a))) \<longrightarrow>
       read_bytes (fst s') (p_vaddr (phs ! k)) (unat (p_memsz (phs ! k))) = seg_bytes img (phs ! k))"
  using assms
proof (induction phs arbitrary: s U)
  case (Cons ph phs)
  have a: "seg_accepted ks ke img ph" "list_all (seg_accepted ks ke img) phs" using Cons.prems by auto
  obtain s1 where s1: "load_segment img ph s = Some s1"
    "fst s1 = write_bytes (fst s) (p_vaddr ph) (seg_bytes img ph)"
    "pt_maps (\<lambda>i. U i \<or> page_in (p_vaddr ph) (p_vaddr ph + p_memsz ph) i) (snd s1)"
    using load_segment_spec [OF a(1) Cons.prems(2)] by blast
  obtain s' where s': "run_ops (load_segment img) phs s1 = Some s'"
    "\<And>a. \<forall>ph \<in> set phs. \<not> seg_range ph a \<Longrightarrow> fst s' a = fst s1 a"
    "pt_maps (\<lambda>i. (U i \<or> page_in (p_vaddr ph) (p_vaddr ph + p_memsz ph) i) \<or>
       (\<exists>ph \<in> set phs. page_in (p_vaddr ph) (p_vaddr ph + p_memsz ph) i)) (snd s')"
    "\<And>k. k < length phs \<Longrightarrow> (\<forall>j < length phs. k < j \<longrightarrow> (\<forall>a. \<not> (seg_range (phs ! k) a \<and> seg_range (phs ! j) a))) \<Longrightarrow>
       read_bytes (fst s') (p_vaddr (phs ! k)) (unat (p_memsz (phs ! k))) = seg_bytes img (phs ! k)"
    using Cons.IH [OF a(2) s1(3)] by blast
  have frame: "fst s' a = fst s a" if "\<forall>ph \<in> set (ph # phs). \<not> seg_range ph a" for a
    using that s'(2) s1(2) write_seg_other [OF a(1)] by simp
  have first: "read_bytes (fst s') (p_vaddr ph) (unat (p_memsz ph)) = seg_bytes img ph"
    if later: "\<forall>j < length phs. \<forall>a. \<not> (seg_range ph a \<and> seg_range (phs ! j) a)"
  proof -
    have n: "unat (p_vaddr ph) + unat (p_memsz ph) \<le> 0x400000" by (rule seg_acceptedD(3) [OF a(1)])
    have "fst s' (p_vaddr ph + of_nat i) = fst s1 (p_vaddr ph + of_nat i)" if "i < unat (p_memsz ph)" for i
    proof (rule s'(2))
      have "seg_range ph (p_vaddr ph + of_nat i)"
        using n that by (simp add: seg_range_def unat_add_num)
      with later show "\<forall>ph' \<in> set phs. \<not> seg_range ph' (p_vaddr ph + of_nat i)" by (metis in_set_conv_nth)
    qed
    then have "read_bytes (fst s') (p_vaddr ph) (unat (p_memsz ph)) = read_bytes (fst s1) (p_vaddr ph) (unat (p_memsz ph))"
      by (intro nth_equalityI) auto
    also have "\<dots> = seg_bytes img ph"
      using read_write_same [of "seg_bytes img ph" "fst s" "p_vaddr ph"] length_seg_bytes [OF a(1)] n
      by (simp add: s1(2))
    finally show ?thesis .
  qed
  have "read_bytes (fst s') (p_vaddr ((ph # phs) ! k)) (unat (p_memsz ((ph # phs) ! k))) = seg_bytes img ((ph # phs) ! k)"
    if k: "k < length (ph # phs)" and d: "\<forall>j < length (ph # phs). k < j \<longrightarrow>
      (\<forall>a. \<not> (seg_range ((ph # phs) ! k) a \<and> seg_range ((ph # phs) ! j) a))" for k
  proof (cases k)
    case 0
    have "\<forall>j < length phs. \<forall>a. \<not> (seg_range ph a \<and> seg_range (phs ! j) a)"
    proof (intro allI impI)
      fix j a assume "j < length phs"
      with d 0 show "\<not> (seg_range ph a \<and> seg_range (phs ! j) a)"
        by (auto dest!: spec [where x = "Suc j"])
    qed
    with first 0 show ?thesis by simp
  next
    case (Suc k')
    have "\<forall>j < length phs. k' < j \<longrightarrow> (\<forall>a. \<not> (seg_range (phs ! k') a \<and> seg_range (phs ! j) a))"
    proof (intro allI impI)
      fix j a assume "j < length phs" "k' < j"
      with d Suc show "\<not> (seg_range (phs ! k') a \<and> seg_range (phs ! j) a)"
        by (auto dest!: spec [where x = "Suc j"])
    qed
    with s'(4) [of k'] k Suc show ?thesis by simp
  qed
  moreover have "pt_maps (\<lambda>i. U i \<or> (\<exists>ph \<in> set (ph # phs). page_in (p_vaddr ph) (p_vaddr ph + p_memsz ph) i)) (snd s')"
    using s'(3) by (simp add: disj_assoc)
  ultimately show ?case using s1(1) s'(1) frame by auto
qed simp

section \<open>Properties of loading\<close>

lemma elf_load_cases:
  assumes l: "length img < 4294967296" and pg: "pt_maps U (snd s)"
  obtains "elf_load ks ke img s = Some (None, s)"
  | eh s' where "elf_load ks ke img s = Some (Some (e_entry eh), s')" "valid_ehdr img eh" "elf_validate img = Some True"
      "e_entry eh < 0x400000" "\<not> (ks \<le> e_entry eh \<and> e_entry eh < ke)"
      "list_all (seg_accepted ks ke img) (loads img eh)"
      "run_ops (load_segment img) (loads img eh) s = Some s'"
proof (rule elf_validate_cases [of img])
  assume "elf_validate img = Some False"
  then show thesis using that(1) by (simp add: elf_load_def)
next
  fix eh assume v: "elf_validate img = Some True" "valid_ehdr img eh"
  have eh: "ehdr_of img = Some eh" using v(2) by (rule valid_ehdr_unique)
  have d: "\<exists>ph. phdr_at img eh j = Some ph" if "0 \<le> j" "j < 0 + unat (e_phnum eh)" for j
    using that phdr_at_defined [OF v(2) l] by simp
  note C = check_loop_eq [OF d] and L = load_loop_eq [OF d]
  show thesis
  proof (cases "list_all (seg_accepted ks ke img) (loads img eh) \<and> e_entry eh < 0x400000 \<and>
      \<not> (ks \<le> e_entry eh \<and> e_entry eh < ke)")
    case False
    then have "elf_load ks ke img s = Some (None, s)"
      using v(1) eh C by (auto simp: elf_load_def ELF_LOAD_LIMIT_def not_le)
    then show thesis by (rule that(1))
  next
    case True
    then obtain s' where s': "run_ops (load_segment img) (loads img eh) s = Some s'"
      using load_segments_spec [of ks ke img "loads img eh" U s] pg by blast
    have "\<not> ELF_LOAD_LIMIT \<le> e_entry eh" using True by (simp add: ELF_LOAD_LIMIT_def not_le)
    then have "elf_load ks ke img s = Some (Some (e_entry eh), s')"
      using v(1) eh C L True s' by (auto simp: elf_load_def)
    then show thesis using True v s' by (intro that(2)) auto
  qed
qed

lemma elf_load_spec:
  assumes "length img < 4294967296" "pt_maps U (snd s)"
  shows "\<exists>r s'. elf_load ks ke img s = Some (r, s') \<and>
    (case r of None \<Rightarrow> s' = s
     | Some entry \<Rightarrow> entry < 0x400000 \<and> \<not> (ks \<le> entry \<and> entry < ke) \<and>
         (\<forall>a. fst s' a \<noteq> fst s a \<longrightarrow> unat a < 0x400000 \<and> \<not> (ks \<le> a \<and> a < ke)) \<and>
         (\<exists>eh. ehdr_of img = Some eh \<and>
            pt_maps (\<lambda>i. U i \<or> (\<exists>ph \<in> set (loads img eh). page_in (p_vaddr ph) (p_vaddr ph + p_memsz ph) i)) (snd s')))"
proof (rule elf_load_cases [OF assms, of ks ke])
  fix eh s'
  assume r: "elf_load ks ke img s = Some (Some (e_entry eh), s')" "valid_ehdr img eh"
    "e_entry eh < 0x400000" "\<not> (ks \<le> e_entry eh \<and> e_entry eh < ke)"
    "list_all (seg_accepted ks ke img) (loads img eh)" "run_ops (load_segment img) (loads img eh) s = Some s'"
  have f: "\<And>a. \<forall>ph \<in> set (loads img eh). \<not> seg_range ph a \<Longrightarrow> fst s' a = fst s a"
    and p: "pt_maps (\<lambda>i. U i \<or> (\<exists>ph \<in> set (loads img eh). page_in (p_vaddr ph) (p_vaddr ph + p_memsz ph) i)) (snd s')"
    using load_segments_spec [OF r(5) assms(2)] r(6) by auto
  have "unat a < 0x400000 \<and> \<not> (ks \<le> a \<and> a < ke)" if a: "fst s' a \<noteq> fst s a" for a
  proof -
    obtain ph where "ph \<in> set (loads img eh)" "seg_range ph a" using f a by blast
    then show ?thesis using r(5) seg_acceptedD(4) by (auto simp: list_all_iff)
  qed
  then show ?thesis using r(1,3,4) p valid_ehdr_unique [OF r(2)] by auto
qed auto

text \<open>C12: Loading any byte string whatever as a program is safe for the kernel: \<open>elf_load\<close> never
  reads outside the image, and either it refuses and changes nothing, or every byte of memory it
  changed lies below 4 MiB and outside the kernel image, the entry point too, and the page table
  still identity-maps everything, with user access added only to pages of loaded segments.\<close>

theorem elf_load_safe:
  assumes "length img < 4294967296" "pt_maps U (snd s)"
  shows "\<exists>r s'. elf_load ks ke img s = Some (r, s') \<and>
    (case r of None \<Rightarrow> s' = s
     | Some entry \<Rightarrow> entry < 0x400000 \<and> \<not> (ks \<le> entry \<and> entry < ke) \<and>
         (\<forall>a. fst s' a \<noteq> fst s a \<longrightarrow> unat a < 0x400000 \<and> \<not> (ks \<le> a \<and> a < ke)) \<and>
         (\<exists>eh. ehdr_of img = Some eh \<and>
            pt_maps (\<lambda>i. U i \<or> (\<exists>ph \<in> set (loads img eh). page_in (p_vaddr ph) (p_vaddr ph + p_memsz ph) i)) (snd s')))"
  by (rule elf_load_spec [OF assms])

text \<open>C34: When \<open>elf_load\<close> succeeds and no two loadable segments overlap, memory holds at every
  segment's address the segment's bytes of the file followed by zeros up to its memory size.\<close>

theorem elf_load_contents:
  assumes l: "length img < 4294967296" and pg: "pt_maps U (snd s)"
    and r: "elf_load ks ke img s = Some (Some entry, s')" and eh: "ehdr_of img = Some eh"
    and d: "\<And>i j a. i < length (loads img eh) \<Longrightarrow> j < length (loads img eh) \<Longrightarrow> i \<noteq> j \<Longrightarrow>
        \<not> (seg_range (loads img eh ! i) a \<and> seg_range (loads img eh ! j) a)"
    and ph: "ph \<in> set (loads img eh)"
  shows "read_bytes (fst s') (p_vaddr ph) (unat (p_memsz ph)) = seg_bytes img ph"
proof (rule elf_load_cases [OF l pg, of ks ke])
  fix eh' s''
  assume e: "elf_load ks ke img s = Some (Some (e_entry eh'), s'')" "valid_ehdr img eh'"
    "list_all (seg_accepted ks ke img) (loads img eh')" "run_ops (load_segment img) (loads img eh') s = Some s''"
  have [simp]: "eh' = eh" "s'' = s'" using e(1,2) r eh by (auto simp: valid_ehdr_def)
  obtain k where k: "k < length (loads img eh)" "ph = loads img eh ! k" using ph by (auto simp: in_set_conv_nth)
  have "\<forall>j < length (loads img eh). k < j \<longrightarrow>
      (\<forall>a. \<not> (seg_range (loads img eh ! k) a \<and> seg_range (loads img eh ! j) a))"
    using d k(1) by (metis nat_neq_iff)
  then show ?thesis
    using load_segments_spec [OF e(3) pg] e(4) k by auto
qed (use r in simp)

lemma elf_extent_load:
  assumes l: "length img < 4294967296" and pg: "pt_maps U (snd s)"
    and x: "elf_extent img = Some (Some (lo, hi))"
    and r: "elf_load ks ke img s = Some (entry, s')"
  shows "unat hi \<le> 0x400000 \<and> (\<forall>a. fst s' a \<noteq> fst s a \<longrightarrow> lo \<le> a \<and> a < hi)"
proof -
  obtain eh where v: "elf_validate img = Some True" "valid_ehdr img eh"
    using x by (cases rule: elf_validate_cases [of img]) (auto simp: elf_extent_def)
  have eh: "ehdr_of img = Some eh" using v(2) by (rule valid_ehdr_unique)
  have dd: "\<exists>ph. phdr_at img eh j = Some ph" if "0 \<le> j" "j < 0 + unat (e_phnum eh)" for j
    using that phdr_at_defined [OF v(2) l] by simp
  obtain q where q: "extent_loop img eh 0 (unat (e_phnum eh)) 0xFFFFFFFF 0 = Some q"
    "\<And>lo' hi'. q = Some (lo', hi') \<Longrightarrow> unat hi' \<le> max (unat (0 :: u32)) 0x400000 \<and>
       (\<forall>ph \<in> set (loads img eh). lo' \<le> p_vaddr ph \<and> unat (p_vaddr ph) + unat (p_memsz ph) \<le> unat hi')"
    using extent_loop_spec [of 0 "unat (e_phnum eh)" img eh "0xFFFFFFFF" 0] dd by blast
  have "q = Some (lo, hi)"
    using x v(1) eh q(1) by (auto simp: elf_extent_def split: option.splits if_splits)
  note B = q(2) [OF this]
  have "lo \<le> a \<and> a < hi" if a: "fst s' a \<noteq> fst s a" for a
  proof (rule elf_load_cases [OF l pg, of ks ke])
    fix eh' s''
    assume e: "elf_load ks ke img s = Some (Some (e_entry eh'), s'')" "valid_ehdr img eh'"
      "list_all (seg_accepted ks ke img) (loads img eh')" "run_ops (load_segment img) (loads img eh') s = Some s''"
    have [simp]: "eh' = eh" "s'' = s'" using e(1,2) r eh by (auto simp: valid_ehdr_def)
    have "\<forall>ph \<in> set (loads img eh). \<not> seg_range ph a \<Longrightarrow> fst s' a = fst s a"
      using load_segments_spec [OF e(3) pg] e(4) by auto
    with a obtain ph where "ph \<in> set (loads img eh)" "seg_range ph a" by blast
    then show ?thesis using B by (auto simp: seg_range_def word_le_nat_alt word_less_nat_alt)
  qed (use r a in simp)
  then show ?thesis using B by simp
qed

text \<open>The range that \<open>elf_extent\<close> reports is a bound of what loading touches: it ends at or
  below 4 MiB, every loadable segment lies in it, and \<open>elf_load\<close> of the same image changes no
  byte outside it. The save and restore of \<open>exec_run\<close> rests on this.\<close>

theorem elf_extent_bounds_load:
  assumes l: "length img < 4294967296" and pg: "pt_maps U (snd s)"
    and x: "elf_extent img = Some (Some (lo, hi))"
    and r: "elf_load ks ke img s = Some (entry, s')"
  shows "unat hi \<le> 0x400000 \<and> (\<forall>a. fst s' a \<noteq> fst s a \<longrightarrow> lo \<le> a \<and> a < hi)"
  by (rule elf_extent_load [OF assms])

lemma extent_loop_tight:
  assumes "extent_loop img eh i n lo hi = Some (Some (lo', hi'))"
  shows "(\<forall>ph \<in> set (loads_from img eh i n). b \<le> p_vaddr ph) \<Longrightarrow> b \<le> lo \<Longrightarrow> b \<le> lo'"
    and "(\<forall>ph \<in> set (loads_from img eh i n). unat (p_vaddr ph) + unat (p_memsz ph) \<le> unat e) \<Longrightarrow> hi \<le> e \<Longrightarrow> hi' \<le> e"
proof -
  have "((\<forall>ph \<in> set (loads_from img eh i n). b \<le> p_vaddr ph) \<longrightarrow> b \<le> lo \<longrightarrow> b \<le> lo') \<and>
    ((\<forall>ph \<in> set (loads_from img eh i n). unat (p_vaddr ph) + unat (p_memsz ph) \<le> unat e) \<longrightarrow> hi \<le> e \<longrightarrow> hi' \<le> e)"
    using assms
  proof (induction n arbitrary: i lo hi)
    case (Suc n)
    then obtain ph where ph: "phdr_at img eh i = Some ph" by (cases "phdr_at img eh i") auto
    show ?case
    proof (cases "p_type ph = PT_LOAD")
      case False
      then show ?thesis using Suc ph by (simp add: loads_from_Suc)
    next
      case True
      let ?e = "unat (p_vaddr ph) + unat (p_memsz ph)"
      have s: "?e \<le> 0x400000" "extent_loop img eh (Suc i) n (if p_vaddr ph < lo then p_vaddr ph else lo)
          (if (of_nat ?e :: u32) > hi then of_nat ?e else hi) = Some (Some (lo', hi'))"
        using Suc.prems ph True by (auto simp: Let_def ELF_LOAD_LIMIT_def split: if_splits)
      have "unat (of_nat ?e :: u32) = ?e" using s(1) by (intro unat_of_nat32) simp
      then have "?e \<le> unat e \<Longrightarrow> (of_nat ?e :: u32) \<le> e" by (simp add: word_le_nat_alt del: of_nat_add)
      then show ?thesis using Suc.IH [OF s(2)] ph True by (auto simp: loads_from_Suc split: if_splits)
    qed
  qed simp
  then show "(\<forall>ph \<in> set (loads_from img eh i n). b \<le> p_vaddr ph) \<Longrightarrow> b \<le> lo \<Longrightarrow> b \<le> lo'"
    and "(\<forall>ph \<in> set (loads_from img eh i n). unat (p_vaddr ph) + unat (p_memsz ph) \<le> unat e) \<Longrightarrow> hi \<le> e \<Longrightarrow> hi' \<le> e" by blast+
qed

text \<open>An image that is accepted either stays on one side of the kernel or spans it.\<close>

definition hull_ok :: "u32 \<Rightarrow> u32 \<Rightarrow> u32 \<Rightarrow> u32 \<Rightarrow> bool" where
  "hull_ok ks ke lo hi \<longleftrightarrow> hi \<le> ks \<or> ke \<le> lo \<or> lo \<le> ks \<and> ke \<le> hi"

lemma elf_extent_hull:
  assumes l: "length img < 4294967296" and pg: "pt_maps U (snd s)"
    and x: "elf_extent img = Some (Some (lo, hi))"
    and r: "elf_load ks ke img s = Some (Some entry, s')"
  shows "hull_ok ks ke lo hi"
proof (rule elf_load_cases [OF l pg, of ks ke])
  fix eh s''
  assume e: "elf_load ks ke img s = Some (Some (e_entry eh), s'')" "valid_ehdr img eh" "elf_validate img = Some True"
    "list_all (seg_accepted ks ke img) (loads img eh)"
  have eh: "ehdr_of img = Some eh" using e(2) by (rule valid_ehdr_unique)
  have q: "extent_loop img eh 0 (unat (e_phnum eh)) 0xFFFFFFFF 0 = Some (Some (lo, hi))"
    using x e(3) eh by (auto simp: elf_extent_def split: option.splits if_splits bind_splits)
  have side: "unat (p_vaddr ph) + unat (p_memsz ph) \<le> unat ks \<or> ke \<le> p_vaddr ph" if "ph \<in> set (loads img eh)" for ph
  proof -
    have a: "seg_accepted ks ke img ph" using e(4) that by (auto simp: list_all_iff)
    have "unat (of_nat (unat (p_vaddr ph) + unat (p_memsz ph)) :: u32) = unat (p_vaddr ph) + unat (p_memsz ph)"
      using seg_acceptedD(3) [OF a] by (intro unat_of_nat32) simp
    then show ?thesis using a unfolding seg_accepted_def word_less_nat_alt word_le_nat_alt by linarith
  qed
  have dd: "\<exists>ph. phdr_at img eh j = Some ph" if "0 \<le> j" "j < 0 + unat (e_phnum eh)" for j
    using that phdr_at_defined [OF e(2) l] by simp
  have B: "\<forall>ph \<in> set (loads img eh). lo \<le> p_vaddr ph \<and> unat (p_vaddr ph) + unat (p_memsz ph) \<le> unat hi"
    using extent_loop_spec [of 0 "unat (e_phnum eh)" img eh "0xFFFFFFFF" 0] dd q by auto
  consider "\<forall>ph \<in> set (loads img eh). unat (p_vaddr ph) + unat (p_memsz ph) \<le> unat ks"
    | "\<forall>ph \<in> set (loads img eh). ke \<le> p_vaddr ph"
    | a b where "a \<in> set (loads img eh)" "unat (p_vaddr a) + unat (p_memsz a) \<le> unat ks" "b \<in> set (loads img eh)" "ke \<le> p_vaddr b"
    using side by blast
  then show ?thesis
  proof cases
    case 1
    then show ?thesis using extent_loop_tight(2) [OF q] by (simp add: hull_ok_def)
  next
    case 2
    have "ke \<le> 0xFFFFFFFF" using unat_u32_less [of ke] by (simp add: word_le_nat_alt)
    then show ?thesis using extent_loop_tight(1) [OF q] 2 by (simp add: hull_ok_def)
  next
    case 3
    then have "unat lo \<le> unat ks" "unat ke \<le> unat hi" using B by (fastforce simp: word_le_nat_alt)+
    then show ?thesis by (simp add: hull_ok_def word_le_nat_alt)
  qed
qed (use r in simp)

text \<open>A small image for the witnesses: one segment of four bytes of file and eight of memory at
  0x300000.\<close>

definition tiny_elf :: "u8 list" where
  "tiny_elf = [0x7f, 0x45, 0x4C, 0x46, 1, 1, 1, 0, 0, 0, 0, 0, 0, 0, 0, 0,
     2, 0, 3, 0, 1, 0, 0, 0, 0, 0, 0x30, 0, 52, 0, 0, 0, 0, 0, 0, 0, 0, 0, 0, 0,
     52, 0, 32, 0, 1, 0, 0, 0, 0, 0, 0, 0,
     1, 0, 0, 0, 84, 0, 0, 0, 0, 0, 0x30, 0, 0, 0, 0x30, 0, 4, 0, 0, 0, 8, 0, 0, 0,
     5, 0, 0, 0, 0, 0x10, 0, 0,
     0xCD, 0x80, 0xEB, 0xFE]"

definition tiny_ehdr :: elf32_ehdr where
  "tiny_ehdr = \<lparr>e_ident = take 16 tiny_elf, e_type = 2, e_machine = 3, e_version = 1, e_entry = 0x300000,
     e_phoff = 52, e_shoff = 0, e_flags = 0, e_ehsize = 52, e_phentsize = 32, e_phnum = 1,
     e_shentsize = 0, e_shnum = 0, e_shstrndx = 0\<rparr>"

definition tiny_phdr :: elf32_phdr where
  "tiny_phdr = \<lparr>p_type = 1, p_offset = 84, p_vaddr = 0x300000, p_paddr = 0x300000, p_filesz = 4,
     p_memsz = 8, p_flags = 5, p_align = 0x1000\<rparr>"

lemma get16_eq: "i < 4294967295 \<Longrightarrow> get16 bs i = ucast (bs ! i) OR push_bit 8 (ucast (bs ! (i + 1)))"
  using unat_of_nat32 [of i] unat_of_nat32 [of "i + 1"] by (simp add: get16_def load16_def add.commute)

lemma get32_eq: "i < 4294967293 \<Longrightarrow> get32 bs i = ucast (bs ! i) OR push_bit 8 (ucast (bs ! (i + 1))) OR
    push_bit 16 (ucast (bs ! (i + 2))) OR push_bit 24 (ucast (bs ! (i + 3)))"
  using unat_of_nat32 [of i] unat_of_nat32 [of "i + 1"] unat_of_nat32 [of "i + 2"] unat_of_nat32 [of "i + 3"]
  by (simp add: get32_def load32_def add.commute)

lemmas tiny_eval = tiny_elf_def get16_eq get32_eq push_bit_eq_mult

lemma tiny_ehdr_of: "ehdr_of tiny_elf = Some tiny_ehdr"
  by (simp add: ehdr_of_def tiny_ehdr_def tiny_eval)

lemma tiny_validate: "elf_validate tiny_elf = Some True"
  unfolding elf_validate_def tiny_ehdr_of
  by (simp add: tiny_ehdr_def) (simp add: tiny_elf_def)

lemma tiny_phdr_at: "phdr_at tiny_elf tiny_ehdr 0 = Some tiny_phdr"
  by (simp add: phdr_at_def phdr_of_def tiny_ehdr_def tiny_phdr_def tiny_eval)

lemma tiny_loads: "loads tiny_elf tiny_ehdr = [tiny_phdr]"
proof -
  have "unat (e_phnum tiny_ehdr) = Suc 0" by (simp add: tiny_ehdr_def)
  then show ?thesis using loads_from_Suc [OF tiny_phdr_at, of 0] by (simp add: tiny_phdr_def)
qed

lemma tiny_extent: "elf_extent tiny_elf = Some (Some (0x300000, 0x300008))"
proof -
  have "unat (e_phnum tiny_ehdr) = Suc 0" by (simp add: tiny_ehdr_def)
  then show ?thesis
    by (simp add: elf_extent_def tiny_validate tiny_ehdr_of tiny_phdr_at)
      (simp add: tiny_phdr_def ELF_LOAD_LIMIT_def)
qed

lemma tiny_load_any:
  assumes pg: "pt_maps U (snd s)"
  shows "\<exists>s'. elf_load 0x100000 0x200000 tiny_elf s = Some (Some 0x300000, s') \<and>
    fst s' 0x300000 = 0xCD \<and> fst s' 0x300004 = 0"
proof -
  have n: "unat (e_phnum tiny_ehdr) = Suc 0" by (simp add: tiny_ehdr_def)
  have acc: "seg_accepted 0x100000 0x200000 tiny_elf tiny_phdr"
    by (simp add: seg_accepted_def tiny_phdr_def ELF_LOAD_LIMIT_def) (simp add: tiny_elf_def)
  obtain s' where s': "load_segment tiny_elf tiny_phdr s = Some s'"
    "fst s' = write_bytes (fst s) (p_vaddr tiny_phdr) (seg_bytes tiny_elf tiny_phdr)"
    using load_segment_spec [OF acc pg] by blast
  have "check_loop 0x100000 0x200000 tiny_elf tiny_ehdr 0 (unat (e_phnum tiny_ehdr)) = Some True"
    using acc n tiny_phdr_at by (simp add: tiny_phdr_def)
  moreover have "load_loop tiny_elf tiny_ehdr 0 (unat (e_phnum tiny_ehdr)) s = Some s'"
    using n tiny_phdr_at s'(1) by (simp add: tiny_phdr_def)
  moreover have "e_entry tiny_ehdr = 0x300000" by (simp add: tiny_ehdr_def)
  moreover have "fst s' 0x300000 = 0xCD" "fst s' 0x300004 = 0"
    using s'(2) by (simp_all add: tiny_phdr_def seg_bytes_def write_bytes_def tiny_elf_def)
  ultimately show ?thesis
    by (simp add: elf_load_def tiny_validate tiny_ehdr_of ELF_LOAD_LIMIT_def)
qed

lemma tiny_load: "\<exists>s'. elf_load 0x100000 0x200000 tiny_elf (\<lambda>a. 0, identity_pt) = Some (Some 0x300000, s')"
  using tiny_load_any [of "\<lambda>i. False" "(\<lambda>a. 0, identity_pt)"] pt_maps_identity by auto

theorem elf_load_safe_witness:
  "\<exists>r s'. elf_load 0x100000 0x200000 tiny_elf (\<lambda>a. 0, identity_pt) = Some (r, s') \<and>
    (case r of None \<Rightarrow> s' = (\<lambda>a. 0, identity_pt) | Some entry \<Rightarrow> entry < 0x400000)"
  using elf_load_safe [of tiny_elf "\<lambda>i. False" "(\<lambda>a. 0, identity_pt)" "0x100000" "0x200000"] pt_maps_identity
  by (fastforce simp: tiny_elf_def split: option.splits)

theorem elf_load_contents_witness:
  "\<exists>s'. elf_load 0x100000 0x200000 tiny_elf (\<lambda>a. 0, identity_pt) = Some (Some 0x300000, s') \<and>
    read_bytes (fst s') 0x300000 8 = [0xCD, 0x80, 0xEB, 0xFE] @ replicate 4 0"
proof -
  obtain s' where s': "elf_load 0x100000 0x200000 tiny_elf (\<lambda>a. 0, identity_pt) = Some (Some 0x300000, s')"
    using tiny_load by blast
  have l: "length tiny_elf < 4294967296" by (simp add: tiny_elf_def)
  have "read_bytes (fst s') (p_vaddr tiny_phdr) (unat (p_memsz tiny_phdr)) = seg_bytes tiny_elf tiny_phdr"
    by (rule elf_load_contents [OF l _ s' tiny_ehdr_of, of "\<lambda>i. False"])
      (use pt_maps_identity in \<open>simp_all add: tiny_loads\<close>)
  moreover have "seg_bytes tiny_elf tiny_phdr = [0xCD, 0x80, 0xEB, 0xFE] @ replicate 4 0"
    by (simp add: tiny_phdr_def seg_bytes_def tiny_elf_def)
  moreover have "p_vaddr tiny_phdr = 0x300000" "unat (p_memsz tiny_phdr) = 8" by (simp_all add: tiny_phdr_def)
  ultimately show ?thesis using s' by (simp only:) blast
qed

theorem elf_extent_bounds_load_witness:
  "\<exists>s'. elf_load 0x100000 0x200000 tiny_elf (\<lambda>a. 0, identity_pt) = Some (Some 0x300000, s') \<and>
    (\<forall>a. fst s' a \<noteq> 0 \<longrightarrow> 0x300000 \<le> a \<and> a < 0x300008)"
proof -
  obtain s' where s': "elf_load 0x100000 0x200000 tiny_elf (\<lambda>a. 0, identity_pt) = Some (Some 0x300000, s')"
    using tiny_load by blast
  have l: "length tiny_elf < 4294967296" by (simp add: tiny_elf_def)
  show ?thesis
    using elf_extent_bounds_load [OF l _ tiny_extent s', of "\<lambda>i. False"] pt_maps_identity s' by auto
qed

end
