(* ===== verification/Elf_Stack.thy ===== *)
theory Elf_Stack
  imports Elf
begin

text \<open>
  The layout that \<open>elf_build_user_stack\<close> leaves on a new program's stack, as crt0 expects it:
  argc, the argv pointers, NULL, the envp pointers, NULL, and above them the strings.
\<close>

section \<open>Pushing words and strings\<close>

lemma write_bytes_nat:
  assumes "a + length bs \<le> 4294967296" "y < 4294967296" "bs \<noteq> []"
  shows "write_bytes m (of_nat a) bs (of_nat y) = (if a \<le> y \<and> y < a + length bs then bs ! (y - a) else m (of_nat y))"
proof -
  have al: "a < 4294967296" using assms(1,3) by (cases bs) auto
  have ua: "unat (of_nat a :: u32) = a" "unat (of_nat y :: u32) = y" using al assms(2) by (auto intro: unat_of_nat32)
  then have reg: "in_region (of_nat y) (of_nat a) (length bs) \<longleftrightarrow> a \<le> y \<and> y < a + length bs"
    using assms(1) in_region_iff [of "of_nat a" "length bs" "of_nat y"] by simp
  have "a \<le> y \<Longrightarrow> unat (of_nat y - of_nat a :: u32) = y - a"
    using unat_sub_le [of "of_nat a" "of_nat y"] ua by simp
  with reg show ?thesis by (auto simp: write_bytes_in write_bytes_out)
qed

definition strings_size :: "string list \<Rightarrow> nat" where
  "strings_size ss = (\<Sum>s \<leftarrow> ss. length s + 1)"

lemma strings_size_Cons [simp]: "strings_size (s # ss) = length s + 1 + strings_size ss"
  by (simp add: strings_size_def)

lemma strings_size_Nil [simp]: "strings_size [] = 0"
  by (simp add: strings_size_def)

text \<open>The string \<open>s\<close> with its terminator is at address \<open>p\<close>.\<close>

definition string_at :: "mem \<Rightarrow> nat \<Rightarrow> string \<Rightarrow> bool" where
  "string_at m p s \<longleftrightarrow> (\<forall>j < length s + 1. m (of_nat (p + j)) = cstr_bytes s ! j)"

lemma length_cstr_bytes [simp]: "length (cstr_bytes s) = length s + 1"
  by (simp add: cstr_bytes_def)

lemma string_at_cong:
  "(\<And>y. p \<le> y \<Longrightarrow> y < p + length s + 1 \<Longrightarrow> m' (of_nat y) = m (of_nat y)) \<Longrightarrow> string_at m p s \<Longrightarrow> string_at m' p s"
  by (auto simp: string_at_def simp del: of_nat_add)

definition strings_at :: "mem \<Rightarrow> nat \<Rightarrow> nat \<Rightarrow> nat list \<Rightarrow> string list \<Rightarrow> bool" where
  "strings_at m lo hi ps ss \<longleftrightarrow> length ps = length ss \<and>
     (\<forall>i < length ss. lo \<le> ps ! i \<and> ps ! i + length (ss ! i) + 1 \<le> hi \<and> string_at m (ps ! i) (ss ! i))"

lemma strings_at_cong:
  assumes "\<And>y. lo \<le> y \<Longrightarrow> y < hi \<Longrightarrow> m' (of_nat y) = m (of_nat y)" "strings_at m lo hi ps ss"
    "lo' \<le> lo" "hi \<le> hi'"
  shows "strings_at m' lo' hi' ps ss"
  unfolding strings_at_def
proof (intro conjI allI impI)
  show "length ps = length ss" using assms(2) by (simp add: strings_at_def)
  fix i assume i: "i < length ss"
  have s: "lo \<le> ps ! i" "ps ! i + length (ss ! i) + 1 \<le> hi" "string_at m (ps ! i) (ss ! i)"
    using assms(2) i by (auto simp: strings_at_def)
  then show "lo' \<le> ps ! i" "ps ! i + length (ss ! i) + 1 \<le> hi'" using assms(3,4) by auto
  show "string_at m' (ps ! i) (ss ! i)" using s by (intro string_at_cong [OF assms(1) s(3)]) auto
qed

lemma push_strings_spec:
  assumes "strings_size ss \<le> c" "c < 4294967296"
  shows "\<exists>ps m'. push_strings ss (m, of_nat c) = (map of_nat ps, (m', of_nat (c - strings_size ss))) \<and>
    strings_at m' (c - strings_size ss) c ps ss \<and>
    (\<forall>y < 4294967296. y < c - strings_size ss \<or> c \<le> y \<longrightarrow> m' (of_nat y) = m (of_nat y))"
  using assms
proof (induction ss arbitrary: m c)
  case Nil
  then show ?case by (auto simp: strings_at_def)
next
  case (Cons s ss)
  let ?p = "c - (length s + 1)"
  let ?m1 = "write_bytes m (of_nat ?p) (cstr_bytes s)"
  have le: "length s + 1 \<le> c" using Cons.prems(1) by simp
  have "of_nat c - (of_nat (length s) + 1) = (of_nat c - of_nat (length s + 1) :: u32)" by simp
  also have "\<dots> = of_nat ?p" using le by (simp only: of_nat_diff)
  finally have cp: "of_nat c - (of_nat (length s) + 1) = (of_nat ?p :: u32)" .
  have b: "?p - strings_size ss = c - strings_size (s # ss)" by simp
  have pre: "strings_size ss \<le> ?p" "?p < 4294967296" using Cons.prems by auto
  obtain ps m' where m': "push_strings ss (?m1, of_nat ?p) = (map of_nat ps, (m', of_nat (c - strings_size (s # ss))))"
    "strings_at m' (c - strings_size (s # ss)) ?p ps ss"
    "\<forall>y < 4294967296. y < c - strings_size (s # ss) \<or> ?p \<le> y \<longrightarrow> m' (of_nat y) = ?m1 (of_nat y)"
    using Cons.IH [OF pre, of ?m1] unfolding b by blast
  have ne: "cstr_bytes s \<noteq> []" by (simp add: cstr_bytes_def)
  have w: "?m1 (of_nat y) = (if ?p \<le> y \<and> y < c then cstr_bytes s ! (y - ?p) else m (of_nat y))"
    if "y < 4294967296" for y
    using write_bytes_nat [OF _ that ne, of ?p m] le Cons.prems(2) by simp
  have "string_at m' ?p s"
    unfolding string_at_def
  proof (intro allI impI)
    fix j assume j: "j < length s + 1"
    have pj: "?p + j < 4294967296" "?p + j < c" using j le Cons.prems(2) by auto
    then have "m' (of_nat (?p + j)) = ?m1 (of_nat (?p + j))" using m'(3) le_add1 by blast
    also have "\<dots> = cstr_bytes s ! j" unfolding w [OF pj(1)] using pj(2) by simp
    finally show "m' (of_nat (?p + j)) = cstr_bytes s ! j" .
  qed
  moreover have "strings_at m' (c - strings_size (s # ss)) c ps ss"
    by (rule strings_at_cong [OF _ m'(2)]) auto
  ultimately have "strings_at m' (c - strings_size (s # ss)) c (?p # ps) (s # ss)"
    using le Cons.prems(1) by (auto simp: strings_at_def nth_Cons split: nat.splits)
  moreover have "m' (of_nat y) = m (of_nat y)" if "y < 4294967296" "y < c - strings_size (s # ss) \<or> c \<le> y" for y
    using m'(3) w [OF that(1)] that le by auto
  ultimately show ?case
    using m'(1) cp by (intro exI [of _ "?p # ps"] exI [of _ m']) (simp add: Let_def case_prod_beta)
qed

lemma strings_total_size_eq: "strings_total_size ss = of_nat (strings_size ss)"
proof -
  have "fold (\<lambda>s total. total + (of_nat (length s) + 1)) ss t = t + (of_nat (strings_size ss) :: u32)" for t
    by (induction ss arbitrary: t) (auto simp: ac_simps)
  then show ?thesis by (simp add: strings_total_size_def)
qed

section \<open>The whole stack\<close>

definition words_at :: "mem \<Rightarrow> nat \<Rightarrow> u32 list \<Rightarrow> bool" where
  "words_at m a ws \<longleftrightarrow> (\<forall>j < length ws. load32 m (of_nat (a + 4 * j)) = ws ! j)"

definition stack_need :: "string list \<Rightarrow> string list \<Rightarrow> nat" where
  "stack_need args envs = strings_size args + strings_size envs + 4 * (length args + length envs + 3)"

text \<open>The stack at \<open>sp\<close> between \<open>base\<close> and \<open>tp\<close> holds the arguments and the environment.\<close>

definition stack_holds :: "mem \<Rightarrow> nat \<Rightarrow> nat \<Rightarrow> nat \<Rightarrow> string list \<Rightarrow> string list \<Rightarrow> bool" where
  "stack_holds m base tp sp args envs \<longleftrightarrow> base \<le> sp \<and> sp mod 4 = 0 \<and>
     (\<exists>aps eps lo. sp + 4 * (length args + length envs + 3) \<le> lo \<and> lo \<le> tp \<and>
        words_at m sp (of_nat (length args) # map of_nat aps @ [0] @ map of_nat eps @ [0]) \<and>
        strings_at m lo tp aps args \<and> strings_at m lo tp eps envs)"

lemma build_total:
  assumes "stack_need args envs < 4294967296"
  shows "unat (strings_total_size args + strings_total_size envs + (of_nat (length args) + 1) * 4
      + (of_nat (length envs) + 1) * 4 + 4 :: u32) = stack_need args envs"
proof -
  have "strings_total_size args + strings_total_size envs + (of_nat (length args) + 1) * 4
      + (of_nat (length envs) + 1) * 4 + 4 = (of_nat (stack_need args envs) :: u32)"
    by (simp add: strings_total_size_eq stack_need_def algebra_simps)
  then show ?thesis using assms by (simp only: unat_of_nat32)
qed

lemma floor4_ge: "b mod 4 = 0 \<Longrightarrow> b \<le> c \<Longrightarrow> b \<le> c div 4 * 4" for b c :: nat
  by presburger

lemma build_stack_core:
  assumes al: "base mod 4 = 0" and tp: "tp < 4294967296"
    and fit: "base + stack_need args envs \<le> tp"
  shows "\<exists>sp m'. (let (as, mc) = push_strings args (m, of_nat tp);
             (es, mc) = push_strings envs mc;
             mc = (fst mc, snd mc AND NOT 3);
             mc = push_words [0] mc;
             mc = push_words (rev es) mc;
             mc = push_words [0] mc;
             mc = push_words (rev as) mc;
             mc = push_words [of_nat (length args)] mc in
         (snd mc, fst mc)) = (of_nat sp, m') \<and> stack_holds m' base tp sp args envs \<and>
    (\<forall>y < 4294967296. y < base \<or> tp \<le> y \<longrightarrow> m' (of_nat y) = m (of_nat y))"
proof -
  have sa: "strings_size args \<le> tp" using fit by (simp add: stack_need_def)
  obtain aps m1 where s1: "push_strings args (m, of_nat tp) = (map of_nat aps, (m1, of_nat (tp - strings_size args)))"
    "strings_at m1 (tp - strings_size args) tp aps args"
    "\<forall>y < 4294967296. y < tp - strings_size args \<or> tp \<le> y \<longrightarrow> m1 (of_nat y) = m (of_nat y)"
    using push_strings_spec [OF sa tp] by blast
  let ?c1 = "tp - strings_size args" and ?c2 = "tp - strings_size args - strings_size envs"
  have se: "strings_size envs \<le> ?c1" "?c1 < 4294967296" using fit tp by (auto simp: stack_need_def)
  obtain eps m2 where s2: "push_strings envs (m1, of_nat ?c1) = (map of_nat eps, (m2, of_nat ?c2))"
    "strings_at m2 ?c2 ?c1 eps envs"
    "\<forall>y < 4294967296. y < ?c2 \<or> ?c1 \<le> y \<longrightarrow> m2 (of_nat y) = m1 (of_nat y)"
    using push_strings_spec [OF se] by blast
  define c3 where "c3 = ?c2 div 4 * 4"
  define ws where "ws = [0] @ rev (map of_nat eps) @ [0] @ rev (map of_nat aps) @ [of_nat (length args) :: u32]"
  have la: "length aps = length args" "length eps = length envs"
    using s1(2) s2(2) by (auto simp: strings_at_def)
  then have lw: "length ws = length args + length envs + 3" by (simp add: ws_def)
  have "(of_nat ?c2 AND NOT 3 :: u32) = of_nat c3"
  proof -
    have "unat (of_nat ?c2 :: u32) = ?c2" using tp by (intro unat_of_nat32) simp
    then have "c3 = unat (of_nat ?c2 AND NOT 3 :: u32)" by (simp only: and_not_3 c3_def)
    then show ?thesis by (simp only:) simp
  qed
  note align = this
  have b4: "base + 4 * length ws \<le> c3"
    unfolding c3_def using al fit lw by (intro floor4_ge) (auto simp: stack_need_def)
  have c3: "c3 \<le> ?c2" by (simp add: c3_def)
  have w: "4 * length ws \<le> c3" "c3 < 4294967296" using b4 c3 tp by auto
  let ?sp = "c3 - 4 * length ws"
  obtain m3 where m3: "push_words ws (m2, of_nat c3) = (m3, of_nat ?sp)"
    "\<forall>j < length ws. load32 m3 (of_nat (?sp + 4 * j)) = rev ws ! j"
    "\<forall>y < 4294967296. y < ?sp \<or> c3 \<le> y \<longrightarrow> m3 (of_nat y) = m2 (of_nat y)"
    using push_words_spec [OF w] by blast
  have words: "words_at m3 ?sp (of_nat (length args) # map of_nat aps @ [0] @ map of_nat eps @ [0])"
    using m3(2) by (simp add: words_at_def ws_def)
  have "strings_at m3 c3 tp eps envs"
    using m3(3) c3 tp by (intro strings_at_cong [OF _ s2(2)]) auto
  moreover have "strings_at m3 c3 tp aps args"
    using m3(3) s2(3) c3 tp by (intro strings_at_cong [OF _ s1(2)]) auto
  moreover have "?sp mod 4 = 0" unfolding c3_def using w(1) [unfolded c3_def] by (simp add: mod_diff_right_eq flip: mod_0_imp_dvd)
  ultimately have "stack_holds m3 base tp ?sp args envs"
    unfolding stack_holds_def using words b4 w(1) lw c3
    by (intro conjI exI [of _ aps] exI [of _ eps] exI [of _ c3]) auto
  moreover have "m3 (of_nat y) = m (of_nat y)" if "y < 4294967296" "y < base \<or> tp \<le> y" for y
    using that m3(3) s2(3) s1(3) b4 c3 by auto
  moreover have "push_words [of_nat (length args)] (push_words (rev (map of_nat aps)) (push_words [0]
      (push_words (rev (map of_nat eps)) (push_words [0] (m2, of_nat c3))))) = (m3, of_nat ?sp)"
    using m3(1) unfolding ws_def push_words_append .
  ultimately show ?thesis
    using s1(1) s2(1) align by (intro exI [of _ ?sp] exI [of _ m3]) (simp add: Let_def del: push_words.simps)
qed

lemma build_stack_spec:
  assumes "unat stack_base mod 4 = 0" "stack_base \<le> stack_top"
    and "stack_need (strings_of argv) (strings_of envp) < 4294967296"
  shows "\<exists>sp m'. elf_build_user_stack stack_base stack_top argv envp m = (of_nat sp, m') \<and>
    (if unat stack_base + stack_need (strings_of argv) (strings_of envp) \<le> unat stack_top
     then stack_holds m' (unat stack_base) (unat stack_top) sp (strings_of argv) (strings_of envp) \<and>
       (\<forall>a. a < stack_base \<or> stack_top \<le> a \<longrightarrow> m' a = m a)
     else sp = 0 \<and> m' = m)"
proof -
  let ?as = "strings_of argv" and ?es = "strings_of envp"
  have "unat (stack_top - stack_base) = unat stack_top - unat stack_base"
    using assms(2) by (intro unat_sub_le) (simp add: word_le_nat_alt)
  then have chk: "(strings_total_size ?as + strings_total_size ?es + (of_nat (length ?as) + 1) * 4
      + (of_nat (length ?es) + 1) * 4 + 4 > stack_top - stack_base)
      = (\<not> unat stack_base + stack_need ?as ?es \<le> unat stack_top)"
    unfolding word_less_nat_alt build_total [OF assms(3)]
    using assms(2) by (auto simp: word_le_nat_alt)
  show ?thesis
  proof (cases "unat stack_base + stack_need ?as ?es \<le> unat stack_top")
    case False
    then have "elf_build_user_stack stack_base stack_top argv envp m = (of_nat 0, m)"
      unfolding elf_build_user_stack_def Let_def using chk by simp
    with False show ?thesis by (intro exI [of _ 0] exI [of _ m]) simp
  next
    case True
    obtain sp m' where c: "(let (as, mc) = push_strings ?as (m, of_nat (unat stack_top));
             (es, mc) = push_strings ?es mc;
             mc = (fst mc, snd mc AND NOT 3);
             mc = push_words [0] mc;
             mc = push_words (rev es) mc;
             mc = push_words [0] mc;
             mc = push_words (rev as) mc;
             mc = push_words [of_nat (length ?as)] mc in
         (snd mc, fst mc)) = (of_nat sp, m')"
      "stack_holds m' (unat stack_base) (unat stack_top) sp ?as ?es"
      "\<forall>y < 4294967296. y < unat stack_base \<or> unat stack_top \<le> y \<longrightarrow> m' (of_nat y) = m (of_nat y)"
      using build_stack_core [OF assms(1) unat_u32_less True] by blast
    have "m' a = m a" if "a < stack_base \<or> stack_top \<le> a" for a
      using c(3) [rule_format, of "unat a"] that unat_u32_less [of a]
      by (auto simp: word_less_nat_alt word_le_nat_alt)
    moreover have "elf_build_user_stack stack_base stack_top argv envp m = (of_nat sp, m')"
      using c(1) chk True unfolding elf_build_user_stack_def by (simp add: Let_def)
    ultimately show ?thesis using c(2) True by auto
  qed
qed

text \<open>C32: \<open>elf_build_user_stack\<close> on a 4-byte aligned stack area either refuses (0, memory
  unchanged) because the arguments do not fit, or returns a 4-byte aligned stack pointer inside
  the area at which memory holds argc, the argv pointers, NULL, the envp pointers and NULL, each
  pointer leading to the copied string with its terminator, all inside the area and clear of the
  pointer arrays; no byte outside the area changes. The alignment gap is covered although the
  size check does not count it.\<close>

theorem build_user_stack_layout:
  assumes "unat stack_base mod 4 = 0" "stack_base \<le> stack_top"
    and "stack_need (strings_of argv) (strings_of envp) < 4294967296"
  shows "\<exists>sp m'. elf_build_user_stack stack_base stack_top argv envp m = (of_nat sp, m') \<and>
    (if unat stack_base + stack_need (strings_of argv) (strings_of envp) \<le> unat stack_top
     then stack_holds m' (unat stack_base) (unat stack_top) sp (strings_of argv) (strings_of envp) \<and>
       (\<forall>a. a < stack_base \<or> stack_top \<le> a \<longrightarrow> m' a = m a)
     else sp = 0 \<and> m' = m)"
  by (rule build_stack_spec [OF assms])

theorem build_user_stack_layout_witness:
  "\<exists>sp m'. elf_build_user_stack 0x2FB000 0x2FF000 (Some [''cowsay'', ''moo'']) None (\<lambda>a. 0) = (of_nat sp, m') \<and>
    stack_holds m' 0x2FB000 0x2FF000 sp [''cowsay'', ''moo''] []"
  using build_user_stack_layout [of "0x2FB000" "0x2FF000" "Some [''cowsay'', ''moo'']" None "\<lambda>a. 0"]
  by (auto simp: strings_of_def stack_need_def)

end
