(* ===== verification/Sched.thy ===== *)
theory Sched
  imports Kmalloc Paging
begin

text \<open>
  The scheduler, \<open>kernel/arch/i386/sched.c\<close> and \<open>kernel/include/kernel/sched.h\<close>: the ring of
  tasks, round-robin selection, lookup, reaping and creation. Task structures are a store from
  their addresses; an access to an address that holds no task is undefined (\<open>None\<close>), so is the
  use of a task after it was freed. The ring walks end only on a well-formed ring and are partial
  functions. \<open>sched_switch\<close> is assembly; \<open>schedule\<close> reports the pair of tasks it switches between.
  The record is the part of the kernel state that the process functions share: all of memory is
  \<open>km_mem\<close> of the heap component.
\<close>

section \<open>State\<close>

datatype states = TASK_RUNNING | TASK_READY | TASK_DEAD | TASK_BLOCKED

record task =
  t_esp :: u32
  t_stack :: u32
  t_stack_size :: u32
  t_state :: states
  t_pid :: u32
  t_next :: u32
  t_heap_alloc :: bool
  t_parent :: u32
  t_zombie_valid :: bool
  t_zombie_pid :: u32
  t_zombie_status :: int
  t_elf_lo :: u32
  t_elf_hi :: u32
  t_has_frame :: bool
  t_frame_off :: u32
  t_frame_stack_len :: u32
  t_frame_img_base :: u32
  t_frame_img_len :: u32
  t_frame_brk :: u32

definition zero_task :: task where
  "zero_task = \<lparr>t_esp = 0, t_stack = 0, t_stack_size = 0, t_state = TASK_RUNNING, t_pid = 0, t_next = 0,
     t_heap_alloc = False, t_parent = 0, t_zombie_valid = False, t_zombie_pid = 0, t_zombie_status = 0,
     t_elf_lo = 0, t_elf_hi = 0, t_has_frame = False, t_frame_off = 0, t_frame_stack_len = 0,
     t_frame_img_base = 0, t_frame_img_len = 0, t_frame_brk = 0\<rparr>"

record kern =
  tasks :: "u32 \<Rightarrow> task option"
  current_task :: u32
  next_pid :: u32
  tss_esp0 :: u32
  kheap :: kheap
  kpaging :: paging
  exec_pool :: mem
  exec_pool_used :: u32
  user_brk :: u32

text \<open>Updating a task through its pointer.\<close>

definition upd_task :: "u32 \<Rightarrow> (task \<Rightarrow> task) \<Rightarrow> kern \<Rightarrow> kern option" where
  "upd_task p f k = map_option (\<lambda>t. k\<lparr>tasks := (tasks k)(p := Some (f t))\<rparr>) (tasks k p)"

abbreviation ram :: "kern \<Rightarrow> mem" where
  "ram k \<equiv> km_mem (kheap k)"

abbreviation set_ram :: "mem \<Rightarrow> kern \<Rightarrow> kern" where
  "set_ram m k \<equiv> k\<lparr>kheap := (kheap k)\<lparr>km_mem := m\<rparr>\<rparr>"

section \<open>Code\<close>

definition sched_init :: "u32 \<Rightarrow> kern \<Rightarrow> kern option" where
  "sched_init task0 k =
     map_option (\<lambda>k'. k'\<lparr>next_pid := next_pid k + 1, current_task := task0\<rparr>)
       (upd_task task0 (\<lambda>t. t\<lparr>t_state := TASK_RUNNING, t_pid := next_pid k, t_next := task0\<rparr>) k)"

text \<open>The loop of \<open>schedule\<close>: the first ready task from \<open>next_task\<close> on, or \<open>None\<close> when the walk
  is back at the current task.\<close>

partial_function (option) find_ready :: "kern \<Rightarrow> u32 \<Rightarrow> u32 option option" where
  "find_ready k next_task =
     (if next_task \<noteq> current_task k then
        (case tasks k next_task of
           None \<Rightarrow> None
         | Some t \<Rightarrow> if t_state t = TASK_READY then Some (Some next_task)
                     else find_ready k (t_next t))
      else Some None)"

definition switch_to :: "u32 \<Rightarrow> kern \<Rightarrow> kern option" where
  "switch_to next_task k =
     do {
       p \<leftarrow> tasks k (current_task k);
       k1 \<leftarrow> (if t_state p = TASK_RUNNING
              then upd_task (current_task k) (\<lambda>t. t\<lparr>t_state := TASK_READY\<rparr>) k else Some k);
       k2 \<leftarrow> upd_task next_task (\<lambda>t. t\<lparr>t_state := TASK_RUNNING\<rparr>) (k1\<lparr>current_task := next_task\<rparr>);
       n \<leftarrow> tasks k2 next_task;
       Some (k2\<lparr>tss_esp0 := t_stack n + t_stack_size n\<rparr>)
     }"

definition schedule :: "kern \<Rightarrow> ((u32 \<times> u32) option \<times> kern) option" where
  "schedule k =
     (if current_task k = 0 then Some (None, k)
      else do {
        c \<leftarrow> tasks k (current_task k);
        r \<leftarrow> find_ready k (t_next c);
        (case r of
           None \<Rightarrow> Some (None, k)
         | Some next_task \<Rightarrow>
             map_option (\<lambda>k'. (Some (current_task k, next_task), k')) (switch_to next_task k))
      })"

partial_function (option) find_pid :: "kern \<Rightarrow> u32 \<Rightarrow> u32 \<Rightarrow> u32 option" where
  "find_pid k pid t =
     (case tasks k t of
        None \<Rightarrow> None
      | Some tk \<Rightarrow>
          if t_pid tk = pid \<and> t_state tk \<noteq> TASK_DEAD then Some t
          else if t_next tk \<noteq> current_task k then find_pid k pid (t_next tk)
          else Some 0)"

definition sched_find_task :: "u32 \<Rightarrow> kern \<Rightarrow> u32 option" where
  "sched_find_task pid k = (if current_task k = 0 then Some 0 else find_pid k pid (current_task k))"

text \<open>Freeing the memory of a task; its address no longer holds one.\<close>

definition free_task :: "u32 \<Rightarrow> u32 \<Rightarrow> kern \<Rightarrow> kern option" where
  "free_task he p k =
     do {
       t \<leftarrow> tasks k p;
       h1 \<leftarrow> kfree he (t_stack t) (kheap k);
       h2 \<leftarrow> kfree he p h1;
       Some (k\<lparr>kheap := h2, tasks := (tasks k)(p := None)\<rparr>)
     }"

partial_function (option) reap_loop :: "u32 \<Rightarrow> u32 \<Rightarrow> u32 \<Rightarrow> kern \<Rightarrow> kern option" where
  "reap_loop he prev t k =
     (if t \<noteq> current_task k then
        (case tasks k t of
           None \<Rightarrow> None
         | Some tk \<Rightarrow>
             if t_state tk = TASK_DEAD \<and> t_heap_alloc tk then
               Option.bind (upd_task prev (\<lambda>p. p\<lparr>t_next := t_next tk\<rparr>) k)
                 (\<lambda>k1. Option.bind (free_task he t k1)
                   (\<lambda>k2. reap_loop he prev (t_next tk) k2))
             else reap_loop he t (t_next tk) k)
      else Some k)"

definition sched_reap :: "u32 \<Rightarrow> kern \<Rightarrow> kern option" where
  "sched_reap he k =
     Option.bind (tasks k (current_task k)) (\<lambda>c. reap_loop he (current_task k) (t_next c) k)"

text \<open>\<open>sizeof(task_t)\<close> is 76 on i386. The words pushed on the new kernel stack, from its top:
  the arguments of \<open>enter_user_mode_at\<close>, its return address, and the registers that
  \<open>sched_switch\<close> pops.\<close>

definition initial_frame :: "u32 \<Rightarrow> u32 \<Rightarrow> u32 \<Rightarrow> u32 list" where
  "initial_frame enter entry user_stack_top = [user_stack_top, entry, 0, enter, 0, 0, 0, 0]"

definition sched_task_new :: "u32 \<Rightarrow> u32 \<Rightarrow> u32 \<Rightarrow> u32 \<Rightarrow> u32 \<Rightarrow> kern \<Rightarrow> (u32 \<times> kern) option" where
  "sched_task_new hs he enter entry user_stack_top k0 =
     do {
       k \<leftarrow> sched_reap he k0;
       (task, h1) \<leftarrow> kmalloc hs he 76 (kheap k);
       (if task = 0 then Some (0, k\<lparr>kheap := h1\<rparr>)
        else do {
          (stack, h2) \<leftarrow> kmalloc hs he 4096 h1;
          (if stack = 0 then do {
             h3 \<leftarrow> kfree he task h2;
             Some (0, k\<lparr>kheap := h3\<rparr>)
           }
           else do {
             c \<leftarrow> tasks k (current_task k);
             (let (m, sp) = push_words (initial_frame enter entry user_stack_top)
                              (km_mem h2, stack + 4096);
                  t = zero_task\<lparr>t_stack := stack, t_stack_size := 4096, t_heap_alloc := True,
                        t_esp := sp, t_state := TASK_READY, t_pid := next_pid k, t_next := t_next c\<rparr>;
                  k1 = k\<lparr>kheap := h2\<lparr>km_mem := m\<rparr>, next_pid := next_pid k + 1,
                         tasks := (tasks k)(task \<mapsto> t)\<rparr> in
              map_option (Pair task)
                (upd_task (current_task k) (\<lambda>c. c\<lparr>t_next := task\<rparr>) k1))
           })
        })
     }"

definition sched_task_create :: "u32 \<Rightarrow> u32 \<Rightarrow> u32 \<Rightarrow> u32 \<Rightarrow> u32 \<Rightarrow> kern \<Rightarrow> ((u32 \<times> u32) option \<times> kern) option" where
  "sched_task_create hs he enter entry user_stack_top k =
     do {
       (t, k1) \<leftarrow> sched_task_new hs he enter entry user_stack_top k;
       (if t \<noteq> 0 then schedule k1 else Some (None, k1))
     }"

section \<open>The ring\<close>

text \<open>\<open>path k t xs e\<close>: following \<open>next\<close> from \<open>t\<close> visits exactly the tasks \<open>xs\<close> and arrives at \<open>e\<close>.\<close>

fun path :: "kern \<Rightarrow> u32 \<Rightarrow> u32 list \<Rightarrow> u32 \<Rightarrow> bool" where
  "path k t [] e \<longleftrightarrow> t = e"
| "path k t (x # xs) e \<longleftrightarrow> x = t \<and> (\<exists>tk. tasks k t = Some tk \<and> path k (t_next tk) xs e)"

lemma path_append: "path k t (xs @ ys) e \<longleftrightarrow> (\<exists>m. path k t xs m \<and> path k m ys e)"
  by (induction xs arbitrary: t) auto

lemma path_cong:
  "(\<And>x. x \<in> set xs \<Longrightarrow> map_option t_next (tasks k' x) = map_option t_next (tasks k x)) \<Longrightarrow>
    path k t xs e \<Longrightarrow> path k' t xs e"
proof (induction xs arbitrary: t)
  case (Cons x xs)
  then obtain tk where tk: "x = t" "tasks k t = Some tk" "path k (t_next tk) xs e" by auto
  have "map_option t_next (tasks k' x) = map_option t_next (tasks k x)" using Cons.prems(1) by simp
  then obtain tk' where "tasks k' t = Some tk'" "t_next tk' = t_next tk" using tk by (cases "tasks k' t") auto
  moreover have "path k' (t_next tk) xs e" using Cons.IH [OF _ tk(3)] Cons.prems(1) by simp
  ultimately show ?case using tk(1) by auto
qed simp

lemma path_member: "path k t xs e \<Longrightarrow> x \<in> set xs \<Longrightarrow> \<exists>tk. tasks k x = Some tk"
  by (induction xs arbitrary: t) auto

text \<open>The tasks other than the current one, in the order the walks meet them.\<close>

definition ring :: "kern \<Rightarrow> u32 list \<Rightarrow> bool" where
  "ring k rest \<longleftrightarrow> 0 \<notin> set (current_task k # rest) \<and> distinct (current_task k # rest) \<and>
     path k (current_task k) (current_task k # rest) (current_task k)"

definition task_state :: "kern \<Rightarrow> u32 \<Rightarrow> states option" where
  "task_state k p = map_option t_state (tasks k p)"

lemma ringD:
  assumes "ring k rest"
  obtains c where "tasks k (current_task k) = Some c" "path k (t_next c) rest (current_task k)"
    "current_task k \<notin> set rest" "distinct rest" "current_task k \<noteq> 0"
  using assms by (auto simp: ring_def)

lemma find_ready_spec:
  assumes "path k t xs (current_task k)" "current_task k \<notin> set xs"
  shows "find_ready k t = Some (find (\<lambda>x. task_state k x = Some TASK_READY) xs)"
  using assms
proof (induction xs arbitrary: t)
  case Nil
  then show ?case by (subst find_ready.simps) simp
next
  case (Cons x xs)
  then obtain tk where "x = t" "tasks k t = Some tk" "path k (t_next tk) xs (current_task k)" by auto
  with Cons show ?case
    by (subst find_ready.simps) (auto simp: task_state_def)
qed

lemma find_pid_spec:
  assumes "path k t (t # xs) (current_task k)" "current_task k \<notin> set xs"
  shows "find_pid k pid t = Some (case find (\<lambda>x. \<exists>tk. tasks k x = Some tk \<and> t_pid tk = pid \<and> t_state tk \<noteq> TASK_DEAD) (t # xs)
    of None \<Rightarrow> 0 | Some x \<Rightarrow> x)"
  using assms
proof (induction xs arbitrary: t)
  case Nil
  then show ?case by (subst find_pid.simps) auto
next
  case (Cons x xs)
  then obtain tk where tk: "tasks k t = Some tk" "t_next tk = x" "path k x (x # xs) (current_task k)" by auto
  moreover have "x \<noteq> current_task k" "current_task k \<notin> set xs" using Cons.prems(2) by auto
  ultimately show ?case
    using Cons.IH [OF tk(3)] by (subst find_pid.simps) simp
qed

section \<open>Round robin\<close>

lemma switch_to_eq:
  assumes "tasks k (current_task k) = Some c" "tasks k n = Some tn" "n \<noteq> current_task k"
  shows "switch_to n k = Some (k\<lparr>current_task := n, tss_esp0 := t_stack tn + t_stack_size tn,
    tasks := (tasks k)(current_task k \<mapsto> (if t_state c = TASK_RUNNING then c\<lparr>t_state := TASK_READY\<rparr> else c),
                       n \<mapsto> tn\<lparr>t_state := TASK_RUNNING\<rparr>)\<rparr>)"
proof -
  have "(tasks k)(current_task k \<mapsto> c) = tasks k" using assms(1) by (simp add: fun_upd_idem)
  then show ?thesis using assms by (simp add: switch_to_def upd_task_def)
qed

lemma ring_rotate:
  assumes r: "ring k (xs @ n # ys)"
    and k': "current_task k' = n" "\<And>x. map_option t_next (tasks k' x) = map_option t_next (tasks k x)"
  shows "ring k' (ys @ current_task k # xs)"
proof -
  let ?c = "current_task k"
  have p: "path k ?c ((?c # xs) @ n # ys) ?c" and d: "distinct (?c # xs @ n # ys)" "0 \<notin> set (?c # xs @ n # ys)"
    using r by (auto simp: ring_def)
  obtain m where m: "path k ?c (?c # xs) m" "path k m (n # ys) ?c" using p unfolding path_append by blast
  then have "m = n" by simp
  with m have "path k n ((n # ys) @ ?c # xs) n" unfolding path_append by blast
  then have "path k' n ((n # ys) @ ?c # xs) n" by (rule path_cong [rotated]) (use k'(2) in simp)
  with d k'(1) show ?thesis by (auto simp: ring_def)
qed

lemma schedule_spec:
  assumes r: "ring k rest"
  shows "case find (\<lambda>x. task_state k x = Some TASK_READY) rest of
      None \<Rightarrow> schedule k = Some (None, k)
    | Some n \<Rightarrow> \<exists>k' xs ys c tn. rest = xs @ n # ys \<and> (\<forall>x \<in> set xs. task_state k x \<noteq> Some TASK_READY) \<and>
        tasks k (current_task k) = Some c \<and> tasks k n = Some tn \<and>
        schedule k = Some (Some (current_task k, n), k') \<and> ring k' (ys @ current_task k # xs) \<and>
        k' = k\<lparr>current_task := n, tss_esp0 := t_stack tn + t_stack_size tn,
          tasks := (tasks k)(current_task k \<mapsto> (if t_state c = TASK_RUNNING then c\<lparr>t_state := TASK_READY\<rparr> else c),
                             n \<mapsto> tn\<lparr>t_state := TASK_RUNNING\<rparr>)\<rparr>"
proof -
  obtain c where c: "tasks k (current_task k) = Some c" "path k (t_next c) rest (current_task k)"
    "current_task k \<notin> set rest" "current_task k \<noteq> 0" by (rule ringD [OF r])
  have fr: "find_ready k (t_next c) = Some (find (\<lambda>x. task_state k x = Some TASK_READY) rest)"
    by (rule find_ready_spec [OF c(2,3)])
  show ?thesis
  proof (cases "find (\<lambda>x. task_state k x = Some TASK_READY) rest")
    case None
    then show ?thesis using c fr by (simp add: schedule_def)
  next
    case (Some n)
    then obtain i where i: "i < length rest" "task_state k (rest ! i) = Some TASK_READY" "n = rest ! i"
      "\<forall>j < i. task_state k (rest ! j) \<noteq> Some TASK_READY" by (auto simp: find_Some_iff)
    have split: "rest = take i rest @ n # drop (Suc i) rest" using i by (simp add: id_take_nth_drop)
    have first: "\<forall>x \<in> set (take i rest). task_state k x \<noteq> Some TASK_READY"
      using i(4) by (auto simp: in_set_conv_nth)
    obtain tn where tn: "tasks k n = Some tn" using i(2,3) by (auto simp: task_state_def)
    have ne: "n \<noteq> current_task k" using c(3) i by (metis nth_mem)
    note sw = switch_to_eq [OF c(1) tn ne]
    let ?k' = "k\<lparr>current_task := n, tss_esp0 := t_stack tn + t_stack_size tn,
      tasks := (tasks k)(current_task k \<mapsto> (if t_state c = TASK_RUNNING then c\<lparr>t_state := TASK_READY\<rparr> else c),
                         n \<mapsto> tn\<lparr>t_state := TASK_RUNNING\<rparr>)\<rparr>"
    have run: "schedule k = Some (Some (current_task k, n), ?k')"
      using c fr Some sw by (simp add: schedule_def)
    have r': "ring k (take i rest @ n # drop (Suc i) rest)" using r split by simp
    have ring': "ring ?k' (drop (Suc i) rest @ current_task k # take i rest)"
      by (rule ring_rotate [OF r']) (use c(1) tn in auto)
    show ?thesis unfolding Some option.case
      by (intro exI conjI) (rule split first c(1) tn run ring' refl)+
  qed
qed

text \<open>C28: \<open>schedule\<close> on a well-formed ring always ends. It switches to the first ready task after
  the current one in ring order; that task becomes the running one, a running predecessor becomes
  ready, a blocked or dead one keeps its state, the TSS stack is the new task's, nothing else
  changes, and the ring stays well-formed with the old task at its place. With no ready task it
  returns without any change.\<close>

theorem schedule_round_robin:
  assumes r: "ring k rest"
  shows "case find (\<lambda>x. task_state k x = Some TASK_READY) rest of
      None \<Rightarrow> schedule k = Some (None, k)
    | Some n \<Rightarrow> \<exists>k' xs ys c tn. rest = xs @ n # ys \<and> (\<forall>x \<in> set xs. task_state k x \<noteq> Some TASK_READY) \<and>
        tasks k (current_task k) = Some c \<and> tasks k n = Some tn \<and>
        schedule k = Some (Some (current_task k, n), k') \<and> ring k' (ys @ current_task k # xs) \<and>
        k' = k\<lparr>current_task := n, tss_esp0 := t_stack tn + t_stack_size tn,
          tasks := (tasks k)(current_task k \<mapsto> (if t_state c = TASK_RUNNING then c\<lparr>t_state := TASK_READY\<rparr> else c),
                             n \<mapsto> tn\<lparr>t_state := TASK_RUNNING\<rparr>)\<rparr>"
  by (rule schedule_spec [OF assms])

text \<open>A ring of three tasks at 0x1000 (running, process 1), 0x2000 (blocked, 2) and 0x3000 (ready, 3).\<close>

definition three_tasks :: kern where
  "three_tasks =
     \<lparr>tasks = [0x1000 \<mapsto> zero_task\<lparr>t_pid := 1, t_next := 0x2000\<rparr>,
               0x2000 \<mapsto> zero_task\<lparr>t_pid := 2, t_next := 0x3000, t_state := TASK_BLOCKED\<rparr>,
               0x3000 \<mapsto> zero_task\<lparr>t_pid := 3, t_next := 0x1000, t_state := TASK_READY,
                                       t_stack := 0x8000, t_stack_size := 4096\<rparr>],
      current_task = 0x1000, next_pid = 4, tss_esp0 = 0,
      kheap = \<lparr>km_mem = (\<lambda>a. 0), heap_base = 0, heap_ptr = 0\<rparr>, kpaging = identity_pt,
      exec_pool = (\<lambda>a. 0), exec_pool_used = 0, user_brk = 0\<rparr>"

lemma ring_three_tasks: "ring three_tasks [0x2000, 0x3000]"
  by (simp add: ring_def three_tasks_def zero_task_def)

theorem schedule_round_robin_witness:
  "\<exists>k'. schedule three_tasks = Some (Some (0x1000, 0x3000), k') \<and> ring k' [0x1000, 0x2000] \<and>
    current_task k' = 0x3000 \<and> tss_esp0 k' = 0x9000 \<and> task_state k' 0x1000 = Some TASK_READY"
proof -
  have f: "find (\<lambda>x. task_state three_tasks x = Some TASK_READY) [0x2000, 0x3000] = Some 0x3000"
    by (simp add: task_state_def three_tasks_def zero_task_def)
  have c: "current_task three_tasks = 0x1000" "tasks three_tasks 0x1000 = Some (zero_task\<lparr>t_pid := 1, t_next := 0x2000\<rparr>)"
    "tasks three_tasks 0x3000 = Some (zero_task\<lparr>t_pid := 3, t_next := 0x1000, t_state := TASK_READY,
       t_stack := 0x8000, t_stack_size := 4096\<rparr>)"
    by (simp_all add: three_tasks_def)
  obtain k' xs ys where k': "[0x2000, 0x3000] = xs @ 0x3000 # ys" "schedule three_tasks = Some (Some (0x1000, 0x3000), k')"
    "ring k' (ys @ 0x1000 # xs)" "current_task k' = 0x3000" "tss_esp0 k' = 0x9000"
    "task_state k' 0x1000 = Some TASK_READY"
    using schedule_round_robin [OF ring_three_tasks] unfolding f option.case c
    by (auto simp: task_state_def zero_task_def)
  moreover from k'(1) have "xs = [0x2000] \<and> ys = []"
    by (cases xs) (auto simp: Cons_eq_append_conv)
  ultimately show ?thesis by auto
qed

text \<open>\<open>sched_find_task\<close> on a well-formed ring always ends, and returns the first task, from the
  current one on, that has the process number and is not dead, or NULL when there is none.\<close>

theorem sched_find_task_correct:
  assumes r: "ring k rest"
  shows "sched_find_task pid k = Some
    (case find (\<lambda>x. \<exists>tk. tasks k x = Some tk \<and> t_pid tk = pid \<and> t_state tk \<noteq> TASK_DEAD) (current_task k # rest)
     of None \<Rightarrow> 0 | Some x \<Rightarrow> x)"
proof -
  have c: "path k (current_task k) (current_task k # rest) (current_task k)" "current_task k \<notin> set rest"
    "current_task k \<noteq> 0" using r by (auto simp: ring_def)
  show ?thesis unfolding sched_find_task_def if_not_P [OF c(3)] by (rule find_pid_spec [OF c(1,2)])
qed

theorem sched_find_task_correct_witness:
  "sched_find_task 3 three_tasks = Some 0x3000 \<and> sched_find_task 9 three_tasks = Some 0"
  using sched_find_task_correct [OF ring_three_tasks, of 3] sched_find_task_correct [OF ring_three_tasks, of 9]
  by (simp add: three_tasks_def zero_task_def)

end
