(* ===== verification/Sched_Inv.thy ===== *)
theory Sched_Inv
  imports Sched "HOL-Library.Multiset"
begin

text \<open>
  The ring of tasks together with the heap it lives in: every task that was allocated owns its
  structure and its kernel stack as live blocks of \<open>kmalloc\<close>, all of them different. Reaping dead
  tasks and creating a task (\<open>sched_reap\<close>, \<open>sched_task_new\<close> of \<open>kernel/arch/i386/sched.c\<close>) keep
  this, by the laws of the allocator interface (\<open>kh\<close>).
\<close>

section \<open>Ownership\<close>

definition owned_by :: "kern \<Rightarrow> u32 \<Rightarrow> nat list" where
  "owned_by k p = (case tasks k p of None \<Rightarrow> []
     | Some t \<Rightarrow> if t_heap_alloc t then [unat p, unat (t_stack t)] else [])"

definition owned :: "kern \<Rightarrow> u32 list \<Rightarrow> nat list" where
  "owned k ps = concat (map (owned_by k) ps)"

definition static_apart :: "u32 \<Rightarrow> u32 \<Rightarrow> kern \<Rightarrow> u32 \<Rightarrow> bool" where
  "static_apart hs he k p \<longleftrightarrow> (\<forall>t. tasks k p = Some t \<longrightarrow> t_heap_alloc t \<or> unat p < unat hs \<or> unat he \<le> unat p)"

definition sched_inv :: "u32 \<Rightarrow> u32 \<Rightarrow> kern \<Rightarrow> u32 list \<Rightarrow> (nat \<times> nat) set \<Rightarrow> bool" where
  "sched_inv hs he k rest L \<longleftrightarrow> ring k rest \<and> krep hs he (kheap k) L \<and>
     distinct (owned k (current_task k # rest)) \<and>
     (\<forall>a \<in> set (owned k (current_task k # rest)). \<exists>n. (a, n) \<in> L) \<and>
     (\<forall>p \<in> set (current_task k # rest). static_apart hs he k p)"

lemma owned_append: "owned k (xs @ ys) = owned k xs @ owned k ys"
  by (simp add: owned_def)

lemma owned_Cons: "owned k (x # xs) = owned_by k x @ owned k xs"
  by (simp add: owned_def)

lemma owned_by_next: "tasks k p = Some t \<Longrightarrow> owned_by (k\<lparr>tasks := (tasks k)(p \<mapsto> t\<lparr>t_next := n\<rparr>)\<rparr>) = owned_by k"
  by (rule ext) (simp add: owned_by_def)

lemma owned_cong: "(\<And>x. x \<in> set xs \<Longrightarrow> owned_by k' x = owned_by k x) \<Longrightarrow> owned k' xs = owned k xs"
  by (induction xs) (auto simp: owned_def)

text \<open>Equal up to the link.\<close>

definition same_task :: "task option \<Rightarrow> task option \<Rightarrow> bool" where
  "same_task = rel_option (\<lambda>t' t. \<exists>n. t' = t\<lparr>t_next := n\<rparr>)"

lemma same_task_refl [simp]: "same_task a a"
  unfolding same_task_def by (rule option.rel_refl) (metis task.surjective task.update_convs(6))

lemma same_task_trans: "same_task a b \<Longrightarrow> same_task b c \<Longrightarrow> same_task a c"
  by (cases a; cases b; cases c) (auto simp: same_task_def)

lemma same_task_next [simp]: "same_task (Some (t\<lparr>t_next := n\<rparr>)) (Some t)"
  by (auto simp: same_task_def)

lemma same_taskD:
  assumes "same_task a (Some t)"
  obtains n where "a = Some (t\<lparr>t_next := n\<rparr>)"
  using assms by (cases a) (auto simp: same_task_def)

lemma owned_by_same: "same_task (tasks k' x) (tasks k x) \<Longrightarrow> owned_by k' x = owned_by k x"
  by (cases "tasks k' x"; cases "tasks k x") (auto simp: same_task_def owned_by_def)

lemma static_apart_same: "same_task (tasks k' x) (tasks k x) \<Longrightarrow> static_apart hs he k' x = static_apart hs he k x"
  by (cases "tasks k' x"; cases "tasks k x") (auto simp: same_task_def static_apart_def)

section \<open>Reaping\<close>

definition reapable :: "kern \<Rightarrow> u32 \<Rightarrow> bool" where
  "reapable k p \<longleftrightarrow> (\<exists>t. tasks k p = Some t \<and> t_state t = TASK_DEAD \<and> t_heap_alloc t)"

lemma ring_unlink:
  assumes r: "ring k (xs @ t # ys)" and tk: "tasks k t = Some tk" and pr: "tasks k (last (current_task k # xs)) = Some pr"
    and k': "current_task k' = current_task k"
      "\<And>x. x \<noteq> t \<Longrightarrow> x \<noteq> last (current_task k # xs) \<Longrightarrow> tasks k' x = tasks k x"
      "tasks k' (last (current_task k # xs)) = Some (pr\<lparr>t_next := t_next tk\<rparr>)"
  shows "ring k' (xs @ ys)"
proof -
  let ?c = "current_task k"
  define z p where "z = butlast (?c # xs)" and "p = last (?c # xs)"
  have zs: "?c # xs = z @ [p]" by (simp add: z_def p_def)
  have e: "?c # xs @ w = z @ p # w" for w using arg_cong [OF zs, of "\<lambda>l. l @ w"] by simp
  note k'' = k'(2,3) [folded p_def] and pr' = pr [folded p_def]
  have d: "distinct (z @ p # t # ys)" "0 \<notin> set (z @ p # t # ys)" "path k ?c (z @ p # t # ys) ?c"
    using r unfolding ring_def e by auto
  then have p: "path k ?c z p" "path k (t_next tk) ys ?c"
    using tk pr' by (auto simp: path_append)
  have keep: "tasks k' x = tasks k x" if "x \<in> set z \<union> set ys" for x
    using that d(1) k''(1) [of x] by auto
  have "path k' ?c z p" by (rule path_cong [OF _ p(1)]) (use keep in auto)
  moreover have "path k' (t_next tk) ys ?c" by (rule path_cong [OF _ p(2)]) (use keep in auto)
  ultimately have "path k' ?c (z @ p # ys) ?c" using k''(2) by (auto simp: path_append)
  with d(1,2) show ?thesis unfolding ring_def k'(1) e by auto
qed

lemma sched_inv_member: "sched_inv hs he k rest L \<Longrightarrow> p \<in> set (current_task k # rest) \<Longrightarrow> \<exists>t. tasks k p = Some t"
  unfolding sched_inv_def ring_def using path_member by blast

lemma reap_step:
  assumes inv: "sched_inv hs he k (xs @ t # ys) L" and tk: "tasks k t = Some tk" "t_heap_alloc tk"
  shows "\<exists>k1 k' L'. upd_task (last (current_task k # xs)) (\<lambda>p. p\<lparr>t_next := t_next tk\<rparr>) k = Some k1 \<and>
    free_task he t k1 = Some k' \<and> sched_inv hs he k' (xs @ ys) L' \<and> k'\<lparr>tasks := tasks k, kheap := kheap k\<rparr> = k \<and>
    same_out (unat hs) (unat he) (ram k) (ram k') \<and>
    (\<forall>x. x \<noteq> t \<longrightarrow> same_task (tasks k' x) (tasks k x)) \<and>
    (\<forall>x. x \<noteq> t \<longrightarrow> x \<noteq> last (current_task k # xs) \<longrightarrow> tasks k' x = tasks k x)"
proof -
  let ?c = "current_task k" and ?p = "last (current_task k # xs)"
  have I: "ring k (xs @ t # ys)" "krep hs he (kheap k) L" "distinct (owned k (?c # xs @ t # ys))"
    "\<And>a. a \<in> set (owned k (?c # xs @ t # ys)) \<Longrightarrow> \<exists>n. (a, n) \<in> L"
    "\<And>p. p \<in> set (?c # xs @ t # ys) \<Longrightarrow> static_apart hs he k p"
    using inv unfolding sched_inv_def by blast+
  have pin: "?p \<in> set (?c # xs)" by (rule last_in_set) simp
  have t: "t \<notin> set (?c # xs @ ys)" using I(1) by (auto simp: ring_def)
  then have pt: "?p \<noteq> t" using pin by auto
  obtain pr where pr: "tasks k ?p = Some pr" using sched_inv_member [OF inv, of ?p] pin by auto
  let ?k1 = "k\<lparr>tasks := (tasks k)(?p \<mapsto> pr\<lparr>t_next := t_next tk\<rparr>)\<rparr>"
  have ob: "owned_by k t = [unat t, unat (t_stack tk)]" using tk by (simp add: owned_by_def)
  have tin: "unat t \<in> set (owned k (?c # xs @ t # ys))" "unat (t_stack tk) \<in> set (owned k (?c # xs @ t # ys))"
    by (simp_all add: owned_append owned_Cons ob)
  obtain n1 n2 where n: "(unat t, n1) \<in> L" "(unat (t_stack tk), n2) \<in> L" using I(4) tin by blast
  have o: "distinct (owned k (?c # xs @ ys))" "unat t \<noteq> unat (t_stack tk)"
    "unat t \<notin> set (owned k (?c # xs @ ys))" "unat (t_stack tk) \<notin> set (owned k (?c # xs @ ys))"
    using I(3) unfolding owned_append owned_Cons ob by auto
  obtain h1 where h1: "kfree he (t_stack tk) (kheap k) = Some h1" "krep hs he h1 (L - {(unat (t_stack tk), n2)})"
    "same_out (unat hs) (unat he) (ram k) (km_mem h1)"
    using kh.free_ok [OF I(2) n(2)] by auto
  have "(unat t, n1) \<in> L - {(unat (t_stack tk), n2)}" using n o(2) by auto
  from kh.free_ok [OF h1(2) this] obtain h2 where h2: "kfree he t h1 = Some h2"
    "krep hs he h2 (L - {(unat (t_stack tk), n2)} - {(unat t, n1)})"
    "same_out (unat hs) (unat he) (km_mem h1) (km_mem h2)" by auto
  note out = same_out_trans [OF h1(3) h2(3)]
  let ?k' = "?k1\<lparr>kheap := h2, tasks := (tasks ?k1)(t := None)\<rparr>"
  have same: "same_task (tasks ?k' x) (tasks k x)" if "x \<noteq> t" for x
    using that pr by (cases "x = ?p") auto
  have ow: "owned ?k' (?c # xs @ ys) = owned k (?c # xs @ ys)"
    by (rule owned_cong, rule owned_by_same, rule same) (use t in auto)
  have "ring ?k' (xs @ ys)" by (rule ring_unlink [OF I(1) tk(1) pr]) (use pt in auto)
  moreover have "\<exists>n. (a, n) \<in> L - {(unat (t_stack tk), n2)} - {(unat t, n1)}" if "a \<in> set (owned k (?c # xs @ ys))" for a
    using that o(3,4) I(4) [of a] by (auto simp: owned_append owned_Cons)
  moreover have "static_apart hs he ?k' p" if "p \<in> set (?c # xs @ ys)" for p
  proof -
    have "p \<noteq> t" "p \<in> set (?c # xs @ t # ys)" using that t by auto
    then show ?thesis using I(5) static_apart_same [OF same, of p hs he] by blast
  qed
  ultimately have "sched_inv hs he ?k' (xs @ ys) (L - {(unat (t_stack tk), n2)} - {(unat t, n1)})"
    using h2(2) o(1) ow by (simp add: sched_inv_def)
  moreover have "upd_task ?p (\<lambda>p. p\<lparr>t_next := t_next tk\<rparr>) k = Some ?k1" using pr by (simp add: upd_task_def)
  moreover have "free_task he t ?k1 = Some ?k'" using tk(1) pt h1(1) h2(1) by (simp add: free_task_def)
  ultimately show ?thesis using same out by (intro exI conjI) (assumption | simp)+
qed

lemma reapable_same: "same_task (tasks k' x) (tasks k x) \<Longrightarrow> reapable k' x = reapable k x"
  by (cases "tasks k' x"; cases "tasks k x") (auto simp: same_task_def reapable_def)

lemma reap_loop_spec:
  assumes "sched_inv hs he k (xs @ ys) L" "path k t ys (current_task k)"
  shows "\<exists>k' L'. reap_loop he (last (current_task k # xs)) t k = Some k' \<and>
    sched_inv hs he k' (xs @ filter (\<lambda>x. \<not> reapable k x) ys) L' \<and>
    k'\<lparr>tasks := tasks k, kheap := kheap k\<rparr> = k \<and>
    same_out (unat hs) (unat he) (ram k) (ram k') \<and>
    (\<forall>x. x \<notin> set ys \<or> \<not> reapable k x \<longrightarrow> same_task (tasks k' x) (tasks k x))"
  using assms
proof (induction ys arbitrary: k xs t L)
  case Nil
  then show ?case by (subst reap_loop.simps) auto
next
  case (Cons y ys)
  let ?c = "current_task k"
  have r: "ring k (xs @ y # ys)" using Cons.prems(1) by (simp add: sched_inv_def)
  then have y: "y \<noteq> ?c" "y \<notin> set ys" by (auto simp: ring_def)
  obtain tk where tk: "y = t" "tasks k t = Some tk" "path k (t_next tk) ys ?c" using Cons.prems(2) by auto
  show ?case
  proof (cases "reapable k y")
    case False
    have "sched_inv hs he k ((xs @ [y]) @ ys) L" using Cons.prems(1) by simp
    from Cons.IH [OF this tk(3)] False y tk(1,2) show ?thesis
      by (subst reap_loop.simps) (auto simp: reapable_def)
  next
    case True
    then have d: "t_state tk = TASK_DEAD" "t_heap_alloc tk" using tk(1,2) by (auto simp: reapable_def)
    obtain k1 k2 L2 where s: "upd_task (last (?c # xs)) (\<lambda>p. p\<lparr>t_next := t_next tk\<rparr>) k = Some k1"
      "free_task he t k1 = Some k2" "sched_inv hs he k2 (xs @ ys) L2"
      "k2\<lparr>tasks := tasks k, kheap := kheap k\<rparr> = k"
      "same_out (unat hs) (unat he) (ram k) (ram k2)" "\<And>x. x \<noteq> t \<Longrightarrow> same_task (tasks k2 x) (tasks k x)"
      "\<And>x. x \<noteq> t \<Longrightarrow> x \<noteq> last (?c # xs) \<Longrightarrow> tasks k2 x = tasks k x"
      using reap_step [of hs he k xs t ys L tk] Cons.prems(1) tk d(2) by auto
    have c2: "current_task k2 = ?c" by (metis s(4) kern.select_convs(2) kern.surjective kern.update_convs(1,5))
    have "last (?c # xs) \<notin> set ys" using r last_in_set [of "?c # xs"] by (auto simp: ring_def)
    then have "path k2 (t_next tk) ys (current_task k2)"
      unfolding c2 by (intro path_cong [OF _ tk(3)]) (use s(7) y(2) tk(1) in fastforce)
    from Cons.IH [OF s(3) this] obtain k' L' where k': "reap_loop he (last (?c # xs)) (t_next tk) k2 = Some k'"
      "sched_inv hs he k' (xs @ filter (\<lambda>x. \<not> reapable k2 x) ys) L'" "k'\<lparr>tasks := tasks k2, kheap := kheap k2\<rparr> = k2"
      "same_out (unat hs) (unat he) (ram k2) (ram k')"
      "\<And>x. x \<notin> set ys \<or> \<not> reapable k2 x \<Longrightarrow> same_task (tasks k' x) (tasks k2 x)" unfolding c2 by blast
    have rp: "reapable k2 x = reapable k x" if "x \<noteq> t" for x by (rule reapable_same [OF s(6) [OF that]])
    then have "reapable k2 x = reapable k x" if "x \<in> set ys" for x using that y(2) tk(1) by metis
    then have "filter (\<lambda>x. \<not> reapable k2 x) ys = filter (\<lambda>x. \<not> reapable k x) (y # ys)"
      using True by (auto cong: filter_cong)
    moreover have "k'\<lparr>tasks := tasks k, kheap := kheap k\<rparr> = k"
      using k'(3) s(4) by (metis (mono_tags, lifting) kern.surjective kern.update_convs(1,5))
    moreover have "same_task (tasks k' x) (tasks k x)" if "x \<notin> set (y # ys) \<or> \<not> reapable k x" for x
      using that True tk(1) rp [of x] s(6) [of x] k'(5) [of x] by (auto intro: same_task_trans)
    moreover have "reap_loop he (last (?c # xs)) t k = Some k'"
      using y(1) tk(1,2) d s(1,2) k'(1) by (subst reap_loop.simps) simp
    ultimately show ?thesis using k'(2) same_out_trans [OF s(5) k'(4)] by auto
  qed
qed

lemma sched_reap_spec:
  assumes inv: "sched_inv hs he k rest L"
  shows "\<exists>k' L'. sched_reap he k = Some k' \<and> sched_inv hs he k' (filter (\<lambda>x. \<not> reapable k x) rest) L' \<and>
    k'\<lparr>tasks := tasks k, kheap := kheap k\<rparr> = k \<and>
    same_out (unat hs) (unat he) (ram k) (ram k') \<and>
    (\<forall>x. x \<notin> set rest \<or> \<not> reapable k x \<longrightarrow> same_task (tasks k' x) (tasks k x))"
proof -
  have "ring k rest" using inv by (simp add: sched_inv_def)
  then obtain c where c: "tasks k (current_task k) = Some c" "path k (t_next c) rest (current_task k)"
    by (rule ringD)
  then show ?thesis
    using reap_loop_spec [of hs he k "[]" rest L "t_next c"] inv by (simp add: sched_reap_def)
qed

section \<open>Creating a task\<close>

lemma ring_insert:
  assumes r: "ring k rest" and c: "tasks k (current_task k) = Some c"
    and n: "n \<noteq> 0" "n \<notin> set (current_task k # rest)"
    and k': "current_task k' = current_task k" "tasks k' (current_task k) = Some (c\<lparr>t_next := n\<rparr>)"
      "tasks k' n = Some t" "t_next t = t_next c" "\<And>x. x \<in> set rest \<Longrightarrow> tasks k' x = tasks k x"
  shows "ring k' (n # rest)"
proof -
  have "path k (t_next c) rest (current_task k)" using r c by (auto simp: ring_def)
  then have "path k' (t_next c) rest (current_task k)" by (rule path_cong [rotated]) (simp add: k'(5))
  then show ?thesis using r n k' by (auto simp: ring_def)
qed

lemma sched_inv_insert:
  assumes inv: "sched_inv hs he k rest L" and c: "tasks k (current_task k) = Some c"
    and q: "\<And>j. (q, j) \<notin> L" "\<And>j. (w, j) \<notin> L" "q \<noteq> w" "0 < q" "q < 4294967296" "w < 4294967296"
      "unat hs \<le> q" "q < unat he"
    and h: "krep hs he h (insert (w, n2) (insert (q, n1) L))"
    and t: "t_heap_alloc t" "t_stack t = of_nat w" "t_next t = t_next c"
    and k': "k' = k\<lparr>kheap := h, next_pid := np, tasks := ((tasks k)(of_nat q \<mapsto> t))
      (current_task k \<mapsto> c\<lparr>t_next := of_nat q\<rparr>)\<rparr>"
  shows "sched_inv hs he k' (of_nat q # rest) (insert (w, n2) (insert (q, n1) L)) \<and>
    of_nat q \<notin> set (current_task k # rest)"
proof -
  let ?c = "current_task k" and ?q = "of_nat q :: u32"
  have uq: "unat ?q = q" "unat (of_nat w :: u32) = w" using q by (simp_all add: unat_of_nat32)
  have I: "ring k rest" "distinct (owned k (?c # rest))"
    "\<And>a. a \<in> set (owned k (?c # rest)) \<Longrightarrow> \<exists>n. (a, n) \<in> L"
    "\<And>p. p \<in> set (?c # rest) \<Longrightarrow> static_apart hs he k p"
    using inv unfolding sched_inv_def by blast+
  have fresh: "?q \<notin> set (?c # rest)"
  proof
    assume m: "?q \<in> set (?c # rest)"
    then obtain t0 where t0: "tasks k ?q = Some t0" using sched_inv_member [OF inv] by blast
    have "q \<in> set (owned_by k ?q)" using I(4) [OF m] t0 uq(1) q(7,8) by (auto simp: static_apart_def owned_by_def)
    with m have "q \<in> set (owned k (?c # rest))" unfolding owned_def by auto
    with I(3) q(1) show False by blast
  qed
  then have cq: "?c \<noteq> ?q" by auto
  have "?q \<noteq> 0" using uq(1) q(4) by auto
  then have "ring k' (?q # rest)"
    by (rule ring_insert [OF I(1) c _ fresh, where t = t]) (use fresh t(3) I(1) in \<open>auto simp: k' ring_def\<close>)
  moreover have same: "same_task (tasks k' x) (tasks k x)" if "x \<in> set (?c # rest)" for x
    using that fresh c by (cases "x = ?c") (auto simp: k')
  then have "owned k' (?c # rest) = owned k (?c # rest)" by (intro owned_cong owned_by_same)
  then have "mset (owned k' (?c # rest)) = mset (owned k (?c # rest))" by (rule arg_cong)
  moreover have "owned_by k' ?q = [q, w]" using cq t uq by (simp add: k' owned_by_def)
  ultimately have o: "ring k' (?q # rest)" "mset (owned k' (?c # ?q # rest)) = mset (q # w # owned k (?c # rest))"
    by (simp_all add: owned_Cons)
  have "distinct (q # w # owned k (?c # rest))" using I(2,3) q(1,2,3) by auto
  then have "distinct (owned k' (?c # ?q # rest))" using mset_eq_imp_distinct_iff [OF o(2)] by blast
  moreover have "set (owned k' (?c # ?q # rest)) = insert q (insert w (set (owned k (?c # rest))))"
    using mset_eq_setD [OF o(2)] by simp
  moreover have "static_apart hs he k' p" if "p \<in> set (?c # ?q # rest)" for p
    using that I(4) [of p] static_apart_same [OF same, of p hs he] cq t(1) by (auto simp: k' static_apart_def)
  moreover have "\<exists>n. (a, n) \<in> insert (w, n2) (insert (q, n1) L)" if "a \<in> insert q (insert w (set (owned k (?c # rest))))" for a
    using that I(3) [of a] by blast
  moreover have "current_task k' = ?c" "kheap k' = h" by (simp_all add: k')
  ultimately show ?thesis using o(1) h fresh unfolding sched_inv_def by simp
qed

lemma krep_hs: "krep hs he s L \<Longrightarrow> hs \<noteq> 0"
  by (auto simp: krep_def kheap_fresh_def kheap_ok_def heap_end_is_def)

text \<open>The new kernel stack: the eight words \<open>sched_switch\<close> pops are on top, and the block keeps
  the heap intact.\<close>

lemma initial_stack:
  assumes h: "krep hs he h L" "(w, n) \<in> L" "4096 \<le> n"
  obtains m sp where "push_words (initial_frame enter entry ustack) (km_mem h, of_nat w + 4096) = (m, sp)"
    "krep hs he (h\<lparr>km_mem := m\<rparr>) L" "same_out (unat hs) (unat he) (km_mem h) m" "sp = of_nat (w + 4064)"
    "\<And>j. j < 8 \<Longrightarrow> load32 m (sp + of_nat (4 * j)) = [0, 0, 0, 0, enter, 0, entry, ustack] ! j"
proof -
  have b: "w + 4096 < 4294967296"
    using kh.region_in [OF h(1,2)] h(3) unat_u32_less [of he] by linarith
  let ?ws = "initial_frame enter entry ustack"
  have l: "length ?ws = 8" by (simp add: initial_frame_def)
  have pre: "4 * length ?ws \<le> w + 4096" "w + 4096 - 4 * 8 = w + 4064" using l by simp_all
  obtain m where m: "push_words ?ws (km_mem h, of_nat (w + 4096)) = (m, of_nat (w + 4064))"
    "\<And>j. j < 8 \<Longrightarrow> load32 m (of_nat (w + 4064 + 4 * j)) = rev ?ws ! j"
    "\<And>y. y < 4294967296 \<Longrightarrow> y < w + 4064 \<or> w + 4096 \<le> y \<Longrightarrow> m (of_nat y) = km_mem h (of_nat y)"
    using push_words_spec [OF pre(1) b, of "km_mem h"] unfolding l pre(2) by blast
  have "krep hs he (h\<lparr>km_mem := m\<rparr>) L" by (rule krep_write_ok [OF h(1,2) m(3)]) (use h(3) in auto)
  moreover have "same_out (unat hs) (unat he) (km_mem h) m"
    using m(3) kh.region_in [OF h(1,2)] h(3) by (auto simp: same_out_def)
  moreover have "rev ?ws = [0, 0, 0, 0, enter, 0, entry, ustack]" by (simp add: initial_frame_def)
  ultimately show thesis using m(1,2) by (intro that [of m "of_nat (w + 4064)"]) (simp_all add: add_ac)
qed

lemma sched_inv_heap:
  assumes "sched_inv hs he k rest L" "krep hs he h L'" "L \<subseteq> L'"
  shows "sched_inv hs he (k\<lparr>kheap := h\<rparr>) rest L'"
proof -
  let ?k = "k\<lparr>kheap := h\<rparr>"
  have ob: "owned ?k xs = owned k xs" "static_apart hs he ?k p = static_apart hs he k p" for xs p
    by (rule owned_cong, simp add: owned_by_def) (simp add: static_apart_def)
  have pth: "path ?k t xs e = path k t xs e" for t xs e by (induction xs arbitrary: t) auto
  have r: "ring ?k rest = ring k rest" by (simp only: ring_def pth) simp
  have I: "ring k rest" "distinct (owned k (current_task k # rest))"
    "\<forall>a \<in> set (owned k (current_task k # rest)). \<exists>n. (a, n) \<in> L"
    "\<forall>p \<in> set (current_task k # rest). static_apart hs he k p"
    using assms(1) unfolding sched_inv_def by blast+
  have "\<forall>a \<in> set (owned k (current_task k # rest)). \<exists>n. (a, n) \<in> L'" using I(3) assms(3) by blast
  with I assms(2) show ?thesis unfolding sched_inv_def r ob by simp
qed

text \<open>Allocation of the two blocks and linking, after the reaping.\<close>

lemma task_alloc:
  assumes inv: "sched_inv hs he k rest L" and he: "unat he + 5000 < 4294967296"
    and c: "tasks k (current_task k) = Some c"
    and a1: "kmalloc hs he 76 (kheap k) = Some (p, h1)" "p \<noteq> 0"
    and a2: "kmalloc hs he 4096 h1 = Some (w, h2)" "w \<noteq> 0"
    and ps: "push_words (initial_frame enter entry ustack) (km_mem h2, w + 4096) = (m, sp)"
    and t: "t = zero_task\<lparr>t_stack := w, t_stack_size := 4096, t_heap_alloc := True, t_esp := sp,
      t_state := TASK_READY, t_pid := pid, t_next := t_next c\<rparr>"
    and k': "k' = k\<lparr>kheap := h2\<lparr>km_mem := m\<rparr>, next_pid := np,
      tasks := ((tasks k)(p \<mapsto> t))(current_task k \<mapsto> c\<lparr>t_next := p\<rparr>)\<rparr>"
  shows "(\<exists>L'. sched_inv hs he k' (p # rest) L') \<and> same_out (unat hs) (unat he) (ram k) (ram k') \<and> p \<notin> set (current_task k # rest) \<and> sp + 32 = w + 4096 \<and>
    (\<forall>j < 8. load32 m (sp + of_nat (4 * j)) = [0, 0, 0, 0, enter, 0, entry, ustack] ! j)"
proof -
  have K: "krep hs he (kheap k) L" using inv by (simp add: sched_inv_def)
  have lim: "unat (76 :: u32) \<le> 4294967283 - unat he" "unat (4096 :: u32) \<le> 4294967283 - unat he" using he by auto
  obtain q n1 where q: "p = of_nat q" "unat (76 :: u32) \<le> n1" "\<forall>j. (q, j) \<notin> L" "krep hs he h1 (insert (q, n1) L)"
    "same_out (unat hs) (unat he) (ram k) (km_mem h1)"
    using kh.alloc_ok [OF K _ lim(1)] a1 by auto
  obtain v n2 where v: "w = of_nat v" "unat (4096 :: u32) \<le> n2" "\<forall>j. (v, j) \<notin> insert (q, n1) L"
    "krep hs he h2 (insert (v, n2) (insert (q, n1) L))" "same_out (unat hs) (unat he) (km_mem h1) (km_mem h2)"
    using kh.alloc_ok [OF q(4) _ lim(2)] a2 by auto
  have B: "unat hs \<le> q" "q + n1 \<le> unat he" "v + n2 \<le> unat he"
    using kh.region_in [OF v(4), of q n1] kh.region_in [OF v(4), of v n2] by auto
  have u: "q < 4294967296" "v < 4294967296" using B unat_u32_less [of he] by linarith+
  have q0: "0 < q" using q(1) a1(2) by (cases q) auto
  obtain m' sp' where s: "push_words (initial_frame enter entry ustack) (km_mem h2, of_nat v + 4096) = (m', sp')"
    "krep hs he (h2\<lparr>km_mem := m'\<rparr>) (insert (v, n2) (insert (q, n1) L))"
    "same_out (unat hs) (unat he) (km_mem h2) m'" "sp' = of_nat (v + 4064)"
    "\<And>j. j < 8 \<Longrightarrow> load32 m' (sp' + of_nat (4 * j)) = [0, 0, 0, 0, enter, 0, entry, ustack] ! j"
    by (rule initial_stack [OF v(4), of v n2 enter entry ustack]) (use v(2) in auto)
  have e: "m' = m" "sp' = sp" using s(1) ps v(1) by auto
  have "sched_inv hs he k' (of_nat q # rest) (insert (v, n2) (insert (q, n1) L)) \<and> of_nat q \<notin> set (current_task k # rest)"
    by (rule sched_inv_insert [OF inv c _ _ _ q0 u B(1) _ s(2) _ _ _ k' [unfolded q(1), folded e(1)]])
      (use q v B in \<open>auto simp: t\<close>)
  moreover have "sp + 32 = w + 4096" using s(4) e(2) v(1) by simp
  moreover have "same_out (unat hs) (unat he) (ram k) (ram k')"
    using same_out_trans [OF same_out_trans [OF q(5) v(5)] s(3)] e(1) by (simp add: k')
  ultimately show ?thesis using s(5) e q(1) by blast
qed

lemma sched_task_new_spec:
  assumes inv: "sched_inv hs he k rest L" and he: "unat he + 5000 < 4294967296"
  shows "\<exists>r k' L'. sched_task_new hs he enter entry ustack k = Some (r, k') \<and>
    k'\<lparr>tasks := tasks k, kheap := kheap k, next_pid := next_pid k\<rparr> = k \<and>
    same_out (unat hs) (unat he) (ram k) (ram k') \<and>
    (\<forall>x. x \<noteq> r \<and> (x \<notin> set rest \<or> \<not> reapable k x) \<longrightarrow> same_task (tasks k' x) (tasks k x)) \<and>
    (if r = 0 then sched_inv hs he k' (filter (\<lambda>x. \<not> reapable k x) rest) L' \<and> next_pid k' = next_pid k
     else sched_inv hs he k' (r # filter (\<lambda>x. \<not> reapable k x) rest) L' \<and> next_pid k' = next_pid k + 1 \<and>
       (\<exists>t. tasks k' r = Some t \<and> t_state t = TASK_READY \<and> t_pid t = next_pid k \<and> t_parent t = 0 \<and> t_elf_hi t = 0 \<and> \<not> t_has_frame t \<and>
          t_stack_size t = 4096 \<and> t_esp t + 32 = t_stack t + 4096 \<and>
          (\<forall>j < 8. load32 (ram k') (t_esp t + of_nat (4 * j)) = [0, 0, 0, 0, enter, 0, entry, ustack] ! j)))"
proof -
  let ?rest = "filter (\<lambda>x. \<not> reapable k x) rest"
  obtain k1 L1 where k1: "sched_reap he k = Some k1" "sched_inv hs he k1 ?rest L1"
    "k1\<lparr>tasks := tasks k, kheap := kheap k\<rparr> = k" "same_out (unat hs) (unat he) (ram k) (ram k1)"
    "\<forall>x. x \<notin> set rest \<or> \<not> reapable k x \<longrightarrow> same_task (tasks k1 x) (tasks k x)"
    using sched_reap_spec [OF inv] by blast
  have k1f: "current_task k1 = current_task k" "next_pid k1 = next_pid k"
    by (metis k1(3) kern.select_convs(2,3) kern.surjective kern.update_convs(1,5))+
  have K: "krep hs he (kheap k1) L1" using k1(2) by (simp add: sched_inv_def)
  have lim: "unat (76 :: u32) \<le> 4294967283 - unat he" "unat (4096 :: u32) \<le> 4294967283 - unat he" using he by auto
  obtain c where c: "tasks k1 (current_task k1) = Some c" using sched_inv_member [OF k1(2)] by auto
  have k1g: "k1\<lparr>tasks := tasks k, kheap := kheap k, next_pid := next_pid k\<rparr> = k"
    using k1(3) by (metis k1f(2) kern.surjective kern.update_convs(1,3,5))
  obtain p h1 La where a1: "kmalloc hs he 76 (kheap k1) = Some (p, h1)" "krep hs he h1 La" "L1 \<subseteq> La"
    "same_out (unat hs) (unat he) (ram k1) (km_mem h1)"
    "p \<noteq> 0 \<Longrightarrow> \<exists>q n. p = of_nat q \<and> (q, n) \<in> La \<and> (\<forall>j. (q, j) \<notin> L1)"
    using kh.alloc_ok [OF K _ lim(1)] by (fastforce)
  obtain w h2 Lb where a2: "kmalloc hs he 4096 h1 = Some (w, h2)" "krep hs he h2 Lb" "La \<subseteq> Lb"
    "same_out (unat hs) (unat he) (km_mem h1) (km_mem h2)"
    using kh.alloc_ok [OF a1(2) _ lim(2)] by fastforce
  consider "p = 0" | "p \<noteq> 0" "w = 0" | "p \<noteq> 0" "w \<noteq> 0" by blast
  then show ?thesis
  proof cases
    case 1
    then have "sched_task_new hs he enter entry ustack k = Some (0, k1\<lparr>kheap := h1\<rparr>)"
      using k1(1) a1(1) by (simp add: sched_task_new_def)
    then show ?thesis using sched_inv_heap [OF k1(2) a1(2,3)] k1(5) k1f k1g same_out_trans [OF k1(4) a1(4)] by auto
  next
    case 2
    then obtain q n where q: "p = of_nat q" "(q, n) \<in> La" "\<forall>j. (q, j) \<notin> L1" using a1(5) by blast
    then obtain h3 where h3: "kfree he p h2 = Some h3" "krep hs he h3 (Lb - {(q, n)})"
      "same_out (unat hs) (unat he) (km_mem h2) (km_mem h3)"
      using kh.free_ok [OF a2(2), of q n] a2(3) by auto
    have "sched_task_new hs he enter entry ustack k = Some (0, k1\<lparr>kheap := h3\<rparr>)"
      using k1(1) a1(1) a2(1) h3(1) 2 by (simp add: sched_task_new_def)
    moreover have "sched_inv hs he (k1\<lparr>kheap := h3\<rparr>) ?rest (Lb - {(q, n)})"
      by (rule sched_inv_heap [OF k1(2) h3(2)]) (use q a1(3) a2(3) in auto)
    moreover have "same_out (unat hs) (unat he) (ram k) (km_mem h3)"
      by (rule same_out_trans [OF k1(4)], rule same_out_trans [OF a1(4)], rule same_out_trans [OF a2(4) h3(3)])
    ultimately show ?thesis using k1(5) k1f k1g by auto
  next
    case 3
    obtain m sp where ps: "push_words (initial_frame enter entry ustack) (km_mem h2, w + 4096) = (m, sp)"
      by (cases "push_words (initial_frame enter entry ustack) (km_mem h2, w + 4096)")
    define t where "t = zero_task\<lparr>t_stack := w, t_stack_size := 4096, t_heap_alloc := True, t_esp := sp,
      t_state := TASK_READY, t_pid := next_pid k1, t_next := t_next c\<rparr>"
    define k' where "k' = k1\<lparr>kheap := h2\<lparr>km_mem := m\<rparr>, next_pid := next_pid k1 + 1,
      tasks := ((tasks k1)(p \<mapsto> t))(current_task k1 \<mapsto> c\<lparr>t_next := p\<rparr>)\<rparr>"
    obtain L' where T: "sched_inv hs he k' (p # ?rest) L'" "p \<notin> set (current_task k1 # ?rest)"
      "same_out (unat hs) (unat he) (ram k1) (ram k')" "sp + 32 = w + 4096"
      "\<forall>j < 8. load32 m (sp + of_nat (4 * j)) = [0, 0, 0, 0, enter, 0, entry, ustack] ! j"
      using task_alloc [OF k1(2) he c a1(1) 3(1) a2(1) 3(2) ps t_def k'_def] by blast
    have r: "sched_task_new hs he enter entry ustack k = Some (p, k')"
      using k1(1) a1(1) a2(1) 3 ps c T(2) by (auto simp: sched_task_new_def upd_task_def t_def k'_def Let_def)
    have "same_task (tasks k' x) (tasks k1 x)" if "x \<noteq> p" for x
      using that c by (cases "x = current_task k1") (auto simp: k'_def)
    then have "\<forall>x. x \<noteq> p \<and> (x \<notin> set rest \<or> \<not> reapable k x) \<longrightarrow> same_task (tasks k' x) (tasks k x)"
      using k1(5) same_task_trans by blast
    moreover have "tasks k' p = Some t" "ram k' = m" using T(2) by (auto simp: k'_def)
    moreover have "t_state t = TASK_READY" "t_pid t = next_pid k" "t_parent t = 0" "t_elf_hi t = 0" "\<not> t_has_frame t" "t_stack_size t = 4096"
      "t_esp t = sp" "t_stack t = w" by (simp_all add: t_def zero_task_def k1f)
    moreover have "next_pid k' = next_pid k + 1" by (simp add: k'_def k1f)
    moreover have "k'\<lparr>tasks := tasks k, kheap := kheap k, next_pid := next_pid k\<rparr> = k" using k1g by (simp add: k'_def)
    ultimately show ?thesis using r T 3 same_out_trans [OF k1(4) T(3)] by auto
  qed
qed


text \<open>The kernel after \<open>sched_init\<close>: the boot task alone in the ring, the heap untouched.\<close>

definition boot_kern :: kern where
  "boot_kern =
     \<lparr>tasks = [0x9000 \<mapsto> zero_task\<lparr>t_pid := 1, t_next := 0x9000\<rparr>], current_task = 0x9000, next_pid = 2,
      tss_esp0 = 0, kheap = \<lparr>km_mem = (\<lambda>a. 0), heap_base = 0, heap_ptr = 0\<rparr>, kpaging = identity_pt,
      exec_pool = (\<lambda>a. 0), exec_pool_used = 0, user_brk = 0\<rparr>"

lemma sched_inv_boot: "sched_inv 0x10000 0x20000 boot_kern [] {}"
  by (simp add: sched_inv_def ring_def boot_kern_def zero_task_def owned_def owned_by_def static_apart_def
      krep_def kheap_fresh_def virgin_def load32_def KMALLOC_MAGIC_def)


end
