(* ===== verification/Abi.thy ===== *)
theory Abi
  imports Prelude
begin

text \<open>
  The constants and structures that kernel and user programs share,
  \<open>libc/include/sys/abi.h\<close>: error numbers, open flags, mode bits, seek origins, the stat and
  time structures, and the system call numbers.
\<close>

abbreviation (input) SYS_open2 :: u32 where "SYS_open2 \<equiv> 22"
abbreviation (input) SYS_lseek :: u32 where "SYS_lseek \<equiv> 23"
abbreviation (input) SYS_fstat :: u32 where "SYS_fstat \<equiv> 24"
abbreviation (input) SYS_stat :: u32 where "SYS_stat \<equiv> 25"
abbreviation (input) SYS_isatty :: u32 where "SYS_isatty \<equiv> 26"
abbreviation (input) SYS_getpid :: u32 where "SYS_getpid \<equiv> 27"
abbreviation (input) SYS_kill :: u32 where "SYS_kill \<equiv> 28"
abbreviation (input) SYS_times :: u32 where "SYS_times \<equiv> 29"
abbreviation (input) SYS_gettimeofday :: u32 where "SYS_gettimeofday \<equiv> 30"
abbreviation (input) SYS_wait :: u32 where "SYS_wait \<equiv> 31"

abbreviation (input) CHALES_FD_STDIN :: int where "CHALES_FD_STDIN \<equiv> 0"
abbreviation (input) CHALES_FD_STDOUT :: int where "CHALES_FD_STDOUT \<equiv> 1"
abbreviation (input) CHALES_FD_STDERR :: int where "CHALES_FD_STDERR \<equiv> 2"
abbreviation (input) CHALES_FD_FILE_BASE :: int where "CHALES_FD_FILE_BASE \<equiv> 3"

abbreviation (input) CHALES_O_ACCMODE :: u32 where "CHALES_O_ACCMODE \<equiv> 0x0003"
abbreviation (input) CHALES_O_RDONLY :: u32 where "CHALES_O_RDONLY \<equiv> 0x0000"
abbreviation (input) CHALES_O_WRONLY :: u32 where "CHALES_O_WRONLY \<equiv> 0x0001"
abbreviation (input) CHALES_O_RDWR :: u32 where "CHALES_O_RDWR \<equiv> 0x0002"
abbreviation (input) CHALES_O_APPEND :: u32 where "CHALES_O_APPEND \<equiv> 0x0008"
abbreviation (input) CHALES_O_CREAT :: u32 where "CHALES_O_CREAT \<equiv> 0x0200"
abbreviation (input) CHALES_O_TRUNC :: u32 where "CHALES_O_TRUNC \<equiv> 0x0400"
abbreviation (input) CHALES_O_EXCL :: u32 where "CHALES_O_EXCL \<equiv> 0x0800"

abbreviation (input) CHALES_S_IFCHR :: u32 where "CHALES_S_IFCHR \<equiv> 0x2000"
abbreviation (input) CHALES_S_IFDIR :: u32 where "CHALES_S_IFDIR \<equiv> 0x4000"
abbreviation (input) CHALES_S_IFREG :: u32 where "CHALES_S_IFREG \<equiv> 0x8000"

abbreviation (input) CHALES_ENOENT :: int where "CHALES_ENOENT \<equiv> 2"
abbreviation (input) CHALES_ESRCH :: int where "CHALES_ESRCH \<equiv> 3"
abbreviation (input) CHALES_EBADF :: int where "CHALES_EBADF \<equiv> 9"
abbreviation (input) CHALES_ECHILD :: int where "CHALES_ECHILD \<equiv> 10"
abbreviation (input) CHALES_EAGAIN :: int where "CHALES_EAGAIN \<equiv> 11"
abbreviation (input) CHALES_EFAULT :: int where "CHALES_EFAULT \<equiv> 14"
abbreviation (input) CHALES_EEXIST :: int where "CHALES_EEXIST \<equiv> 17"
abbreviation (input) CHALES_EISDIR :: int where "CHALES_EISDIR \<equiv> 21"
abbreviation (input) CHALES_EINVAL :: int where "CHALES_EINVAL \<equiv> 22"
abbreviation (input) CHALES_EMFILE :: int where "CHALES_EMFILE \<equiv> 24"
abbreviation (input) CHALES_ENOSPC :: int where "CHALES_ENOSPC \<equiv> 28"
abbreviation (input) CHALES_ESPIPE :: int where "CHALES_ESPIPE \<equiv> 29"
abbreviation (input) CHALES_ENOSYS :: int where "CHALES_ENOSYS \<equiv> 88"

abbreviation (input) CHALES_SEEK_SET :: int where "CHALES_SEEK_SET \<equiv> 0"
abbreviation (input) CHALES_SEEK_CUR :: int where "CHALES_SEEK_CUR \<equiv> 1"
abbreviation (input) CHALES_SEEK_END :: int where "CHALES_SEEK_END \<equiv> 2"

record chales_stat =
  st_mode :: u32
  st_size :: u32
  st_ino :: u32
  st_nlink :: u32

record chales_tms =
  tms_utime :: u32
  tms_stime :: u32
  tms_cutime :: u32
  tms_cstime :: u32

record chales_timeval =
  tv_sec :: u32
  tv_usec :: u32

end
