(* ===== verification/Ramfs.thy ===== *)
theory Ramfs
  imports CString Abi
begin

text \<open>
  The in-memory file system, \<open>kernel/kernel/ramfs.c\<close> and \<open>kernel/include/kernel/ramfs.h\<close>:
  the inode table, the storage pool with its bump allocation, the descriptor table, path
  resolution and every operation that the system calls reach. A pointer into the pool is its
  offset; a pointer to an inode is its slot. An access outside the pool and a name that does
  not fit its 256-byte field are undefined behaviour in C and make the operation \<open>None\<close>.
\<close>

section \<open>State\<close>

definition RAMFS_MAX_FILES :: nat where "RAMFS_MAX_FILES = 64"
definition RAMFS_MAX_FILENAME :: nat where "RAMFS_MAX_FILENAME = 256"
definition RAMFS_MAX_FILESIZE :: u32 where "RAMFS_MAX_FILESIZE = 256 * 1024"
definition RAMFS_POOL_SIZE :: u32 where "RAMFS_POOL_SIZE = 768 * 1024"

datatype ramfs_node_type = RAMFS_TYPE_FILE | RAMFS_TYPE_DIR

record ramfs_inode =
  i_ino :: u32
  i_type :: ramfs_node_type
  i_name :: string
  i_size :: u32
  i_parent_ino :: u32
  i_data :: "u32 option"
  i_capacity :: u32

record ramfs_fd =
  fd_ino :: u32
  fd_offset :: u32
  fd_flags :: u32

record ramfs =
  inodes :: "ramfs_inode list"
  pool :: mem
  pool_used :: u32
  fds :: "ramfs_fd list"
  next_inode :: u32

text \<open>The all-zero structures that \<open>memset\<close> leaves.\<close>

definition zero_inode :: ramfs_inode where
  "zero_inode = \<lparr>i_ino = 0, i_type = RAMFS_TYPE_FILE, i_name = [], i_size = 0,
     i_parent_ino = 0, i_data = None, i_capacity = 0\<rparr>"

definition zero_fd :: ramfs_fd where
  "zero_fd = \<lparr>fd_ino = 0, fd_offset = 0, fd_flags = 0\<rparr>"

definition ramfs_root_ino :: u32 where
  "ramfs_root_ino = 0"

abbreviation upd_inode :: "nat \<Rightarrow> ramfs_inode \<Rightarrow> ramfs \<Rightarrow> ramfs" where
  "upd_inode k i s \<equiv> s\<lparr>inodes := (inodes s)[k := i]\<rparr>"

abbreviation upd_fd :: "nat \<Rightarrow> ramfs_fd \<Rightarrow> ramfs \<Rightarrow> ramfs" where
  "upd_fd n f s \<equiv> s\<lparr>fds := (fds s)[n := f]\<rparr>"

section \<open>The storage pool\<close>

text \<open>An access to \<open>n\<close> bytes of the pool at offset \<open>a\<close> stays inside the pool.\<close>

definition pool_ok :: "u32 \<Rightarrow> nat \<Rightarrow> bool" where
  "pool_ok a n \<longleftrightarrow> unat a + n \<le> unat RAMFS_POOL_SIZE"

text \<open>\<open>inode->data && inode->data + inode->capacity == ramfs_pool + ramfs_pool_used\<close>\<close>

definition newest_block :: "ramfs_inode \<Rightarrow> ramfs \<Rightarrow> bool" where
  "newest_block i s \<longleftrightarrow>
     (case i_data i of None \<Rightarrow> False | Some off \<Rightarrow> off + i_capacity i = pool_used s)"

definition reserve_newcap :: "u32 \<Rightarrow> u32 \<Rightarrow> u32" where
  "reserve_newcap cap needed =
     (let newcap = (if cap \<noteq> 0 then cap * 2 else 256);
          newcap = (if newcap < needed then needed else newcap);
          newcap = (if newcap > RAMFS_MAX_FILESIZE then RAMFS_MAX_FILESIZE else newcap)
      in (newcap + 15) AND NOT 15)"

definition ramfs_reserve :: "nat \<Rightarrow> u32 \<Rightarrow> ramfs \<Rightarrow> (int \<times> ramfs) option" where
  "ramfs_reserve k needed s =
     (let inode = inodes s ! k in
      if needed \<le> i_capacity inode then Some (0, s)
      else
        (let newcap = reserve_newcap (i_capacity inode) needed in
         if newest_block inode s then
           (if pool_used s - i_capacity inode + newcap > RAMFS_POOL_SIZE then Some (-1, s)
            else Some (0, (upd_inode k (inode\<lparr>i_capacity := newcap\<rparr>) s)
                   \<lparr>pool_used := pool_used s + (newcap - i_capacity inode)\<rparr>))
         else if pool_used s + newcap > RAMFS_POOL_SIZE then Some (-1, s)
         else
           (let block = pool_used s;
                s1 = (upd_inode k (inode\<lparr>i_data := Some block, i_capacity := newcap\<rparr>) s)
                       \<lparr>pool_used := pool_used s + newcap\<rparr> in
            case i_data inode of
              None \<Rightarrow> Some (0, s1)
            | Some off \<Rightarrow>
                if i_size inode = 0 then Some (0, s1)
                else if pool_ok block (unat (i_size inode)) \<and> pool_ok off (unat (i_size inode))
                then Some (0, s1\<lparr>pool := memcpy (pool s) block off (unat (i_size inode))\<rparr>)
                else None)))"

definition ramfs_release :: "nat \<Rightarrow> ramfs \<Rightarrow> ramfs" where
  "ramfs_release k s =
     (let inode = inodes s ! k in
      if newest_block inode s then s\<lparr>pool_used := pool_used s - i_capacity inode\<rparr> else s)"

section \<open>Paths\<close>

text \<open>\<open>name[i]\<close> of a stored name, whose terminator follows its last character.\<close>

definition cnth :: "string \<Rightarrow> nat \<Rightarrow> char" where
  "cnth s i = (if i < length s then s ! i else CHR 0x00)"

definition dir_entry_matches :: "u32 \<Rightarrow> string \<Rightarrow> nat \<Rightarrow> ramfs_inode \<Rightarrow> bool" where
  "dir_entry_matches current_ino seg_start seg_len i \<longleftrightarrow>
     i_ino i \<noteq> 0 \<and> i_parent_ino i = current_ino \<and> i_type i = RAMFS_TYPE_DIR \<and>
     strncmp_l (i_name i) seg_start seg_len = 0 \<and> cnth (i_name i) seg_len = CHR 0x00"

definition not_slash :: "char \<Rightarrow> bool" where
  "not_slash c \<longleftrightarrow> c \<noteq> CHR ''/''"

definition skip_slash :: "string \<Rightarrow> string" where
  "skip_slash p = (case p of [] \<Rightarrow> [] | c # p' \<Rightarrow> if c = CHR ''/'' then p' else p)"

lemma length_skip_slash: "length (skip_slash p) \<le> length p"
  by (simp add: skip_slash_def split: list.splits)

text \<open>The outer loop of \<open>ramfs_resolve_dir\<close>; -1 is the all-ones word.\<close>

function resolve_loop :: "ramfs \<Rightarrow> string \<Rightarrow> u32 \<Rightarrow> u32" where
  "resolve_loop s p current_ino =
     (if p = [] then current_ino
      else
        (let seg_len = length (takeWhile not_slash p); rest = dropWhile not_slash p in
         if seg_len = 0 then resolve_loop s (tl p) current_ino
         else
           (case find_idx (dir_entry_matches current_ino p seg_len) (inodes s) of
              None \<Rightarrow> -1
            | Some found \<Rightarrow>
                resolve_loop s (skip_slash rest) (i_ino (inodes s ! found)))))"
  by pat_completeness auto
termination
proof (relation "measure (\<lambda>(s, p, c). length p)", goal_cases)
  case (3 s p c n r f)
  then have "takeWhile not_slash p \<noteq> []" by simp
  then have "length (dropWhile not_slash p) < length p"
    by (metis dropWhile.simps(2) length_dropWhile_le le_imp_less_Suc length_Cons list.exhaust
        takeWhile.simps(1) takeWhile.simps(2))
  with 3 length_skip_slash [of r] show ?case by simp
qed auto

declare resolve_loop.simps [simp del]

definition ramfs_resolve_dir :: "string \<Rightarrow> ramfs \<Rightarrow> u32" where
  "ramfs_resolve_dir dirpath s =
     (if dirpath = [] then ramfs_root_ino
      else resolve_loop s (skip_slash dirpath) ramfs_root_ino)"

text \<open>The scan for the last slash.\<close>

fun last_slash :: "nat \<Rightarrow> string \<Rightarrow> nat option \<Rightarrow> nat option" where
  "last_slash i [] slash = slash"
| "last_slash i (c # p) slash = last_slash (Suc i) p (if c = CHR ''/'' then Some i else slash)"

definition ramfs_split_path :: "string \<Rightarrow> nat \<Rightarrow> string \<times> string" where
  "ramfs_split_path path dirbuf_size =
     (case last_slash 0 path None of
        None \<Rightarrow> ([], path)
      | Some slash \<Rightarrow>
          (let dir_len = (if slash \<ge> dirbuf_size then dirbuf_size - 1 else slash) in
           (take dir_len path, drop (slash + 1) path)))"

definition entry_matches :: "u32 \<Rightarrow> string \<Rightarrow> ramfs_inode \<Rightarrow> bool" where
  "entry_matches parent_ino nm i \<longleftrightarrow>
     i_ino i \<noteq> 0 \<and> i_parent_ino i = parent_ino \<and> strcmp_l (i_name i) nm = 0"

text \<open>\<open>ramfs_find_inode\<close> returns the slot of the inode, or -1 (\<open>None\<close>). A NULL path is the
  argument \<open>None\<close>.\<close>

definition ramfs_find_inode :: "string option \<Rightarrow> ramfs \<Rightarrow> nat option" where
  "ramfs_find_inode path s =
     (case path of
        None \<Rightarrow> Some (unat ramfs_root_ino)
      | Some p \<Rightarrow>
          if length p = 0 then Some (unat ramfs_root_ino)
          else if p ! 0 = CHR ''/'' \<and> length p = 1 then Some (unat ramfs_root_ino)
          else
            (let (dirbuf, nm) = ramfs_split_path p RAMFS_MAX_FILENAME;
                 parent_ino = ramfs_resolve_dir dirbuf s in
             if parent_ino = -1 then None
             else find_idx (entry_matches parent_ino nm) (inodes s)))"

definition ramfs_find_free_inode :: "ramfs \<Rightarrow> nat option" where
  "ramfs_find_free_inode s = find_from (\<lambda>i. i_ino i = 0) 1 (tl (inodes s))"

definition ramfs_find_free_fd :: "ramfs \<Rightarrow> nat option" where
  "ramfs_find_free_fd s = find_idx (\<lambda>f. fd_ino f = 0) (fds s)"

section \<open>Operations\<close>

text \<open>The block that \<open>ramfs_open\<close> and \<open>ramfs_mkdir\<close> share: fill a free slot with a new node.
  The \<open>strcpy\<close> into the name field is defined only for a name that fits.\<close>

definition create_node ::
  "nat \<Rightarrow> ramfs_node_type \<Rightarrow> string \<Rightarrow> u32 \<Rightarrow> ramfs \<Rightarrow> ramfs option" where
  "create_node slot ty nm parent_ino s =
     (if length nm < RAMFS_MAX_FILENAME then
        Some ((upd_inode slot ((inodes s ! slot)\<lparr>i_ino := next_inode s, i_type := ty,
                 i_name := nm, i_size := 0, i_parent_ino := parent_ino\<rparr>) s)
              \<lparr>next_inode := next_inode s + 1\<rparr>)
      else None)"

text \<open>The first half of \<open>ramfs_open\<close>: the slot of the path, created when the path is missing
  and bit 0 of the flags asks for it; \<open>None\<close> for the early returns of -1.\<close>

definition open_slot :: "string option \<Rightarrow> u32 \<Rightarrow> ramfs \<Rightarrow> (nat option \<times> ramfs) option" where
  "open_slot path flags s =
     (case ramfs_find_inode path s of
        Some ino \<Rightarrow> Some (Some ino, s)
      | None \<Rightarrow>
          if flags AND 1 \<noteq> 0 then
            (case ramfs_find_free_inode s of
               None \<Rightarrow> Some (None, s)
             | Some slot \<Rightarrow>
                 (case path of
                    None \<Rightarrow> None
                  | Some p \<Rightarrow>
                      (let (dirbuf, nm) = ramfs_split_path p RAMFS_MAX_FILENAME;
                           parent_ino = ramfs_resolve_dir dirbuf s in
                       if parent_ino = -1 then Some (None, s)
                       else map_option (\<lambda>s'. (Some slot, s'))
                              (create_node slot RAMFS_TYPE_FILE nm parent_ino s))))
          else Some (None, s))"

definition ramfs_open :: "string option \<Rightarrow> u32 \<Rightarrow> ramfs \<Rightarrow> (int \<times> ramfs) option" where
  "ramfs_open path flags s =
     do {
       (r, s1) \<leftarrow> open_slot path flags s;
       (case r of
          None \<Rightarrow> Some (-1, s1)
        | Some ino \<Rightarrow>
            if i_type (inodes s1 ! ino) \<noteq> RAMFS_TYPE_FILE then Some (-1, s1)
            else
              (case ramfs_find_free_fd s1 of
                 None \<Rightarrow> Some (-1, s1)
               | Some fd \<Rightarrow>
                   Some (int fd, upd_fd fd \<lparr>fd_ino = i_ino (inodes s1 ! ino), fd_offset = 0,
                                            fd_flags = CHALES_O_RDWR\<rparr> s1)))
     }"

definition ramfs_close :: "int \<Rightarrow> ramfs \<Rightarrow> int \<times> ramfs" where
  "ramfs_close fd s =
     (if fd < 0 \<or> fd \<ge> 32 then (-1, s)
      else if fd_ino (fds s ! nat fd) = 0 then (-1, s)
      else (0, upd_fd (nat fd) zero_fd s))"

text \<open>The scan for an inode number, starting at slot 0.\<close>

definition slot_of_ino :: "u32 \<Rightarrow> ramfs \<Rightarrow> nat option" where
  "slot_of_ino ino s = find_idx (\<lambda>i. i_ino i = ino) (inodes s)"

text \<open>\<open>ramfs_read\<close> returns the count and the bytes it stores into the caller's buffer.\<close>

definition ramfs_read :: "int \<Rightarrow> bool \<Rightarrow> u32 \<Rightarrow> ramfs \<Rightarrow> (int \<times> u8 list \<times> ramfs) option" where
  "ramfs_read fd buf_null count s =
     (if fd < 0 \<or> fd \<ge> 32 \<or> buf_null then Some (-1, [], s)
      else
        (let file_fd = fds s ! nat fd in
         if fd_ino file_fd = 0 then Some (-1, [], s)
         else
           (case slot_of_ino (fd_ino file_fd) s of
              None \<Rightarrow> Some (-1, [], s)
            | Some k \<Rightarrow>
                (let inode = inodes s ! k in
                 if i_type inode \<noteq> RAMFS_TYPE_FILE then Some (-1, [], s)
                 else if fd_flags file_fd AND CHALES_O_ACCMODE = CHALES_O_WRONLY
                 then Some (-1, [], s)
                 else if fd_offset file_fd \<ge> i_size inode then Some (0, [], s)
                 else
                   (let available = i_size inode - fd_offset file_fd;
                        to_read = (if count < available then count else available) in
                    if to_read > 0 then
                      (case i_data inode of
                         None \<Rightarrow> None
                       | Some off \<Rightarrow>
                           if pool_ok (off + fd_offset file_fd) (unat to_read) then
                             Some (sint to_read,
                               read_bytes (pool s) (off + fd_offset file_fd) (unat to_read),
                               upd_fd (nat fd)
                                 (file_fd\<lparr>fd_offset := fd_offset file_fd + to_read\<rparr>) s)
                           else None)
                    else Some (sint to_read, [], s))))))"

text \<open>The tail of \<open>ramfs_write\<close> once the block is reserved: zero the hole a seek may have
  left, copy, advance the offset and the size.\<close>

definition write_at :: "nat \<Rightarrow> nat \<Rightarrow> (nat \<Rightarrow> u8) \<Rightarrow> u32 \<Rightarrow> ramfs \<Rightarrow> (int \<times> ramfs) option" where
  "write_at n k buf count s =
     (let file_fd = fds s ! n; inode = inodes s ! k; offset = fd_offset file_fd in
      case i_data inode of
        None \<Rightarrow> None
      | Some data \<Rightarrow>
          if offset > i_size inode \<and>
             \<not> pool_ok (data + i_size inode) (unat (offset - i_size inode)) then None
          else if \<not> pool_ok (data + offset) (unat count) then None
          else
            (let pool1 = (if offset > i_size inode
                          then memset (pool s) (data + i_size inode) 0
                                 (unat (offset - i_size inode))
                          else pool s);
                 pool2 = write_bytes pool1 (data + offset) (map buf [0..<unat count]);
                 offset' = offset + count;
                 size' = (if offset' > i_size inode then offset' else i_size inode) in
             Some (sint count,
               (upd_inode k (inode\<lparr>i_size := size'\<rparr>)
                 (upd_fd n (file_fd\<lparr>fd_offset := offset'\<rparr>) s))\<lparr>pool := pool2\<rparr>)))"

text \<open>Reserve the block for \<open>count\<close> bytes at the offset; when the pool is full, fall back to
  what the current block can hold.\<close>

definition write_reserving ::
  "nat \<Rightarrow> nat \<Rightarrow> (nat \<Rightarrow> u8) \<Rightarrow> u32 \<Rightarrow> u32 \<Rightarrow> ramfs \<Rightarrow> (int \<times> ramfs) option" where
  "write_reserving n k buf offset count s =
     do {
       (r, s1) \<leftarrow> ramfs_reserve k (offset + count) s;
       (if r \<noteq> 0 then
          (if offset \<ge> i_capacity (inodes s1 ! k) then Some (- CHALES_ENOSPC, s1)
           else write_at n k buf (i_capacity (inodes s1 ! k) - offset) s1)
        else write_at n k buf count s1)
     }"

text \<open>The caller's buffer is given by its bytes, \<open>None\<close> for a NULL pointer.\<close>

definition ramfs_write ::
  "int \<Rightarrow> (nat \<Rightarrow> u8) option \<Rightarrow> u32 \<Rightarrow> ramfs \<Rightarrow> (int \<times> ramfs) option" where
  "ramfs_write fd bufp count s =
     (case bufp of
        None \<Rightarrow> Some (-1, s)
      | Some buf \<Rightarrow>
         if fd < 0 \<or> fd \<ge> 32 then Some (-1, s)
         else
           (let n = nat fd; file_fd = fds s ! n in
            if fd_ino file_fd = 0 then Some (-1, s)
            else
              (case slot_of_ino (fd_ino file_fd) s of
                 None \<Rightarrow> Some (-1, s)
               | Some k \<Rightarrow>
                  (let inode = inodes s ! k in
                   if i_type inode \<noteq> RAMFS_TYPE_FILE then Some (-1, s)
                   else if fd_flags file_fd AND CHALES_O_ACCMODE = CHALES_O_RDONLY
                   then Some (-1, s)
                   else
                     (let offset = (if fd_flags file_fd AND CHALES_O_APPEND \<noteq> 0
                                    then i_size inode else fd_offset file_fd);
                          s = upd_fd n (file_fd\<lparr>fd_offset := offset\<rparr>) s in
                      if offset \<ge> RAMFS_MAX_FILESIZE then
                        Some (if count = 0 then 0 else - CHALES_ENOSPC, s)
                      else
                        (let count = (if offset + count > RAMFS_MAX_FILESIZE
                                      then RAMFS_MAX_FILESIZE - offset else count) in
                         if count = 0 then Some (0, s)
                         else write_reserving n k buf offset count s))))))"

definition ramfs_inode_by_ino :: "u32 \<Rightarrow> ramfs \<Rightarrow> nat option" where
  "ramfs_inode_by_ino ino s = (if ino = 0 then Some 0 else slot_of_ino ino s)"

definition ramfs_fill_stat :: "ramfs_inode \<Rightarrow> chales_stat" where
  "ramfs_fill_stat inode =
     \<lparr>st_mode = (if i_type inode = RAMFS_TYPE_DIR then CHALES_S_IFDIR OR 0x1ED
                 else CHALES_S_IFREG OR 0x1A4),
      st_size = (if i_type inode = RAMFS_TYPE_DIR then 0 else i_size inode),
      st_ino = i_ino inode, st_nlink = 1\<rparr>"

text \<open>The first half of \<open>ramfs_open2\<close>: the slot of the path, creating the file through
  \<open>ramfs_open\<close> and \<open>ramfs_close\<close> when it is missing, or the error to return.\<close>

definition open2_slot :: "string option \<Rightarrow> u32 \<Rightarrow> ramfs \<Rightarrow> ((int + nat) \<times> ramfs) option" where
  "open2_slot path oflags s =
     (case ramfs_find_inode path s of
        Some ino \<Rightarrow>
          Some (if oflags AND CHALES_O_CREAT \<noteq> 0 \<and> oflags AND CHALES_O_EXCL \<noteq> 0
                then Inl (- CHALES_EEXIST) else Inr ino, s)
      | None \<Rightarrow>
          if oflags AND CHALES_O_CREAT = 0 then Some (Inl (- CHALES_ENOENT), s)
          else do {
            (tmp, s1) \<leftarrow> ramfs_open path 1 s;
            (if tmp < 0 then Some (Inl (- CHALES_ENOENT), s1)
             else
               (let s2 = snd (ramfs_close tmp s1) in
                case ramfs_find_inode path s2 of
                  None \<Rightarrow> Some (Inl (- CHALES_ENOENT), s2)
                | Some ino \<Rightarrow> Some (Inr ino, s2)))
          })"

definition ramfs_open2 :: "string option \<Rightarrow> u32 \<Rightarrow> ramfs \<Rightarrow> (int \<times> ramfs) option" where
  "ramfs_open2 path oflags s =
     (if path = None then Some (- CHALES_EFAULT, s)
      else do {
        (r, s1) \<leftarrow> open2_slot path oflags s;
        (case r of
           Inl e \<Rightarrow> Some (e, s1)
         | Inr ino \<Rightarrow>
             if i_type (inodes s1 ! ino) = RAMFS_TYPE_DIR then Some (- CHALES_EISDIR, s1)
             else
               (case ramfs_find_free_fd s1 of
                  None \<Rightarrow> Some (- CHALES_EMFILE, s1)
                | Some fd \<Rightarrow>
                    (let s2 = (if oflags AND CHALES_O_TRUNC \<noteq> 0 \<and>
                                  oflags AND CHALES_O_ACCMODE \<noteq> CHALES_O_RDONLY
                               then upd_inode ino ((inodes s1 ! ino)\<lparr>i_size := 0\<rparr>) s1
                               else s1) in
                     Some (int fd,
                       upd_fd fd \<lparr>fd_ino = i_ino (inodes s2 ! ino), fd_offset = 0,
                                  fd_flags = oflags AND (CHALES_O_ACCMODE OR CHALES_O_APPEND)\<rparr>
                         s2))))
      })"

text \<open>The \<open>int64_t\<close> arithmetic of \<open>ramfs_lseek\<close> cannot overflow; it is exact on \<open>int\<close>.\<close>

definition ramfs_lseek :: "int \<Rightarrow> int \<Rightarrow> int \<Rightarrow> ramfs \<Rightarrow> int \<times> ramfs" where
  "ramfs_lseek fd offset whence s =
     (if fd < 0 \<or> fd \<ge> 32 then (- CHALES_EBADF, s)
      else if fd_ino (fds s ! nat fd) = 0 then (- CHALES_EBADF, s)
      else
        (let f = fds s ! nat fd in
         case ramfs_inode_by_ino (fd_ino f) s of
           None \<Rightarrow> (- CHALES_EBADF, s)
         | Some k \<Rightarrow>
             (let base = (if whence = CHALES_SEEK_SET then Some 0
                          else if whence = CHALES_SEEK_CUR then Some (uint (fd_offset f))
                          else if whence = CHALES_SEEK_END then Some (uint (i_size (inodes s ! k)))
                          else None) in
              case base of
                None \<Rightarrow> (- CHALES_EINVAL, s)
              | Some b \<Rightarrow>
                  (let pos = b + offset in
                   if pos < 0 \<or> pos > uint RAMFS_MAX_FILESIZE then (- CHALES_EINVAL, s)
                   else (pos, upd_fd (nat fd) (f\<lparr>fd_offset := word_of_int pos\<rparr>) s)))))"

definition ramfs_fstat :: "int \<Rightarrow> ramfs \<Rightarrow> int \<times> chales_stat option" where
  "ramfs_fstat fd s =
     (if fd < 0 \<or> fd \<ge> 32 then (- CHALES_EBADF, None)
      else if fd_ino (fds s ! nat fd) = 0 then (- CHALES_EBADF, None)
      else
        (case ramfs_inode_by_ino (fd_ino (fds s ! nat fd)) s of
           None \<Rightarrow> (- CHALES_EBADF, None)
         | Some k \<Rightarrow> (0, Some (ramfs_fill_stat (inodes s ! k)))))"

definition ramfs_stat :: "string option \<Rightarrow> ramfs \<Rightarrow> int \<times> chales_stat option" where
  "ramfs_stat path s =
     (case ramfs_find_inode path s of
        None \<Rightarrow> (- CHALES_ENOENT, None)
      | Some k \<Rightarrow> (0, Some (ramfs_fill_stat (inodes s ! k))))"

text \<open>The view of a file's bytes that the ELF loader uses: the pool offset (or NULL) and size.\<close>

definition ramfs_file_data :: "string option \<Rightarrow> ramfs \<Rightarrow> (u32 option \<times> u32) option" where
  "ramfs_file_data path s =
     (case ramfs_find_inode path s of
        None \<Rightarrow> None
      | Some k \<Rightarrow>
          if i_type (inodes s ! k) \<noteq> RAMFS_TYPE_FILE then None
          else Some (i_data (inodes s ! k), i_size (inodes s ! k)))"

definition ramfs_mkdir :: "string option \<Rightarrow> ramfs \<Rightarrow> (int \<times> ramfs) option" where
  "ramfs_mkdir path s =
     (case path of
        None \<Rightarrow> Some (-1, s)
      | Some p \<Rightarrow>
          if length p = 0 then Some (-1, s)
          else
            (case ramfs_find_inode path s of
               Some _ \<Rightarrow> Some (-1, s)
             | None \<Rightarrow>
                 (case ramfs_find_free_inode s of
                    None \<Rightarrow> Some (-1, s)
                  | Some slot \<Rightarrow>
                      (let (dirbuf, nm) = ramfs_split_path p RAMFS_MAX_FILENAME;
                           parent_ino = ramfs_resolve_dir dirbuf s in
                       if parent_ino = -1 then Some (-1, s)
                       else map_option (\<lambda>s'. (0, s'))
                              (create_node slot RAMFS_TYPE_DIR nm parent_ino s)))))"

definition ramfs_rmdir :: "string option \<Rightarrow> ramfs \<Rightarrow> int \<times> ramfs" where
  "ramfs_rmdir path s =
     (case ramfs_find_inode path s of
        None \<Rightarrow> (-1, s)
      | Some k \<Rightarrow>
          if i_type (inodes s ! k) \<noteq> RAMFS_TYPE_DIR then (-1, s)
          else (0, upd_inode k zero_inode s))"

definition ramfs_unlink :: "string option \<Rightarrow> ramfs \<Rightarrow> int \<times> ramfs" where
  "ramfs_unlink path s =
     (case ramfs_find_inode path s of
        None \<Rightarrow> (-1, s)
      | Some k \<Rightarrow>
          if i_type (inodes s ! k) \<noteq> RAMFS_TYPE_FILE then (-1, s)
          else (0, upd_inode k zero_inode (ramfs_release k s)))"

section \<open>Initialisation\<close>

definition ramfs_add_binary :: "string \<Rightarrow> u8 list \<Rightarrow> ramfs \<Rightarrow> ramfs option" where
  "ramfs_add_binary path bytes s =
     do {
       (fd, s1) \<leftarrow> ramfs_open (Some path) 1 s;
       (if fd \<ge> 0 then do {
          (_, s2) \<leftarrow> ramfs_write fd (Some (\<lambda>i. bytes ! i)) (of_nat (length bytes)) s1;
          Some (snd (ramfs_close fd s2))
        } else Some s1)
     }"

fun add_binaries :: "(string \<times> u8 list) list \<Rightarrow> ramfs \<Rightarrow> ramfs option" where
  "add_binaries [] s = Some s"
| "add_binaries ((p, bs) # r) s = Option.bind (ramfs_add_binary p bs s) (add_binaries r)"

text \<open>The embedded programs are generated by the build (\<open>kernel/programs.h\<close>); their bytes are
  the parameter \<open>elf\<close>.\<close>

definition ramfs_populate :: "(string \<Rightarrow> u8 list) \<Rightarrow> ramfs \<Rightarrow> ramfs option" where
  "ramfs_populate elf s =
     do {
       (_, s1) \<leftarrow> ramfs_mkdir (Some ''/bin'') s;
       add_binaries
         [(''/bin/hello'', elf ''hello''), (''/bin/uptime'', elf ''uptime''),
          (''/bin/beep'', elf ''beep''), (''/bin/shell'', elf ''shell''),
          (''/bin/cowsay'', elf ''cowsay''), (''/bin/nltest'', elf ''nltest'')] s1
     }"

text \<open>The state before \<open>ramfs_populate\<close>; the contents of the pool are whatever they were.\<close>

definition ramfs_blank :: "mem \<Rightarrow> ramfs" where
  "ramfs_blank m =
     \<lparr>inodes = (replicate RAMFS_MAX_FILES zero_inode)
                 [0 := zero_inode\<lparr>i_ino := 0, i_type := RAMFS_TYPE_DIR, i_name := ''/'',
                                  i_size := 0, i_parent_ino := 0\<rparr>],
      pool = m, pool_used = 0, fds = replicate 32 zero_fd, next_inode = 1\<rparr>"

definition ramfs_init :: "(string \<Rightarrow> u8 list) \<Rightarrow> ramfs \<Rightarrow> ramfs option" where
  "ramfs_init elf s = ramfs_populate elf (ramfs_blank (pool s))"

end
