(* ===== verification/Exec.thy ===== *)
theory Exec
  imports Sched_Inv Elf_Stack Ramfs
begin

text \<open>
  Program execution, \<open>kernel/arch/i386/exec.c\<close>: copying the argument vectors of the caller,
  saving the part of the caller's memory that the new program will overwrite in the save pool,
  building its stack, loading it, creating its task and blocking the caller; and \<open>exec_restore\<close>,
  which puts the caller's memory back when the program exits. The save pool and the argument
  buffer are static arrays of the kernel image, kept apart from the rest of memory. The system
  call returns to its caller only after the switch back; \<open>exec_run\<close> reports the switch it ends in.
\<close>

section \<open>Code\<close>

definition EXEC_POOL_SIZE :: u32 where "EXEC_POOL_SIZE = 512 * 1024"
definition EXEC_MAX_ARGS :: nat where "EXEC_MAX_ARGS = 32"
definition EXEC_ARG_BYTES :: nat where "EXEC_ARG_BYTES = 4096"
definition EXEC_STACK_TOP :: u32 where "EXEC_STACK_TOP = 0x2FF000"
definition EXEC_STACK_SIZE :: u32 where "EXEC_STACK_SIZE = 0x4000"

lemmas exec_consts [const_defs] = EXEC_POOL_SIZE_def EXEC_MAX_ARGS_def EXEC_ARG_BYTES_def EXEC_STACK_TOP_def EXEC_STACK_SIZE_def

definition align16 :: "u32 \<Rightarrow> u32" where
  "align16 v = (v + 15) AND NOT 15"

text \<open>The argument buffer \<open>kargs\<close> is the list of the bytes used so far; \<open>None\<close> is the return
  value -1. \<open>copy_string\<close> is the inner loop.\<close>

function copy_string :: "mem \<Rightarrow> u32 \<Rightarrow> u8 list \<Rightarrow> u8 list option" where
  "copy_string m s kargs =
     (if length kargs \<ge> EXEC_ARG_BYTES then None
      else
        (let c = m s in
         if c = 0 then Some (kargs @ [c]) else copy_string m (s + 1) (kargs @ [c])))"
  by pat_completeness auto
termination by (relation "measure (\<lambda>(m, s, kargs). EXEC_ARG_BYTES - length kargs)") auto

text \<open>The outer loop: \<open>out\<close> holds the offsets of the copies in \<open>kargs\<close>.\<close>

function copy_strings_from :: "mem \<Rightarrow> u32 \<Rightarrow> nat \<Rightarrow> nat list \<Rightarrow> u8 list \<Rightarrow> (nat list \<times> u8 list) option" where
  "copy_strings_from m src n out kargs =
     (let s = load32 m (src + of_nat (4 * n)) in
      if s = 0 then Some (out, kargs)
      else if n \<ge> EXEC_MAX_ARGS then None
      else
        (case copy_string m s kargs of
           None \<Rightarrow> None
         | Some kargs' \<Rightarrow> copy_strings_from m src (Suc n) (out @ [length kargs]) kargs'))"
  by pat_completeness auto
termination by (relation "measure (\<lambda>(m, src, n, out, kargs). EXEC_MAX_ARGS - n)") auto

declare copy_string.simps [simp del] copy_strings_from.simps [simp del]

definition copy_strings :: "mem \<Rightarrow> u32 \<Rightarrow> u8 list \<Rightarrow> (nat list \<times> u8 list) option" where
  "copy_strings m src kargs = (if src \<noteq> 0 then copy_strings_from m src 0 [] kargs else Some ([], kargs))"

text \<open>The string that starts at an offset of the argument buffer.\<close>

definition karg :: "u8 list \<Rightarrow> nat \<Rightarrow> string" where
  "karg kargs off = map u8_char (takeWhile (\<lambda>b. b \<noteq> 0) (drop off kargs))"

definition exec_args :: "mem \<Rightarrow> u32 \<Rightarrow> u32 \<Rightarrow> (string list \<times> string list) option" where
  "exec_args m argv envp =
     (case copy_strings m argv [] of
        None \<Rightarrow> None
      | Some (kargv, used) \<Rightarrow>
          (case copy_strings m envp used of
             None \<Rightarrow> None
           | Some (kenvp, kargs) \<Rightarrow> Some (map (karg kargs) kargv, map (karg kargs) kenvp)))"

text \<open>Copies into and out of the save pool; outside the pool they are undefined.\<close>

definition in_pool :: "u32 \<Rightarrow> u32 \<Rightarrow> bool" where
  "in_pool off len \<longleftrightarrow> unat off + unat len \<le> unat EXEC_POOL_SIZE"

definition frame_restore :: "u32 \<Rightarrow> u32 \<Rightarrow> u32 \<Rightarrow> u32 \<Rightarrow> mem \<Rightarrow> mem \<Rightarrow> mem option" where
  "frame_restore off stack_len img_base img_len epool m =
     (if stack_len \<noteq> 0 \<and> \<not> in_pool off stack_len \<or> img_len \<noteq> 0 \<and> \<not> in_pool (off + stack_len) img_len then None
      else
        (let m1 = (if stack_len \<noteq> 0
                   then write_bytes m (EXEC_STACK_TOP - EXEC_STACK_SIZE) (read_bytes epool off (unat stack_len))
                   else m) in
         Some (if img_len \<noteq> 0
               then write_bytes m1 img_base (read_bytes epool (off + stack_len) (unat img_len)) else m1)))"

definition frame_save :: "u32 \<Rightarrow> u32 \<Rightarrow> u32 \<Rightarrow> u32 \<Rightarrow> mem \<Rightarrow> mem \<Rightarrow> mem option" where
  "frame_save off stack_len img_base img_len m epool =
     (if stack_len \<noteq> 0 \<and> \<not> in_pool off stack_len \<or> img_len \<noteq> 0 \<and> \<not> in_pool (off + stack_len) img_len then None
      else
        (let epool1 = (if stack_len \<noteq> 0
                      then write_bytes epool off (read_bytes m (EXEC_STACK_TOP - EXEC_STACK_SIZE) (unat stack_len))
                      else epool) in
         Some (if img_len \<noteq> 0
               then write_bytes epool1 (off + stack_len) (read_bytes m img_base (unat img_len)) else epool1)))"

definition exec_restore :: "u32 \<Rightarrow> kern \<Rightarrow> kern option" where
  "exec_restore child k =
     do {
       t \<leftarrow> tasks k child;
       (if \<not> t_has_frame t then Some k
        else do {
          m \<leftarrow> frame_restore (t_frame_off t) (t_frame_stack_len t) (t_frame_img_base t) (t_frame_img_len t)
                 (exec_pool k) (ram k);
          upd_task child (\<lambda>t. t\<lparr>t_has_frame := False\<rparr>)
            ((set_ram m k)\<lparr>user_brk := t_frame_brk t, exec_pool_used := t_frame_off t\<rparr>)
        })
     }"

text \<open>What the caller's image and the new one share: \<open>stack_len\<close>, \<open>img_base\<close>, \<open>img_len\<close>.\<close>

definition exec_frame :: "task \<Rightarrow> u32 \<Rightarrow> u32 \<Rightarrow> u32 \<times> u32 \<times> u32" where
  "exec_frame parent lo hi =
     (if t_elf_hi parent \<noteq> 0 then
        (let img_base = (if lo > t_elf_lo parent then lo else t_elf_lo parent);
             img_end = (if hi < t_elf_hi parent then hi else t_elf_hi parent) in
         (EXEC_STACK_SIZE, img_base, if img_end > img_base then img_end - img_base else 0))
      else (0, 0, 0))"

definition exec_fail :: "u32 \<Rightarrow> u32 \<times> u32 \<times> u32 \<Rightarrow> kern \<Rightarrow> (int \<times> (u32 \<times> u32) option \<times> kern) option" where
  "exec_fail frame_off fr k =
     (case fr of (stack_len, img_base, img_len) \<Rightarrow>
        map_option (\<lambda>m. (-1, None, (set_ram m k)\<lparr>exec_pool_used := frame_off\<rparr>))
          (frame_restore frame_off stack_len img_base img_len (exec_pool k) (ram k)))"

text \<open>Creating the child once the program is loaded.\<close>

definition exec_child ::
  "u32 \<Rightarrow> u32 \<Rightarrow> u32 \<Rightarrow> u32 \<Rightarrow> u32 \<Rightarrow> u32 \<times> u32 \<Rightarrow> u32 \<Rightarrow> u32 \<times> u32 \<times> u32 \<Rightarrow> kern \<Rightarrow>
     (int \<times> (u32 \<times> u32) option \<times> kern) option" where
  "exec_child hs he enter entry sp extent frame_off fr k =
     do {
       (child, k1) \<leftarrow> sched_task_new hs he enter entry sp k;
       (if child = 0 then exec_fail frame_off fr k1
        else do {
          k2 \<leftarrow> upd_task child (\<lambda>t. t\<lparr>t_parent := current_task k, t_elf_lo := fst extent, t_elf_hi := snd extent,
                  t_has_frame := True, t_frame_off := frame_off, t_frame_stack_len := fst fr,
                  t_frame_img_base := fst (snd fr), t_frame_img_len := snd (snd fr),
                  t_frame_brk := user_brk k1\<rparr>) k1;
          k3 \<leftarrow> upd_task (current_task k) (\<lambda>t. t\<lparr>t_state := TASK_BLOCKED\<rparr>) k2;
          map_option (\<lambda>(sw, k4). (0, sw, k4)) (schedule k3)
        })
     }"

text \<open>From the save of the caller's memory on.\<close>

definition exec_image ::
  "u32 \<Rightarrow> u32 \<Rightarrow> u32 \<Rightarrow> u32 \<Rightarrow> u32 \<Rightarrow> u8 list \<Rightarrow> u32 \<times> u32 \<Rightarrow> string list \<times> string list \<Rightarrow> kern \<Rightarrow>
     (int \<times> (u32 \<times> u32) option \<times> kern) option" where
  "exec_image hs he ks ke enter img extent args k =
     do {
       parent \<leftarrow> tasks k (current_task k);
       (let fr = exec_frame parent (fst extent) (snd extent);
            frame_off = exec_pool_used k;
            frame_len = align16 (fst fr) + align16 (snd (snd fr)) in
        if frame_off + frame_len > EXEC_POOL_SIZE then Some (-1, None, k)
        else do {
          epool \<leftarrow> frame_save frame_off (fst fr) (fst (snd fr)) (snd (snd fr)) (ram k) (exec_pool k);
          pg \<leftarrow> paging_map_user_range (EXEC_STACK_TOP - EXEC_STACK_SIZE) EXEC_STACK_TOP (kpaging k);
          (let (sp, m) = elf_build_user_stack (EXEC_STACK_TOP - EXEC_STACK_SIZE) EXEC_STACK_TOP
                           (Some (fst args)) (Some (snd args)) (ram k);
               k1 = (set_ram m k)\<lparr>exec_pool := epool, exec_pool_used := frame_off + frame_len, kpaging := pg\<rparr> in
           if sp = 0 then exec_fail frame_off fr k1
           else do {
             (loaded, m', pg') \<leftarrow> elf_load ks ke img (ram k1, kpaging k1);
             (let k2 = (set_ram m' k1)\<lparr>kpaging := pg'\<rparr> in
              case loaded of
                None \<Rightarrow> exec_fail frame_off fr k2
              | Some entry \<Rightarrow> exec_child hs he enter entry sp extent frame_off fr k2)
           })
        })
     }"

definition exec_run ::
  "u32 \<Rightarrow> u32 \<Rightarrow> u32 \<Rightarrow> u32 \<Rightarrow> u32 \<Rightarrow> ramfs \<Rightarrow> string option \<Rightarrow> u32 \<Rightarrow> u32 \<Rightarrow> kern \<Rightarrow>
     (int \<times> (u32 \<times> u32) option \<times> kern) option" where
  "exec_run hs he ks ke enter fs prog argv envp k =
     (if prog = None then Some (-1, None, k)
      else
        (case ramfs_file_data prog fs of
           None \<Rightarrow> Some (-1, None, k)
         | Some (None, len) \<Rightarrow> Some (-1, None, k)
         | Some (Some off, len) \<Rightarrow>
             if len = 0 then Some (-1, None, k)
             else
               (let img = read_bytes (pool fs) off (unat len) in
                do {
                  extent \<leftarrow> elf_extent img;
                  (case (extent, exec_args (ram k) argv envp) of
                     (Some e, Some args) \<Rightarrow> exec_image hs he ks ke enter img e args k
                   | _ \<Rightarrow> Some (-1, None, k))
                })))"

section \<open>The argument vectors\<close>

lemma copy_string_spec:
  assumes "copy_string m s kargs = Some kargs'"
  shows "\<exists>str. kargs' = kargs @ cstr_bytes str \<and> cstr m s str \<and> length kargs' \<le> EXEC_ARG_BYTES"
  using assms
proof (induction m s kargs rule: copy_string.induct)
  case (1 m s kargs)
  show ?case
  proof (cases "m s = 0")
    case True
    then show ?thesis using 1(2)
      by (intro exI [of _ "[]"]) (auto simp: copy_string.simps [of m s kargs] cstr_bytes_def split: if_splits)
  next
    case False
    then have l: "\<not> EXEC_ARG_BYTES \<le> length kargs" "copy_string m (s + 1) (kargs @ [m s]) = Some kargs'"
      using 1(2) by (auto simp: copy_string.simps [of m s kargs] Let_def split: if_splits)
    from 1(1) [OF l(1) refl False l(2)] obtain str where
      "kargs' = (kargs @ [m s]) @ cstr_bytes str" "cstr m (s + 1) str" "length kargs' \<le> EXEC_ARG_BYTES" by blast
    moreover have "u8_char (m s) \<noteq> CHR 0x00" using False by (metis of_char_u8_char of_char_u8_eq_0)
    ultimately show ?thesis by (intro exI [of _ "u8_char (m s) # str"]) (simp add: cstr_bytes_def)
  qed
qed

lemma copy_string_fits:
  "cstr m s str \<Longrightarrow> length kargs + length str + 1 \<le> EXEC_ARG_BYTES \<Longrightarrow>
    copy_string m s kargs = Some (kargs @ cstr_bytes str)"
proof (induction str arbitrary: s kargs)
  case Nil
  then show ?case by (subst copy_string.simps) (simp add: cstr_bytes_def)
next
  case (Cons c str)
  then have "copy_string m (s + 1) (kargs @ [m s]) = Some ((kargs @ [m s]) @ cstr_bytes str)" by auto
  with Cons.prems show ?case by (subst copy_string.simps) (auto simp: cstr_bytes_def Let_def)
qed

text \<open>The vector of string pointers at \<open>src\<close>, from index \<open>n\<close> on, ends in NULL and points to \<open>ss\<close>.\<close>

fun vector_from :: "mem \<Rightarrow> u32 \<Rightarrow> nat \<Rightarrow> string list \<Rightarrow> bool" where
  "vector_from m src n [] \<longleftrightarrow> load32 m (src + of_nat (4 * n)) = 0"
| "vector_from m src n (s # ss) \<longleftrightarrow> load32 m (src + of_nat (4 * n)) \<noteq> 0 \<and>
     cstr m (load32 m (src + of_nat (4 * n))) s \<and> vector_from m src (Suc n) ss"

definition vector_at :: "mem \<Rightarrow> u32 \<Rightarrow> string list \<Rightarrow> bool" where
  "vector_at m src ss \<longleftrightarrow> (if src = 0 then ss = [] else vector_from m src 0 ss)"

lemma cstr_unique: "cstr m a s \<Longrightarrow> cstr m a t \<Longrightarrow> s = t"
proof (induction s arbitrary: a t)
  case Nil
  then show ?case by (cases t) auto
next
  case (Cons c s)
  then show ?case by (cases t) (auto simp: of_char_u8_inject)
qed

text \<open>The buffer after copying \<open>ss\<close>, and where each copy starts.\<close>

definition packed :: "string list \<Rightarrow> u8 list" where
  "packed ss = concat (map cstr_bytes ss)"

fun starts :: "nat \<Rightarrow> string list \<Rightarrow> nat list" where
  "starts n [] = []"
| "starts n (s # ss) = n # starts (n + length s + 1) ss"

lemma length_packed [simp]: "length (packed ss) = strings_size ss"
  by (induction ss) (auto simp: packed_def)

lemma packed_Cons: "packed (s # ss) = cstr_bytes s @ packed ss"
  by (simp add: packed_def)

lemma packed_Nil [simp]: "packed [] = []"
  by (simp add: packed_def)

lemma copy_strings_from_spec:
  assumes "copy_strings_from m src n out kargs = Some (out', kargs')"
  shows "\<exists>ss. kargs' = kargs @ packed ss \<and> out' = out @ starts (length kargs) ss \<and>
    vector_from m src n ss \<and> n + length ss \<le> max n EXEC_MAX_ARGS \<and> length kargs' \<le> max (length kargs) EXEC_ARG_BYTES"
  using assms
proof (induction m src n out kargs rule: copy_strings_from.induct)
  case (1 m src n out kargs)
  let ?p = "load32 m (src + of_nat (4 * n))"
  show ?case
  proof (cases "?p = 0")
    case True
    then show ?thesis using 1(2)
      by (intro exI [of _ "[]"]) (auto simp: copy_strings_from.simps [of m src n])
  next
    case False
    then obtain k1 where k: "\<not> EXEC_MAX_ARGS \<le> n" "copy_string m ?p kargs = Some k1"
      "copy_strings_from m src (Suc n) (out @ [length kargs]) k1 = Some (out', kargs')"
      using 1(2) by (auto simp: copy_strings_from.simps [of m src n] Let_def split: if_splits option.splits)
    obtain s where s: "k1 = kargs @ cstr_bytes s" "cstr m ?p s" "length k1 \<le> EXEC_ARG_BYTES"
      using copy_string_spec [OF k(2)] by blast
    from 1(1) [OF refl False k(1,2,3)] obtain ss where
      "kargs' = k1 @ packed ss" "out' = (out @ [length kargs]) @ starts (length k1) ss"
      "vector_from m src (Suc n) ss" "Suc n + length ss \<le> max (Suc n) EXEC_MAX_ARGS"
      "length kargs' \<le> max (length k1) EXEC_ARG_BYTES" by blast
    then show ?thesis using s k(1) False
      by (intro exI [of _ "s # ss"]) (auto simp: packed_Cons)
  qed
qed

lemma copy_strings_from_fits:
  "vector_from m src n ss \<Longrightarrow> n + length ss \<le> EXEC_MAX_ARGS \<Longrightarrow> length kargs + strings_size ss \<le> EXEC_ARG_BYTES \<Longrightarrow>
    \<exists>r. copy_strings_from m src n out kargs = Some r"
proof (induction ss arbitrary: n out kargs)
  case Nil
  then show ?case by (subst copy_strings_from.simps) simp
next
  case (Cons s ss)
  let ?p = "load32 m (src + of_nat (4 * n))"
  have v: "?p \<noteq> 0" "cstr m ?p s" "vector_from m src (Suc n) ss" using Cons.prems(1) by auto
  have c: "copy_string m ?p kargs = Some (kargs @ cstr_bytes s)"
    using Cons.prems(3) by (intro copy_string_fits [OF v(2)]) simp
  have "\<exists>r. copy_strings_from m src (Suc n) (out @ [length kargs]) (kargs @ cstr_bytes s) = Some r"
    using Cons.prems by (intro Cons.IH v(3)) auto
  then show ?case using v(1) c Cons.prems(2) by (subst copy_strings_from.simps) (simp add: Let_def)
qed

lemma vector_from_unique: "vector_from m src n ss \<Longrightarrow> vector_from m src n ts \<Longrightarrow> ss = ts"
proof (induction ss arbitrary: n ts)
  case Nil
  then show ?case by (cases ts) auto
next
  case (Cons s ss)
  then show ?case by (cases ts) (auto dest: cstr_unique)
qed


lemma karg_packed:
  assumes "list_all (\<lambda>s. CHR 0x00 \<notin> set s) ss"
  shows "map (karg (pre @ packed ss @ post)) (starts (length pre) ss) = ss"
  using assms
proof (induction ss arbitrary: pre)
  case (Cons s ss)
  have "takeWhile (\<lambda>b. b \<noteq> 0) (map of_char s @ 0 # w) = (map of_char s :: u8 list)" for w
    using Cons.prems by (subst takeWhile_append2) (auto simp: of_char_u8_eq_0)
  then have "karg (pre @ packed (s # ss) @ post) (length pre) = s"
    by (simp add: karg_def packed_Cons cstr_bytes_def comp_def)
  moreover have "map (karg ((pre @ cstr_bytes s) @ packed ss @ post)) (starts (length (pre @ cstr_bytes s)) ss) = ss"
    using Cons.prems by (intro Cons.IH) simp
  ultimately show ?case by (simp add: packed_Cons)
qed simp

lemma vector_from_no_nul: "vector_from m src n ss \<Longrightarrow> list_all (\<lambda>s. CHR 0x00 \<notin> set s) ss"
  by (induction ss arbitrary: n) (auto dest: cstr_no_nul)

lemma copy_strings_spec:
  assumes "copy_strings m src kargs = Some (out, kargs')" "length kargs \<le> EXEC_ARG_BYTES"
  shows "\<exists>ss. kargs' = kargs @ packed ss \<and> out = starts (length kargs) ss \<and> vector_at m src ss \<and>
    length ss \<le> EXEC_MAX_ARGS \<and> length kargs' \<le> EXEC_ARG_BYTES"
proof (cases "src = 0")
  case True
  then show ?thesis using assms by (intro exI [of _ "[]"]) (auto simp: copy_strings_def vector_at_def)
next
  case False
  then have "copy_strings_from m src 0 [] kargs = Some (out, kargs')" using assms(1) by (simp add: copy_strings_def)
  from copy_strings_from_spec [OF this] assms(2) False show ?thesis by (auto simp: vector_at_def)
qed

lemma vector_at_unique: "vector_at m src ss \<Longrightarrow> vector_at m src ts \<Longrightarrow> ss = ts"
  by (auto simp: vector_at_def dest: vector_from_unique split: if_splits)

lemma vector_at_no_nul: "vector_at m src ss \<Longrightarrow> list_all (\<lambda>s. CHR 0x00 \<notin> set s) ss"
  by (auto simp: vector_at_def dest: vector_from_no_nul split: if_splits)

lemma copy_strings_fits:
  assumes "vector_at m src ss" "length ss \<le> EXEC_MAX_ARGS" "length kargs + strings_size ss \<le> EXEC_ARG_BYTES"
  shows "copy_strings m src kargs = Some (starts (length kargs) ss, kargs @ packed ss)"
proof -
  have "\<exists>r. copy_strings m src kargs = Some r"
    using assms copy_strings_from_fits [of m src 0 ss kargs "[]"] by (auto simp: copy_strings_def vector_at_def)
  then obtain out k where r: "copy_strings m src kargs = Some (out, k)" by auto
  from copy_strings_spec [OF this] assms(3) vector_at_unique [OF assms(1)] show ?thesis by (auto simp: r)
qed

lemma exec_args_SomeD:
  assumes "exec_args m argv envp = Some (as, es)"
  shows "vector_at m argv as \<and> vector_at m envp es \<and> length as \<le> EXEC_MAX_ARGS \<and> length es \<le> EXEC_MAX_ARGS \<and>
    strings_size as + strings_size es \<le> EXEC_ARG_BYTES"
proof -
  obtain ao u eo k where c: "copy_strings m argv [] = Some (ao, u)" "copy_strings m envp u = Some (eo, k)"
    "as = map (karg k) ao" "es = map (karg k) eo"
    using assms by (auto simp: exec_args_def split: option.splits prod.splits)
  obtain as' where a: "u = packed as'" "ao = starts 0 as'" "vector_at m argv as'" "length as' \<le> EXEC_MAX_ARGS"
    "length u \<le> EXEC_ARG_BYTES" using copy_strings_spec [OF c(1)] by auto
  obtain es' where e: "k = u @ packed es'" "eo = starts (length u) es'" "vector_at m envp es'" "length es' \<le> EXEC_MAX_ARGS"
    "length k \<le> EXEC_ARG_BYTES" using copy_strings_spec [OF c(2) a(5)] by auto
  have "as = as'" using karg_packed [OF vector_at_no_nul [OF a(3)], of "[]" "packed es'"] c(3) a e(1) by simp
  moreover have "es = es'" using karg_packed [OF vector_at_no_nul [OF e(3)], of u "[]"] c(4) e by simp
  ultimately show ?thesis using a e by simp
qed

lemma exec_args_copies:
  assumes "vector_at m argv as" "vector_at m envp es"
  shows "exec_args m argv envp =
    (if length as \<le> 32 \<and> length es \<le> 32 \<and> strings_size as + strings_size es \<le> 4096 then Some (as, es) else None)"
proof (cases "length as \<le> 32 \<and> length es \<le> 32 \<and> strings_size as + strings_size es \<le> 4096")
  case True
  then have "copy_strings m argv [] = Some (starts 0 as, packed as)"
    using copy_strings_fits [OF assms(1), of "[]"] by (simp add: const_defs)
  moreover have "copy_strings m envp (packed as) = Some (starts (strings_size as) es, packed as @ packed es)"
    using copy_strings_fits [OF assms(2), of "packed as"] True by (simp add: const_defs)
  ultimately show ?thesis
    using True karg_packed [OF vector_at_no_nul [OF assms(1)], of "[]" "packed es"]
      karg_packed [OF vector_at_no_nul [OF assms(2)], of "packed as" "[]"]
    by (simp add: exec_args_def)
next
  case False
  have "exec_args m argv envp = None"
  proof (rule ccontr)
    assume "exec_args m argv envp \<noteq> None"
    then obtain a e where r: "exec_args m argv envp = Some (a, e)" by auto
    note E = exec_args_SomeD [OF r]
    have "as = a" "es = e" using E vector_at_unique [OF assms(1), of a] vector_at_unique [OF assms(2), of e] by blast+
    with E False show False by (simp add: const_defs)
  qed
  with False show ?thesis by (simp only: if_False)
qed

text \<open>The argument and environment vectors of \<open>execv\<close> are copied exactly or not at all: for
  vectors in the caller's memory that hold the strings \<open>as\<close> and \<open>es\<close> the copy always ends; when
  each vector has at most 32 strings and all of them with their terminators take at most 4096
  bytes the kernel copies are those strings, otherwise the call is refused.\<close>

theorem exec_args_correct:
  assumes "vector_at m argv as" "vector_at m envp es"
  shows "exec_args m argv envp =
    (if length as \<le> 32 \<and> length es \<le> 32 \<and> strings_size as + strings_size es \<le> 4096 then Some (as, es) else None)"
  by (rule exec_args_copies [OF assms])


text \<open>A vector of one string, \<open>ls\<close>, at 0x300000.\<close>

definition argv_mem :: mem where
  "argv_mem = write_bytes (\<lambda>a. 0) 0x300000 [0x10, 0, 0x30, 0, 0, 0, 0, 0, 0, 0, 0, 0, 0, 0, 0, 0, 0x6C, 0x73, 0]"

theorem exec_args_correct_witness: "exec_args argv_mem 0x300000 0 = Some ([''ls''], [])"
proof -
  have "load32 argv_mem 0x300000 = 0x300010" "load32 argv_mem 0x300004 = 0" "cstr argv_mem 0x300010 ''ls''"
    by (simp_all add: load32_def argv_mem_def write_bytes_def of_char_def)
  then have "vector_at argv_mem 0x300000 [''ls'']" "vector_at argv_mem 0 []" by (simp_all add: vector_at_def)
  from exec_args_correct [OF this] show ?thesis by simp
qed

end
