(* ===== verification/Exec_Spec.thy ===== *)
theory Exec_Spec
  imports Exec
begin

text \<open>
  Lemmas on program execution: a saved frame restores, the invariant \<open>exec_ok\<close> of the process state
  (the scheduler's invariant, the page table, the save pool, the extents of the tasks), and what
  each stage of \<open>exec_run\<close> does to it, from the creation of the child back to the whole call.
\<close>

section \<open>Saving and restoring\<close>

abbreviation (input) stack_base :: u32 where "stack_base \<equiv> EXEC_STACK_TOP - EXEC_STACK_SIZE"

text \<open>What is restored comes from the save, whatever happened to memory in between, as long as
  the frame in the pool was left alone.\<close>

lemma frame_round_trip:
  assumes save: "frame_save off sl ib il m ep = Some ep1"
    and bnd: "unat off + unat sl + unat il \<le> 0x80000"
    and agree: "\<And>i. unat off \<le> i \<Longrightarrow> i < unat off + unat sl + unat il \<Longrightarrow> ep2 (of_nat i) = ep1 (of_nat i)"
  shows "\<exists>m3. frame_restore off sl ib il ep2 m2 = Some m3 \<and>
    (\<forall>a. m3 a = (if in_region a stack_base (unat sl) \<or> in_region a ib (unat il) then m a else m2 a))"
proof -
  have u: "unat (off + sl) = unat off + unat sl" using bnd by (intro unat_add_small) simp
  have ok: "\<not> (sl \<noteq> 0 \<and> \<not> in_pool off sl \<or> il \<noteq> 0 \<and> \<not> in_pool (off + sl) il)"
    using save by (auto simp: frame_save_def split: if_splits)
  define S I where "S = read_bytes m stack_base (unat sl)" and "I = read_bytes m ib (unat il)"
  have ep1: "ep1 = write_bytes (write_bytes ep off S) (off + sl) I"
    using save ok by (auto simp: frame_save_def S_def I_def Let_def read_bytes_def)
  have rs: "read_bytes ep2 off (unat sl) = S"
  proof (rule nth_equalityI)
    fix i assume "i < length (read_bytes ep2 off (unat sl))"
    then have i: "i < unat sl" by simp
    have e: "off + of_nat i = of_nat (unat off + i)" by simp
    have ui: "unat (off + of_nat i) = unat off + i" unfolding e using i bnd by (intro unat_of_nat32) simp
    have "ep2 (off + of_nat i) = ep1 (off + of_nat i)" unfolding e using i by (intro agree) auto
    also have "\<dots> = write_bytes ep off S (off + of_nat i)"
      unfolding ep1 using i bnd u ui by (intro write_bytes_out) (simp add: in_region_iff I_def)
    also have "\<dots> = S ! i"
      using i bnd ui by (subst write_bytes_in) (auto simp: in_region_iff S_def unat_of_nat32)
    finally show "read_bytes ep2 off (unat sl) ! i = S ! i" using i by simp
  qed (simp add: S_def)
  have ri: "read_bytes ep2 (off + sl) (unat il) = I"
  proof (rule nth_equalityI)
    fix i assume "i < length (read_bytes ep2 (off + sl) (unat il))"
    then have i: "i < unat il" by simp
    have e: "off + sl + of_nat i = of_nat (unat off + unat sl + i)" by simp
    have ui: "unat (off + sl + of_nat i) = unat off + unat sl + i" unfolding e using i bnd by (intro unat_of_nat32) simp
    have "ep2 (off + sl + of_nat i) = ep1 (off + sl + of_nat i)" unfolding e using i by (intro agree) auto
    also have "\<dots> = I ! i"
      unfolding ep1 using i bnd u ui by (subst write_bytes_in) (auto simp: in_region_iff I_def unat_of_nat32)
    finally show "read_bytes ep2 (off + sl) (unat il) ! i = I ! i" using i by simp
  qed (simp add: I_def)
  have "frame_restore off sl ib il ep2 m2 = Some (write_bytes (write_bytes m2 stack_base S) ib I)"
    unfolding frame_restore_def rs ri if_not_P [OF ok] Let_def
    by (auto simp: S_def I_def read_bytes_def)
  moreover have "write_bytes (write_bytes m2 stack_base S) ib I a =
      (if in_region a stack_base (unat sl) \<or> in_region a ib (unat il) then m a else m2 a)" for a
    by (auto simp: write_bytes_def S_def I_def in_region_def)
  ultimately show ?thesis by blast
qed


lemma exec_frame_spec:
  assumes h: "unat (t_elf_hi p) \<le> 0x400000"
  obtains sl ib il where "exec_frame p lo hi = (sl, ib, il)" "sl = (if t_elf_hi p \<noteq> 0 then EXEC_STACK_SIZE else 0)"
    "unat il \<le> 0x400000"
    "\<And>a. in_region a ib (unat il) \<longleftrightarrow> t_elf_hi p \<noteq> 0 \<and> lo \<le> a \<and> t_elf_lo p \<le> a \<and> a < hi \<and> a < t_elf_hi p"
proof (cases "t_elf_hi p = 0")
  case True
  then show thesis by (intro that [of 0 0 0]) (auto simp: exec_frame_def in_region_def)
next
  case False
  define b e where "b = max lo (t_elf_lo p)" and "e = min hi (t_elf_hi p)"
  define il where "il = (if e > b then e - b else 0)"
  have f: "exec_frame p lo hi = (EXEC_STACK_SIZE, b, il)"
    using False by (auto simp: exec_frame_def Let_def b_def e_def il_def max_def min_def)
  have uil: "unat il = unat e - unat b"
    using unat_sub_le [of b e] by (auto simp: il_def word_less_nat_alt)
  have ue: "unat e \<le> 0x400000" using h by (auto simp: e_def min_def word_le_nat_alt)
  have "in_region a b (unat il) \<longleftrightarrow> b \<le> a \<and> a < e" for a
  proof (cases "b < e")
    case True
    then show ?thesis using ue uil by (subst in_region_iff) (auto simp: word_le_nat_alt word_less_nat_alt)
  next
    case no: False
    then have "unat il = 0" using uil by (simp add: word_less_nat_alt)
    then show ?thesis using no by (auto simp: in_region_def)
  qed
  moreover have "(b \<le> a \<and> a < e) = (lo \<le> a \<and> t_elf_lo p \<le> a \<and> a < hi \<and> a < t_elf_hi p)" for a
    by (auto simp: b_def e_def)
  ultimately show thesis using f False uil ue by (intro that [of EXEC_STACK_SIZE b il]) auto
qed

lemma unat_align16: "unat v + 15 < 4294967296 \<Longrightarrow> unat (align16 v) = (unat v + 15) div 16 * 16"
  unfolding align16_def and_not_15 using unat_add_small [of v 15] by simp

lemma pool_check:
  assumes o: "unat off \<le> 0x80000" and sl: "sl = 0 \<or> sl = EXEC_STACK_SIZE" and il: "unat il \<le> 0x400000"
    and c: "\<not> off + (align16 sl + align16 il) > EXEC_POOL_SIZE"
  shows "unat off + unat sl + unat il \<le> 0x80000" "unat (off + (align16 sl + align16 il)) \<le> 0x80000"
    "unat off + unat sl + unat il \<le> unat (off + (align16 sl + align16 il))"
proof -
  have us: "unat sl \<le> 0x4000" using sl by (auto simp: const_defs)
  have a: "unat (align16 sl) = (unat sl + 15) div 16 * 16" "unat (align16 il) = (unat il + 15) div 16 * 16"
    using us il by (simp_all add: unat_align16)
  then have "unat (align16 sl) + unat (align16 il) < 0x800000" using us il by linarith
  then have s: "unat (align16 sl + align16 il) = unat (align16 sl) + unat (align16 il)"
    "unat (off + (align16 sl + align16 il)) = unat off + (unat (align16 sl) + unat (align16 il))"
    using o by (simp_all add: unat_add_small)
  show c': "unat (off + (align16 sl + align16 il)) \<le> 0x80000"
    using c by (simp add: const_defs word_less_nat_alt not_less)
  show le: "unat off + unat sl + unat il \<le> unat (off + (align16 sl + align16 il))" using s a by linarith
  show "unat off + unat sl + unat il \<le> 0x80000" using le c' by linarith
qed

lemma frame_save_defined:
  assumes "unat off + unat sl + unat il \<le> 0x80000"
  shows "\<exists>ep1. frame_save off sl ib il m ep = Some ep1"
proof -
  have "unat (off + sl) = unat off + unat sl" using assms by (intro unat_add_small) simp
  then show ?thesis using assms by (auto simp: frame_save_def in_pool_def EXEC_POOL_SIZE_def Let_def)
qed

section \<open>The invariant of the process state\<close>

lemma ring_cong:
  assumes "ring k rest" "current_task k' = current_task k" "\<And>x. map_option t_next (tasks k' x) = map_option t_next (tasks k x)"
  shows "ring k' rest"
  using assms path_cong [of "current_task k # rest" k' k] unfolding ring_def by simp

text \<open>The parts of a task that the ring and the heap depend on.\<close>

definition skeleton :: "kern \<Rightarrow> u32 \<Rightarrow> (u32 \<times> bool \<times> u32) option" where
  "skeleton k x = map_option (\<lambda>t. (t_next t, t_heap_alloc t, t_stack t)) (tasks k x)"

lemma skeletonD:
  assumes "skeleton k' x = skeleton k x"
  shows "map_option t_next (tasks k' x) = map_option t_next (tasks k x)" "owned_by k' x = owned_by k x"
    "static_apart hs he k' x = static_apart hs he k x"
  using assms by (cases "tasks k' x"; cases "tasks k x"; auto simp: skeleton_def owned_by_def static_apart_def)+

lemma sched_inv_rotate:
  assumes inv: "sched_inv hs he k (xs @ n # ys) L" and k': "current_task k' = n" "kheap k' = kheap k"
    "\<And>x. skeleton k' x = skeleton k x"
  shows "sched_inv hs he k' (ys @ current_task k # xs) L"
proof -
  let ?c = "current_task k"
  have I: "ring k (xs @ n # ys)" "krep hs he (kheap k) L" "distinct (owned k (?c # xs @ n # ys))"
    "\<forall>a \<in> set (owned k (?c # xs @ n # ys)). \<exists>m. (a, m) \<in> L" "\<forall>p \<in> set (?c # xs @ n # ys). static_apart hs he k p"
    using inv unfolding sched_inv_def by blast+
  have o: "owned k' zs = owned k zs" for zs by (rule owned_cong) (rule skeletonD(2) [OF k'(3)])
  have m: "mset (owned k (n # ys @ ?c # xs)) = mset (owned k (?c # xs @ n # ys))"
    by (simp add: owned_append owned_Cons)
  have "ring k' (ys @ ?c # xs)" by (rule ring_rotate [OF I(1) k'(1) skeletonD(1) [OF k'(3)]])
  moreover have "distinct (owned k (n # ys @ ?c # xs))" using mset_eq_imp_distinct_iff [OF m] I(3) by blast
  moreover have "set (owned k (n # ys @ ?c # xs)) = set (owned k (?c # xs @ n # ys))" by (rule mset_eq_setD [OF m])
  ultimately show ?thesis
    using I(2,4,5) unfolding sched_inv_def k'(1,2) o skeletonD(3) [OF k'(3)] by auto
qed

lemma sched_inv_cong:
  assumes inv: "sched_inv hs he k rest L" and k': "current_task k' = current_task k" "kheap k' = kheap k"
    "\<And>x. skeleton k' x = skeleton k x"
  shows "sched_inv hs he k' rest L"
proof -
  have o: "owned k' zs = owned k zs" for zs by (rule owned_cong) (rule skeletonD(2) [OF k'(3)])
  have "ring k' rest"
    using ring_cong [OF _ k'(1) skeletonD(1) [OF k'(3)]] inv by (simp add: sched_inv_def)
  with inv show ?thesis unfolding sched_inv_def k'(1,2) o skeletonD(3) [OF k'(3)] by blast
qed

lemma sched_inv_ram:
  assumes inv: "sched_inv hs he k rest L"
    and f: "\<And>a. unat hs \<le> unat a \<Longrightarrow> unat a < unat he + 8 \<Longrightarrow> m a = ram k a"
  shows "sched_inv hs he (set_ram m k) rest L"
proof (rule sched_inv_heap [OF inv])
  have "krep hs he (kheap k) L" using inv by (simp add: sched_inv_def)
  then show "krep hs he ((kheap k)\<lparr>km_mem := m\<rparr>) L"
    by (rule krep_frame) (auto intro!: f simp: unat_of_nat32)
qed simp

definition layout_ok :: "u32 \<Rightarrow> u32 \<Rightarrow> u32 \<Rightarrow> u32 \<Rightarrow> bool" where
  "layout_ok hs he ks ke \<longleftrightarrow> unat ks \<le> unat hs \<and> unat hs \<le> unat he \<and> unat he + 8 \<le> unat ke \<and>
     unat ke \<le> 0x2FB000 \<and> unat ks + 0x80000 < unat ke"

definition elf_ok :: "u32 \<Rightarrow> u32 \<Rightarrow> task \<Rightarrow> bool" where
  "elf_ok ks ke t \<longleftrightarrow> unat (t_elf_hi t) \<le> 0x400000 \<and> (t_elf_hi t = 0 \<or> hull_ok ks ke (t_elf_lo t) (t_elf_hi t))"

text \<open>The frame a task saved lies in the pool and is not of the kernel.\<close>

definition frame_fits :: "task \<Rightarrow> bool" where
  "frame_fits t \<longleftrightarrow> t_has_frame t \<longrightarrow> unat (t_frame_off t) + unat (t_frame_stack_len t) + unat (t_frame_img_len t) \<le> 0x80000"

definition frame_byte :: "task \<Rightarrow> u32 \<Rightarrow> bool" where
  "frame_byte t a \<longleftrightarrow> t_has_frame t \<and> (in_region a stack_base (unat (t_frame_stack_len t)) \<or>
     in_region a (t_frame_img_base t) (unat (t_frame_img_len t)))"

definition frame_ok :: "u32 \<Rightarrow> u32 \<Rightarrow> task \<Rightarrow> bool" where
  "frame_ok ks ke t \<longleftrightarrow> frame_fits t \<and> (\<forall>a. frame_byte t a \<longrightarrow> \<not> (ks \<le> a \<and> a < ke))"

text \<open>The process tree: the parent of a live task is alive, in the ring, and older.\<close>

definition alive :: "kern \<Rightarrow> u32 \<Rightarrow> bool" where
  "alive k x \<longleftrightarrow> (\<exists>t. tasks k x = Some t \<and> t_state t \<noteq> TASK_DEAD)"

definition parent_of :: "kern \<Rightarrow> u32 \<Rightarrow> u32" where
  "parent_of k x = (case tasks k x of None \<Rightarrow> 0 | Some t \<Rightarrow> t_parent t)"

definition tree_ok :: "(u32 \<Rightarrow> nat) \<Rightarrow> u32 set \<Rightarrow> kern \<Rightarrow> bool" where
  "tree_ok rank M k \<longleftrightarrow> 0 \<notin> M \<and>
     (\<forall>x \<in> M. alive k x \<longrightarrow> parent_of k x \<noteq> 0 \<longrightarrow>
        parent_of k x \<in> M \<and> alive k (parent_of k x) \<and> rank (parent_of k x) < rank x)"

definition procs_ok :: "u32 \<Rightarrow> u32 \<Rightarrow> u32 set \<Rightarrow> kern \<Rightarrow> bool" where
  "procs_ok ks ke M k \<longleftrightarrow> (\<exists>rank. tree_ok rank M k) \<and> (\<forall>x \<in> M. \<forall>t. tasks k x = Some t \<longrightarrow> t_state t \<noteq> TASK_DEAD \<longrightarrow> frame_ok ks ke t)"

lemma procs_ok_cong: "tasks k' = tasks k \<Longrightarrow> procs_ok ks ke M k' = procs_ok ks ke M k"
  by (simp add: procs_ok_def tree_ok_def alive_def parent_of_def)

lemma alive_same: "same_task (tasks k' x) (tasks k x) \<Longrightarrow> alive k' x = alive k x \<and> parent_of k' x = parent_of k x"
  by (cases "tasks k' x"; cases "tasks k x") (auto simp: same_task_def alive_def parent_of_def)

lemma procs_ok_shrink:
  assumes p: "procs_ok ks ke M k" and M: "M' \<subseteq> M" "\<And>x. x \<in> M' \<Longrightarrow> same_task (tasks k' x) (tasks k x)"
    "\<And>x. x \<in> M \<Longrightarrow> x \<notin> M' \<Longrightarrow> \<not> alive k x"
  shows "procs_ok ks ke M' k'"
proof -
  obtain rank where tr: "tree_ok rank M k" using p by (auto simp: procs_ok_def)
  have "parent_of k' x \<in> M' \<and> alive k' (parent_of k' x) \<and> rank (parent_of k' x) < rank x"
    if x: "x \<in> M'" "alive k' x" "parent_of k' x \<noteq> 0" for x
  proof -
    have a: "alive k x" "parent_of k' x = parent_of k x" using x alive_same [OF M(2) [OF x(1)]] by auto
    then have q: "parent_of k x \<in> M" "alive k (parent_of k x)" "rank (parent_of k x) < rank x"
      using tr x M(1) by (auto simp: tree_ok_def)
    then have "parent_of k x \<in> M'" using M(3) by blast
    then show ?thesis using q a(2) alive_same [OF M(2)] by simp
  qed
  moreover have "0 \<notin> M'" using tr M(1) by (auto simp: tree_ok_def)
  moreover have "frame_ok ks ke t'" if x: "x \<in> M'" "tasks k' x = Some t'" "t_state t' \<noteq> TASK_DEAD" for x t'
  proof -
    obtain t n where t: "tasks k x = Some t" "t' = t\<lparr>t_next := n\<rparr>" using M(2) [OF x(1)] x(2) by (auto simp: same_task_def option_rel_Some1)
    then have "frame_ok ks ke t" using p x M(1) by (auto simp: procs_ok_def)
    then show ?thesis using t(2) by (simp add: frame_ok_def frame_fits_def frame_byte_def)
  qed
  ultimately show ?thesis unfolding procs_ok_def tree_ok_def by blast
qed

lemma procs_ok_parent: "procs_ok ks ke M k \<Longrightarrow> x \<in> M \<Longrightarrow> alive k x \<Longrightarrow> parent_of k x = 0 \<or> parent_of k x \<in> M"
  unfolding procs_ok_def tree_ok_def by blast

text \<open>A new task below a live one.\<close>

lemma procs_ok_insert:
  assumes p: "procs_ok ks ke M k" and r: "r \<notin> M" "r \<noteq> 0" "tasks k' r = Some t" "frame_ok ks ke t"
    "t_parent t = 0 \<or> t_parent t \<in> M \<and> alive k (t_parent t)"
    and same: "\<And>x. x \<in> M \<Longrightarrow> alive k' x = alive k x \<and> parent_of k' x = parent_of k x"
    and fr: "\<And>x u. x \<in> M \<Longrightarrow> tasks k' x = Some u \<Longrightarrow> t_state u \<noteq> TASK_DEAD \<Longrightarrow> frame_ok ks ke u"
  shows "procs_ok ks ke (insert r M) k'"
proof -
  obtain rank where tr: "tree_ok rank M k" using p by (auto simp: procs_ok_def)
  let ?rank = "rank(r := Suc (rank (t_parent t)))"
  have "parent_of k' x \<in> insert r M \<and> alive k' (parent_of k' x) \<and> ?rank (parent_of k' x) < ?rank x"
    if x: "x \<in> insert r M" "alive k' x" "parent_of k' x \<noteq> 0" for x
  proof (cases "x = r")
    case True
    then have "parent_of k' x = t_parent t" using r(3) by (simp add: parent_of_def)
    then show ?thesis using x(3) r(1,5) same True by (auto simp: fun_upd_def)
  next
    case False
    then have "alive k x" "parent_of k' x = parent_of k x" "x \<in> M" using x same by auto
    then have "parent_of k x \<in> M" "alive k (parent_of k x)" "rank (parent_of k x) < rank x"
      using tr x(3) by (auto simp: tree_ok_def)
    then show ?thesis using False r(1) same \<open>parent_of k' x = parent_of k x\<close> by auto
  qed
  moreover have "0 \<notin> insert r M" using tr r(2) by (auto simp: tree_ok_def)
  ultimately have "tree_ok ?rank (insert r M) k'" unfolding tree_ok_def by blast
  then show ?thesis using r(3,4) fr unfolding procs_ok_def by auto
qed

definition exec_ok :: "u32 \<Rightarrow> u32 \<Rightarrow> u32 \<Rightarrow> u32 \<Rightarrow> kern \<Rightarrow> u32 list \<Rightarrow> (nat \<times> nat) set \<Rightarrow> bool" where
  "exec_ok hs he ks ke k rest L \<longleftrightarrow> sched_inv hs he k rest L \<and> (\<exists>U. pt_maps U (kpaging k)) \<and>
     unat (exec_pool_used k) \<le> 0x80000 \<and>
     (\<forall>p \<in> set (current_task k # rest). \<forall>t. tasks k p = Some t \<longrightarrow> elf_ok ks ke t) \<and>
     alive k (current_task k) \<and> procs_ok ks ke (set (current_task k # rest)) k"

lemma exec_ok_cong:
  assumes "exec_ok hs he ks ke k rest L" "current_task k' = current_task k" "kheap k' = kheap k" "tasks k' = tasks k"
    "\<exists>U. pt_maps U (kpaging k')" "unat (exec_pool_used k') \<le> 0x80000"
  shows "exec_ok hs he ks ke k' rest L"
proof -
  have "sched_inv hs he k' rest L"
    by (rule sched_inv_cong [of hs he k]) (use assms(1-4) in \<open>auto simp: exec_ok_def skeleton_def\<close>)
  moreover have "alive k' (current_task k') = alive k (current_task k)" using assms(2,4) by (simp add: alive_def)
  ultimately show ?thesis using assms procs_ok_cong [OF assms(4)] unfolding exec_ok_def by simp
qed

lemma exec_ok_ram:
  assumes "exec_ok hs he ks ke k rest L" "\<And>a. unat hs \<le> unat a \<Longrightarrow> unat a < unat he + 8 \<Longrightarrow> m a = ram k a"
  shows "exec_ok hs he ks ke (set_ram m k) rest L"
proof -
  have "sched_inv hs he (set_ram m k) rest L"
    by (rule sched_inv_ram [OF _ assms(2)]) (use assms(1) in \<open>auto simp: exec_ok_def\<close>)
  moreover have "alive (set_ram m k) x = alive k x" for x by (simp add: alive_def)
  ultimately show ?thesis using assms(1) procs_ok_cong [of "set_ram m k" k] unfolding exec_ok_def by simp
qed

lemma elf_ok_same: "same_task (tasks k' x) (tasks k x) \<Longrightarrow> (\<forall>t. tasks k' x = Some t \<longrightarrow> elf_ok ks ke t) = (\<forall>t. tasks k x = Some t \<longrightarrow> elf_ok ks ke t)"
  by (cases "tasks k' x"; cases "tasks k x") (auto simp: same_task_def elf_ok_def)

text \<open>Creating a task keeps the invariant.\<close>

lemma exec_ok_task_new:
  assumes ok: "exec_ok hs he ks ke k rest L" and lay: "layout_ok hs he ks ke"
  obtains r k' L' where "sched_task_new hs he enter entry sp k = Some (r, k')"
    "k'\<lparr>tasks := tasks k, kheap := kheap k, next_pid := next_pid k\<rparr> = k"
    "same_out (unat hs) (unat he) (ram k) (ram k')"
    "r = 0 \<Longrightarrow> exec_ok hs he ks ke k' (filter (\<lambda>x. \<not> reapable k x) rest) L'"
    "r \<noteq> 0 \<Longrightarrow> exec_ok hs he ks ke k' (r # filter (\<lambda>x. \<not> reapable k x) rest) L' \<and>
       procs_ok ks ke (set (current_task k # filter (\<lambda>x. \<not> reapable k x) rest)) k' \<and>
       (\<exists>t. tasks k' r = Some t \<and> t_state t = TASK_READY \<and> t_pid t = next_pid k)"
proof -
  let ?rest = "filter (\<lambda>x. \<not> reapable k x) rest"
  have inv: "sched_inv hs he k rest L" using ok by (simp add: exec_ok_def)
  have he: "unat he + 5000 < 4294967296" using lay by (simp add: layout_ok_def)
  obtain r k' L' where T: "sched_task_new hs he enter entry sp k = Some (r, k')"
    "k'\<lparr>tasks := tasks k, kheap := kheap k, next_pid := next_pid k\<rparr> = k"
    "same_out (unat hs) (unat he) (ram k) (ram k')"
    "\<And>x. x \<noteq> r \<Longrightarrow> x \<notin> set rest \<or> \<not> reapable k x \<Longrightarrow> same_task (tasks k' x) (tasks k x)"
    "r = 0 \<Longrightarrow> sched_inv hs he k' ?rest L'"
    "r \<noteq> 0 \<Longrightarrow> sched_inv hs he k' (r # ?rest) L' \<and>
      (\<exists>t. tasks k' r = Some t \<and> t_state t = TASK_READY \<and> t_pid t = next_pid k \<and> t_elf_hi t = 0 \<and>
        t_parent t = 0 \<and> \<not> t_has_frame t)"
    using sched_task_new_spec [OF inv he, of enter entry sp] by (auto split: if_splits)
  have F: "current_task k' = current_task k" "kpaging k' = kpaging k" "exec_pool_used k' = exec_pool_used k"
    by (metis T(2) kern.select_convs kern.surjective kern.update_convs(1,3,5))+
  have same: "same_task (tasks k' x) (tasks k x)" if x: "x \<noteq> r" "x \<in> set (current_task k # ?rest)" for x
  proof -
    have "x \<notin> set rest \<or> \<not> reapable k x"
      using x inv by (auto simp: sched_inv_def ring_def)
    then show ?thesis using T(4) x(1) by blast
  qed
  have shrunk: "procs_ok ks ke (set (current_task k # ?rest)) k'" if n: "r \<notin> set (current_task k # ?rest)"
  proof (rule procs_ok_shrink [of ks ke "set (current_task k # rest)" k])
    show "procs_ok ks ke (set (current_task k # rest)) k" using ok by (simp add: exec_ok_def)
    show "same_task (tasks k' x) (tasks k x)" if "x \<in> set (current_task k # ?rest)" for x by (rule same [OF _ that]) (use n that in auto)
  qed (auto simp: reapable_def alive_def)
  have ac: "alive k' (current_task k')" if n: "r \<notin> set (current_task k # ?rest)"
    using alive_same [OF same [of "current_task k"]] n ok unfolding F by (auto simp: exec_ok_def)
  have old: "\<forall>t. tasks k' x = Some t \<longrightarrow> elf_ok ks ke t" if x: "x \<noteq> r" "x \<in> set (current_task k # ?rest)" for x
  proof -
    have "same_task (tasks k' x) (tasks k x)" by (rule same [OF x])
    moreover have "\<forall>t. tasks k x = Some t \<longrightarrow> elf_ok ks ke t" using ok x(2) by (auto simp: exec_ok_def)
    ultimately show ?thesis using elf_ok_same by blast
  qed
  show thesis
  proof (rule that [OF T(1-3)])
    show "exec_ok hs he ks ke k' ?rest L'" if "r = 0"
    proof -
      have n: "r \<notin> set (current_task k # ?rest)"
        using T(5) [OF \<open>r = 0\<close>] \<open>r = 0\<close> F(1) by (auto simp: sched_inv_def ring_def)
      then have "x \<noteq> r" if "x \<in> set (current_task k # ?rest)" for x using that by auto
      then show ?thesis using T(5) that ok F old shrunk [OF n] ac [OF n] unfolding exec_ok_def by auto
    qed
    show "exec_ok hs he ks ke k' (r # ?rest) L' \<and> procs_ok ks ke (set (current_task k # ?rest)) k' \<and> (\<exists>t. tasks k' r = Some t \<and> t_state t = TASK_READY \<and> t_pid t = next_pid k)"
      if ne: "r \<noteq> 0"
    proof -
      obtain t where t: "tasks k' r = Some t" "t_state t = TASK_READY" "t_pid t = next_pid k" "t_elf_hi t = 0"
        "t_parent t = 0" "\<not> t_has_frame t" using T(6) ne by blast
      have n: "r \<notin> set (current_task k # ?rest)" using T(6) ne F(1) by (auto simp: sched_inv_def ring_def)
      have "procs_ok ks ke (insert r (set (current_task k # ?rest))) k'"
        by (rule procs_ok_insert [OF shrunk [OF n] n ne t(1)])
          (use t shrunk [OF n] in \<open>auto simp: frame_ok_def frame_fits_def frame_byte_def procs_ok_def\<close>)
      then have pr: "procs_ok ks ke (set (current_task k' # r # ?rest)) k'" by (simp add: F insert_commute)
      have "\<forall>u. tasks k' x = Some u \<longrightarrow> elf_ok ks ke u" if "x \<in> set (current_task k' # r # ?rest)" for x
        using old [of x] that t by (cases "x = r") (auto simp: F elf_ok_def)
      moreover have "\<exists>U. pt_maps U (kpaging k')" "unat (exec_pool_used k') \<le> 0x80000"
        using ok F by (auto simp: exec_ok_def)
      ultimately have "exec_ok hs he ks ke k' (r # ?rest) L'" using T(6) ne pr ac [OF n] unfolding exec_ok_def by blast
      then show ?thesis using t shrunk [OF n] by blast
    qed
  qed
qed


text \<open>The end of \<open>exec_run\<close>: either the heap is exhausted and the caller's memory is put back
  (\<open>m0\<close> on the bytes \<open>reg\<close> of the frame), or the child is the running task.\<close>

definition child_started :: "kern \<Rightarrow> u32 \<times> u32 \<Rightarrow> u32 \<Rightarrow> u32 \<times> u32 \<times> u32 \<Rightarrow> u32 \<Rightarrow> kern \<Rightarrow> bool" where
  "child_started k extent off fr child k' \<longleftrightarrow>
     child \<noteq> current_task k \<and> current_task k' = child \<and> task_state k' (current_task k) = Some TASK_BLOCKED \<and>
     (\<exists>c. tasks k' child = Some c \<and> t_state c = TASK_RUNNING \<and> t_pid c = next_pid k \<and>
        t_parent c = current_task k \<and> t_elf_lo c = fst extent \<and> t_elf_hi c = snd extent \<and> t_has_frame c \<and>
        t_frame_off c = off \<and> t_frame_stack_len c = fst fr \<and> t_frame_img_base c = fst (snd fr) \<and>
        t_frame_img_len c = snd (snd fr) \<and> t_frame_brk c = user_brk k)"

lemma exec_child_start:
  assumes ok: "exec_ok hs he ks ke k1 (child # rest) L" and ch: "tasks k1 child = Some t0" "t_state t0 = TASK_READY" "t_pid t0 = next_pid k"
    and cur: "current_task k1 = current_task k" "user_brk k1 = user_brk k"
    and ext: "unat (snd extent) \<le> 0x400000" "hull_ok ks ke (fst extent) (snd extent)"
    and pr: "procs_ok ks ke (set (current_task k # rest)) k1"
    and fr: "unat off + unat (fst fr) + unat (snd (snd fr)) \<le> 0x80000"
      "\<And>a. in_region a stack_base (unat (fst fr)) \<or> in_region a (fst (snd fr)) (unat (snd (snd fr))) \<Longrightarrow> \<not> (ks \<le> a \<and> a < ke)"
    and k2: "k2 = k1\<lparr>tasks := (tasks k1)(child \<mapsto> t0\<lparr>t_parent := current_task k, t_elf_lo := fst extent,
      t_elf_hi := snd extent, t_has_frame := True, t_frame_off := off, t_frame_stack_len := fst fr,
      t_frame_img_base := fst (snd fr), t_frame_img_len := snd (snd fr), t_frame_brk := user_brk k1\<rparr>)\<rparr>"
  shows "\<exists>k3 k4. upd_task (current_task k) (\<lambda>t. t\<lparr>t_state := TASK_BLOCKED\<rparr>) k2 = Some k3 \<and>
    schedule k3 = Some (Some (current_task k, child), k4) \<and> exec_ok hs he ks ke k4 (rest @ [current_task k]) L \<and>
    child_started k extent off fr child k4 \<and> exec_pool k4 = exec_pool k1 \<and> exec_pool_used k4 = exec_pool_used k1 \<and>
    ram k4 = ram k1 \<and> user_brk k4 = user_brk k1"
proof -
  let ?c = "current_task k"
  define t1 where "t1 = t0\<lparr>t_parent := ?c, t_elf_lo := fst extent, t_elf_hi := snd extent, t_has_frame := True,
    t_frame_off := off, t_frame_stack_len := fst fr, t_frame_img_base := fst (snd fr),
    t_frame_img_len := snd (snd fr), t_frame_brk := user_brk k1\<rparr>"
  have k2': "k2 = k1\<lparr>tasks := (tasks k1)(child \<mapsto> t1)\<rparr>" by (simp add: k2 t1_def)
  have inv: "sched_inv hs he k1 (child # rest) L" using ok by (simp add: exec_ok_def)
  have ring1: "ring k1 (child # rest)" and cc: "child \<noteq> ?c" using inv by (auto simp: sched_inv_def ring_def cur)
  obtain p where p: "tasks k1 ?c = Some p" using sched_inv_member [OF inv, of ?c] by (auto simp: cur)
  define k3 where "k3 = k1\<lparr>tasks := (tasks k1)(child \<mapsto> t1, ?c \<mapsto> p\<lparr>t_state := TASK_BLOCKED\<rparr>)\<rparr>"
  define k4 where "k4 = k3\<lparr>current_task := child, tss_esp0 := t_stack t1 + t_stack_size t1,
    tasks := (tasks k3)(?c \<mapsto> p\<lparr>t_state := TASK_BLOCKED\<rparr>, child \<mapsto> t1\<lparr>t_state := TASK_RUNNING\<rparr>)\<rparr>"
  have u: "upd_task ?c (\<lambda>t. t\<lparr>t_state := TASK_BLOCKED\<rparr>) k2 = Some k3"
    using p cc by (simp add: upd_task_def k2' k3_def)
  have t1: "t_state t1 = TASK_READY" "t_pid t1 = next_pid k" "t_next t1 = t_next t0" "t_heap_alloc t1 = t_heap_alloc t0"
    "t_stack t1 = t_stack t0" using ch by (simp_all add: t1_def)
  have T3: "tasks k3 ?c = Some (p\<lparr>t_state := TASK_BLOCKED\<rparr>)" "tasks k3 child = Some t1" "current_task k3 = ?c"
    using cc by (simp_all add: k3_def cur)
  have sk3: "skeleton k3 x = skeleton k1 x" for x using p ch(1) t1 cc by (auto simp: skeleton_def k3_def)
  have "ring k3 (child # rest)" by (rule ring_cong [OF ring1 _ skeletonD(1) [OF sk3]]) (simp add: k3_def)
  from schedule_spec [OF this] have "schedule k3 = Some (Some (?c, child), k4)"
    using t1(1) T3 by (auto simp: task_state_def k4_def)
  moreover have "sched_inv hs he k4 (rest @ [?c]) L"
  proof -
    have "skeleton k4 x = skeleton k1 x" for x using sk3 [of x] T3 by (auto simp: skeleton_def k4_def)
    then show ?thesis
      using sched_inv_rotate [of hs he k1 "[]" child rest L k4] inv by (simp add: k4_def k3_def cur)
  qed
  moreover have "\<forall>t. tasks k4 x = Some t \<longrightarrow> elf_ok ks ke t" if "x \<in> set (child # rest @ [?c])" for x
  proof -
    have e: "\<forall>t. tasks k1 x = Some t \<longrightarrow> elf_ok ks ke t" using ok that by (auto simp: exec_ok_def cur)
    consider "x = child" | "x = ?c" | "x \<noteq> child" "x \<noteq> ?c" by blast
    then show ?thesis
      using e p ext by cases (auto simp: k4_def k3_def t1_def elf_ok_def)
  qed
  moreover have "procs_ok ks ke (insert child (set (?c # rest))) k4"
  proof (rule procs_ok_insert [OF pr])
    show "child \<notin> set (?c # rest)" "child \<noteq> 0" using inv cur by (auto simp: sched_inv_def ring_def)
    show "tasks k4 child = Some (t1\<lparr>t_state := TASK_RUNNING\<rparr>)" by (simp add: k4_def)
    show "frame_ok ks ke (t1\<lparr>t_state := TASK_RUNNING\<rparr>)"
      using fr by (simp add: frame_ok_def frame_fits_def frame_byte_def t1_def)
    have a: "alive k1 ?c" using ok cur by (simp add: exec_ok_def)
    then show "t_parent (t1\<lparr>t_state := TASK_RUNNING\<rparr>) = 0 \<or> t_parent (t1\<lparr>t_state := TASK_RUNNING\<rparr>) \<in> set (?c # rest) \<and>
      alive k1 (t_parent (t1\<lparr>t_state := TASK_RUNNING\<rparr>))" by (simp add: t1_def)
    show "alive k4 x = alive k1 x \<and> parent_of k4 x = parent_of k1 x" if "x \<in> set (?c # rest)" for x
      using that \<open>child \<notin> set (?c # rest)\<close> p a by (cases "x = ?c") (auto simp: alive_def parent_of_def k4_def k3_def)
    show "frame_ok ks ke u" if "x \<in> set (?c # rest)" "tasks k4 x = Some u" "t_state u \<noteq> TASK_DEAD" for x u
    proof (cases "x = ?c")
      case True
      have "frame_ok ks ke p" using pr p a by (auto simp: procs_ok_def alive_def)
      then show ?thesis using True that(2) cc by (auto simp: k4_def frame_ok_def frame_fits_def frame_byte_def)
    next
      case False
      then have "tasks k1 x = Some u" using that \<open>child \<notin> set (?c # rest)\<close> by (auto simp: k4_def k3_def split: if_splits)
      then show ?thesis using that pr by (auto simp: procs_ok_def)
    qed
  qed
  moreover have "alive k4 child" by (simp add: k4_def alive_def)
  ultimately have "exec_ok hs he ks ke k4 (rest @ [?c]) L"
    using ok unfolding exec_ok_def by (simp add: k4_def k3_def)
  moreover have "child_started k extent off fr child k4"
    using cc t1 cur by (simp add: child_started_def k4_def task_state_def) (simp add: t1_def)
  ultimately show ?thesis using u \<open>schedule k3 = _\<close> by (intro exI [of _ k3] exI [of _ k4]) (simp add: k4_def k3_def)
qed


text \<open>Giving up: the caller's bytes \<open>reg\<close> are as in \<open>m0\<close> again, the rest of memory outside the heap
  is as it was.\<close>

definition given_up :: "u32 \<Rightarrow> u32 \<Rightarrow> mem \<Rightarrow> (u32 \<Rightarrow> bool) \<Rightarrow> u32 \<Rightarrow> kern \<Rightarrow> kern \<Rightarrow> bool" where
  "given_up hs he m0 reg off k k' \<longleftrightarrow> current_task k' = current_task k \<and> exec_pool_used k' = off \<and> user_brk k' = user_brk k \<and>
     (\<forall>a. reg a \<longrightarrow> ram k' a = m0 a) \<and>
     (\<forall>a. \<not> reg a \<longrightarrow> unat a < unat hs \<or> unat he \<le> unat a \<longrightarrow> ram k' a = ram k a)"

lemma exec_fail_spec:
  assumes ok: "exec_ok hs he ks ke k rest L" and off: "unat off \<le> 0x80000"
    and R: "\<exists>m'. frame_restore off sl ib il (exec_pool k) (ram k) = Some m' \<and> (\<forall>a. m' a = (if reg a then m0 a else ram k a))"
    and heap: "\<And>a. reg a \<Longrightarrow> unat hs \<le> unat a \<Longrightarrow> unat a < unat he + 8 \<Longrightarrow> m0 a = ram k a"
  shows "\<exists>k'. exec_fail off (sl, ib, il) k = Some (-1, None, k') \<and> exec_ok hs he ks ke k' rest L \<and>
    given_up hs he m0 reg off k k'"
proof -
  obtain m' where m': "frame_restore off sl ib il (exec_pool k) (ram k) = Some m'"
    "\<And>a. m' a = (if reg a then m0 a else ram k a)" using R by blast
  let ?k' = "(set_ram m' k)\<lparr>exec_pool_used := off\<rparr>"
  have "exec_ok hs he ks ke (set_ram m' k) rest L" by (rule exec_ok_ram [OF ok]) (use m'(2) heap in simp)
  then have "exec_ok hs he ks ke ?k' rest L" by (rule exec_ok_cong) (use ok off in \<open>auto simp: exec_ok_def\<close>)
  moreover have "exec_fail off (sl, ib, il) k = Some (-1, None, ?k')" using m'(1) by (simp add: exec_fail_def)
  moreover have "given_up hs he m0 reg off k ?k'" using m'(2) by (simp add: given_up_def)
  ultimately show ?thesis by blast
qed

lemma kern_fields:
  assumes "k'\<lparr>tasks := tasks k, kheap := kheap k, next_pid := next_pid k\<rparr> = k"
  shows "current_task k' = current_task k" "user_brk k' = user_brk k" "exec_pool k' = exec_pool k"
    "exec_pool_used k' = exec_pool_used k" "kpaging k' = kpaging k"
  by (metis assms kern.select_convs kern.surjective kern.update_convs(1,3,5))+

lemma exec_child_spec:
  assumes ok: "exec_ok hs he ks ke k rest L" and lay: "layout_ok hs he ks ke" and off: "unat off \<le> 0x80000"
    and ext: "unat (snd extent) \<le> 0x400000" "hull_ok ks ke (fst extent) (snd extent)"
    and R: "\<And>m. \<exists>m'. frame_restore off sl ib il (exec_pool k) m = Some m' \<and> (\<forall>a. m' a = (if reg a then m0 a else m a))"
    and reg: "\<And>a. reg a \<Longrightarrow> \<not> (ks \<le> a \<and> a < ke)"
      "\<And>a. reg a \<longleftrightarrow> in_region a stack_base (unat sl) \<or> in_region a ib (unat il)"
    and bnd: "unat off + unat sl + unat il \<le> 0x80000"
  shows "\<exists>r sw k' rest' L'. exec_child hs he enter entry sp extent off (sl, ib, il) k = Some (r, sw, k') \<and>
    exec_ok hs he ks ke k' rest' L' \<and>
    (r = -1 \<and> sw = None \<and> given_up hs he m0 reg off k k' \<or>
     r = 0 \<and> exec_pool k' = exec_pool k \<and> exec_pool_used k' = exec_pool_used k \<and>
       same_out (unat hs) (unat he) (ram k) (ram k') \<and>
       (\<exists>child. sw = Some (current_task k, child) \<and> child_started k extent off (sl, ib, il) child k'))"
proof -
  let ?rest = "filter (\<lambda>x. \<not> reapable k x) rest"
  have hk: "unat ks \<le> unat hs" "unat he + 8 \<le> unat ke" using lay by (auto simp: layout_ok_def)
  obtain r k1 L1 where N: "sched_task_new hs he enter entry sp k = Some (r, k1)"
    "k1\<lparr>tasks := tasks k, kheap := kheap k, next_pid := next_pid k\<rparr> = k"
    "same_out (unat hs) (unat he) (ram k) (ram k1)"
    "r = 0 \<Longrightarrow> exec_ok hs he ks ke k1 ?rest L1"
    "r \<noteq> 0 \<Longrightarrow> exec_ok hs he ks ke k1 (r # ?rest) L1 \<and> procs_ok ks ke (set (current_task k # ?rest)) k1 \<and>
       (\<exists>t. tasks k1 r = Some t \<and> t_state t = TASK_READY \<and> t_pid t = next_pid k)"
    by (rule exec_ok_task_new [OF ok lay, where enter = enter and entry = entry and sp = sp]) (rule that, assumption, assumption, assumption, blast+)
  note F = kern_fields [OF N(2)]
  show ?thesis
  proof (cases "r = 0")
    case True
    have "reg a \<Longrightarrow> unat hs \<le> unat a \<Longrightarrow> unat a < unat he + 8 \<Longrightarrow> m0 a = ram k1 a" for a
      using reg(1) [of a] hk by (simp add: word_le_nat_alt word_less_nat_alt)
    then obtain k' where k': "exec_fail off (sl, ib, il) k1 = Some (-1, None, k')" "exec_ok hs he ks ke k' ?rest L1"
      "given_up hs he m0 reg off k1 k'"
      using exec_fail_spec [OF N(4) [OF True] off, of sl ib il reg m0] R [of "ram k1"] unfolding F(3) by blast
    have "given_up hs he m0 reg off k k'"
      using k'(3) N(3) unfolding given_up_def F by (metis same_outD)
    moreover have "exec_child hs he enter entry sp extent off (sl, ib, il) k = Some (-1, None, k')"
      using N(1) True k'(1) by (simp add: exec_child_def)
    ultimately show ?thesis using k'(2) by blast
  next
    case False
    then obtain t where ok1: "exec_ok hs he ks ke k1 (r # ?rest) L1" "procs_ok ks ke (set (current_task k # ?rest)) k1"
      and t: "tasks k1 r = Some t" "t_state t = TASK_READY" "t_pid t = next_pid k" using N(5) by blast
    obtain k3 k4 where S: "upd_task (current_task k) (\<lambda>t. t\<lparr>t_state := TASK_BLOCKED\<rparr>)
        (k1\<lparr>tasks := (tasks k1)(r \<mapsto> t\<lparr>t_parent := current_task k, t_elf_lo := fst extent,
           t_elf_hi := snd extent, t_has_frame := True, t_frame_off := off, t_frame_stack_len := fst (sl, ib, il),
           t_frame_img_base := fst (snd (sl, ib, il)), t_frame_img_len := snd (snd (sl, ib, il)), t_frame_brk := user_brk k1\<rparr>)\<rparr>) = Some k3"
      "schedule k3 = Some (Some (current_task k, r), k4)" "exec_ok hs he ks ke k4 (?rest @ [current_task k]) L1"
      "child_started k extent off (sl, ib, il) r k4" "exec_pool k4 = exec_pool k1" "exec_pool_used k4 = exec_pool_used k1"
      "ram k4 = ram k1"
      using exec_child_start [OF ok1(1) t F(1,2) ext ok1(2) _ _ refl, where off = off and fr = "(sl, ib, il)"] bnd reg by auto
    have "upd_task r f k1 = Some (k1\<lparr>tasks := (tasks k1)(r \<mapsto> f t)\<rparr>)" for f using t(1) by (simp add: upd_task_def)
    then have "exec_child hs he enter entry sp extent off (sl, ib, il) k = Some (0, Some (current_task k, r), k4)"
      using N(1) False S(1,2) by (simp add: exec_child_def)
    then show ?thesis using S(3-7) N(3) F(3,4) by (intro exI [of _ 0] exI conjI) (assumption | simp)+
  qed
qed


lemma elf_extent_defined: "length img < 4294967296 \<Longrightarrow> \<exists>r. elf_extent img = Some r"
proof (rule elf_validate_cases [of img])
  fix eh assume l: "length img < 4294967296" and v: "elf_validate img = Some True" "valid_ehdr img eh"
  have dd: "\<exists>ph. phdr_at img eh j = Some ph" if "0 \<le> j" "j < 0 + unat (e_phnum eh)" for j
    using that phdr_at_defined [OF v(2) l] by simp
  obtain q where "extent_loop img eh 0 (unat (e_phnum eh)) 0xFFFFFFFF 0 = Some q"
    using extent_loop_spec [of 0 "unat (e_phnum eh)" img eh "0xFFFFFFFF" 0] dd by blast
  then show ?thesis using v(1) valid_ehdr_unique [OF v(2)] by (auto simp: elf_extent_def)
qed (simp add: elf_extent_def)

section \<open>Running a program\<close>

text \<open>A byte of the caller's stack or image, not of the kernel.\<close>

definition caller_byte :: "u32 \<Rightarrow> u32 \<Rightarrow> task \<Rightarrow> u32 \<Rightarrow> bool" where
  "caller_byte ks ke p a \<longleftrightarrow> t_elf_hi p \<noteq> 0 \<and> \<not> (ks \<le> a \<and> a < ke) \<and>
     (stack_base \<le> a \<and> a < EXEC_STACK_TOP \<or> t_elf_lo p \<le> a \<and> a < t_elf_hi p)"

definition gave_back :: "u32 \<Rightarrow> u32 \<Rightarrow> task \<Rightarrow> kern \<Rightarrow> kern \<Rightarrow> bool" where
  "gave_back ks ke p k k' \<longleftrightarrow> current_task k' = current_task k \<and> exec_pool_used k' = exec_pool_used k \<and>
     user_brk k' = user_brk k \<and> (\<forall>a. caller_byte ks ke p a \<longrightarrow> ram k' a = ram k a)"

lemma stack_region: "in_region a stack_base (unat EXEC_STACK_SIZE) \<longleftrightarrow> stack_base \<le> a \<and> a < EXEC_STACK_TOP"
  by (subst in_region_iff) (auto simp: const_defs word_le_nat_alt word_less_nat_alt)

lemma given_up_gave_back:
  assumes lay: "layout_ok hs he ks ke" and g: "given_up hs he (ram k) reg (exec_pool_used k) k2 k'"
    and k2: "current_task k2 = current_task k" "user_brk k2 = user_brk k"
    and same: "\<And>a. caller_byte ks ke p a \<Longrightarrow> \<not> reg a \<Longrightarrow> ram k2 a = ram k a"
  shows "gave_back ks ke p k k'"
proof -
  have "ram k' a = ram k a" if c: "caller_byte ks ke p a" for a
  proof (cases "reg a")
    case True
    then show ?thesis using g by (simp add: given_up_def)
  next
    case False
    have "unat a < unat hs \<or> unat he \<le> unat a"
      using c lay by (auto simp: caller_byte_def layout_ok_def word_le_nat_alt word_less_nat_alt)
    then show ?thesis using g False same [OF c False] unfolding given_up_def by metis
  qed
  then show ?thesis using g k2 by (simp add: gave_back_def given_up_def)
qed

text \<open>The frame never reaches into the kernel: an image that does spans it, and does not fit in the pool.\<close>

lemma frame_not_kernel:
  assumes lay: "layout_ok hs he ks ke" and p: "elf_ok ks ke p" and c: "hull_ok ks ke lo hi"
    and f: "\<And>a. in_region a ib (unat il) \<longleftrightarrow> t_elf_hi p \<noteq> 0 \<and> lo \<le> a \<and> t_elf_lo p \<le> a \<and> a < hi \<and> a < t_elf_hi p"
    and il: "unat il \<le> 0x80000" and a: "in_region a ib (unat il)"
  shows "\<not> (ks \<le> a \<and> a < ke)"
proof
  assume k: "ks \<le> a \<and> a < ke"
  have A: "t_elf_hi p \<noteq> 0" "lo \<le> a" "t_elf_lo p \<le> a" "a < hi" "a < t_elf_hi p" using a f by blast+
  have P: "hull_ok ks ke (t_elf_lo p) (t_elf_hi p)" using p A(1) by (simp add: elf_ok_def)
  have "lo \<le> ks" "ke \<le> hi" "t_elf_lo p \<le> ks" "ke \<le> t_elf_hi p"
    using c P k A by (auto simp: hull_ok_def)
  then have all: "in_region b ib (unat il)" if "ks \<le> b" "b < ke" for b
    using that f [of b] A(1) by (meson order_trans less_le_trans)
  have L: "unat ks + 0x80000 < unat ke" using lay by (simp add: layout_ok_def)
  have u: "unat (of_nat (unat ks + 0x80000) :: u32) = unat ks + 0x80000"
    using L unat_u32_less [of ke] by (intro unat_of_nat32) simp
  let ?b = "of_nat (unat ks + 0x80000) :: u32"
  have "in_region ks ib (unat il)" "in_region ?b ib (unat il)"
    using L u by (auto intro!: all simp: word_le_nat_alt word_less_nat_alt simp del: of_nat_add)
  then have "unat (ks - ib) < 0x80000" "unat (?b - ib) < 0x80000" using il by (auto simp: in_region_def simp del: of_nat_add)
  moreover have "?b - ib = (ks - ib) + 0x80000" by simp
  moreover have "unat ((ks - ib) + 0x80000) = unat (ks - ib) + 0x80000"
    using calculation(1) by (subst unat_add_small) simp_all
  ultimately show False by (simp only:)
qed


text \<open>Memory outside the kernel heap once the program is in place: its stack is built on what the
  caller left, then its segments are loaded.\<close>

definition set_up :: "u32 \<Rightarrow> u32 \<Rightarrow> u32 \<Rightarrow> u32 \<Rightarrow> u8 list \<Rightarrow> string list \<Rightarrow> string list \<Rightarrow> mem \<Rightarrow> mem \<Rightarrow> bool" where
  "set_up hs he ks ke img as es m0 m' \<longleftrightarrow> (\<exists>sp m pg entry ml pgl.
     elf_build_user_stack stack_base EXEC_STACK_TOP (Some as) (Some es) m0 = (sp, m) \<and> sp \<noteq> 0 \<and>
     elf_load ks ke img (m, pg) = Some (Some entry, ml, pgl) \<and> same_out (unat hs) (unat he) ml m')"

text \<open>From loading on, with the caller's memory saved in the frame \<open>sl, ib, il\<close> at \<open>off\<close>.\<close>

lemma exec_load_spec:
  assumes lay: "layout_ok hs he ks ke" and ok: "exec_ok hs he ks ke k rest L" and pe: "elf_ok ks ke p"
    and img: "length img < 4294967296" "elf_extent img = Some (Some (lo, hi))"
    and off: "unat off \<le> 0x80000" and bnd: "unat off + unat sl + unat il \<le> 0x80000"
    and f: "\<And>a. in_region a ib (unat il) \<longleftrightarrow> t_elf_hi p \<noteq> 0 \<and> lo \<le> a \<and> t_elf_lo p \<le> a \<and> a < hi \<and> a < t_elf_hi p"
    and sl: "sl = (if t_elf_hi p \<noteq> 0 then EXEC_STACK_SIZE else 0)"
    and reg: "\<And>a. reg a \<longleftrightarrow> in_region a stack_base (unat sl) \<or> in_region a ib (unat il)"
    and R: "\<And>m. \<exists>m'. frame_restore off sl ib il (exec_pool k) m = Some m' \<and> (\<forall>a. m' a = (if reg a then m0 a else m a))"
    and m0: "\<And>a. a < stack_base \<or> EXEC_STACK_TOP \<le> a \<Longrightarrow> ram k a = m0 a"
  shows "\<exists>loaded m pg r sw k' rest' L'. elf_load ks ke img (ram k, kpaging k) = Some (loaded, m, pg) \<and>
    (case loaded of None \<Rightarrow> exec_fail off (sl, ib, il) ((set_ram m k)\<lparr>kpaging := pg\<rparr>)
     | Some entry \<Rightarrow> exec_child hs he enter entry sp (lo, hi) off (sl, ib, il) ((set_ram m k)\<lparr>kpaging := pg\<rparr>)) = Some (r, sw, k') \<and>
    exec_ok hs he ks ke k' rest' L' \<and>
    (r = -1 \<and> sw = None \<and> given_up hs he m0 reg off ((set_ram m k)\<lparr>kpaging := pg\<rparr>) k' \<and>
       (\<forall>a. caller_byte ks ke p a \<longrightarrow> \<not> reg a \<longrightarrow> m a = m0 a) \<or>
     r = 0 \<and> exec_pool k' = exec_pool k \<and> exec_pool_used k' = exec_pool_used k \<and>
       loaded \<noteq> None \<and> same_out (unat hs) (unat he) m (ram k') \<and>
       (\<exists>child. sw = Some (current_task k, child) \<and> child_started k (lo, hi) off (sl, ib, il) child k'))"
proof -
  have il: "unat il \<le> 0x80000" using bnd by simp
  obtain U where U: "pt_maps U (snd (ram k, kpaging k))" using ok by (auto simp: exec_ok_def)
  obtain loaded m pg where ld: "elf_load ks ke img (ram k, kpaging k) = Some (loaded, m, pg)"
    "loaded = None \<Longrightarrow> m = ram k \<and> pg = kpaging k"
    "loaded \<noteq> None \<Longrightarrow> (\<forall>a. m a \<noteq> ram k a \<longrightarrow> \<not> (ks \<le> a \<and> a < ke)) \<and> (\<exists>U. pt_maps U pg)"
    using elf_load_spec [OF img(1) U, of ks ke] by (fastforce split: option.splits)
  let ?k2 = "(set_ram m k)\<lparr>kpaging := pg\<rparr>"
  have X: "unat hi \<le> 0x400000" "\<And>a. m a \<noteq> ram k a \<Longrightarrow> lo \<le> a \<and> a < hi"
    using elf_extent_load [OF img(1) U img(2) ld(1)] by auto
  have heap: "ks \<le> a \<and> a < ke" if "unat hs \<le> unat a" "unat a < unat he + 8" for a
    using that lay by (auto simp: layout_ok_def word_le_nat_alt word_less_nat_alt)
  have "exec_ok hs he ks ke (set_ram m k) rest L"
    by (rule exec_ok_ram [OF ok]) (use ld(2,3) heap in \<open>cases loaded; fastforce\<close>)
  then have ok2: "exec_ok hs he ks ke ?k2 rest L"
    by (rule exec_ok_cong) (use ok ld(2,3) in \<open>cases loaded; auto simp: exec_ok_def\<close>)+
  have keep: "m a = m0 a" if c: "caller_byte ks ke p a" "\<not> reg a" for a
  proof -
    have a: "t_elf_hi p \<noteq> 0" "\<not> (stack_base \<le> a \<and> a < EXEC_STACK_TOP)" "t_elf_lo p \<le> a" "a < t_elf_hi p"
      using c sl stack_region [of a] by (auto simp: caller_byte_def reg)
    then have "\<not> (lo \<le> a \<and> a < hi)" using c(2) f [of a] by (auto simp: reg)
    then have "m a = ram k a" using X(2) [of a] by blast
    moreover have "ram k a = m0 a" using a(2) by (intro m0) auto
    ultimately show ?thesis by simp
  qed
  show ?thesis
  proof (cases loaded)
    case None
    have h: "reg a \<Longrightarrow> unat hs \<le> unat a \<Longrightarrow> unat a < unat he + 8 \<Longrightarrow> m0 a = ram ?k2 a" for a
      using m0 [of a] ld(2) [OF None] lay by (auto simp: layout_ok_def const_defs word_less_nat_alt)
    have "\<exists>m'. frame_restore off sl ib il (exec_pool ?k2) (ram ?k2) = Some m' \<and> (\<forall>a. m' a = (if reg a then m0 a else ram ?k2 a))"
      using R [of m] by (auto split: if_splits)
    from exec_fail_spec [OF ok2 off this h]
    obtain k' where k': "exec_fail off (sl, ib, il) ?k2 = Some (-1, None, k')" "exec_ok hs he ks ke k' rest L"
      "given_up hs he m0 reg off ?k2 k'" by blast
    then show ?thesis using ld(1) None keep by (intro exI conjI disjI1) (simp | assumption | blast)+
  next
    case (Some entry)
    have hull: "hull_ok ks ke lo hi" by (rule elf_extent_hull [OF img(1) U img(2)]) (use ld(1) Some in simp)
    have nk: "\<not> (ks \<le> a \<and> a < ke)" if "reg a" for a
    proof (cases "in_region a ib (unat il)")
      case True
      then show ?thesis by (rule frame_not_kernel [OF lay pe hull f il])
    next
      case False
      then have "stack_base \<le> a" using that sl stack_region [of a] by (auto simp: reg in_region_def split: if_splits)
      then show ?thesis using lay by (auto simp: layout_ok_def const_defs word_le_nat_alt word_less_nat_alt)
    qed
    have "\<exists>m'. frame_restore off sl ib il (exec_pool ?k2) mm = Some m' \<and> (\<forall>a. m' a = (if reg a then m0 a else mm a))" for mm
      using R by simp
    from exec_child_spec [OF ok2 lay off _ _ this nk reg bnd, of "(lo, hi)" enter entry sp] X(1) hull
    obtain r sw k' rest' L' where E: "exec_child hs he enter entry sp (lo, hi) off (sl, ib, il) ?k2 = Some (r, sw, k')"
      "exec_ok hs he ks ke k' rest' L'"
      "r = -1 \<and> sw = None \<and> given_up hs he m0 reg off ?k2 k' \<or>
       r = 0 \<and> exec_pool k' = exec_pool ?k2 \<and> exec_pool_used k' = exec_pool_used ?k2 \<and> same_out (unat hs) (unat he) m (ram k') \<and>
         (\<exists>child. sw = Some (current_task ?k2, child) \<and> child_started ?k2 (lo, hi) off (sl, ib, il) child k')"
      by auto
    have cs: "child_started ?k2 (lo, hi) off (sl, ib, il) child k' = child_started k (lo, hi) off (sl, ib, il) child k'" for child
      by (simp add: child_started_def)
    show ?thesis using E ld(1) Some keep unfolding cs
      by (intro exI [of _ loaded] exI [of _ m] exI [of _ pg] exI [of _ r] exI [of _ sw] exI [of _ k'] exI [of _ rest'] exI [of _ L']) auto
  qed
qed

lemma build_stack_keeps:
  assumes "strings_size as + strings_size es \<le> 4096" "length as \<le> 32" "length es \<le> 32"
  obtains sp m where "elf_build_user_stack stack_base EXEC_STACK_TOP (Some as) (Some es) m0 = (sp, m)"
    "\<And>a. a < stack_base \<or> EXEC_STACK_TOP \<le> a \<Longrightarrow> m a = m0 a"
proof -
  have pre: "unat stack_base mod 4 = 0" "stack_base \<le> EXEC_STACK_TOP"
    "stack_need (strings_of (Some as)) (strings_of (Some es)) < 4294967296"
    using assms by (simp_all add: const_defs stack_need_def strings_of_def)
  from build_stack_spec [OF pre, of m0] show thesis by (auto intro: that split: if_splits)
qed

text \<open>With the caller's memory saved, the stack pages mapped and the stack built, what is left is to
  load the program and create its task.\<close>

lemma exec_image_saved:
  assumes "tasks k (current_task k) = Some p" "exec_frame p lo hi = (sl, ib, il)"
    "\<not> exec_pool_used k + (align16 sl + align16 il) > EXEC_POOL_SIZE"
    "frame_save (exec_pool_used k) sl ib il (ram k) (exec_pool k) = Some ep"
    "paging_map_user_range stack_base EXEC_STACK_TOP (kpaging k) = Some pg"
    "elf_build_user_stack stack_base EXEC_STACK_TOP (Some as) (Some es) (ram k) = (sp, m)"
    and k1: "k1 = (set_ram m k)\<lparr>exec_pool := ep, exec_pool_used := exec_pool_used k + (align16 sl + align16 il), kpaging := pg\<rparr>"
  shows "exec_image hs he ks ke enter img (lo, hi) (as, es) k =
    (if sp = 0 then exec_fail (exec_pool_used k) (sl, ib, il) k1
     else do {
       (loaded, m', pg') \<leftarrow> elf_load ks ke img (ram k1, kpaging k1);
       (case loaded of None \<Rightarrow> exec_fail (exec_pool_used k) (sl, ib, il) ((set_ram m' k1)\<lparr>kpaging := pg'\<rparr>)
        | Some entry \<Rightarrow> exec_child hs he enter entry sp (lo, hi) (exec_pool_used k) (sl, ib, il) ((set_ram m' k1)\<lparr>kpaging := pg'\<rparr>))
     })"
  using assms(1-6) by (simp add: exec_image_def k1 Let_def cong del: option.case_cong_weak)

text \<open>A program that is not loaded for lack of a stack, and one whose stack is there.\<close>

lemma exec_no_stack:
  assumes lay: "layout_ok hs he ks ke" and ok: "exec_ok hs he ks ke k1 rest L" and off: "unat (exec_pool_used k) \<le> 0x80000"
    and sl: "sl = (if t_elf_hi p \<noteq> 0 then EXEC_STACK_SIZE else 0)"
    and reg: "\<And>a. reg a \<longleftrightarrow> in_region a stack_base (unat sl) \<or> in_region a ib (unat il)"
    and R: "\<And>m. \<exists>m'. frame_restore (exec_pool_used k) sl ib il (exec_pool k1) m = Some m' \<and> (\<forall>a. m' a = (if reg a then ram k a else m a))"
    and k1: "current_task k1 = current_task k" "user_brk k1 = user_brk k" "\<And>a. a < stack_base \<or> EXEC_STACK_TOP \<le> a \<Longrightarrow> ram k1 a = ram k a"
  obtains k' where "exec_fail (exec_pool_used k) (sl, ib, il) k1 = Some (-1, None, k')" "exec_ok hs he ks ke k' rest L" "gave_back ks ke p k k'"
proof -
  have h: "reg a \<Longrightarrow> unat hs \<le> unat a \<Longrightarrow> unat a < unat he + 8 \<Longrightarrow> ram k a = ram k1 a" for a
    using k1(3) [of a] lay by (auto simp: layout_ok_def const_defs word_less_nat_alt)
  from exec_fail_spec [OF ok off R h] obtain k' where k': "exec_fail (exec_pool_used k) (sl, ib, il) k1 = Some (-1, None, k')"
    "exec_ok hs he ks ke k' rest L" "given_up hs he (ram k) reg (exec_pool_used k) k1 k'" by blast
  have "gave_back ks ke p k k'"
    by (rule given_up_gave_back [OF lay k'(3) k1(1,2)]) (use k1(3) sl stack_region in \<open>auto simp: reg caller_byte_def not_le not_less\<close>)
  with k'(1,2) show thesis by (rule that)
qed

lemma exec_image_spec:
  assumes lay: "layout_ok hs he ks ke" and ok: "exec_ok hs he ks ke k rest L" and p: "tasks k (current_task k) = Some p"
    and img: "length img < 4294967296" "elf_extent img = Some (Some (lo, hi))"
    and args: "strings_size as + strings_size es \<le> 4096" "length as \<le> 32" "length es \<le> 32"
  shows "\<exists>r sw k' rest' L'. exec_image hs he ks ke enter img (lo, hi) (as, es) k = Some (r, sw, k') \<and>
    exec_ok hs he ks ke k' rest' L' \<and>
    (r = -1 \<and> sw = None \<and> gave_back ks ke p k k' \<or>
     r = 0 \<and> (\<exists>child sl ib il. sw = Some (current_task k, child) \<and> exec_frame p lo hi = (sl, ib, il) \<and>
       child_started k (lo, hi) (exec_pool_used k) (sl, ib, il) child k' \<and>
       frame_save (exec_pool_used k) sl ib il (ram k) (exec_pool k) = Some (exec_pool k') \<and>
       unat (exec_pool_used k) + unat sl + unat il \<le> unat (exec_pool_used k') \<and>
       set_up hs he ks ke img as es (ram k) (ram k')))"
proof -
  let ?off = "exec_pool_used k"
  obtain U where U: "pt_maps U (kpaging k)" using ok by (auto simp: exec_ok_def)
  have pe: "elf_ok ks ke p" using ok p by (auto simp: exec_ok_def)
  have off: "unat ?off \<le> 0x80000" using ok by (simp add: exec_ok_def)
  obtain sl ib il where fr: "exec_frame p lo hi = (sl, ib, il)" "sl = (if t_elf_hi p \<noteq> 0 then EXEC_STACK_SIZE else 0)"
    "unat il \<le> 0x400000"
    "\<And>a. in_region a ib (unat il) \<longleftrightarrow> t_elf_hi p \<noteq> 0 \<and> lo \<le> a \<and> t_elf_lo p \<le> a \<and> a < hi \<and> a < t_elf_hi p"
    using pe by (auto simp: elf_ok_def intro: exec_frame_spec [of p lo hi])
  show ?thesis
  proof (cases "?off + (align16 sl + align16 il) > EXEC_POOL_SIZE")
    case True
    then have "exec_image hs he ks ke enter img (lo, hi) (as, es) k = Some (-1, None, k)"
      using p fr(1) by (simp add: exec_image_def)
    then show ?thesis using ok by (auto simp: gave_back_def)
  next
    case fits: False
    have "sl = 0 \<or> sl = EXEC_STACK_SIZE" using fr(2) by simp
    note B = pool_check [OF off this fr(3) fits]
    obtain ep where ep: "frame_save ?off sl ib il (ram k) (exec_pool k) = Some ep" using frame_save_defined [OF B(1)] by blast
    define reg where "reg a \<longleftrightarrow> in_region a stack_base (unat sl) \<or> in_region a ib (unat il)" for a
    have R: "\<exists>m'. frame_restore ?off sl ib il ep m = Some m' \<and> (\<forall>a. m' a = (if reg a then ram k a else m a))" for m
      using frame_round_trip [OF ep B(1) refl, of m] by (simp add: reg_def)
    obtain pg where pg: "paging_map_user_range stack_base EXEC_STACK_TOP (kpaging k) = Some pg"
      "pt_maps (\<lambda>i. U i \<or> page_in stack_base EXEC_STACK_TOP i) pg" using map_user_range_maps [OF U] by blast
    obtain sp m where bs: "elf_build_user_stack stack_base EXEC_STACK_TOP (Some as) (Some es) (ram k) = (sp, m)"
      "\<And>a. a < stack_base \<or> EXEC_STACK_TOP \<le> a \<Longrightarrow> m a = ram k a" by (rule build_stack_keeps [OF args]) (rule that)
    define k1 where "k1 = (set_ram m k)\<lparr>exec_pool := ep, exec_pool_used := ?off + (align16 sl + align16 il), kpaging := pg\<rparr>"
    have mheap: "m a = ram k a" if "unat a < unat he + 8" for a
      using that lay by (intro bs(2)) (auto simp: layout_ok_def const_defs word_less_nat_alt)
    have "exec_ok hs he ks ke (set_ram m k) rest L" by (rule exec_ok_ram [OF ok]) (use mheap in simp)
    then have ok1: "exec_ok hs he ks ke k1 rest L" by (rule exec_ok_cong) (use pg(2) B(2) in \<open>auto simp: k1_def\<close>)
    have k1f: "current_task k1 = current_task k" "user_brk k1 = user_brk k" "exec_pool k1 = ep" "ram k1 = m" "kpaging k1 = pg"
      "next_pid k1 = next_pid k" by (simp_all add: k1_def)
    have ok1': "\<And>a. a < stack_base \<or> EXEC_STACK_TOP \<le> a \<Longrightarrow> ram k1 a = ram k a" using bs(2) by (simp add: k1f)
    have R1: "\<exists>m'. frame_restore ?off sl ib il (exec_pool k1) mm = Some m' \<and> (\<forall>a. m' a = (if reg a then ram k a else mm a))" for mm
      using R by (simp add: k1f)
    note body = exec_image_saved [OF p fr(1) fits ep pg(1) bs(1) k1_def, of hs he ks ke enter img]
    show ?thesis
    proof (cases "sp = 0")
      case True
      obtain k' where "exec_fail ?off (sl, ib, il) k1 = Some (-1, None, k')" "exec_ok hs he ks ke k' rest L" "gave_back ks ke p k k'"
        by (rule exec_no_stack [OF lay ok1 off fr(2) reg_def R1 k1f(1,2) ok1']) blast+
      with body True show ?thesis by auto
    next
      case False
      from exec_load_spec [OF lay ok1 pe img off B(1) fr(4,2) reg_def R1 ok1', of enter sp]
      obtain loaded m' pg' r sw k' rest' L' where E: "elf_load ks ke img (ram k1, kpaging k1) = Some (loaded, m', pg')"
        "(case loaded of None \<Rightarrow> exec_fail ?off (sl, ib, il) ((set_ram m' k1)\<lparr>kpaging := pg'\<rparr>)
         | Some entry \<Rightarrow> exec_child hs he enter entry sp (lo, hi) ?off (sl, ib, il) ((set_ram m' k1)\<lparr>kpaging := pg'\<rparr>)) = Some (r, sw, k')"
        "exec_ok hs he ks ke k' rest' L'"
        "r = -1 \<and> sw = None \<and> given_up hs he (ram k) reg ?off ((set_ram m' k1)\<lparr>kpaging := pg'\<rparr>) k' \<and>
           (\<forall>a. caller_byte ks ke p a \<longrightarrow> \<not> reg a \<longrightarrow> m' a = ram k a) \<or>
         r = 0 \<and> exec_pool k' = exec_pool k1 \<and> exec_pool_used k' = exec_pool_used k1 \<and>
           loaded \<noteq> None \<and> same_out (unat hs) (unat he) m' (ram k') \<and>
           (\<exists>child. sw = Some (current_task k1, child) \<and> child_started k1 (lo, hi) ?off (sl, ib, il) child k')"
        by blast
      have "child_started k1 (lo, hi) ?off (sl, ib, il) child k' = child_started k (lo, hi) ?off (sl, ib, il) child k'" for child
        by (simp add: child_started_def k1f)
      moreover have "gave_back ks ke p k k'" if g: "given_up hs he (ram k) reg ?off ((set_ram m' k1)\<lparr>kpaging := pg'\<rparr>) k'"
        "\<forall>a. caller_byte ks ke p a \<longrightarrow> \<not> reg a \<longrightarrow> m' a = ram k a"
        by (rule given_up_gave_back [OF lay g(1)]) (use g(2) k1f in simp_all)
      moreover have "exec_image hs he ks ke enter img (lo, hi) (as, es) k = Some (r, sw, k')"
        using body False E(1,2) by simp
      moreover have "set_up hs he ks ke img as es (ram k) (ram k')" if "loaded \<noteq> None" "same_out (unat hs) (unat he) m' (ram k')"
        using that E(1) bs(1) False unfolding set_up_def k1f by blast
      ultimately show ?thesis using E(3,4) fr(1) ep B(3) k1f by (auto simp: k1_def)
    qed
  qed
qed


text \<open>\<open>exec_run\<close> refuses at once or goes on with the image of the file and the copied arguments.\<close>

lemma exec_run_cases:
  obtains "exec_run hs he ks ke enter fs prog argv envp k = Some (-1, None, k)"
  | off len img lo hi as es where "ramfs_file_data prog fs = Some (Some off, len)" "img = read_bytes (pool fs) off (unat len)"
      "length img < 4294967296" "elf_extent img = Some (Some (lo, hi))"
      "exec_args (ram k) argv envp = Some (as, es)"
      "exec_run hs he ks ke enter fs prog argv envp k = exec_image hs he ks ke enter img (lo, hi) (as, es) k"
proof -
  consider "prog = None" | "ramfs_file_data prog fs = None" | len where "ramfs_file_data prog fs = Some (None, len)"
    | off where "ramfs_file_data prog fs = Some (Some off, 0)"
    | off len where "prog \<noteq> None" "ramfs_file_data prog fs = Some (Some off, len)" "len \<noteq> 0"
    by (cases "ramfs_file_data prog fs"; cases prog) (auto, metis option.exhaust)
  then show thesis
  proof cases
    case (5 off len)
    define img where "img = read_bytes (pool fs) off (unat len)"
    have l: "length img < 4294967296" by (simp add: img_def unat_u32_less)
    have x: "exec_run hs he ks ke enter fs prog argv envp k = do {
        extent \<leftarrow> elf_extent img;
        (case (extent, exec_args (ram k) argv envp) of
           (Some e, Some args) \<Rightarrow> exec_image hs he ks ke enter img e args k | _ \<Rightarrow> Some (-1, None, k)) }"
      unfolding exec_run_def if_not_P [OF 5(1)] 5(2)
      by (simp add: 5(3) img_def Let_def cong del: option.case_cong_weak)
    obtain e where e: "elf_extent img = Some e" using elf_extent_defined [OF l] by blast
    show thesis
    proof (cases "e = None \<or> exec_args (ram k) argv envp = None")
      case True
      then show thesis using x e by (intro that(1)) (auto split: option.splits)
    next
      case False
      then obtain lo hi as es where "e = Some (lo, hi)" "exec_args (ram k) argv envp = Some (as, es)" by auto
      with x e l show thesis by (intro that(2) [OF 5(2) img_def]) auto
    qed
  qed (auto simp: exec_run_def intro: that(1))
qed

lemma exec_run_spec:
  assumes lay: "layout_ok hs he ks ke" and ok: "exec_ok hs he ks ke k rest L" and p: "tasks k (current_task k) = Some p"
  shows "\<exists>r sw k' rest' L'. exec_run hs he ks ke enter fs prog argv envp k = Some (r, sw, k') \<and>
    exec_ok hs he ks ke k' rest' L' \<and>
    (r = -1 \<and> sw = None \<and> gave_back ks ke p k k' \<or>
     r = 0 \<and> (\<exists>foff len img lo hi as es child sl ib il.
       ramfs_file_data prog fs = Some (Some foff, len) \<and> img = read_bytes (pool fs) foff (unat len) \<and>
       elf_extent img = Some (Some (lo, hi)) \<and> exec_args (ram k) argv envp = Some (as, es) \<and>
       set_up hs he ks ke img as es (ram k) (ram k') \<and> sw = Some (current_task k, child) \<and> exec_frame p lo hi = (sl, ib, il) \<and>
       child_started k (lo, hi) (exec_pool_used k) (sl, ib, il) child k' \<and>
       frame_save (exec_pool_used k) sl ib il (ram k) (exec_pool k) = Some (exec_pool k') \<and>
       unat (exec_pool_used k) + unat sl + unat il \<le> unat (exec_pool_used k')))"
proof (rule exec_run_cases [of hs he ks ke enter fs prog argv envp k])
  assume "exec_run hs he ks ke enter fs prog argv envp k = Some (-1, None, k)"
  then show ?thesis using ok by (auto simp: gave_back_def)
next
  fix off len img lo hi as es
  assume y: "ramfs_file_data prog fs = Some (Some off, len)" "img = read_bytes (pool fs) off (unat len)"
    and x: "length img < 4294967296" "elf_extent img = Some (Some (lo, hi))" "exec_args (ram k) argv envp = Some (as, es)"
    "exec_run hs he ks ke enter fs prog argv envp k = exec_image hs he ks ke enter img (lo, hi) (as, es) k"
  have "strings_size as + strings_size es \<le> 4096" "length as \<le> 32" "length es \<le> 32"
    using exec_args_SomeD [OF x(3)] by (auto simp: const_defs)
  from exec_image_spec [OF lay ok p x(1,2) this, of enter] show ?thesis unfolding x(4) using x(2,3) y by metis
qed

end
