(* ===== verification/Exit.thy ===== *)
theory Exit
  imports Exec_Spec
begin

text \<open>
  The end of a task, \<open>kernel/arch/i386/sched.c\<close>: \<open>task_exit_noswitch\<close> ends the live descendants of
  a task before the task itself, hands the saved memory and the exit status back to the parent and
  wakes it; \<open>sched_task_exit\<close> switches away when the running task died. The lemmas show that the
  recursion over the ring ends and what it leaves behind: exactly the tasks below the task are dead.
\<close>

section \<open>Code\<close>

text \<open>The end of \<open>task_exit_noswitch\<close>, after the loop over the children.\<close>

definition exit_self :: "u32 \<Rightarrow> int \<Rightarrow> kern \<Rightarrow> kern option" where
  "exit_self task status k =
     do {
       t \<leftarrow> tasks k task;
       k2 \<leftarrow> (if t_parent t \<noteq> 0 then do {
                k1 \<leftarrow> exec_restore task k;
                upd_task (t_parent t) (\<lambda>p. p\<lparr>t_zombie_valid := True, t_zombie_pid := t_pid t,
                   t_zombie_status := status,
                   t_state := (if t_state p = TASK_BLOCKED then TASK_READY else t_state p)\<rparr>) k1
              } else Some k);
       upd_task task (\<lambda>t. t\<lparr>t_state := TASK_DEAD\<rparr>) k2
     }"

text \<open>The loop over the ring from \<open>t\<close> on; the recursive call of \<open>task_exit_noswitch\<close> for a child
  that is not dead is the inner call of the loop followed by \<open>exit_self\<close>.\<close>

partial_function (option) exit_children :: "u32 \<Rightarrow> u32 \<Rightarrow> kern \<Rightarrow> kern option" where
  "exit_children task t k =
     (if t = task then Some k
      else
        (case tasks k t of
           None \<Rightarrow> None
         | Some tk \<Rightarrow>
             if t_parent tk = task \<and> t_state tk \<noteq> TASK_DEAD then
               Option.bind (exit_children t (t_next tk) k)
                 (\<lambda>k1. Option.bind (exit_self t 9 k1)
                   (\<lambda>k2. Option.bind (tasks k2 t)
                     (\<lambda>tk2. exit_children task (t_next tk2) k2)))
             else exit_children task (t_next tk) k))"

definition task_exit_noswitch :: "u32 \<Rightarrow> int \<Rightarrow> kern \<Rightarrow> kern option" where
  "task_exit_noswitch task status k =
     do {
       t \<leftarrow> tasks k task;
       (if t_state t = TASK_DEAD then Some k
        else do {
          k1 \<leftarrow> exit_children task (t_next t) k;
          exit_self task status k1
        })
     }"

text \<open>\<open>sched_task_exit\<close> returns to the caller, ends in a switch to another task, or halts.\<close>

datatype exit_outcome = Returns | Switches u32 u32 | Halts

definition sched_task_exit :: "u32 \<Rightarrow> int \<Rightarrow> kern \<Rightarrow> (exit_outcome \<times> kern) option" where
  "sched_task_exit task status k =
     do {
       k1 \<leftarrow> task_exit_noswitch task status k;
       c \<leftarrow> tasks k1 (current_task k1);
       (if t_state c = TASK_DEAD then do {
          (sw, k2) \<leftarrow> schedule k1;
          Some (case sw of None \<Rightarrow> Halts | Some (prev, next) \<Rightarrow> Switches prev next, k2)
        }
        else Some (Returns, k1))
     }"

definition sched_task_kill :: "u32 \<Rightarrow> kern \<Rightarrow> (exit_outcome \<times> kern) option" where
  "sched_task_kill task k = sched_task_exit task 9 k"

section \<open>The process tree\<close>

text \<open>The live tasks of the ring \<open>M\<close> below a task, itself included.\<close>

inductive below :: "kern \<Rightarrow> u32 set \<Rightarrow> u32 \<Rightarrow> u32 \<Rightarrow> bool" for k M task where
  self: "task \<in> M \<Longrightarrow> alive k task \<Longrightarrow> below k M task task"
| child: "below k M task (parent_of k x) \<Longrightarrow> x \<in> M \<Longrightarrow> alive k x \<Longrightarrow> below k M task x"

inductive_cases belowE: "below k M task x"

lemma belowD: "below k M task x \<Longrightarrow> x \<in> M \<and> alive k x \<and> task \<in> M \<and> alive k task"
  by (induction rule: below.induct) auto

lemma below_rank:
  assumes "below k M task x" "tree_ok rank M k"
  shows "rank task \<le> rank x" "x \<noteq> task \<Longrightarrow> rank task < rank x"
proof -
  have "rank task \<le> rank x \<and> (x \<noteq> task \<longrightarrow> rank task < rank x)" using assms
  proof (induction rule: below.induct)
    case (child x)
    have "parent_of k x \<noteq> 0" using belowD [OF child.hyps(1)] child.prems by (auto simp: tree_ok_def)
    then have "rank (parent_of k x) < rank x" using child by (auto simp: tree_ok_def)
    then show ?case using child by auto
  qed simp
  then show "rank task \<le> rank x" "x \<noteq> task \<Longrightarrow> rank task < rank x" by auto
qed

lemma below_trans: "below k M c x \<Longrightarrow> below k M task c \<Longrightarrow> below k M task x"
  by (induction rule: below.induct) (auto intro: below.intros)

lemma below_split:
  assumes "below k M task x" "x \<noteq> task"
  obtains c where "below k M c x" "parent_of k c = task" "c \<in> M" "alive k c"
proof -
  have "x \<noteq> task \<longrightarrow> (\<exists>c. below k M c x \<and> parent_of k c = task \<and> c \<in> M \<and> alive k c)" using assms(1)
  proof (induction rule: below.induct)
    case (child x)
    then show ?case by (cases "parent_of k x = task") (auto intro: below.intros)
  qed simp
  then show thesis using assms(2) that by blast
qed

text \<open>Different children have disjoint descendants.\<close>

lemma below_disjoint:
  assumes tr: "tree_ok rank M k" and cd: "parent_of k c = parent_of k d" "c \<noteq> d" "parent_of k d \<noteq> 0"
    and c: "below k M c x"
  shows "\<not> below k M d x"
  using c
proof (induction rule: below.induct)
  case self
  have r: "rank (parent_of k d) < rank d" if "d \<in> M" "alive k d" using that tr cd(3) by (auto simp: tree_ok_def)
  show ?case
  proof
    assume "below k M d c"
    then have "below k M d (parent_of k c)" using cd(2) by (auto elim: belowE)
    then show False using below_rank(1) [OF _ tr] belowD [of k M d] r cd(1) by (metis not_le)
  qed
next
  case (child x)
  have r: "rank (parent_of k d) < rank c" if "c \<in> M" "alive k c" using that tr cd by (auto simp: tree_ok_def)
  show ?case
  proof
    assume "below k M d x"
    then consider "x = d" | "below k M d (parent_of k x)" by (auto elim: belowE)
    then show False
    proof cases
      case 1
      then have "below k M c (parent_of k d)" using child.hyps(1) by simp
      then show False using below_rank(1) [OF _ tr] belowD [OF child.hyps(1)] r by (metis not_le)
    next
      case 2
      then show False using child.IH by simp
    qed
  qed
qed

text \<open>What stays of the tree when a set of tasks closed under children dies.\<close>

lemma tree_after:
  assumes tr: "tree_ok rank M k"
    and keep: "\<And>x. x \<in> M \<Longrightarrow> x \<notin> D \<Longrightarrow> alive k' x = alive k x \<and> parent_of k' x = parent_of k x"
    and dead: "\<And>x. x \<in> D \<Longrightarrow> \<not> alive k' x"
    and closed: "\<And>x. x \<in> M \<Longrightarrow> alive k x \<Longrightarrow> parent_of k x \<in> D \<Longrightarrow> x \<in> D"
  shows "tree_ok rank M k'"
proof -
  have "parent_of k' x \<in> M \<and> alive k' (parent_of k' x) \<and> rank (parent_of k' x) < rank x"
    if x: "x \<in> M" "alive k' x" "parent_of k' x \<noteq> 0" for x
  proof -
    have n: "x \<notin> D" using x dead by blast
    then have a: "alive k x" "parent_of k' x = parent_of k x" using x keep by auto
    then have p: "parent_of k x \<in> M" "alive k (parent_of k x)" "rank (parent_of k x) < rank x"
      using tr x by (auto simp: tree_ok_def)
    moreover have "parent_of k x \<notin> D" using closed n a(1) x(1) by blast
    ultimately show ?thesis using keep a(2) by metis
  qed
  then show ?thesis using tr by (simp add: tree_ok_def)
qed

lemma below_after:
  assumes keep: "\<And>x. x \<in> M \<Longrightarrow> x \<notin> D \<Longrightarrow> alive k' x = alive k x \<and> parent_of k' x = parent_of k x"
    and dead: "\<And>x. x \<in> D \<Longrightarrow> \<not> alive k' x"
    and apart: "\<And>x. below k M d x \<Longrightarrow> x \<notin> D"
  shows "below k' M d x = below k M d x"
proof
  show "below k' M d x \<Longrightarrow> below k M d x"
  proof (induction rule: below.induct)
    case self
    then show ?case using keep dead by (metis below.self)
  next
    case (child x)
    then have "x \<notin> D" using dead by blast
    then show ?case using child keep by (metis below.child)
  qed
  show "below k M d x \<Longrightarrow> below k' M d x"
  proof (induction rule: below.induct)
    case self
    then show ?case using keep apart by (metis below.self)
  next
    case (child x)
    then have "x \<notin> D" using apart by (metis below.child)
    then show ?case using child keep by (metis below.child)
  qed
qed


section \<open>One task\<close>

lemma frame_restore_defined:
  assumes "unat off + unat sl + unat il \<le> 0x80000"
  shows "\<exists>m'. frame_restore off sl ib il ep m = Some m' \<and>
    (\<forall>a. \<not> in_region a stack_base (unat sl) \<longrightarrow> \<not> in_region a ib (unat il) \<longrightarrow> m' a = m a)"
proof -
  have "unat (off + sl) = unat off + unat sl" using assms by (intro unat_add_small) simp
  then have "\<not> (sl \<noteq> 0 \<and> \<not> in_pool off sl \<or> il \<noteq> 0 \<and> \<not> in_pool (off + sl) il)"
    using assms by (auto simp: in_pool_def const_defs)
  then show ?thesis by (auto simp: frame_restore_def Let_def write_bytes_out)
qed

text \<open>Two kernel states that differ in the tasks, the bytes \<open>A\<close> of memory, the heap break and the
  use of the save pool.\<close>

definition same_but :: "(u32 \<Rightarrow> bool) \<Rightarrow> kern \<Rightarrow> kern \<Rightarrow> bool" where
  "same_but A k k' \<longleftrightarrow> current_task k' = current_task k \<and> next_pid k' = next_pid k \<and> tss_esp0 k' = tss_esp0 k \<and>
     kpaging k' = kpaging k \<and> exec_pool k' = exec_pool k \<and> kheap k' = (kheap k)\<lparr>km_mem := ram k'\<rparr> \<and>
     (\<forall>a. \<not> A a \<longrightarrow> ram k' a = ram k a) \<and>
     (unat (exec_pool_used k) \<le> 0x80000 \<longrightarrow> unat (exec_pool_used k') \<le> 0x80000)"

lemma same_but_refl: "same_but A k k"
  by (simp add: same_but_def)

lemma same_but_trans: "same_but A k k' \<Longrightarrow> same_but B k' k'' \<Longrightarrow> (\<And>a. A a \<or> B a \<Longrightarrow> C a) \<Longrightarrow> same_but C k k''"
  unfolding same_but_def by (metis kheap.surjective kheap.update_convs(1))

definition wake :: "u32 \<Rightarrow> int \<Rightarrow> task \<Rightarrow> task" where
  "wake pid status p = p\<lparr>t_zombie_valid := True, t_zombie_pid := pid, t_zombie_status := status,
     t_state := (if t_state p = TASK_BLOCKED then TASK_READY else t_state p)\<rparr>"

lemma wake_simps [simp]:
  "t_next (wake pid st p) = t_next p" "t_parent (wake pid st p) = t_parent p" "t_pid (wake pid st p) = t_pid p"
  "t_has_frame (wake pid st p) = t_has_frame p" "t_state (wake pid st p) = TASK_DEAD \<longleftrightarrow> t_state p = TASK_DEAD"
  by (simp_all add: wake_def)

lemma exit_self_spec:
  assumes t: "tasks k task = Some t" "frame_fits t"
    and p: "t_parent t \<noteq> 0 \<Longrightarrow> t_parent t \<noteq> task \<and> tasks k (t_parent t) = Some p"
  shows "\<exists>k'. exit_self task st k = Some k' \<and> same_but (frame_byte t) k k' \<and>
    tasks k' = (if t_parent t \<noteq> 0 then (tasks k)(t_parent t \<mapsto> wake (t_pid t) st p,
        task \<mapsto> t\<lparr>t_has_frame := False, t_state := TASK_DEAD\<rparr>)
      else (tasks k)(task \<mapsto> t\<lparr>t_state := TASK_DEAD\<rparr>)) \<and>
    (t_parent t \<noteq> 0 \<and> t_has_frame t \<longrightarrow> exec_pool_used k' = t_frame_off t \<and> user_brk k' = t_frame_brk t \<and>
       frame_restore (t_frame_off t) (t_frame_stack_len t) (t_frame_img_base t) (t_frame_img_len t) (exec_pool k) (ram k) = Some (ram k'))"
proof (cases "t_parent t = 0")
  case True
  then show ?thesis using t by (simp add: exit_self_def upd_task_def same_but_def)
next
  case False
  note p = p [OF False]
  show ?thesis
  proof (cases "t_has_frame t")
    case True
    then obtain m' where m': "frame_restore (t_frame_off t) (t_frame_stack_len t) (t_frame_img_base t) (t_frame_img_len t) (exec_pool k) (ram k) = Some m'"
      "\<And>a. \<not> frame_byte t a \<Longrightarrow> m' a = ram k a"
      using frame_restore_defined [of "t_frame_off t" "t_frame_stack_len t" "t_frame_img_len t" "t_frame_img_base t" "exec_pool k" "ram k"] t(2)
      by (auto simp: frame_fits_def frame_byte_def)
    with t p False True show ?thesis
      by (simp add: exit_self_def exec_restore_def upd_task_def same_but_def wake_def fun_upd_twist frame_fits_def)
  next
    case no: False
    have e: "t\<lparr>t_has_frame := False, t_state := TASK_DEAD\<rparr> = t\<lparr>t_state := TASK_DEAD\<rparr>" using no by simp
    show ?thesis unfolding e using t p False no
      by (simp add: exit_self_def exec_restore_def upd_task_def same_but_def wake_def fun_upd_twist)
  qed
qed


section \<open>The whole tree\<close>

text \<open>What ending a task leaves untouched of it.\<close>

definition erase :: "task \<Rightarrow> task" where
  "erase t = t\<lparr>t_state := TASK_DEAD, t_zombie_valid := False, t_zombie_pid := 0, t_zombie_status := 0, t_has_frame := False\<rparr>"

lemma erase_simps [simp]:
  "t_next (erase t) = t_next t" "t_parent (erase t) = t_parent t" "t_pid (erase t) = t_pid t"
  "t_heap_alloc (erase t) = t_heap_alloc t" "t_stack (erase t) = t_stack t" "t_elf_lo (erase t) = t_elf_lo t"
  "t_elf_hi (erase t) = t_elf_hi t" "t_frame_off (erase t) = t_frame_off t"
  "t_frame_stack_len (erase t) = t_frame_stack_len t" "t_frame_img_base (erase t) = t_frame_img_base t"
  "t_frame_img_len (erase t) = t_frame_img_len t"
  by (simp_all add: erase_def)

lemma erase_cong: "erase t' = erase t \<Longrightarrow> (\<And>u. f (erase u) = f u) \<Longrightarrow> f t' = f t"
  by metis

lemma erase_wake [simp]: "erase (wake pid st t) = erase t"
  by (simp add: erase_def wake_def)

text \<open>The tasks \<open>D\<close> have died; \<open>task\<close>, their waiting ancestor, may have been woken; nothing else happened.\<close>

definition gone :: "u32 set \<Rightarrow> u32 \<Rightarrow> kern \<Rightarrow> kern \<Rightarrow> bool" where
  "gone D task k k' \<longleftrightarrow>
     (\<forall>x \<in> D. \<exists>t t'. tasks k x = Some t \<and> tasks k' x = Some t' \<and> t_state t' = TASK_DEAD \<and> erase t' = erase t) \<and>
     (\<forall>x. x \<notin> D \<longrightarrow> x \<noteq> task \<longrightarrow> tasks k' x = tasks k x) \<and>
     (task \<notin> D \<longrightarrow> (\<forall>t. tasks k task = Some t \<longrightarrow> (\<exists>t'. tasks k' task = Some t' \<and> erase t' = erase t \<and>
        t_has_frame t' = t_has_frame t \<and> (t_state t' = TASK_DEAD \<longleftrightarrow> t_state t = TASK_DEAD)))) \<and>
     (tasks k task = None \<longrightarrow> tasks k' task = None) \<and>
     same_but (\<lambda>a. \<exists>x \<in> D. \<exists>t. tasks k x = Some t \<and> frame_byte t a) k k'"

lemma gone_cases:
  assumes g: "gone D task k k'"
  obtains (dead) t t' where "x \<in> D" "tasks k x = Some t" "tasks k' x = Some t'" "t_state t' = TASK_DEAD" "erase t' = erase t"
  | (same) "x \<notin> D" "tasks k' x = tasks k x"
  | (woken) t t' where "x = task" "x \<notin> D" "tasks k x = Some t" "tasks k' x = Some t'" "erase t' = erase t"
      "t_has_frame t' = t_has_frame t" "t_state t' = TASK_DEAD \<longleftrightarrow> t_state t = TASK_DEAD"
proof -
  have d: "\<forall>x \<in> D. \<exists>t t'. tasks k x = Some t \<and> tasks k' x = Some t' \<and> t_state t' = TASK_DEAD \<and> erase t' = erase t"
    and s: "\<forall>x. x \<notin> D \<longrightarrow> x \<noteq> task \<longrightarrow> tasks k' x = tasks k x"
    and w: "task \<notin> D \<longrightarrow> (\<forall>t. tasks k task = Some t \<longrightarrow> (\<exists>t'. tasks k' task = Some t' \<and> erase t' = erase t \<and>
        t_has_frame t' = t_has_frame t \<and> (t_state t' = TASK_DEAD \<longleftrightarrow> t_state t = TASK_DEAD)))"
    and n: "tasks k task = None \<longrightarrow> tasks k' task = None"
    using g unfolding gone_def by - (elim conjE, assumption)+
  consider "x \<in> D" | "x \<notin> D" "x \<noteq> task" | "x \<notin> D" "x = task" "tasks k task = None" | t where "x \<notin> D" "x = task" "tasks k task = Some t"
    by fastforce
  then show thesis
  proof cases
    case 1
    then show thesis using d dead by blast
  next
    case 2
    then show thesis using s same by blast
  next
    case 3
    then show thesis using n same by simp
  next
    case 4
    then show thesis using w woken by blast
  qed
qed

lemma gone_erase: "gone D task k k' \<Longrightarrow> map_option erase (tasks k' x) = map_option erase (tasks k x)"
  by (erule gone_cases [where x = x]) auto

lemma gone_field:
  assumes g: "gone D task k k'" and f: "\<And>u. f (erase u) = f u"
  shows "map_option f (tasks k' x) = map_option f (tasks k x)"
proof -
  have "map_option f (map_option erase (tasks k' x)) = map_option f (map_option erase (tasks k x))"
    by (simp only: gone_erase [OF g])
  then show ?thesis by (simp add: option.map_comp o_def f)
qed

lemma gone_next: "gone D task k k' \<Longrightarrow> map_option t_next (tasks k' x) = map_option t_next (tasks k x)"
  by (rule gone_field) simp_all

lemma parent_of_alt: "parent_of k x = (case map_option t_parent (tasks k x) of None \<Rightarrow> 0 | Some p \<Rightarrow> p)"
  by (simp add: parent_of_def split: option.splits)

lemma gone_parent: "gone D task k k' \<Longrightarrow> parent_of k' x = parent_of k x"
  unfolding parent_of_alt by (simp only: gone_field [of D task k k' t_parent] erase_simps)

lemma gone_alive:
  assumes "gone D task k k'"
  shows "x \<in> D \<Longrightarrow> \<not> alive k' x" "x \<notin> D \<Longrightarrow> alive k' x = alive k x"
  by (rule gone_cases [OF assms, of x]; simp add: alive_def)+

lemma gone_live:
  assumes g: "gone D task k k'" and x: "tasks k' x = Some t'" "t_state t' \<noteq> TASK_DEAD"
  obtains t where "tasks k x = Some t" "t_state t \<noteq> TASK_DEAD" "t_has_frame t' = t_has_frame t" "erase t' = erase t"
proof (rule gone_cases [OF g, of x])
  assume "tasks k' x = tasks k x"
  then show thesis using x by (intro that [of t']) simp_all
qed (use x that in auto)

lemma gone_but: "gone D task k k' \<Longrightarrow> same_but (\<lambda>a. \<exists>x \<in> D. \<exists>t. tasks k x = Some t \<and> frame_byte t a) k k'"
  unfolding gone_def by (elim conjE)

lemma gone_same: "gone D task k k' \<Longrightarrow> x \<notin> D \<Longrightarrow> x \<noteq> task \<Longrightarrow> tasks k' x = tasks k x"
  unfolding gone_def by simp

lemma gone_trans:
  assumes g: "gone D task k k1" "gone E task k1 k'" and d: "D \<inter> E = {}" "task \<notin> D" "task \<notin> E"
  shows "gone (D \<union> E) task k k'"
  unfolding gone_def
proof (intro conjI ballI allI impI, goal_cases)
  have E: "tasks k1 x = tasks k x" if "x \<in> E" for x using that gone_same [OF g(1)] d by blast
  have D: "tasks k' x = tasks k1 x" if "x \<in> D" for x using that gone_same [OF g(2)] d by blast
  case (1 x)
  show ?case
  proof (cases "x \<in> D")
    case True
    then show ?thesis unfolding D [OF True] by (rule_tac gone_cases [OF g(1), of x]) auto
  next
    case False
    with 1 have "x \<in> E" by blast
    then show ?thesis unfolding E [OF \<open>x \<in> E\<close>, symmetric] by (rule_tac gone_cases [OF g(2), of x]) auto
  qed
next
  case (2 x)
  then show ?case using gone_same [OF g(1), of x] gone_same [OF g(2), of x] by simp
next
  case (3 t)
  obtain t1 where "tasks k1 task = Some t1" "erase t1 = erase t" "t_has_frame t1 = t_has_frame t" "t_state t1 = TASK_DEAD \<longleftrightarrow> t_state t = TASK_DEAD"
    by (rule gone_cases [OF g(1), of task]) (use 3 d(2) in auto)
  then show ?case by (rule_tac gone_cases [OF g(2), of task]) (use d(3) in auto)
next
  case 4
  then show ?case using gone_erase [OF g(1), of task] gone_erase [OF g(2), of task] by simp
next
  case 5
  have E: "tasks k1 x = tasks k x" if "x \<in> E" for x using that gone_same [OF g(1)] d by blast
  show ?case by (rule same_but_trans [OF gone_but [OF g(1)] gone_but [OF g(2)]]) (use E in auto)
qed

text \<open>The invariant of the walks: every task of the ring \<open>M\<close> reaches all others, the frames fit.\<close>

definition walks :: "u32 set \<Rightarrow> kern \<Rightarrow> bool" where
  "walks M k \<longleftrightarrow> (\<forall>task \<in> M. \<exists>t xs. tasks k task = Some t \<and> path k (t_next t) xs task \<and> distinct (task # xs) \<and> set xs = M - {task})"

definition exit_inv :: "(u32 \<Rightarrow> nat) \<Rightarrow> u32 set \<Rightarrow> kern \<Rightarrow> bool" where
  "exit_inv rank M k \<longleftrightarrow> tree_ok rank M k \<and> walks M k \<and>
     (\<forall>x \<in> M. \<forall>t. tasks k x = Some t \<longrightarrow> t_state t \<noteq> TASK_DEAD \<longrightarrow> frame_fits t)"

lemma gone_inv:
  assumes g: "gone D task k k'" and inv: "exit_inv rank M k"
    and closed: "\<And>x. x \<in> M \<Longrightarrow> alive k x \<Longrightarrow> parent_of k x \<in> D \<Longrightarrow> x \<in> D"
  shows "exit_inv rank M k'"
proof -
  have "tree_ok rank M k'"
    by (rule tree_after [of rank M k D]) (use inv closed gone_alive [OF g] gone_parent [OF g] in \<open>auto simp: exit_inv_def\<close>)
  moreover have "walks M k'"
    unfolding walks_def
  proof
    fix x assume "x \<in> M"
    then obtain t xs where t: "tasks k x = Some t" "path k (t_next t) xs x" "distinct (x # xs)" "set xs = M - {x}"
      using inv unfolding exit_inv_def walks_def by blast
    have "path k' (t_next t) xs x" by (rule path_cong [OF gone_next [OF g] t(2)])
    moreover obtain t' where "tasks k' x = Some t'" "t_next t' = t_next t" using gone_next [OF g, of x] t(1) by auto
    ultimately show "\<exists>t xs. tasks k' x = Some t \<and> path k' (t_next t) xs x \<and> distinct (x # xs) \<and> set xs = M - {x}"
      using t(3,4) by auto
  qed
  moreover have "frame_fits t'" if x: "x \<in> M" "tasks k' x = Some t'" "t_state t' \<noteq> TASK_DEAD" for x t'
  proof -
    obtain t where t: "tasks k x = Some t" "t_state t \<noteq> TASK_DEAD" "t_has_frame t' = t_has_frame t" "erase t' = erase t"
      by (rule gone_live [OF g x(2,3)])
    then have "frame_fits t" using inv x(1) by (auto simp: exit_inv_def)
    moreover have "t_frame_off t' = t_frame_off t" "t_frame_stack_len t' = t_frame_stack_len t" "t_frame_img_len t' = t_frame_img_len t"
      using t(4) by (auto intro: erase_cong)
    ultimately show ?thesis using t(3) by (simp add: frame_fits_def)
  qed
  ultimately show ?thesis by (simp add: exit_inv_def)
qed


text \<open>The walk over the ring, given what the call for a child does.\<close>

lemma exit_children_spec:
  assumes call: "\<And>k c tc. exit_inv rank M k \<Longrightarrow> c \<in> M \<Longrightarrow> tasks k c = Some tc \<Longrightarrow> t_state tc \<noteq> TASK_DEAD \<Longrightarrow> t_parent tc = task \<Longrightarrow>
      \<exists>k1 k2. exit_children c (t_next tc) k = Some k1 \<and> exit_self c 9 k1 = Some k2 \<and> gone {x. below k M c x} task k k2"
    and inv: "exit_inv rank M k" and tk: "task \<in> M" "alive k task"
    and xs: "path k t xs task" "task \<notin> set xs" "distinct xs" "set xs \<subseteq> M"
  shows "\<exists>k'. exit_children task t k = Some k' \<and>
    gone {x. \<exists>c \<in> set xs. parent_of k c = task \<and> below k M c x} task k k'"
  using inv tk xs
proof (induction xs arbitrary: t k)
  case Nil
  then show ?case by (subst exit_children.simps) (auto simp: gone_def same_but_refl)
next
  case (Cons c xs)
  let ?D = "\<lambda>k xs. {x. \<exists>c \<in> set xs. parent_of k c = task \<and> below k M c x}"
  obtain tc where tc: "t = c" "tasks k c = Some tc" "path k (t_next tc) xs task" using Cons.prems by auto
  have c: "c \<noteq> task" "c \<in> M" "c \<notin> set xs" "task \<notin> set xs" "distinct xs" "set xs \<subseteq> M" using Cons.prems by auto
  have tr: "tree_ok rank M k" and t0: "task \<noteq> 0" using Cons.prems by (auto simp: exit_inv_def tree_ok_def)
  show ?case
  proof (cases "t_parent tc = task \<and> t_state tc \<noteq> TASK_DEAD")
    case False
    have "parent_of k c = task \<Longrightarrow> \<not> below k M c x" for x
      using False tc(2) belowD [of k M c x] by (auto simp: parent_of_def alive_def)
    then have "?D k (c # xs) = ?D k xs" by auto
    then show ?thesis using Cons.IH [OF Cons.prems(1-3) tc(3) c(4-6)] False tc(1,2) c(1)
      by (subst exit_children.simps) auto
  next
    case True
    then obtain k1 k2 where r: "exit_children c (t_next tc) k = Some k1" "exit_self c 9 k1 = Some k2"
      and g: "gone {x. below k M c x} task k k2" using call [OF Cons.prems(1) c(2) tc(2)] by blast
    have pc: "parent_of k c = task" using True tc(2) by (simp add: parent_of_def)
    have nt: "\<not> below k M d task" if "parent_of k d = task" for d
      using below_rank(1) [of k M d task, OF _ tr] belowD [of k M d task] tr t0 that by (force simp: tree_ok_def)
    have closed: "x \<in> M \<Longrightarrow> alive k x \<Longrightarrow> parent_of k x \<in> {x. below k M c x} \<Longrightarrow> x \<in> {x. below k M c x}" for x
      by (auto intro: below.child)
    have inv2: "exit_inv rank M k2" by (rule gone_inv [OF g Cons.prems(1) closed])
    have a2: "alive k2 task" using gone_alive(2) [OF g, of task] nt [OF pc] Cons.prems(3) by simp
    obtain tc2 where tc2: "tasks k2 c = Some tc2" "t_next tc2 = t_next tc" using gone_next [OF g, of c] tc(2) by auto
    have "path k2 (t_next tc) xs task" by (rule path_cong [OF gone_next [OF g] tc(3)])
    from Cons.IH [OF inv2 Cons.prems(2) a2 this c(4-6)] obtain k' where
      k': "exit_children task (t_next tc) k2 = Some k'" "gone (?D k2 xs) task k2 k'" by blast
    have dj: "\<not> below k M d x" if "d \<in> set xs" "parent_of k d = task" "below k M c x" for d x
      using below_disjoint [OF tr _ _ _ that(3), of d] that pc t0 c(3) by auto
    have bl: "below k2 M d x = below k M d x" if "d \<in> set xs" "parent_of k d = task" for d x
      by (rule below_after [where D = "{x. below k M c x}"])
        (use gone_alive [OF g] gone_parent [OF g] dj [OF that] in auto)
    have D: "?D k2 xs = ?D k xs" using bl gone_parent [OF g] by auto
    have "gone ({x. below k M c x} \<union> ?D k xs) task k k'"
      by (rule gone_trans [OF g k'(2) [unfolded D]]) (use dj nt pc in auto)
    moreover have "{x. below k M c x} \<union> ?D k xs = ?D k (c # xs)" using pc by auto
    ultimately show ?thesis using r k'(1) True tc(1,2) c(1) tc2
      by (subst exit_children.simps) auto
  qed
qed


lemma gone_self:
  assumes g: "gone D task k k1" "task \<notin> D" and t: "tasks k task = Some t" "tasks k1 task = Some t1"
    and b: "same_but (frame_byte t1) k1 k2"
    and k2: "tasks k2 = (if t_parent t1 \<noteq> 0 then (tasks k1)(t_parent t1 \<mapsto> wake (t_pid t1) st p,
        task \<mapsto> t1\<lparr>t_has_frame := False, t_state := TASK_DEAD\<rparr>)
      else (tasks k1)(task \<mapsto> t1\<lparr>t_state := TASK_DEAD\<rparr>))"
    and p: "t_parent t1 \<noteq> 0 \<Longrightarrow> t_parent t1 \<noteq> task \<and> tasks k1 (t_parent t1) = Some p" "t_parent t1 \<notin> D"
  shows "gone (insert task D) (t_parent t1) k k2"
proof -
  have e: "erase t1 = erase t" "t_has_frame t1 = t_has_frame t"
    by (rule gone_cases [OF g(1), of task]; use g(2) t in auto)+
  have fb: "frame_byte t1 = frame_byte t"
    using erase_cong [OF e(1), of t_frame_stack_len] erase_cong [OF e(1), of t_frame_img_base] erase_cong [OF e(1), of t_frame_img_len] e(2)
    by (auto simp: frame_byte_def)
  have d: "erase (t1\<lparr>t_has_frame := h, t_state := TASK_DEAD\<rparr>) = erase t1" "erase (t1\<lparr>t_state := TASK_DEAD\<rparr>) = erase t1" for h
    by (simp_all add: erase_def)
  have nt: "t_parent t1 = 0 \<Longrightarrow> task \<noteq> 0 \<Longrightarrow> t_parent t1 \<noteq> task" by simp
  show ?thesis
    unfolding gone_def
  proof (intro conjI ballI allI impI, goal_cases)
    case (1 x)
    show ?case
    proof (cases "x = task")
      case True
      then show ?thesis using k2 t e(1) d by auto
    next
      case False
      then have "x \<in> D" "x \<noteq> t_parent t1" using 1 p(2) by auto
      then have "tasks k2 x = tasks k1 x" using k2 False by auto
      then show ?thesis using \<open>x \<in> D\<close> by (rule_tac gone_cases [OF g(1), of x]) auto
    qed
  next
    case (2 x)
    then show ?case using k2 gone_same [OF g(1), of x] by auto
  next
    case (3 u)
    then have "tasks k1 (t_parent t1) = tasks k (t_parent t1)" by (intro gone_same [OF g(1)]) auto
    then show ?case using 3 k2 p(1) by auto
  next
    case 4
    then have "tasks k1 (t_parent t1) = None" using gone_erase [OF g(1), of "t_parent t1"] by simp
    then show ?case using k2 p(1) t 4 by auto
  next
    case 5
    show ?case by (rule same_but_trans [OF gone_but [OF g(1)] b]) (use t fb in auto)
  qed
qed

lemma tree_not_below:
  assumes "tree_ok rank M k" "parent_of k c = task" "task \<noteq> 0" "rank x \<le> rank task"
  shows "\<not> below k M c x"
  using assms below_rank(1) [of k M c x, OF _ assms(1)] belowD [of k M c x] by (force simp: tree_ok_def)

lemma below_children:
  assumes tr: "tree_ok rank M k" and tM: "task \<in> M" "alive k task" and xs: "set xs = M - {task}"
  shows "insert task {x. \<exists>c \<in> set xs. parent_of k c = task \<and> below k M c x} = {x. below k M task x}"
proof (intro set_eqI iffI)
  let ?D = "{x. \<exists>c \<in> set xs. parent_of k c = task \<and> below k M c x}"
  fix x assume "x \<in> insert task ?D"
  then show "x \<in> {x. below k M task x}"
    using tM below_trans [of k M _ x task] by (auto intro: below.self below.child dest: belowD)
next
  let ?D = "{x. \<exists>c \<in> set xs. parent_of k c = task \<and> below k M c x}"
  fix x assume b: "x \<in> {x. below k M task x}"
  have t0: "task \<noteq> 0" using tr tM by (auto simp: tree_ok_def)
  show "x \<in> insert task ?D"
  proof (cases "x = task")
    case False
    then obtain c where "below k M c x" "parent_of k c = task" "c \<in> M" using b by (auto elim: below_split)
    moreover have "c \<noteq> task" using tree_not_below [OF tr _ t0, of c task] calculation tM by (auto intro: below.self)
    ultimately show ?thesis using xs by auto
  qed simp
qed

lemma exit_task_spec:
  assumes "exit_inv rank M k" "\<And>x. x \<in> M \<Longrightarrow> rank x \<le> N" "task \<in> M" "tasks k task = Some t" "t_state t \<noteq> TASK_DEAD"
  shows "\<exists>k1 k2 t1. exit_children task (t_next t) k = Some k1 \<and> exit_self task st k1 = Some k2 \<and>
    gone {x. below k M task x} (t_parent t) k k2 \<and> same_but (\<lambda>a. \<exists>x t. below k M task x \<and> tasks k x = Some t \<and> frame_byte t a) k k1 \<and>
    tasks k1 task = Some t1 \<and> erase t1 = erase t \<and> t_has_frame t1 = t_has_frame t \<and>
    (t_parent t \<noteq> 0 \<longrightarrow> tasks k1 (t_parent t) = tasks k (t_parent t) \<and>
       tasks k2 (t_parent t) = map_option (wake (t_pid t) st) (tasks k (t_parent t)) \<and>
       (t_has_frame t \<longrightarrow> exec_pool_used k2 = t_frame_off t \<and> user_brk k2 = t_frame_brk t \<and>
         frame_restore (t_frame_off t) (t_frame_stack_len t) (t_frame_img_base t) (t_frame_img_len t) (exec_pool k) (ram k1) = Some (ram k2)))"
  using assms
proof (induction "N - rank task" arbitrary: task k t st rule: less_induct)
  case less
  note inv = less.prems(1) and tM = less.prems(3) and t = less.prems(4,5)
  have tr: "tree_ok rank M k" using inv by (simp add: exit_inv_def)
  have al: "alive k task" using t by (simp add: alive_def)
  obtain xs where xs: "path k (t_next t) xs task" "distinct (task # xs)" "set xs = M - {task}"
    using inv tM t(1) unfolding exit_inv_def walks_def by fastforce
  let ?D = "{x. \<exists>c \<in> set xs. parent_of k c = task \<and> below k M c x}"
  have t0: "task \<noteq> 0" using tr tM by (auto simp: tree_ok_def)
  have "\<exists>k1. exit_children task (t_next t) k = Some k1 \<and> gone ?D task k k1"
  proof (rule exit_children_spec [OF _ inv tM al xs(1)])
    fix k c tc assume c: "exit_inv rank M k" "c \<in> M" "tasks k c = Some tc" "t_state tc \<noteq> TASK_DEAD" "t_parent tc = task"
    have "parent_of k c = task" "alive k c" using c by (auto simp: parent_of_def alive_def)
    then have "rank task < rank c" using c(1,2) t0 by (auto simp: exit_inv_def tree_ok_def)
    then have "N - rank c < N - rank task" using less.prems(2) [OF c(2)] by simp
    from less.hyps [OF this c(1) less.prems(2) c(2-4), of 9] show "\<exists>k1 k2. exit_children c (t_next tc) k = Some k1 \<and>
        exit_self c 9 k1 = Some k2 \<and> gone {x. below k M c x} task k k2" using c(5) by blast
  qed (use xs in auto)
  then obtain k1 where k1: "exit_children task (t_next t) k = Some k1" "gone ?D task k k1" by blast
  note nD = tree_not_below [OF tr _ t0]
  have D: "insert task ?D = {x. below k M task x}" by (rule below_children [OF tr tM al xs(3)])
  have tD: "task \<notin> ?D" using nD by auto
  obtain t1 where t1: "tasks k1 task = Some t1" "erase t1 = erase t" "t_has_frame t1 = t_has_frame t"
    by (rule gone_cases [OF k1(2), of task]) (use t tD in auto)
  note f = erase_cong [OF t1(2)]
  have par: "t_parent t \<noteq> 0 \<Longrightarrow> t_parent t \<in> M \<and> alive k (t_parent t) \<and> rank (t_parent t) < rank task"
    using tr tM al t(1) by (auto simp: tree_ok_def parent_of_def)
  have pD: "t_parent t \<notin> ?D"
    using nD [of _ "t_parent t"] par tr belowD by (cases "t_parent t = 0") (fastforce simp: tree_ok_def)+
  have pt: "t_parent t \<noteq> 0 \<Longrightarrow> t_parent t \<noteq> task" using par by auto
  obtain p where p: "t_parent t \<noteq> 0 \<Longrightarrow> tasks k (t_parent t) = Some p" using par by (auto simp: alive_def)
  have pk: "t_parent t \<noteq> 0 \<Longrightarrow> tasks k1 (t_parent t) = tasks k (t_parent t)" using gone_same [OF k1(2) pD] pt by blast
  have fits: "frame_fits t1" using inv tM t t1 f unfolding exit_inv_def frame_fits_def by (metis erase_simps(8,9,11))
  have e: "t_parent t1 = t_parent t" "t_pid t1 = t_pid t" "t_frame_off t1 = t_frame_off t" "t_frame_stack_len t1 = t_frame_stack_len t"
    "t_frame_img_base t1 = t_frame_img_base t" "t_frame_img_len t1 = t_frame_img_len t" "t_frame_brk t1 = t_frame_brk t"
    by (rule f, simp add: erase_def)+
  have p1: "t_parent t1 \<noteq> 0 \<Longrightarrow> t_parent t1 \<noteq> task \<and> tasks k1 (t_parent t1) = Some p" using p pk pt unfolding e by simp
  obtain k2 where k2: "exit_self task st k1 = Some k2" "same_but (frame_byte t1) k1 k2"
    "tasks k2 = (if t_parent t1 \<noteq> 0 then (tasks k1)(t_parent t1 \<mapsto> wake (t_pid t1) st p,
        task \<mapsto> t1\<lparr>t_has_frame := False, t_state := TASK_DEAD\<rparr>)
      else (tasks k1)(task \<mapsto> t1\<lparr>t_state := TASK_DEAD\<rparr>))"
    "t_parent t1 \<noteq> 0 \<and> t_has_frame t1 \<longrightarrow> exec_pool_used k2 = t_frame_off t1 \<and> user_brk k2 = t_frame_brk t1 \<and>
       frame_restore (t_frame_off t1) (t_frame_stack_len t1) (t_frame_img_base t1) (t_frame_img_len t1) (exec_pool k1) (ram k1) = Some (ram k2)"
    using exit_self_spec [OF t1(1) fits p1] by blast
  have "gone (insert task ?D) (t_parent t1) k k2"
    by (rule gone_self [OF k1(2) tD t(1) t1(1) k2(2,3) p1]) (use pD e in auto)
  then have g: "gone {x. below k M task x} (t_parent t) k k2" unfolding D e .
  have b: "same_but (\<lambda>a. \<exists>x t. below k M task x \<and> tasks k x = Some t \<and> frame_byte t a) k k1"
    by (rule same_but_trans [OF gone_but [OF k1(2)] same_but_refl, where B = "\<lambda>a. False"]) (use D in blast)
  have "exec_pool k1 = exec_pool k" using b by (simp add: same_but_def)
  moreover have "t_parent t \<noteq> 0 \<Longrightarrow> tasks k2 (t_parent t) = map_option (wake (t_pid t) st) (tasks k (t_parent t))"
    using k2(3) p pt by (simp add: e)
  ultimately show ?case
    using k1(1) k2(1,4) g b t1 pk unfolding e
    by (intro exI [of _ k1] exI [of _ k2] exI [of _ t1]) simp
qed

end
