(* ===== verification/Exec_Run.thy ===== *)
theory Exec_Run
  imports Exec_Spec
begin

text \<open>
  The properties of program execution: \<open>exec_run\<close> is all or nothing, \<open>exec_restore\<close> undoes what it
  saved, and what neither of them saves. A concrete run of a small ELF file on a machine with two
  tasks shows that the hypotheses hold together.
\<close>

section \<open>Properties\<close>


text \<open>A byte that a run of a program with the extent of \<open>c\<close> saves for the caller \<open>p\<close>.\<close>

definition saved_byte :: "task \<Rightarrow> task \<Rightarrow> u32 \<Rightarrow> bool" where
  "saved_byte p c a \<longleftrightarrow> t_elf_hi p \<noteq> 0 \<and> (stack_base \<le> a \<and> a < EXEC_STACK_TOP \<or>
     t_elf_lo c \<le> a \<and> a < t_elf_hi c \<and> t_elf_lo p \<le> a \<and> a < t_elf_hi p)"

text \<open>The frame of a child is the same in another state.\<close>

definition same_frame :: "task \<Rightarrow> task \<Rightarrow> bool" where
  "same_frame c c2 \<longleftrightarrow> t_has_frame c2 \<and> t_frame_off c2 = t_frame_off c \<and> t_frame_stack_len c2 = t_frame_stack_len c \<and>
     t_frame_img_base c2 = t_frame_img_base c \<and> t_frame_img_len c2 = t_frame_img_len c \<and> t_frame_brk c2 = t_frame_brk c"

lemma exec_run_frame:
  assumes lay: "layout_ok hs he ks ke" and ok: "exec_ok hs he ks ke k rest L"
    and p: "tasks k (current_task k) = Some p"
    and run: "exec_run hs he ks ke enter fs prog argv envp k = Some (0, Some (parent, child), k1)"
    and c: "tasks k1 child = Some c" "same_frame c c2"
    and pl: "\<And>i. unat (exec_pool_used k) \<le> i \<Longrightarrow> i < unat (exec_pool_used k1) \<Longrightarrow> ep (of_nat i) = exec_pool k1 (of_nat i)"
  shows "t_frame_off c2 = exec_pool_used k" "t_frame_brk c2 = user_brk k" "t_parent c = current_task k" "parent = current_task k"
    "\<exists>m3. frame_restore (t_frame_off c2) (t_frame_stack_len c2) (t_frame_img_base c2) (t_frame_img_len c2) ep m = Some m3 \<and>
      (\<forall>a. m3 a = (if saved_byte p c a then ram k a else m a))"
proof -
  obtain lo hi sl ib il where R: "exec_frame p lo hi = (sl, ib, il)"
    "child_started k (lo, hi) (exec_pool_used k) (sl, ib, il) child k1"
    "frame_save (exec_pool_used k) sl ib il (ram k) (exec_pool k) = Some (exec_pool k1)"
    "unat (exec_pool_used k) + unat sl + unat il \<le> unat (exec_pool_used k1)" "unat (exec_pool_used k1) \<le> 0x80000"
    "parent = current_task k"
    using exec_run_spec [OF lay ok p, of enter fs prog argv envp] run by (auto simp: exec_ok_def)
  have F: "t_elf_lo c = lo" "t_elf_hi c = hi" "t_frame_off c2 = exec_pool_used k" "t_frame_stack_len c2 = sl"
    "t_frame_img_base c2 = ib" "t_frame_img_len c2 = il" "t_frame_brk c2 = user_brk k" "t_parent c = current_task k"
    using R(2) c by (auto simp: child_started_def same_frame_def)
  have "unat (t_elf_hi p) \<le> 0x400000" using ok p by (auto simp: exec_ok_def elf_ok_def)
  then have S: "sl = (if t_elf_hi p \<noteq> 0 then EXEC_STACK_SIZE else 0)"
    "in_region a ib (unat il) \<longleftrightarrow> t_elf_hi p \<noteq> 0 \<and> lo \<le> a \<and> t_elf_lo p \<le> a \<and> a < hi \<and> a < t_elf_hi p" for a
    using R(1) by (auto intro: exec_frame_spec [of p lo hi])
  have reg: "in_region a stack_base (unat sl) \<or> in_region a ib (unat il) \<longleftrightarrow> saved_byte p c a" for a
    unfolding S saved_byte_def F using stack_region [of a] by (auto simp: in_region_def)
  have "unat (exec_pool_used k) + unat sl + unat il \<le> 0x80000" using R(4,5) by simp
  from frame_round_trip [OF R(3) this pl, of m] R(4) F show
    "\<exists>m3. frame_restore (t_frame_off c2) (t_frame_stack_len c2) (t_frame_img_base c2) (t_frame_img_len c2) ep m = Some m3 \<and>
      (\<forall>a. m3 a = (if saved_byte p c a then ram k a else m a))" unfolding reg by auto
qed (use assms exec_run_spec [OF lay ok p, of enter fs prog argv envp] in \<open>auto simp: child_started_def same_frame_def\<close>)

lemma exec_restore_spec:
  assumes lay: "layout_ok hs he ks ke" and ok: "exec_ok hs he ks ke k rest L"
    and p: "tasks k (current_task k) = Some p"
    and run: "exec_run hs he ks ke enter fs prog argv envp k = Some (0, Some (parent, child), k1)"
    and c: "tasks k1 child = Some c" "same_frame c c2" and c2: "tasks k2 child = Some c2"
    and pl: "\<And>i. unat (exec_pool_used k) \<le> i \<Longrightarrow> i < unat (exec_pool_used k1) \<Longrightarrow>
      exec_pool k2 (of_nat i) = exec_pool k1 (of_nat i)"
  shows "\<exists>k3. exec_restore child k2 = Some k3 \<and> exec_pool_used k3 = exec_pool_used k \<and>
    user_brk k3 = user_brk k \<and> tasks k3 = (tasks k2)(child \<mapsto> c2\<lparr>t_has_frame := False\<rparr>) \<and>
    (\<forall>a. ram k3 a = (if saved_byte p c a then ram k a else ram k2 a))"
proof -
  note F = exec_run_frame [OF lay ok p run c pl]
  obtain m3 where "frame_restore (t_frame_off c2) (t_frame_stack_len c2) (t_frame_img_base c2) (t_frame_img_len c2) (exec_pool k2) (ram k2) = Some m3"
    "\<forall>a. m3 a = (if saved_byte p c a then ram k a else ram k2 a)" using F(5) [of "ram k2"] by blast
  moreover have "t_has_frame c2" using c(2) by (simp add: same_frame_def)
  ultimately show ?thesis using c2 F(1,2) by (simp add: exec_restore_def upd_task_def)
qed

text \<open>Once the child of a successful \<open>exec_run\<close> is done, whatever happened to memory in between,
  as long as the child's frame and the bytes of it in the save pool were left alone, \<open>exec_restore\<close>
  puts back the heap break and the pool, and every byte of the caller's stack and of the part of
  the caller's image that the child's image covers; no other byte changes.\<close>

theorem exec_restore_round_trip:
  assumes lay: "layout_ok hs he ks ke" and ok: "exec_ok hs he ks ke k rest L"
    and p: "tasks k (current_task k) = Some p"
    and run: "exec_run hs he ks ke enter fs prog argv envp k = Some (0, Some (parent, child), k1)"
    and c: "tasks k1 child = Some c" "same_frame c c2" and c2: "tasks k2 child = Some c2"
    and pl: "\<And>i. unat (exec_pool_used k) \<le> i \<Longrightarrow> i < unat (exec_pool_used k1) \<Longrightarrow>
      exec_pool k2 (of_nat i) = exec_pool k1 (of_nat i)"
  shows "\<exists>k3. exec_restore child k2 = Some k3 \<and> exec_pool_used k3 = exec_pool_used k \<and>
    user_brk k3 = user_brk k \<and> tasks k3 = (tasks k2)(child \<mapsto> c2\<lparr>t_has_frame := False\<rparr>) \<and>
    (\<forall>a. ram k3 a = (if saved_byte p c a then ram k a else ram k2 a))"
  by (rule exec_restore_spec [OF lay ok p run c c2 pl])

section \<open>A run\<close>

definition demo_fs :: ramfs where
  "demo_fs = (ramfs_blank (write_bytes (\<lambda>a. 0) 0 tiny_elf))
     \<lparr>inodes := [zero_inode\<lparr>i_type := RAMFS_TYPE_DIR, i_name := ''/''\<rparr>,
        zero_inode\<lparr>i_ino := 1, i_type := RAMFS_TYPE_FILE, i_name := ''f'', i_data := Some 0,
          i_size := of_nat (length tiny_elf)\<rparr>]\<rparr>"

lemma demo_file: "ramfs_file_data (Some ''/f'') demo_fs = Some (Some 0, 88)"
  by code_simp


text \<open>The task 0x9100 started the task 0x9000, whose image is smaller, which now runs a program
  that is larger again; all of them are linked at 0x300000.\<close>

definition demo_kern :: kern where
  "demo_kern = boot_kern\<lparr>
     tasks := [0x9000 \<mapsto> zero_task\<lparr>t_pid := 2, t_next := 0x9100, t_parent := 0x9100, t_elf_lo := 0x300000, t_elf_hi := 0x300004\<rparr>,
               0x9100 \<mapsto> zero_task\<lparr>t_pid := 1, t_next := 0x9000, t_state := TASK_BLOCKED,
                           t_elf_lo := 0x300000, t_elf_hi := 0x300010\<rparr>],
     next_pid := 3, kheap := \<lparr>km_mem = (\<lambda>a. 0)(0x300004 := 7), heap_base = 0, heap_ptr = 0\<rparr>\<rparr>"

abbreviation demo_run where
  "demo_run \<equiv> exec_run 0x110000 0x1F0000 0x100000 0x200000 0x100123 demo_fs (Some ''/f'') 0 0 demo_kern"

lemma demo_layout: "layout_ok 0x110000 0x1F0000 0x100000 0x200000"
  by (simp add: layout_ok_def)

lemma demo_fresh: "kheap_fresh 0x110000 0x1F0000 (kheap demo_kern)"
proof -
  have "kheap_fresh 0x110000 0x1F0000 \<lparr>km_mem = (\<lambda>a. 0), heap_base = 0, heap_ptr = 0\<rparr>"
    by (simp add: kheap_fresh_def virgin_def load32_def KMALLOC_MAGIC_def)
  from kheap_fresh_frame [OF this, of "km_mem (kheap demo_kern)"] show ?thesis
    by (simp add: demo_kern_def of_nat32_eq_iff [of _ "0x300004", simplified])
qed

lemma demo_ok: "exec_ok 0x110000 0x1F0000 0x100000 0x200000 demo_kern [0x9100] {}"
proof -
  have "ring demo_kern [0x9100]" by (simp add: ring_def demo_kern_def boot_kern_def)
  moreover have "krep 0x110000 0x1F0000 (kheap demo_kern) {}" using demo_fresh by (simp add: krep_def)
  moreover have "owned demo_kern [0x9000, 0x9100] = []" by (simp add: owned_def owned_by_def demo_kern_def zero_task_def)
  moreover have "current_task demo_kern = 0x9000" "kpaging demo_kern = identity_pt" "exec_pool_used demo_kern = 0"
    by (simp_all add: demo_kern_def boot_kern_def)
  moreover have "elf_ok 0x100000 0x200000 t" if "p \<in> {0x9000, 0x9100}" "tasks demo_kern p = Some t" for p t
    using that by (auto simp: demo_kern_def zero_task_def elf_ok_def hull_ok_def)
  moreover have "static_apart 0x110000 0x1F0000 demo_kern p" if "p \<in> {0x9000, 0x9100}" for p
    using that by (auto simp: static_apart_def)
  moreover have "alive demo_kern 0x9000" by (simp add: alive_def demo_kern_def zero_task_def)
  moreover have "alive demo_kern 0x9100" "parent_of demo_kern 0x9000 = 0x9100" "parent_of demo_kern 0x9100 = 0"
    by (simp_all add: alive_def parent_of_def demo_kern_def zero_task_def)
  then have "tree_ok (\<lambda>x. if x = 0x9100 then 0 else 1) {0x9000, 0x9100} demo_kern" by (simp add: tree_ok_def)
  then have "procs_ok 0x100000 0x200000 {0x9000, 0x9100} demo_kern"
    by (auto simp: procs_ok_def) (auto simp: demo_kern_def zero_task_def frame_ok_def frame_fits_def frame_byte_def)
  ultimately show ?thesis using pt_maps_identity unfolding exec_ok_def sched_inv_def by auto
qed

lemma demo_image: "read_bytes (pool demo_fs) 0 88 = tiny_elf"
proof -
  have "read_bytes (write_bytes m (0 :: u32) tiny_elf) 0 (length tiny_elf) = tiny_elf" for m
    by (rule nth_equalityI) (auto simp: write_bytes_in in_region_iff unat_of_nat32 tiny_elf_def)
  moreover have "length tiny_elf = 88" by (simp add: tiny_elf_def)
  ultimately show ?thesis by (simp add: demo_fs_def ramfs_blank_def)
qed

lemma demo_steps: "demo_run = exec_image 0x110000 0x1F0000 0x100000 0x200000 0x100123 tiny_elf (0x300000, 0x300008) ([], []) demo_kern"
  by (simp add: exec_run_def demo_file demo_image tiny_extent exec_args_def copy_strings_def)


lemma demo_task_new:
  assumes k: "tasks k = tasks demo_kern" "current_task k = 0x9000" "kheap_fresh 0x110000 0x1F0000 (kheap k)"
    "sched_task_new 0x110000 0x1F0000 enter entry sp k = Some (r, k')"
  shows "r \<noteq> 0"
proof -
  have T: "tasks k 0x9000 = Some (zero_task\<lparr>t_pid := 2, t_next := 0x9100, t_parent := 0x9100, t_elf_lo := 0x300000, t_elf_hi := 0x300004\<rparr>)"
    "tasks k 0x9100 = Some (zero_task\<lparr>t_pid := 1, t_next := 0x9000, t_state := TASK_BLOCKED, t_elf_lo := 0x300000, t_elf_hi := 0x300010\<rparr>)"
    using k(1) by (simp_all add: demo_kern_def)
  have reap: "sched_reap 0x1F0000 k = Some k"
    using T k(2) by (simp add: sched_reap_def) (subst reap_loop.simps, simp, subst reap_loop.simps, simp)
  obtain p s1 q s2 where "kmalloc 0x110000 0x1F0000 76 (kheap k) = Some (p, s1)" "p \<noteq> 0"
    "kmalloc 0x110000 0x1F0000 4096 s1 = Some (q, s2)" "q \<noteq> 0"
    using kmalloc_two_fresh [OF k(3), of 76 4096] by auto
  then show ?thesis using k(4) reap T(1) k(2) by (auto simp: sched_task_new_def upd_task_def Let_def split: prod.splits)
qed

lemma demo_child:
  assumes "exec_child hs he enter entry sp extent off fr k = Some (r, sw, k')"
    "\<And>c k1. sched_task_new hs he enter entry sp k = Some (c, k1) \<Longrightarrow> c \<noteq> 0"
  shows "r = 0"
  using assms by (auto simp: exec_child_def split: Option.bind_splits if_splits)


lemma demo_loaded:
  assumes m: "\<And>a. a < stack_base \<or> EXEC_STACK_TOP \<le> a \<Longrightarrow> m a = ram demo_kern a"
    and ld: "elf_load 0x100000 0x200000 tiny_elf (m, pg) = Some (r, m', pg')" "pt_maps U pg"
    and a: "unat a < 0x1F0008"
  shows "m' a = ram demo_kern a"
proof -
  have "length tiny_elf < 4294967296" by (simp add: tiny_elf_def)
  from elf_extent_load [OF this _ tiny_extent ld(1), of U] ld(2)
  have "m' a \<noteq> m a \<Longrightarrow> 0x300000 \<le> a" by auto
  moreover have "\<not> 0x300000 \<le> a" "a < stack_base" using a by (simp_all add: word_le_nat_alt word_less_nat_alt const_defs)
  ultimately show ?thesis using m [of a] by auto
qed

lemma demo_stack:
  obtains sp m where "elf_build_user_stack stack_base EXEC_STACK_TOP (Some []) (Some []) m0 = (sp, m)" "sp \<noteq> 0"
    "\<And>a. a < stack_base \<or> EXEC_STACK_TOP \<le> a \<Longrightarrow> m a = m0 a"
proof -
  have pre: "unat stack_base mod 4 = 0" "stack_base \<le> EXEC_STACK_TOP"
    "stack_need (strings_of (Some [])) (strings_of (Some [])) < 4294967296"
    by (simp_all add: const_defs stack_need_def strings_of_def)
  obtain sp m where S: "elf_build_user_stack stack_base EXEC_STACK_TOP (Some []) (Some []) m0 = (of_nat sp, m)"
    "stack_holds m (unat stack_base) (unat EXEC_STACK_TOP) sp [] []" "\<forall>a. a < stack_base \<or> EXEC_STACK_TOP \<le> a \<longrightarrow> m a = m0 a"
    using build_stack_spec [OF pre, of m0] by (auto simp: strings_of_def stack_need_def const_defs)
  have "(of_nat sp :: u32) \<noteq> 0"
    using S(2) of_nat32_eq_iff [of sp 0] by (auto simp: stack_holds_def const_defs)
  then show thesis by (rule that [OF S(1)]) (use S(3) in blast)
qed

lemma demo_child_spec:
  assumes ok: "exec_ok 0x110000 0x1F0000 0x100000 0x200000 k [0x9100] {}" and k: "tasks k = tasks demo_kern" "current_task k = 0x9000"
    and fresh: "kheap_fresh 0x110000 0x1F0000 (kheap k)"
    and ep: "frame_save 0 0x4000 0x300000 4 m0 ep0 = Some (exec_pool k)"
  shows "\<exists>child k1. exec_child 0x110000 0x1F0000 enter entry sp (0x300000, 0x300008) 0 (0x4000, 0x300000, 4) k =
      Some (0, Some (0x9000, child), k1) \<and> same_out 0x110000 0x1F0000 (ram k) (ram k1)"
proof -
  define reg where "reg a \<longleftrightarrow> in_region a stack_base 0x4000 \<or> in_region a 0x300000 4" for a :: u32
  have R: "\<exists>m'. frame_restore 0 0x4000 0x300000 4 (exec_pool k) m = Some m' \<and> (\<forall>a. m' a = (if reg a then m0 a else m a))" for m
    using frame_round_trip [OF ep, of "exec_pool k" m] by (simp add: reg_def)
  have reg: "\<not> (0x100000 \<le> a \<and> a < 0x200000)" if "reg a" for a
    using that stack_region [of a] by (auto simp: reg_def in_region_iff const_defs word_le_nat_alt word_less_nat_alt)
  have "\<exists>r sw k' rest' L'. exec_child 0x110000 0x1F0000 enter entry sp (0x300000, 0x300008) 0 (0x4000, 0x300000, 4) k = Some (r, sw, k') \<and>
    exec_ok 0x110000 0x1F0000 0x100000 0x200000 k' rest' L' \<and>
    (r = -1 \<and> sw = None \<and> given_up 0x110000 0x1F0000 m0 reg 0 k k' \<or>
     r = 0 \<and> exec_pool k' = exec_pool k \<and> exec_pool_used k' = exec_pool_used k \<and>
       same_out (unat (0x110000 :: u32)) (unat (0x1F0000 :: u32)) (ram k) (ram k') \<and>
       (\<exists>child. sw = Some (current_task k, child) \<and> child_started k (0x300000, 0x300008) 0 (0x4000, 0x300000, 4) child k'))"
    by (rule exec_child_spec [OF ok demo_layout _ _ _ R reg]) (simp_all add: hull_ok_def reg_def)
  then obtain r sw k' where E: "exec_child 0x110000 0x1F0000 enter entry sp (0x300000, 0x300008) 0 (0x4000, 0x300000, 4) k = Some (r, sw, k')"
    "r = 0 \<Longrightarrow> same_out 0x110000 0x1F0000 (ram k) (ram k') \<and> (\<exists>child. sw = Some (0x9000, child))"
    using k(2) by auto
  have "r = 0" using demo_child [OF E(1)] demo_task_new [OF k fresh] by blast
  with E show ?thesis by auto
qed

lemma demo_started:
  "\<exists>child k1. demo_run = Some (0, Some (0x9000, child), k1) \<and> ram k1 0x300004 = 0"
proof -
  let ?p = "zero_task\<lparr>t_pid := 2, t_next := 0x9100, t_parent := 0x9100, t_elf_lo := 0x300000, t_elf_hi := 0x300004\<rparr>"
  have K: "tasks demo_kern (current_task demo_kern) = Some ?p" "exec_pool_used demo_kern = 0" "current_task demo_kern = 0x9000"
    "kpaging demo_kern = identity_pt"
    by (simp_all add: demo_kern_def boot_kern_def)
  have fr: "exec_frame ?p 0x300000 0x300008 = (0x4000, 0x300000, 4)" by (simp add: exec_frame_def zero_task_def const_defs)
  have al: "align16 0x4000 + align16 4 = 0x4010" by (simp add: align16_def)
  obtain ep where ep: "frame_save 0 0x4000 0x300000 4 (ram demo_kern) (exec_pool demo_kern) = Some ep"
    using frame_save_defined [of 0 "0x4000" 4 "0x300000" "ram demo_kern" "exec_pool demo_kern"] by auto
  obtain U pg where pg: "paging_map_user_range stack_base EXEC_STACK_TOP identity_pt = Some pg" "pt_maps U pg"
    using map_user_range_maps [OF pt_maps_identity] by blast
  obtain sp m where bs: "elf_build_user_stack stack_base EXEC_STACK_TOP (Some []) (Some []) (ram demo_kern) = (sp, m)" "sp \<noteq> 0"
    "\<And>a. a < stack_base \<or> EXEC_STACK_TOP \<le> a \<Longrightarrow> m a = ram demo_kern a" by (rule demo_stack [of "ram demo_kern"]) (rule that)
  obtain m' pg' where ld: "elf_load 0x100000 0x200000 tiny_elf (m, pg) = Some (Some 0x300000, m', pg')" "m' 0x300004 = 0"
    using tiny_load_any [of U "(m, pg)"] pg(2) by auto
  have len: "length tiny_elf < 4294967296" by (simp add: tiny_elf_def)
  have pg': "\<exists>U. pt_maps U pg'" using elf_load_spec [OF len, of U "(m, pg)" "0x100000" "0x200000"] pg(2) ld(1) by auto
  let ?k2 = "demo_kern\<lparr>exec_pool := ep, exec_pool_used := 0x4010, kheap := (kheap demo_kern)\<lparr>km_mem := m'\<rparr>, kpaging := pg'\<rparr>"
  have run: "demo_run = exec_child 0x110000 0x1F0000 0x100123 0x300000 sp (0x300000, 0x300008) 0 (0x4000, 0x300000, 4) ?k2"
    using ep pg(1) bs(1,2) ld(1) K by (simp add: demo_steps exec_image_def fr al Let_def EXEC_POOL_SIZE_def)
  have fresh: "kheap_fresh 0x110000 0x1F0000 (kheap ?k2)"
    using kheap_fresh_frame [OF demo_fresh, of m'] demo_loaded [OF bs(3) ld(1) pg(2)] by (simp add: unat_of_nat32)
  have "exec_ok 0x110000 0x1F0000 0x100000 0x200000 (set_ram m' demo_kern) [0x9100] {}"
    by (rule exec_ok_ram [OF demo_ok]) (use demo_loaded [OF bs(3) ld(1) pg(2)] in simp)
  then have "exec_ok 0x110000 0x1F0000 0x100000 0x200000 ?k2 [0x9100] {}"
    by (rule exec_ok_cong) (use pg' in simp_all)
  from demo_child_spec [OF this _ _ fresh, of "ram demo_kern" "exec_pool demo_kern" "0x100123" "0x300000" sp] ep K(3) run ld(2)
  show ?thesis by (auto dest!: same_outD [of _ _ _ _ "0x300004"])
qed



lemma demo_extent:
  assumes "demo_run = Some (0, sw, k1)" "sw = Some (0x9000, child)"
  shows "\<exists>c. tasks k1 child = Some c \<and> t_has_frame c \<and> t_elf_lo c = 0x300000 \<and> t_elf_hi c = 0x300008"
proof -
  have c: "current_task demo_kern = 0x9000" by (simp add: demo_kern_def boot_kern_def)
  then obtain p where p: "tasks demo_kern (current_task demo_kern) = Some p" by (simp add: demo_kern_def)
  show ?thesis
    using exec_run_spec [OF demo_layout demo_ok p, of "0x100123" demo_fs "Some ''/f''" 0 0] assms
    by (auto simp: child_started_def demo_file demo_image tiny_extent)
qed

theorem exec_restore_round_trip_witness:
  "\<exists>child k1 k3. demo_run = Some (0, Some (0x9000, child), k1) \<and> exec_restore child k1 = Some k3 \<and>
    exec_pool_used k3 = 0 \<and> ram k3 0x300000 = ram demo_kern 0x300000 \<and> ram k3 0x300004 = ram k1 0x300004"
proof -
  obtain p where p: "tasks demo_kern (current_task demo_kern) = Some p" "t_elf_lo p = 0x300000" "t_elf_hi p = 0x300004"
    by (simp add: demo_kern_def boot_kern_def)
  obtain child k1 where r: "demo_run = Some (0, Some (0x9000, child), k1)" using demo_started by blast
  obtain c where c: "tasks k1 child = Some c" "t_has_frame c" "t_elf_lo c = 0x300000" "t_elf_hi c = 0x300008"
    using demo_extent [OF r refl] by blast
  have "\<exists>k3. exec_restore child k1 = Some k3 \<and> exec_pool_used k3 = exec_pool_used demo_kern \<and>
    user_brk k3 = user_brk demo_kern \<and> tasks k3 = (tasks k1)(child \<mapsto> c\<lparr>t_has_frame := False\<rparr>) \<and>
    (\<forall>a. ram k3 a = (if saved_byte p c a then ram demo_kern a else ram k1 a))"
    by (rule exec_restore_round_trip [OF demo_layout demo_ok p(1) r c(1) _ c(1)]) (use c(2) in \<open>simp_all add: same_frame_def\<close>)
  then obtain k3 where "exec_restore child k1 = Some k3" "exec_pool_used k3 = exec_pool_used demo_kern"
    "ram k3 0x300000 = ram demo_kern 0x300000" "ram k3 0x300004 = ram k1 0x300004"
    using p(2,3) c(3,4) by (auto simp: saved_byte_def const_defs)
  with r show ?thesis by (auto simp: demo_kern_def boot_kern_def)
qed


end
