(* ===== verification/Exit_Spec.thy ===== *)
theory Exit_Spec
  imports Exit Exec_Run
begin

text \<open>
  The properties of the end of a task: the invariant of the process state survives it, and together
  with \<open>exec_run\<close> it gives the caller its memory back. The run of \<open>Exec_Run\<close> is continued to the exit
  of its child.
\<close>

section \<open>The invariant of the process state\<close>

text \<open>\<open>exec_ok\<close> without the demand that the running task is alive.\<close>

definition proc_inv :: "u32 \<Rightarrow> u32 \<Rightarrow> u32 \<Rightarrow> u32 \<Rightarrow> kern \<Rightarrow> u32 list \<Rightarrow> (nat \<times> nat) set \<Rightarrow> bool" where
  "proc_inv hs he ks ke k rest L \<longleftrightarrow> sched_inv hs he k rest L \<and> (\<exists>U. pt_maps U (kpaging k)) \<and>
     unat (exec_pool_used k) \<le> 0x80000 \<and>
     (\<forall>p \<in> set (current_task k # rest). \<forall>t. tasks k p = Some t \<longrightarrow> elf_ok ks ke t) \<and>
     procs_ok ks ke (set (current_task k # rest)) k"

lemma exec_ok_alt: "exec_ok hs he ks ke k rest L \<longleftrightarrow> proc_inv hs he ks ke k rest L \<and> alive k (current_task k)"
  unfolding exec_ok_def proc_inv_def by blast

lemma procs_ok_keep:
  assumes "procs_ok ks ke M k" "\<And>x. x \<in> M \<Longrightarrow> alive k' x = alive k x \<and> parent_of k' x = parent_of k x"
    and "\<And>x u. x \<in> M \<Longrightarrow> tasks k' x = Some u \<Longrightarrow> t_state u \<noteq> TASK_DEAD \<Longrightarrow> frame_ok ks ke u"
  shows "procs_ok ks ke M k'"
proof -
  obtain rank where tr: "tree_ok rank M k" using assms(1) by (auto simp: procs_ok_def)
  have "tree_ok rank M k'" by (rule tree_after [OF tr, where D = "{}"]) (use assms(2) in auto)
  then show ?thesis using assms(3) by (auto simp: procs_ok_def)
qed

lemma walks_ring:
  assumes r: "ring k rest"
  shows "walks (set (current_task k # rest)) k"
  unfolding walks_def
proof
  let ?c = "current_task k"
  fix x assume "x \<in> set (?c # rest)"
  then obtain ys zs where s: "?c # rest = ys @ x # zs" by (meson split_list)
  have d: "distinct (ys @ x # zs)" "path k ?c (ys @ x # zs) ?c" using r unfolding ring_def s by auto
  then have p: "path k ?c ys x" "path k x (x # zs) ?c" by (auto simp: path_append)
  then obtain t where t: "tasks k x = Some t" "path k (t_next t) zs ?c" by auto
  then have "path k (t_next t) (zs @ ys) x" using p(1) by (auto simp: path_append)
  moreover have "set (zs @ ys) = set (?c # rest) - {x}" unfolding s using d(1) by auto
  ultimately show "\<exists>t xs. tasks k x = Some t \<and> path k (t_next t) xs x \<and> distinct (x # xs) \<and> set xs = set (?c # rest) - {x}"
    using t(1) d(1) by (intro exI [of _ t] exI [of _ "zs @ ys"]) auto
qed

lemma proc_inv_exit:
  assumes "proc_inv hs he ks ke k rest L"
  obtains rank N where "exit_inv rank (set (current_task k # rest)) k" "\<And>x. x \<in> set (current_task k # rest) \<Longrightarrow> rank x \<le> N"
proof -
  let ?M = "set (current_task k # rest)"
  have r: "ring k rest" using assms by (simp add: proc_inv_def sched_inv_def)
  obtain rank where tr: "tree_ok rank ?M k" using assms by (auto simp: proc_inv_def procs_ok_def)
  have "exit_inv rank ?M k" unfolding exit_inv_def
    using tr walks_ring [OF r] assms by (auto simp: proc_inv_def procs_ok_def frame_ok_def)
  then show thesis by (rule that [where N = "Max (rank ` ?M)"]) auto
qed

text \<open>Ending tasks keeps it.\<close>

lemma proc_inv_gone:
  assumes inv: "proc_inv hs he ks ke k rest L" and lay: "layout_ok hs he ks ke" and g: "gone D p k k'"
    and D: "D \<subseteq> set (current_task k # rest)" "\<And>x. x \<in> D \<Longrightarrow> alive k x"
      "\<And>x. x \<in> set (current_task k # rest) \<Longrightarrow> alive k x \<Longrightarrow> parent_of k x \<in> D \<Longrightarrow> x \<in> D"
  shows "proc_inv hs he ks ke k' rest L"
proof -
  let ?M = "set (current_task k # rest)"
  have b: "current_task k' = current_task k" "kpaging k' = kpaging k" "kheap k' = (kheap k)\<lparr>km_mem := ram k'\<rparr>"
    "unat (exec_pool_used k) \<le> 0x80000 \<Longrightarrow> unat (exec_pool_used k') \<le> 0x80000"
    "\<And>a. \<not> (\<exists>x \<in> D. \<exists>t. tasks k x = Some t \<and> frame_byte t a) \<Longrightarrow> ram k' a = ram k a"
    using gone_but [OF g] unfolding same_but_def by blast+
  have keep: "ram k' a = ram k a" if a: "unat hs \<le> unat a" "unat a < unat he + 8" for a
  proof (rule b(5), rule notI)
    assume "\<exists>x \<in> D. \<exists>t. tasks k x = Some t \<and> frame_byte t a"
    then obtain x t where x: "x \<in> D" "tasks k x = Some t" "frame_byte t a" by blast
    then have "frame_ok ks ke t" using D(1) D(2) [of x] inv by (auto simp: proc_inv_def procs_ok_def alive_def)
    then have "\<not> (ks \<le> a \<and> a < ke)" using x(3) by (simp add: frame_ok_def)
    then show False using a lay by (auto simp: layout_ok_def word_le_nat_alt word_less_nat_alt)
  qed
  have "sched_inv hs he (set_ram (ram k') k) rest L"
    by (rule sched_inv_ram) (use inv keep in \<open>auto simp: proc_inv_def\<close>)
  moreover have "skeleton k' x = skeleton (set_ram (ram k') k) x" for x
    using gone_field [OF g, of "\<lambda>t. (t_next t, t_heap_alloc t, t_stack t)" x] by (simp add: skeleton_def)
  ultimately have "sched_inv hs he k' rest L"
    by (rule_tac sched_inv_cong [of hs he "set_ram (ram k') k"]) (use b in auto)
  moreover have "elf_ok ks ke t'" if x: "x \<in> ?M" "tasks k' x = Some t'" for x t'
  proof -
    have "elf_ok ks ke (erase u) = elf_ok ks ke u" for u by (simp add: elf_ok_def)
    from gone_field [OF g, of "elf_ok ks ke" x, OF this] x(2) obtain t where "tasks k x = Some t" "elf_ok ks ke t = elf_ok ks ke t'"
      by (cases "tasks k x") auto
    then show ?thesis using inv x(1) by (auto simp: proc_inv_def)
  qed
  moreover have "procs_ok ks ke ?M k'"
  proof -
    obtain rank where tr: "tree_ok rank ?M k" using inv by (auto simp: proc_inv_def procs_ok_def)
    have "tree_ok rank ?M k'"
      by (rule tree_after [OF tr, where D = D]) (use gone_alive [OF g] gone_parent [OF g] D(3) in auto)
    moreover have "frame_ok ks ke t'" if x: "x \<in> ?M" "tasks k' x = Some t'" "t_state t' \<noteq> TASK_DEAD" for x t'
    proof -
      obtain t where t: "tasks k x = Some t" "t_state t \<noteq> TASK_DEAD" "t_has_frame t' = t_has_frame t" "erase t' = erase t"
        by (rule gone_live [OF g x(2,3)])
      have "frame_ok ks ke t" using t(1,2) inv x(1) by (auto simp: proc_inv_def procs_ok_def)
      moreover have "t_frame_off t' = t_frame_off t" "t_frame_stack_len t' = t_frame_stack_len t"
        "t_frame_img_base t' = t_frame_img_base t" "t_frame_img_len t' = t_frame_img_len t"
        using t(4) by (auto intro: erase_cong)
      ultimately show ?thesis using t(3) by (simp add: frame_ok_def frame_fits_def frame_byte_def)
    qed
    ultimately show ?thesis unfolding procs_ok_def by blast
  qed
  ultimately show ?thesis using inv b unfolding proc_inv_def by auto
qed


text \<open>What \<open>wait\<close> reports.\<close>

definition zombie :: "task \<Rightarrow> bool \<times> u32 \<times> int" where
  "zombie t = (t_zombie_valid t, t_zombie_pid t, t_zombie_status t)"

lemma zombie_simps [simp]: "zombie (wake pid st p) = (True, pid, st)" "zombie (t\<lparr>t_state := s\<rparr>) = zombie t"
  by (simp_all add: zombie_def wake_def)

text \<open>The scheduler keeps the invariant, too.\<close>

lemma proc_inv_schedule:
  assumes inv: "proc_inv hs he ks ke k rest L"
  obtains (idle) "schedule k = Some (None, k)" "\<forall>x \<in> set rest. task_state k x \<noteq> Some TASK_READY"
  | (switch) n k' rest' where "schedule k = Some (Some (current_task k, n), k')" "n \<in> set rest"
      "task_state k n = Some TASK_READY" "current_task k' = n" "alive k' n"
      "proc_inv hs he ks ke k' rest' L" "set (n # rest') = set (current_task k # rest)"
      "\<forall>x. alive k' x = alive k x" "\<forall>x. map_option erase (tasks k' x) = map_option erase (tasks k x)"
      "\<forall>x. map_option zombie (tasks k' x) = map_option zombie (tasks k x)"
      "k'\<lparr>tasks := tasks k, current_task := current_task k, tss_esp0 := tss_esp0 k\<rparr> = k"
      "task_state k' n = Some TASK_RUNNING" "\<forall>x. x \<noteq> n \<longrightarrow> x \<noteq> current_task k \<longrightarrow> tasks k' x = tasks k x"
proof -
  have S: "sched_inv hs he k rest L" and r: "ring k rest" using inv by (auto simp: proc_inv_def sched_inv_def)
  show thesis
  proof (cases "find (\<lambda>x. task_state k x = Some TASK_READY) rest")
    case None
    have "schedule k = Some (None, k)" using schedule_spec [OF r] None by simp
    moreover have "\<forall>x \<in> set rest. task_state k x \<noteq> Some TASK_READY" using None by (simp add: find_None_iff)
    ultimately show thesis by (rule idle)
  next
    case (Some n)
    let ?c = "current_task k"
    obtain k' xs ys c tn where K: "rest = xs @ n # ys" "tasks k ?c = Some c" "tasks k n = Some tn"
      "schedule k = Some (Some (?c, n), k')"
      "k' = k\<lparr>current_task := n, tss_esp0 := t_stack tn + t_stack_size tn,
          tasks := (tasks k)(?c \<mapsto> (if t_state c = TASK_RUNNING then c\<lparr>t_state := TASK_READY\<rparr> else c),
                             n \<mapsto> tn\<lparr>t_state := TASK_RUNNING\<rparr>)\<rparr>"
      using schedule_spec [OF r] Some by auto
    have rd: "task_state k n = Some TASK_READY" using Some by (auto simp: find_Some_iff)
    have ne: "n \<noteq> ?c" using r K(1) by (auto simp: ring_def)
    have T: "tasks k' x = (if x = n then Some (tn\<lparr>t_state := TASK_RUNNING\<rparr>)
      else if x = ?c then Some (if t_state c = TASK_RUNNING then c\<lparr>t_state := TASK_READY\<rparr> else c) else tasks k x)" for x
      by (simp add: K(5))
    have al: "alive k' x = alive k x" "parent_of k' x = parent_of k x" for x
      using rd K(2,3) by (auto simp: alive_def parent_of_def T task_state_def)
    have er: "map_option erase (tasks k' x) = map_option erase (tasks k x)" for x
      using K(2,3) by (auto simp: T erase_def)
    have z: "map_option zombie (tasks k' x) = map_option zombie (tasks k x)" for x
      using K(2,3) by (auto simp: T)
    have sk: "skeleton k' x = skeleton k x" for x using K(2,3) by (auto simp: skeleton_def T)
    have "sched_inv hs he k' (ys @ ?c # xs) L"
      by (rule sched_inv_rotate [OF S [unfolded K(1)] _ _ sk]) (simp_all add: K(5))
    moreover have "set (n # ys @ ?c # xs) = set (?c # rest)" by (auto simp: K(1))
    moreover have "elf_ok ks ke u" if "x \<in> set (?c # rest)" "tasks k' x = Some u" for x u
    proof -
      have "\<forall>t. tasks k x = Some t \<longrightarrow> elf_ok ks ke t" using inv that(1) by (auto simp: proc_inv_def)
      then show ?thesis using that(2) K(2,3) by (auto simp: T elf_ok_def split: if_splits)
    qed
    moreover have "procs_ok ks ke (set (?c # rest)) k'"
    proof (rule procs_ok_keep [of ks ke _ k])
      show "frame_ok ks ke u" if x: "x \<in> set (?c # rest)" "tasks k' x = Some u" "t_state u \<noteq> TASK_DEAD" for x u
      proof -
        have "alive k x" using al(1) [of x] x(2,3) by (auto simp: alive_def)
        then obtain t where t: "tasks k x = Some t" "frame_ok ks ke t" using inv x(1) by (auto simp: proc_inv_def procs_ok_def alive_def)
        then show ?thesis using x(2) K(2,3) by (auto simp: T frame_ok_def frame_fits_def frame_byte_def split: if_splits)
      qed
    qed (use inv al in \<open>auto simp: proc_inv_def\<close>)
    ultimately have "proc_inv hs he ks ke k' (ys @ ?c # xs) L"
      using inv unfolding proc_inv_def by (auto simp: K(5))
    then show thesis using K(4) rd al er z ne
      by (intro switch [of n k' "ys @ ?c # xs"]) (auto simp: K(1,5) alive_def task_state_def)
  qed
qed


section \<open>Properties\<close>

lemma task_exit_spec:
  assumes lay: "layout_ok hs he ks ke" and inv: "proc_inv hs he ks ke k rest L"
    and t: "task \<in> set (current_task k # rest)" "tasks k task = Some t" "t_state t \<noteq> TASK_DEAD"
  obtains k' where "task_exit_noswitch task st k = Some k'" "proc_inv hs he ks ke k' rest L"
    "gone {x. below k (set (current_task k # rest)) task x} (t_parent t) k k'"
    "t_parent t \<noteq> 0 \<Longrightarrow> tasks k' (t_parent t) = map_option (wake (t_pid t) st) (tasks k (t_parent t))"
    "t_parent t \<noteq> 0 \<Longrightarrow> t_has_frame t \<Longrightarrow> exec_pool_used k' = t_frame_off t \<and> user_brk k' = t_frame_brk t \<and>
       (\<exists>m. frame_restore (t_frame_off t) (t_frame_stack_len t) (t_frame_img_base t) (t_frame_img_len t) (exec_pool k) m = Some (ram k'))"
proof -
  let ?M = "set (current_task k # rest)"
  obtain rank N where "exit_inv rank ?M k" "\<And>x. x \<in> ?M \<Longrightarrow> rank x \<le> N" by (rule proc_inv_exit [OF inv]) blast
  from exit_task_spec [OF this t, of st] obtain k1 k' where
    K: "exit_children task (t_next t) k = Some k1" "exit_self task st k1 = Some k'" "gone {x. below k ?M task x} (t_parent t) k k'"
      "t_parent t \<noteq> 0 \<Longrightarrow> tasks k' (t_parent t) = map_option (wake (t_pid t) st) (tasks k (t_parent t))"
      "t_parent t \<noteq> 0 \<Longrightarrow> t_has_frame t \<Longrightarrow> exec_pool_used k' = t_frame_off t \<and> user_brk k' = t_frame_brk t \<and>
       frame_restore (t_frame_off t) (t_frame_stack_len t) (t_frame_img_base t) (t_frame_img_len t) (exec_pool k) (ram k1) = Some (ram k')"
    by blast
  have "task_exit_noswitch task st k = Some k'" using t K(1,2) by (simp add: task_exit_noswitch_def)
  moreover have "proc_inv hs he ks ke k' rest L"
    by (rule proc_inv_gone [OF inv lay K(3)]) (auto dest: belowD intro: below.child)
  ultimately show thesis using K(3-5) by (intro that [of k']) blast+
qed

lemma task_exit_alive:
  assumes "gone {x. below k M task x} p k k'"
  shows "alive k' x \<longleftrightarrow> alive k x \<and> \<not> below k M task x"
  using gone_alive [OF assms, of x] by auto

lemma sched_task_exit_spec:
  assumes lay: "layout_ok hs he ks ke" and ok: "exec_ok hs he ks ke k rest L"
    and t: "task \<in> set (current_task k # rest)" "tasks k task = Some t" "t_state t \<noteq> TASK_DEAD"
  shows "\<exists>res k' rest'. sched_task_exit task st k = Some (res, k') \<and> proc_inv hs he ks ke k' rest' L \<and>
    set (current_task k' # rest') = set (current_task k # rest) \<and>
    (\<forall>x. alive k' x \<longleftrightarrow> alive k x \<and> \<not> below k (set (current_task k # rest)) task x) \<and>
    (\<forall>x. map_option erase (tasks k' x) = map_option erase (tasks k x)) \<and>
    (t_parent t \<noteq> 0 \<longrightarrow> map_option zombie (tasks k' (t_parent t)) = Some (True, t_pid t, st)) \<and>
    (case res of
       Returns \<Rightarrow> current_task k' = current_task k \<and> alive k' (current_task k)
     | Switches prev next \<Rightarrow> prev = current_task k \<and> \<not> alive k' prev \<and> next = current_task k' \<and> alive k' next
     | Halts \<Rightarrow> current_task k' = current_task k \<and> \<not> alive k' (current_task k) \<and>
         (\<forall>x \<in> set (current_task k # rest). task_state k' x \<noteq> Some TASK_READY))"
proof -
  let ?M = "set (current_task k # rest)"
  have inv: "proc_inv hs he ks ke k rest L" using ok by (simp add: exec_ok_alt)
  obtain k1 where K: "task_exit_noswitch task st k = Some k1" "proc_inv hs he ks ke k1 rest L"
    "gone {x. below k ?M task x} (t_parent t) k k1"
    "t_parent t \<noteq> 0 \<Longrightarrow> tasks k1 (t_parent t) = map_option (wake (t_pid t) st) (tasks k (t_parent t))"
    by (rule task_exit_spec [OF lay inv t, of st]) blast
  have cur: "current_task k1 = current_task k" using gone_but [OF K(3)] by (simp add: same_but_def)
  note al = task_exit_alive [OF K(3)] and er = gone_erase [OF K(3)]
  have "alive k task" using t by (simp add: alive_def)
  then have "t_parent t \<noteq> 0 \<Longrightarrow> \<exists>p. tasks k (t_parent t) = Some p"
    using inv t(1,2) by (fastforce simp: proc_inv_def procs_ok_def tree_ok_def parent_of_def alive_def)
  then have z: "t_parent t \<noteq> 0 \<Longrightarrow> map_option zombie (tasks k1 (t_parent t)) = Some (True, t_pid t, st)"
    using K(4) by auto
  obtain c where c: "tasks k1 (current_task k1) = Some c"
    using sched_inv_member [of hs he k1 rest L "current_task k1"] K(2) by (auto simp: proc_inv_def)
  show ?thesis
  proof (cases "t_state c = TASK_DEAD")
    case False
    then have "alive k1 (current_task k)" using c cur by (simp add: alive_def)
    moreover have "sched_task_exit task st k = Some (Returns, k1)" using K(1) c False by (simp add: sched_task_exit_def)
    ultimately show ?thesis using K(2) cur al er z by (intro exI [of _ Returns] exI [of _ k1] exI [of _ rest]) simp
  next
    case True
    then have dead: "\<not> alive k1 (current_task k)" using c cur by (simp add: alive_def)
    show ?thesis
    proof (rule proc_inv_schedule [OF K(2)])
      assume s: "schedule k1 = Some (None, k1)" "\<forall>x \<in> set rest. task_state k1 x \<noteq> Some TASK_READY"
      then have "sched_task_exit task st k = Some (Halts, k1)" using K(1) c True by (simp add: sched_task_exit_def)
      then show ?thesis using K(2) cur al er z dead s(2) c True
        by (intro exI [of _ Halts] exI [of _ k1] exI [of _ rest]) (simp add: task_state_def)
    next
      fix n k' rest'
      assume s: "schedule k1 = Some (Some (current_task k1, n), k')" "current_task k' = n" "alive k' n"
        "proc_inv hs he ks ke k' rest' L" "set (n # rest') = set (current_task k1 # rest)"
        "\<forall>x. alive k' x = alive k1 x" "\<forall>x. map_option erase (tasks k' x) = map_option erase (tasks k1 x)"
        "\<forall>x. map_option zombie (tasks k' x) = map_option zombie (tasks k1 x)"
      then have r: "sched_task_exit task st k = Some (Switches (current_task k) n, k')"
        using K(1) c True cur by (simp add: sched_task_exit_def)
      then show ?thesis using s cur al er z dead
        by (intro exI [of _ "Switches (current_task k) n"] exI [of _ k'] exI [of _ rest']) simp
    qed
  qed
qed

text \<open>C25: \<open>sched_task_exit\<close>, for any live task of a well-formed process state, ends and never faults.
  Exactly the task and the live tasks below it in the process tree die, whatever the order of the
  ring and the depth of the tree; no task loses its place in the ring, its identity, its memory or
  its stack. The parent learns the process number and the status. If the running task survives,
  the call returns; otherwise the next ready task runs, and the machine halts only if there is none.
  The invariant of the process state holds afterwards.\<close>

theorem sched_task_exit_correct:
  assumes lay: "layout_ok hs he ks ke" and ok: "exec_ok hs he ks ke k rest L"
    and t: "task \<in> set (current_task k # rest)" "tasks k task = Some t" "t_state t \<noteq> TASK_DEAD"
  shows "\<exists>res k' rest'. sched_task_exit task st k = Some (res, k') \<and> proc_inv hs he ks ke k' rest' L \<and>
    set (current_task k' # rest') = set (current_task k # rest) \<and>
    (\<forall>x. alive k' x \<longleftrightarrow> alive k x \<and> \<not> below k (set (current_task k # rest)) task x) \<and>
    (\<forall>x. map_option erase (tasks k' x) = map_option erase (tasks k x)) \<and>
    (t_parent t \<noteq> 0 \<longrightarrow> map_option zombie (tasks k' (t_parent t)) = Some (True, t_pid t, st)) \<and>
    (case res of
       Returns \<Rightarrow> current_task k' = current_task k \<and> alive k' (current_task k)
     | Switches prev next \<Rightarrow> prev = current_task k \<and> \<not> alive k' prev \<and> next = current_task k' \<and> alive k' next
     | Halts \<Rightarrow> current_task k' = current_task k \<and> \<not> alive k' (current_task k) \<and>
         (\<forall>x \<in> set (current_task k # rest). task_state k' x \<noteq> Some TASK_READY))"
  by (rule sched_task_exit_spec [OF lay ok t])


section \<open>A run\<close>

lemma demo_current: "current_task demo_kern = 0x9000" "next_pid demo_kern = 3"
  by (simp_all add: demo_kern_def boot_kern_def)

theorem sched_task_exit_correct_witness:
  "\<exists>res k'. sched_task_exit 0x9000 256 demo_kern = Some (res, k') \<and> \<not> alive k' 0x9000 \<and>
    map_option zombie (tasks k' 0x9100) = Some (True, 2, 256)"
proof -
  obtain t where t: "tasks demo_kern 0x9000 = Some t" "t_state t \<noteq> TASK_DEAD" "t_parent t = 0x9100" "t_pid t = 2"
    by (simp add: demo_kern_def zero_task_def)
  have "below demo_kern (set (current_task demo_kern # [0x9100])) 0x9000 0x9000"
    using t demo_current by (intro below.self) (auto simp: alive_def)
  moreover have "0x9000 \<in> set (current_task demo_kern # [0x9100])" by (simp add: demo_current)
  ultimately show ?thesis
    using sched_task_exit_correct [OF demo_layout demo_ok _ t(1,2), of 256] t(3,4) by auto
qed


end
