(* ===== verification/Process.thy ===== *)
theory Process
  imports Exit_Spec
begin

text \<open>
  The process subsystem as a state machine: its steps are the operations of \<open>Sched\<close>, \<open>Exec\<close> and
  \<open>Exit\<close> and what user code may do in between; the invariant holds in every reachable state.
\<close>

section \<open>The process state machine\<close>

text \<open>What can happen to the process state: a system call that runs a program, the end of a task found
  by its process number, the creation of a task, a switch, and anything user code does to its
  heap break and to memory other than the kernel heap, with the 8 bytes behind it where the
  allocator may look for a header. The content of the file system may be anything.\<close>

inductive proc_step :: "u32 \<Rightarrow> u32 \<Rightarrow> u32 \<Rightarrow> u32 \<Rightarrow> u32 \<Rightarrow> kern \<Rightarrow> kern \<Rightarrow> bool" for hs he ks ke enter where
  exec: "exec_run hs he ks ke enter fs prog argv envp k = Some (r, sw, k') \<Longrightarrow> proc_step hs he ks ke enter k k'"
| exit: "sched_find_task pid k = Some task \<Longrightarrow> task \<noteq> 0 \<Longrightarrow> sched_task_exit task status k = Some (res, k') \<Longrightarrow>
    res \<noteq> Halts \<Longrightarrow> proc_step hs he ks ke enter k k'"
| create: "sched_task_create hs he enter entry sp k = Some (sw, k') \<Longrightarrow> proc_step hs he ks ke enter k k'"
| switch: "schedule k = Some (sw, k') \<Longrightarrow> proc_step hs he ks ke enter k k'"
| user: "(\<And>a. unat hs \<le> unat a \<Longrightarrow> unat a < unat he + 8 \<Longrightarrow> m a = ram k a) \<Longrightarrow> proc_step hs he ks ke enter k ((set_ram m k)\<lparr>user_brk := b\<rparr>)"

inductive_cases proc_stepE: "proc_step hs he ks ke enter k k'"

definition proc_good :: "u32 \<Rightarrow> u32 \<Rightarrow> u32 \<Rightarrow> u32 \<Rightarrow> kern \<Rightarrow> bool" where
  "proc_good hs he ks ke k \<longleftrightarrow> (\<exists>rest L. exec_ok hs he ks ke k rest L)"

lemma find_task_member:
  assumes "ring k rest"
  obtains "sched_find_task pid k = Some 0" | t tk where "sched_find_task pid k = Some t" "t \<in> set (current_task k # rest)"
    "tasks k t = Some tk" "t_state tk \<noteq> TASK_DEAD"
proof -
  let ?P = "\<lambda>x. \<exists>tk. tasks k x = Some tk \<and> t_pid tk = pid \<and> t_state tk \<noteq> TASK_DEAD"
  have "path k (current_task k) (current_task k # rest) (current_task k)" "current_task k \<notin> set rest" "current_task k \<noteq> 0"
    using assms by (auto simp: ring_def)
  then have f: "sched_find_task pid k = Some (case find ?P (current_task k # rest) of None \<Rightarrow> 0 | Some x \<Rightarrow> x)"
    using find_pid_spec by (simp add: sched_find_task_def)
  show thesis
  proof (cases "find ?P (current_task k # rest)")
    case None
    then show thesis using f that(1) by simp
  next
    case (Some x)
    then obtain i where i: "i < length (current_task k # rest)" "?P ((current_task k # rest) ! i)" "x = (current_task k # rest) ! i"
      unfolding find_Some_iff by blast
    then have "x \<in> set (current_task k # rest)" using nth_mem by blast
    then show thesis using f Some that(2) i(2,3) by auto
  qed
qed

lemma exec_ok_schedule:
  assumes "exec_ok hs he ks ke k rest L"
  shows "\<exists>sw k' rest'. schedule k = Some (sw, k') \<and> exec_ok hs he ks ke k' rest' L"
proof (rule proc_inv_schedule [of hs he ks ke k rest L], goal_cases)
  case 1
  then show ?case using assms by (simp add: exec_ok_alt)
next
  case 2
  then show ?case using assms by auto
next
  case (3 n k' rest')
  then show ?case by (auto simp: exec_ok_alt)
qed

lemma exec_ok_create:
  assumes lay: "layout_ok hs he ks ke" and ok: "exec_ok hs he ks ke k rest L"
  shows "\<exists>sw k' rest' L'. sched_task_create hs he enter entry sp k = Some (sw, k') \<and> exec_ok hs he ks ke k' rest' L'"
proof (rule exec_ok_task_new [OF ok lay, where enter = enter and entry = entry and sp = sp], goal_cases)
  case (1 r k1 L1)
  show ?case
  proof (cases "r = 0")
    case True
    then show ?thesis using 1 by (auto simp: sched_task_create_def)
  next
    case False
    then have "exec_ok hs he ks ke k1 (r # filter (\<lambda>x. \<not> reapable k x) rest) L1" using 1(5) by blast
    from exec_ok_schedule [OF this] show ?thesis using 1(1) False by (auto simp: sched_task_create_def)
  qed
qed


lemma exec_ok_user:
  assumes ok: "exec_ok hs he ks ke k rest L" and m: "\<And>a. unat hs \<le> unat a \<Longrightarrow> unat a < unat he + 8 \<Longrightarrow> m a = ram k a"
  shows "exec_ok hs he ks ke ((set_ram m k)\<lparr>user_brk := b\<rparr>) rest L"
  by (rule exec_ok_cong [OF exec_ok_ram [OF ok m]]) (use ok in \<open>auto simp: exec_ok_def\<close>)

lemma exec_ok_exit:
  assumes lay: "layout_ok hs he ks ke" and ok: "exec_ok hs he ks ke k rest L"
    and t: "task \<in> set (current_task k # rest)" "tasks k task = Some t" "t_state t \<noteq> TASK_DEAD"
  shows "\<exists>res k' rest'. sched_task_exit task st k = Some (res, k') \<and> (res \<noteq> Halts \<longrightarrow> exec_ok hs he ks ke k' rest' L)"
proof -
  obtain res k' rest' where r: "sched_task_exit task st k = Some (res, k')" "proc_inv hs he ks ke k' rest' L"
    "case res of Returns \<Rightarrow> current_task k' = current_task k \<and> alive k' (current_task k)
     | Switches prev next \<Rightarrow> prev = current_task k \<and> \<not> alive k' prev \<and> next = current_task k' \<and> alive k' next
     | Halts \<Rightarrow> current_task k' = current_task k \<and> \<not> alive k' (current_task k) \<and>
         (\<forall>x \<in> set (current_task k # rest). task_state k' x \<noteq> Some TASK_READY)"
    using sched_task_exit_spec [OF assms, of st] by blast
  then have "res \<noteq> Halts \<Longrightarrow> alive k' (current_task k')" by (auto split: exit_outcome.splits)
  with r show ?thesis by (auto simp: exec_ok_alt)
qed

lemma proc_step_good:
  assumes lay: "layout_ok hs he ks ke" and s: "proc_step hs he ks ke enter k k'" and g: "proc_good hs he ks ke k"
  shows "proc_good hs he ks ke k'"
proof -
  obtain rest L where ok: "exec_ok hs he ks ke k rest L" using g by (auto simp: proc_good_def)
  have r: "ring k rest" using ok by (simp add: exec_ok_def sched_inv_def)
  obtain p where p: "tasks k (current_task k) = Some p" using ok by (auto simp: exec_ok_def alive_def)
  from s show ?thesis
  proof cases
    case (exec fs prog argv envp r sw)
    then show ?thesis using exec_run_spec [OF lay ok p, of enter fs prog argv envp] by (auto simp: proc_good_def)
  next
    case (exit pid task status res)
    obtain t where "task \<in> set (current_task k # rest)" "tasks k task = Some t" "t_state t \<noteq> TASK_DEAD"
      by (rule find_task_member [OF r, of pid]) (use exit(1,2) in auto)
    from exec_ok_exit [OF lay ok this, of status] exit show ?thesis by (auto simp: proc_good_def)
  next
    case (create entry sp sw)
    then show ?thesis using exec_ok_create [OF lay ok, of enter entry sp] by (auto simp: proc_good_def)
  next
    case (switch sw)
    then show ?thesis using exec_ok_schedule [OF ok] by (auto simp: proc_good_def)
  next
    case (user m b)
    then show ?thesis using exec_ok_user [OF ok, of m b] by (auto simp: proc_good_def)
  qed
qed



end
