(* ===== verification/Ramfs_Inv.thy ===== *)
theory Ramfs_Inv
  imports Ramfs
begin

text \<open>
  The invariant of the file system and its preservation: every inode's block lies in the used
  part of the pool, blocks of different inodes never overlap, inode numbers and directory
  entries are unique, free slots hold no block, and descriptor offsets stay within the largest
  file size. The pool allocator (\<open>ramfs_reserve\<close>, \<open>ramfs_release\<close>) is the part that makes
  the invariant worth having: the block isolation is what keeps one file's writes from
  reaching another file.
\<close>

section \<open>The invariant\<close>

definition inode_ok :: "u32 \<Rightarrow> u32 \<Rightarrow> ramfs_inode \<Rightarrow> bool" where
  "inode_ok used nxt i \<longleftrightarrow>
     i_size i \<le> i_capacity i \<and> i_capacity i \<le> RAMFS_MAX_FILESIZE \<and>
     (i_data i = None \<longleftrightarrow> i_capacity i = 0) \<and>
     (i_type i = RAMFS_TYPE_DIR \<longrightarrow> i_capacity i = 0) \<and>
     (i_ino i = 0 \<longrightarrow> i_capacity i = 0) \<and> i_ino i < nxt \<and>
     (case i_data i of None \<Rightarrow> True | Some off \<Rightarrow> unat off + unat (i_capacity i) \<le> unat used) \<and>
     CHR 0x00 \<notin> set (i_name i) \<and> length (i_name i) < RAMFS_MAX_FILENAME"

text \<open>Two inodes' blocks do not overlap.\<close>

definition apart :: "ramfs_inode \<Rightarrow> ramfs_inode \<Rightarrow> bool" where
  "apart i j \<longleftrightarrow>
     (case (i_data i, i_data j) of
        (Some a, Some b) \<Rightarrow>
          unat a + unat (i_capacity i) \<le> unat b \<or> unat b + unat (i_capacity j) \<le> unat a
      | _ \<Rightarrow> True)"

text \<open>Two different slots: blocks apart, inode numbers different, entries different.\<close>

definition compatible :: "ramfs_inode \<Rightarrow> ramfs_inode \<Rightarrow> bool" where
  "compatible i j \<longleftrightarrow> apart i j \<and>
     (i_ino i \<noteq> 0 \<and> i_ino j \<noteq> 0 \<longrightarrow>
        i_ino i \<noteq> i_ino j \<and> \<not> (i_parent_ino i = i_parent_ino j \<and> i_name i = i_name j))"

definition fd_ok :: "u32 \<Rightarrow> ramfs_fd \<Rightarrow> bool" where
  "fd_ok nxt f \<longleftrightarrow> fd_ino f < nxt \<and> fd_offset f \<le> RAMFS_MAX_FILESIZE"

definition ramfs_inv :: "ramfs \<Rightarrow> bool" where
  "ramfs_inv s \<longleftrightarrow>
     length (inodes s) = RAMFS_MAX_FILES \<and> length (fds s) = 32 \<and>
     pool_used s \<le> RAMFS_POOL_SIZE \<and> 0 < next_inode s \<and>
     i_ino (inodes s ! 0) = 0 \<and> i_type (inodes s ! 0) = RAMFS_TYPE_DIR \<and>
     (\<forall>k < RAMFS_MAX_FILES. inode_ok (pool_used s) (next_inode s) (inodes s ! k)) \<and>
     (\<forall>j < RAMFS_MAX_FILES. \<forall>k < RAMFS_MAX_FILES. j \<noteq> k \<longrightarrow>
        compatible (inodes s ! j) (inodes s ! k)) \<and>
     (\<forall>n < 32. fd_ok (next_inode s) (fds s ! n))"

lemma apart_sym: "apart i j \<Longrightarrow> apart j i"
  by (auto simp: apart_def split: option.splits)

lemma compatible_sym: "compatible i j \<Longrightarrow> compatible j i"
  by (auto simp: compatible_def intro: apart_sym)

lemma ramfs_invD:
  assumes "ramfs_inv s"
  shows "length (inodes s) = RAMFS_MAX_FILES" "length (fds s) = 32"
    "unat (pool_used s) \<le> 786432" "0 < next_inode s"
    "i_ino (inodes s ! 0) = 0" "i_type (inodes s ! 0) = RAMFS_TYPE_DIR"
    "k < RAMFS_MAX_FILES \<Longrightarrow> inode_ok (pool_used s) (next_inode s) (inodes s ! k)"
    "j < RAMFS_MAX_FILES \<Longrightarrow> k < RAMFS_MAX_FILES \<Longrightarrow> j \<noteq> k \<Longrightarrow>
       compatible (inodes s ! j) (inodes s ! k)"
    "n < 32 \<Longrightarrow> fd_ok (next_inode s) (fds s ! n)"
  using assms by (auto simp: ramfs_inv_def RAMFS_POOL_SIZE_def word_le_nat_alt)

text \<open>The one proof of preservation that all changes of a slot go through: slot \<open>k\<close> becomes
  \<open>i\<close> while the end of the used pool and the inode counter move.\<close>

lemma ramfs_inv_upd_slot:
  assumes inv: "ramfs_inv s" and k: "k < RAMFS_MAX_FILES"
    and s': "inodes s' = (inodes s)[k := i]" "fds s' = fds s"
    and used: "unat (pool_used s') \<le> 786432" and nxt: "next_inode s \<le> next_inode s'"
    and root: "k \<noteq> 0"
    and ok: "inode_ok (pool_used s') (next_inode s') i"
    and others: "\<And>j off. j < RAMFS_MAX_FILES \<Longrightarrow> j \<noteq> k \<Longrightarrow> i_data (inodes s ! j) = Some off \<Longrightarrow>
          unat off + unat (i_capacity (inodes s ! j)) \<le> unat (pool_used s')"
    and compat: "\<And>j. j < RAMFS_MAX_FILES \<Longrightarrow> j \<noteq> k \<Longrightarrow> compatible i (inodes s ! j)"
  shows "ramfs_inv s'"
  unfolding ramfs_inv_def
proof (intro conjI allI impI)
  note D = ramfs_invD [OF inv]
  have nth: "inodes s' ! j = (if j = k then i else inodes s ! j)" if "j < RAMFS_MAX_FILES" for j
    using that D(1) by (simp add: s' nth_list_update)
  show "length (inodes s') = RAMFS_MAX_FILES" "length (fds s') = 32" using D by (simp_all add: s')
  show "pool_used s' \<le> RAMFS_POOL_SIZE" using used by (simp add: word_le_nat_alt RAMFS_POOL_SIZE_def)
  show "0 < next_inode s'" using D(4) nxt by simp
  show "i_ino (inodes s' ! 0) = 0" "i_type (inodes s' ! 0) = RAMFS_TYPE_DIR"
    using D(5,6) root nth [of 0] by (simp_all add: RAMFS_MAX_FILES_def)
  fix j assume j: "j < RAMFS_MAX_FILES"
  show "inode_ok (pool_used s') (next_inode s') (inodes s' ! j)"
  proof (cases "j = k")
    case False
    then show ?thesis
      using D(7) [OF j] others [OF j] nxt nth [OF j]
      by (auto simp: inode_ok_def split: option.splits)
  qed (use ok nth [OF j] in simp)
  fix l assume l: "l < RAMFS_MAX_FILES" "j \<noteq> l"
  show "compatible (inodes s' ! j) (inodes s' ! l)"
    using D(8) [OF j l(1,2)] compat [OF j] compat [OF l(1)] l nth [OF j] nth [OF l(1)]
    by (auto intro: compatible_sym)
next
  fix n :: nat assume "n < 32"
  with ramfs_invD(9) [OF inv, of n] nxt show "fd_ok (next_inode s') (fds s' ! n)"
    by (auto simp: s' fd_ok_def)
qed

lemma ramfs_inv_upd_fd:
  "ramfs_inv s \<Longrightarrow> fd_ok (next_inode s) f \<Longrightarrow> ramfs_inv (upd_fd n f s)"
  by (cases "n < length (fds s)") (auto simp: ramfs_inv_def nth_list_update list_update_beyond)

lemma ramfs_inv_pool [simp]: "ramfs_inv (s\<lparr>pool := m\<rparr>) = ramfs_inv s"
  by (simp add: ramfs_inv_def)

lemma fd_ok_zero: "0 < nxt \<Longrightarrow> fd_ok nxt zero_fd"
  by (simp add: fd_ok_def zero_fd_def)

section \<open>File contents\<close>

definition file_bytes :: "ramfs \<Rightarrow> nat \<Rightarrow> u8 list" where
  "file_bytes s k =
     (case i_data (inodes s ! k) of
        None \<Rightarrow> []
      | Some off \<Rightarrow> read_bytes (pool s) off (unat (i_size (inodes s ! k))))"

lemma inode_okD:
  assumes "inode_ok used nxt i" "unat used \<le> 786432"
  shows "unat (i_size i) \<le> unat (i_capacity i)" "unat (i_capacity i) \<le> 262144"
    "i_data i = Some off \<Longrightarrow> unat off + unat (i_capacity i) \<le> unat used"
    "i_data i = None \<longleftrightarrow> i_capacity i = 0" "i_ino i < nxt"
    "i_capacity i = 0 \<Longrightarrow> i_size i = 0"
  using assms by (auto simp: inode_ok_def word_le_nat_alt RAMFS_MAX_FILESIZE_def unat_eq_zero)

lemma length_file_bytes:
  assumes "ramfs_inv s" "k < RAMFS_MAX_FILES"
  shows "length (file_bytes s k) = unat (i_size (inodes s ! k))"
proof -
  note D = ramfs_invD [OF assms(1)]
  note I = inode_okD [OF D(7) [OF assms(2)] D(3)]
  show ?thesis
    using I(4,6) by (auto simp: file_bytes_def split: option.splits)
qed

section \<open>The pool allocator\<close>

lemma reserve_newcap_bounds:
  assumes "needed \<le> RAMFS_MAX_FILESIZE"
  shows "needed \<le> reserve_newcap cap needed" "unat (reserve_newcap cap needed) \<le> 262144"
proof -
  define x where "x = (if cap \<noteq> 0 then cap * 2 else 256)"
  define y where "y = (if x < needed then needed else x)"
  define z where "z = (if y > RAMFS_MAX_FILESIZE then RAMFS_MAX_FILESIZE else y)"
  have z: "needed \<le> z" "z \<le> RAMFS_MAX_FILESIZE" using assms by (auto simp: y_def z_def)
  then have zn: "unat z \<le> 262144" by (simp add: word_le_nat_alt RAMFS_MAX_FILESIZE_def)
  then have z15: "unat (z + 15) = unat z + 15" by (subst unat_add_small) auto
  have "reserve_newcap cap needed = (z + 15) AND NOT 15"
    by (simp add: reserve_newcap_def Let_def x_def y_def z_def)
  then have u: "unat (reserve_newcap cap needed) = (unat z + 15) div 16 * 16"
    by (simp only: and_not_15 z15)
  have "unat z \<le> (unat z + 15) div 16 * 16" by presburger
  with u z(1) show "needed \<le> reserve_newcap cap needed" by (simp add: word_le_nat_alt)
  show "unat (reserve_newcap cap needed) \<le> 262144" unfolding u using zn by presburger
qed

text \<open>What a successful reservation gives: only the block of slot \<open>k\<close> changes, every file keeps
  its bytes, and the block holds what was asked for.\<close>

definition reserved :: "nat \<Rightarrow> u32 \<Rightarrow> ramfs \<Rightarrow> ramfs \<Rightarrow> bool" where
  "reserved k needed s s' \<longleftrightarrow>
     ramfs_inv s' \<and> fds s' = fds s \<and> next_inode s' = next_inode s \<and>
     (\<exists>d c. inodes s' = (inodes s)[k := (inodes s ! k)\<lparr>i_data := d, i_capacity := c\<rparr>]) \<and>
     needed \<le> i_capacity (inodes s' ! k) \<and>
     (\<forall>j < RAMFS_MAX_FILES. file_bytes s' j = file_bytes s j)"

text \<open>Two cases: the newest block grows in place, any other file moves to a fresh block at the
  end of the used part.\<close>

lemma apart_newest:
  assumes inv: "ramfs_inv s" and k: "k < RAMFS_MAX_FILES" and j: "j < RAMFS_MAX_FILES" "j \<noteq> k"
    and newest: "newest_block (inodes s ! k) s"
    and d: "i_data (inodes s ! k) = Some a" "i_data (inodes s ! j) = Some b"
  shows "unat b + unat (i_capacity (inodes s ! j)) \<le> unat a"
    and "unat a + unat (i_capacity (inodes s ! k)) = unat (pool_used s)"
proof -
  note D = ramfs_invD [OF inv]
  note K = inode_okD [OF D(7) [OF k] D(3)]
  note J = inode_okD [OF D(7) [OF j(1)] D(3)]
  have "pool_used s = a + i_capacity (inodes s ! k)" using newest d by (simp add: newest_block_def)
  then show end_eq: "unat a + unat (i_capacity (inodes s ! k)) = unat (pool_used s)"
    using K(2) K(3) [OF d(1)] D(3) by (simp add: unat_add_small)
  have "i_capacity (inodes s ! j) \<noteq> 0" using J(4) d(2) by auto
  then have "0 < unat (i_capacity (inodes s ! j))" by (simp add: unat_gt_0)
  moreover have "apart (inodes s ! k) (inodes s ! j)"
    using D(8) [OF k j(1)] j(2) by (auto simp: compatible_def)
  ultimately show "unat b + unat (i_capacity (inodes s ! j)) \<le> unat a"
    using J(3) [OF d(2)] end_eq d by (auto simp: apart_def)
qed

lemma reserve_grow:
  assumes inv: "ramfs_inv s" and k: "k < RAMFS_MAX_FILES" "k \<noteq> 0"
    and live: "i_ino (inodes s ! k) \<noteq> 0" "i_type (inodes s ! k) = RAMFS_TYPE_FILE"
    and newest: "newest_block (inodes s ! k) s"
    and nc: "i_capacity (inodes s ! k) < nc" "unat nc \<le> 262144"
    and fits: "\<not> pool_used s - i_capacity (inodes s ! k) + nc > RAMFS_POOL_SIZE"
    and s': "s' = (upd_inode k ((inodes s ! k)\<lparr>i_capacity := nc\<rparr>) s)
               \<lparr>pool_used := pool_used s + (nc - i_capacity (inodes s ! k))\<rparr>"
  shows "ramfs_inv s'" and "\<And>j. j < RAMFS_MAX_FILES \<Longrightarrow> file_bytes s' j = file_bytes s j"
proof -
  let ?i = "inodes s ! k"
  note D = ramfs_invD [OF inv]
  note K = inode_okD [OF D(7) [OF k(1)] D(3)]
  obtain a where a: "i_data ?i = Some a" using newest by (auto simp: newest_block_def split: option.splits)
  have used: "pool_used s = a + i_capacity ?i" using newest a by (simp add: newest_block_def)
  have uu: "unat (pool_used s) = unat a + unat (i_capacity ?i)"
    unfolding used using K(2) K(3) [OF a] D(3) by (intro unat_add_small) simp
  have u': "pool_used s' = a + nc" and nx: "next_inode s' = next_inode s" by (simp_all add: s' used)
  have ua: "unat (a + nc) = unat a + unat nc" using nc K(3) [OF a] D(3) by (intro unat_add_small) simp
  have le: "unat (pool_used s') \<le> 786432"
    using fits by (simp add: u' used word_less_nat_alt RAMFS_POOL_SIZE_def)
  have other: "unat b + unat (i_capacity (inodes s ! j)) \<le> unat a"
    if "j < RAMFS_MAX_FILES" "j \<noteq> k" "i_data (inodes s ! j) = Some b" for j b
    by (rule apart_newest(1) [OF inv k(1) that(1,2) newest a that(3)])
  show "ramfs_inv s'"
  proof (rule ramfs_inv_upd_slot [OF inv k(1) _ _ le _ k(2)])
    show "inodes s' = (inodes s)[k := ?i\<lparr>i_capacity := nc\<rparr>]" "fds s' = fds s" by (simp_all add: s')
    show "next_inode s \<le> next_inode s'" by (simp add: s')
    have "nc \<noteq> 0" using nc by auto
    then show "inode_ok (pool_used s') (next_inode s') (?i\<lparr>i_capacity := nc\<rparr>)"
      using D(7) [OF k(1)] nc live a ua nx
      by (auto simp: inode_ok_def u' word_le_nat_alt word_less_nat_alt RAMFS_MAX_FILESIZE_def)
    fix j assume j: "j < RAMFS_MAX_FILES" "j \<noteq> k"
    show "unat off + unat (i_capacity (inodes s ! j)) \<le> unat (pool_used s')"
      if "i_data (inodes s ! j) = Some off" for off
      using other [OF j that] by (simp add: u' ua)
    show "compatible (?i\<lparr>i_capacity := nc\<rparr>) (inodes s ! j)"
      using D(8) [OF k(1) j(1)] j other [OF j] a
      by (auto simp: compatible_def apart_def split: option.splits)
  qed
  show "file_bytes s' j = file_bytes s j" if "j < RAMFS_MAX_FILES" for j
    using that D(1) k(1) by (auto simp: file_bytes_def s' nth_list_update split: option.splits)
qed

lemma reserve_fresh:
  assumes inv: "ramfs_inv s" and k: "k < RAMFS_MAX_FILES" "k \<noteq> 0"
    and live: "i_ino (inodes s ! k) \<noteq> 0" "i_type (inodes s ! k) = RAMFS_TYPE_FILE"
    and nc: "i_capacity (inodes s ! k) < nc" "unat nc \<le> 262144"
    and fits: "\<not> pool_used s + nc > RAMFS_POOL_SIZE"
    and s': "s' = (upd_inode k ((inodes s ! k)\<lparr>i_data := Some (pool_used s), i_capacity := nc\<rparr>) s)
               \<lparr>pool_used := pool_used s + nc, pool := m\<rparr>"
    and copied: "read_bytes m (pool_used s) (unat (i_size (inodes s ! k))) = file_bytes s k"
    and rest: "\<And>x. unat x < unat (pool_used s) \<Longrightarrow> m x = pool s x"
  shows "ramfs_inv s'" and "\<And>j. j < RAMFS_MAX_FILES \<Longrightarrow> file_bytes s' j = file_bytes s j"
proof -
  let ?i = "inodes s ! k"
  note D = ramfs_invD [OF inv]
  note K = inode_okD [OF D(7) [OF k(1)] D(3)]
  have ua: "unat (pool_used s + nc) = unat (pool_used s) + unat nc"
    using nc D(3) by (intro unat_add_small) simp
  have le: "unat (pool_used s') \<le> 786432"
    using fits by (simp add: s' word_less_nat_alt RAMFS_POOL_SIZE_def)
  show "ramfs_inv s'"
  proof (rule ramfs_inv_upd_slot [OF inv k(1) _ _ le _ k(2)])
    show "inodes s' = (inodes s)[k := ?i\<lparr>i_data := Some (pool_used s), i_capacity := nc\<rparr>]"
      "fds s' = fds s" "next_inode s \<le> next_inode s'" by (simp_all add: s')
    have "nc \<noteq> 0" using nc by auto
    then show "inode_ok (pool_used s') (next_inode s')
        (?i\<lparr>i_data := Some (pool_used s), i_capacity := nc\<rparr>)"
      using D(7) [OF k(1)] nc live ua
      by (auto simp: inode_ok_def s' word_le_nat_alt word_less_nat_alt RAMFS_MAX_FILESIZE_def)
    fix j assume j: "j < RAMFS_MAX_FILES" "j \<noteq> k"
    note J = inode_okD [OF D(7) [OF j(1)] D(3)]
    show "unat off + unat (i_capacity (inodes s ! j)) \<le> unat (pool_used s')"
      if "i_data (inodes s ! j) = Some off" for off
      using J(3) [OF that] by (simp add: s' ua)
    show "compatible (?i\<lparr>i_data := Some (pool_used s), i_capacity := nc\<rparr>) (inodes s ! j)"
      using D(8) [OF k(1) j(1)] j J(3)
      by (auto simp: compatible_def apart_def split: option.splits)
  qed
  show "file_bytes s' j = file_bytes s j" if j: "j < RAMFS_MAX_FILES" for j
  proof (cases "j = k")
    case True
    then show ?thesis using copied D(1) k by (simp add: file_bytes_def s')
  next
    case False
    note J = inode_okD [OF D(7) [OF j] D(3)]
    have "m (off + of_nat i) = pool s (off + of_nat i)"
      if off: "i_data (inodes s ! j) = Some off" and i: "i < unat (i_size (inodes s ! j))" for off i
    proof (rule rest)
      have "unat (off + of_nat i) = unat off + i"
        using J(1) J(3) [OF off] D(3) i by (intro unat_add_num) simp
      then show "unat (off + of_nat i) < unat (pool_used s)" using J(1) J(3) [OF off] i by simp
    qed
    then show ?thesis using False j D(1)
      by (auto simp: file_bytes_def s' nth_list_update read_bytes_def split: option.splits)
  qed
qed

lemma reserve_grow_spec:
  assumes inv: "ramfs_inv s" and k: "k < RAMFS_MAX_FILES" "k \<noteq> 0"
    and live: "i_ino (inodes s ! k) \<noteq> 0" "i_type (inodes s ! k) = RAMFS_TYPE_FILE"
    and n: "\<not> needed \<le> i_capacity (inodes s ! k)" and nc: "nc = reserve_newcap (i_capacity (inodes s ! k)) needed"
      "i_capacity (inodes s ! k) < nc" "unat nc \<le> 262144" "needed \<le> nc"
    and newest: "newest_block (inodes s ! k) s" and fits: "\<not> pool_used s - i_capacity (inodes s ! k) + nc > RAMFS_POOL_SIZE"
  shows "\<exists>s'. ramfs_reserve k needed s = Some (0, s') \<and> reserved k needed s s'"
proof -
  let ?i = "inodes s ! k"
  let ?s' = "(upd_inode k (?i\<lparr>i_capacity := nc\<rparr>) s)\<lparr>pool_used := pool_used s + (nc - i_capacity ?i)\<rparr>"
  have "reserved k needed s ?s'"
    using reserve_grow [OF inv k live newest nc(2,3) fits refl] nc(4) ramfs_invD(1) [OF inv] k
    unfolding reserved_def by (intro conjI exI [of _ "i_data ?i"] exI [of _ nc]) auto
  moreover have "ramfs_reserve k needed s = Some (0, ?s')"
    using n newest fits by (simp add: ramfs_reserve_def Let_def nc(1))
  ultimately show ?thesis by blast
qed

text \<open>The bytes of a file that moves to the end of the used part.\<close>

lemma moved_bytes:
  assumes inv: "ramfs_inv s" and k: "k < RAMFS_MAX_FILES"
  defines "m \<equiv> (if i_data (inodes s ! k) = None \<or> i_size (inodes s ! k) = 0 then pool s
    else memcpy (pool s) (pool_used s) (the (i_data (inodes s ! k))) (unat (i_size (inodes s ! k))))"
  shows "read_bytes m (pool_used s) (unat (i_size (inodes s ! k))) = file_bytes s k"
    and "unat x < unat (pool_used s) \<Longrightarrow> m x = pool s x"
proof -
  let ?i = "inodes s ! k" and ?n = "unat (i_size (inodes s ! k))"
  note D = ramfs_invD [OF inv]
  note K = inode_okD [OF D(7) [OF k] D(3)]
  have moved: "m = write_bytes (pool s) (pool_used s) (file_bytes s k)"
  proof (cases "i_data ?i = None \<or> i_size ?i = 0")
    case True
    then show ?thesis by (auto simp: m_def file_bytes_def read_bytes_def split: option.splits)
  next
    case False
    then obtain off where off: "i_data ?i = Some off" by auto
    have "disjoint_regions (pool_used s) ?n off ?n"
      using K(1,2) K(3) [OF off] D(3) by (intro disjoint_regions_below(2)) auto
    then show ?thesis using False off K(1,2) by (simp add: m_def file_bytes_def memcpy_disjoint)
  qed
  have len_fb: "length (file_bytes s k) = ?n" by (rule length_file_bytes [OF inv k])
  show "read_bytes m (pool_used s) ?n = file_bytes s k"
    using read_write_same [of "file_bytes s k" "pool s" "pool_used s"] K(1,2) len_fb by (simp add: moved)
  show "m x = pool s x" if "unat x < unat (pool_used s)"
    using that K(1,2) D(3) len_fb by (simp add: moved write_bytes_out in_region_iff)
qed

lemma reserve_fresh_spec:
  assumes inv: "ramfs_inv s" and k: "k < RAMFS_MAX_FILES" "k \<noteq> 0"
    and live: "i_ino (inodes s ! k) \<noteq> 0" "i_type (inodes s ! k) = RAMFS_TYPE_FILE"
    and n: "\<not> needed \<le> i_capacity (inodes s ! k)" and nc: "nc = reserve_newcap (i_capacity (inodes s ! k)) needed"
      "i_capacity (inodes s ! k) < nc" "unat nc \<le> 262144" "needed \<le> nc"
    and newest: "\<not> newest_block (inodes s ! k) s" and fits: "\<not> pool_used s + nc > RAMFS_POOL_SIZE"
  shows "\<exists>s'. ramfs_reserve k needed s = Some (0, s') \<and> reserved k needed s s'"
proof -
  let ?i = "inodes s ! k" and ?n = "unat (i_size (inodes s ! k))"
  note D = ramfs_invD [OF inv]
  note K = inode_okD [OF D(7) [OF k(1)] D(3)]
  define m where "m = (if i_data ?i = None \<or> i_size ?i = 0 then pool s else memcpy (pool s) (pool_used s) (the (i_data ?i)) ?n)"
  let ?s' = "(upd_inode k (?i\<lparr>i_data := Some (pool_used s), i_capacity := nc\<rparr>) s)\<lparr>pool_used := pool_used s + nc, pool := m\<rparr>"
  have "reserved k needed s ?s'"
    using reserve_fresh [OF inv k live nc(2,3) fits refl moved_bytes [OF inv k(1), folded m_def]] nc(4) D(1) k
    unfolding reserved_def by (intro conjI exI [of _ "Some (pool_used s)"] exI [of _ nc]) auto
  moreover have "ramfs_reserve k needed s = Some (0, ?s')"
  proof -
    have "unat (pool_used s + nc) = unat (pool_used s) + unat nc" using nc(3) D(3) by (intro unat_add_small) simp
    then have "pool_ok (pool_used s) ?n" using fits K(1) nc(2) by (simp add: pool_ok_def word_less_nat_alt not_less)
    moreover have "pool_ok off ?n" if "i_data ?i = Some off" for off
      using K(1) K(3) [OF that] D(3) by (simp add: pool_ok_def RAMFS_POOL_SIZE_def)
    ultimately show ?thesis
      using n newest fits by (auto simp: ramfs_reserve_def Let_def m_def nc(1) split: option.splits)
  qed
  ultimately show ?thesis by blast
qed

lemma ramfs_reserve_spec:
  assumes inv: "ramfs_inv s" and k: "k < RAMFS_MAX_FILES" "k \<noteq> 0"
    and live: "i_ino (inodes s ! k) \<noteq> 0" "i_type (inodes s ! k) = RAMFS_TYPE_FILE"
    and needed: "needed \<le> RAMFS_MAX_FILESIZE"
  shows "(\<exists>s'. ramfs_reserve k needed s = Some (0, s') \<and> reserved k needed s s') \<or>
    ramfs_reserve k needed s = Some (-1, s) \<and> i_capacity (inodes s ! k) < needed"
proof -
  let ?i = "inodes s ! k" and ?nc = "reserve_newcap (i_capacity (inodes s ! k)) needed"
  note D = ramfs_invD [OF inv]
  consider "needed \<le> i_capacity ?i" | "i_capacity ?i < needed" by fastforce
  then show ?thesis
  proof cases
    case 1
    then have "reserved k needed s s"
      using inv D(1) k unfolding reserved_def
      by (intro conjI exI [of _ "i_data ?i"] exI [of _ "i_capacity ?i"]) simp_all
    with 1 show ?thesis by (simp add: ramfs_reserve_def Let_def)
  next
    case 2
    then have n2: "\<not> needed \<le> i_capacity ?i" by simp
    have nc: "i_capacity ?i < ?nc" "unat ?nc \<le> 262144" "needed \<le> ?nc"
      using reserve_newcap_bounds [OF needed] 2 by (auto intro: less_le_trans)
    note grow = reserve_grow_spec [OF inv k live n2 refl nc] and fresh = reserve_fresh_spec [OF inv k live n2 refl nc]
    show ?thesis
    proof (cases "if newest_block ?i s then pool_used s - i_capacity ?i + ?nc > RAMFS_POOL_SIZE else pool_used s + ?nc > RAMFS_POOL_SIZE")
      case True
      then show ?thesis using n2 2 by (auto simp: ramfs_reserve_def Let_def split: if_splits)
    next
      case False
      then show ?thesis using grow fresh by (auto split: if_splits)
    qed
  qed
qed

section \<open>Writing\<close>

text \<open>The contents after \<open>ys\<close> is written at offset \<open>o\<close>: a gap before the offset reads as
  zeros.\<close>

definition splice :: "u8 list \<Rightarrow> nat \<Rightarrow> u8 list \<Rightarrow> u8 list" where
  "splice xs off ys = take off (xs @ replicate (off - length xs) 0) @ ys @ drop (off + length ys) xs"

lemma length_splice: "length (splice xs off ys) = max (length xs) (off + length ys)"
  by (auto simp: splice_def)

lemma nth_splice:
  "i < length (splice xs off ys) \<Longrightarrow> splice xs off ys ! i =
     (if off \<le> i \<and> i < off + length ys then ys ! (i - off)
      else if i < length xs then xs ! i else 0)"
  unfolding length_splice
  by (auto simp: splice_def nth_append min_def max_def split: if_splits)

text \<open>The pool after \<open>bs\<close> is written at offset \<open>off\<close> of a file of size \<open>sz\<close> whose block is at \<open>a\<close>.\<close>

definition written_pool :: "mem \<Rightarrow> u32 \<Rightarrow> u32 \<Rightarrow> u32 \<Rightarrow> u8 list \<Rightarrow> mem" where
  "written_pool m a sz off bs =
     write_bytes (if sz < off then memset m (a + sz) 0 (unat (off - sz)) else m) (a + off) bs"

lemma written_pool_at:
  assumes "unat off \<le> 262144"
  shows "written_pool m a sz off bs x =
    (if in_region x (a + off) (length bs) then bs ! unat (x - (a + off))
     else if in_region x (a + sz) (unat off - unat sz) then 0 else m x)"
proof (cases "sz < off")
  case True
  then have "unat (off - sz) = unat off - unat sz" by (intro unat_sub_le) (simp add: word_less_nat_alt)
  with True assms show ?thesis by (simp add: written_pool_def memset_eq write_bytes_def in_region_def)
next
  case False
  then show ?thesis by (simp add: written_pool_def write_bytes_def in_region_def word_less_nat_alt)
qed

lemma written_pool_out:
  assumes c: "unat a + c \<le> 786432" "unat sz \<le> c" "unat off + length bs \<le> c" "c \<le> 262144"
    and x: "unat x < unat a \<or> unat a + c \<le> unat x"
  shows "written_pool m a sz off bs x = m x"
proof -
  have u: "unat (a + off) = unat a + unat off" "unat (a + sz) = unat a + unat sz" using c by (simp_all add: unat_add_small)
  have "\<not> in_region x (a + off) (length bs)" "\<not> in_region x (a + sz) (unat off - unat sz)"
    using c x u by (subst in_region_iff; auto)+
  then show ?thesis using c by (simp add: written_pool_at)
qed

lemma written_pool_contents:
  assumes c: "unat a + c \<le> 786432" "unat sz \<le> c" "unat off + length bs \<le> c" "c \<le> 262144"
  shows "read_bytes (written_pool m a sz off bs) a (max (unat sz) (unat off + length bs)) = splice (read_bytes m a (unat sz)) (unat off) bs"
proof (rule nth_equalityI)
  fix i assume "i < length (read_bytes (written_pool m a sz off bs) a (max (unat sz) (unat off + length bs)))"
  then have i: "i < max (unat sz) (unat off + length bs)" by simp
  have u: "unat (a + off) = unat a + unat off" "unat (a + sz) = unat a + unat sz" using c by (simp_all add: unat_add_small)
  have ai: "unat (a + of_nat i) = unat a + i" using i c by (intro unat_add_num) auto
  have r1: "in_region (a + of_nat i) (a + off) (length bs) \<longleftrightarrow> unat off \<le> i \<and> i < unat off + length bs"
    using u ai c by (subst in_region_iff) auto
  have r2: "in_region (a + of_nat i) (a + sz) (unat off - unat sz) \<longleftrightarrow> unat sz \<le> i \<and> i < unat off"
    using u ai c by (subst in_region_iff) auto
  have d: "unat (a + of_nat i - (a + off)) = i - unat off" if "unat off \<le> i"
    using that u ai by (subst unat_sub_le) auto
  show "read_bytes (written_pool m a sz off bs) a (max (unat sz) (unat off + length bs)) ! i =
      splice (read_bytes m a (unat sz)) (unat off) bs ! i"
    using i d c by (auto simp: nth_splice length_splice written_pool_at r1 r2)
qed (simp add: length_splice)

text \<open>What \<open>write_at\<close> leaves, in terms of that pool.\<close>

lemma write_at_result:
  assumes inv: "ramfs_inv s" and k: "k < RAMFS_MAX_FILES" and a: "i_data (inodes s ! k) = Some a"
    and fits: "unat (fd_offset (fds s ! n)) + unat count \<le> unat (i_capacity (inodes s ! k))"
  shows "\<exists>z. unat z = max (unat (i_size (inodes s ! k))) (unat (fd_offset (fds s ! n)) + unat count) \<and>
    write_at n k buf count s = Some (int (unat count),
      (upd_inode k ((inodes s ! k)\<lparr>i_size := z\<rparr>) (upd_fd n ((fds s ! n)\<lparr>fd_offset := fd_offset (fds s ! n) + count\<rparr>) s))
        \<lparr>pool := written_pool (pool s) a (i_size (inodes s ! k)) (fd_offset (fds s ! n)) (map buf [0..<unat count])\<rparr>)"
proof -
  let ?i = "inodes s ! k" and ?o = "fd_offset (fds s ! n)"
  note D = ramfs_invD [OF inv]
  note K = inode_okD [OF D(7) [OF k] D(3)]
  note in_pool = K(3) [OF a]
  have ua: "unat (a + i_size ?i) = unat a + unat (i_size ?i)" "unat (a + ?o) = unat a + unat ?o"
    "unat (?o + count) = unat ?o + unat count"
    using K(1,2) in_pool D(3) fits by (auto intro!: unat_add_small)
  have sub: "unat (?o - i_size ?i) = unat ?o - unat (i_size ?i)" if "i_size ?i < ?o"
    using that by (intro unat_sub_le) (simp add: word_less_nat_alt)
  define z where "z = (if ?o + count > i_size ?i then ?o + count else i_size ?i)"
  have zn: "unat z = max (unat (i_size ?i)) (unat ?o + unat count)" using ua(3) by (auto simp: z_def word_less_nat_alt)
  have "sint count = int (unat count)" using fits K(2) by (intro sint_small) simp
  moreover have "pool_ok (a + i_size ?i) (unat (?o - i_size ?i))" if "i_size ?i < ?o"
    using that ua sub [OF that] fits in_pool D(3) by (simp add: pool_ok_def RAMFS_POOL_SIZE_def word_less_nat_alt)
  moreover have "pool_ok (a + ?o) (unat count)" using ua fits in_pool D(3) by (simp add: pool_ok_def RAMFS_POOL_SIZE_def)
  ultimately show ?thesis using a zn by (auto simp: write_at_def Let_def written_pool_def z_def)
qed

lemma write_at_spec:
  assumes inv: "ramfs_inv s" and n: "n < 32" and k: "k < RAMFS_MAX_FILES" "k \<noteq> 0"
    and fits: "unat (fd_offset (fds s ! n)) + unat count \<le> unat (i_capacity (inodes s ! k))"
    and count: "0 < unat count"
  shows "\<exists>s'. write_at n k buf count s = Some (int (unat count), s') \<and> ramfs_inv s' \<and>
    next_inode s' = next_inode s \<and>
    fds s' = (fds s)[n := (fds s ! n)\<lparr>fd_offset := fd_offset (fds s ! n) + count\<rparr>] \<and>
    (\<exists>z. inodes s' = (inodes s)[k := (inodes s ! k)\<lparr>i_size := z\<rparr>]) \<and>
    file_bytes s' k = splice (file_bytes s k) (unat (fd_offset (fds s ! n))) (map buf [0..<unat count]) \<and>
    (\<forall>j < RAMFS_MAX_FILES. j \<noteq> k \<longrightarrow> file_bytes s' j = file_bytes s j)"
proof -
  let ?i = "inodes s ! k" and ?f = "fds s ! n" and ?o = "fd_offset (fds s ! n)" and ?bs = "map buf [0..<unat count]"
  note D = ramfs_invD [OF inv]
  note K = inode_okD [OF D(7) [OF k(1)] D(3)]
  have len: "k < length (inodes s)" "n < length (fds s)" using D(1,2) k n by simp_all
  have "i_capacity ?i \<noteq> 0" using fits count by auto
  then obtain a where a: "i_data ?i = Some a" using K(4) by auto
  have c: "unat a + unat (i_capacity ?i) \<le> 786432" "unat (i_size ?i) \<le> unat (i_capacity ?i)"
    "unat ?o + length ?bs \<le> unat (i_capacity ?i)" "unat (i_capacity ?i) \<le> 262144"
    using K(1,2) K(3) [OF a] D(3) fits by auto
  obtain z where z: "unat z = max (unat (i_size ?i)) (unat ?o + unat count)" "write_at n k buf count s = Some (int (unat count),
      (upd_inode k (?i\<lparr>i_size := z\<rparr>) (upd_fd n (?f\<lparr>fd_offset := ?o + count\<rparr>) s))\<lparr>pool := written_pool (pool s) a (i_size ?i) ?o ?bs\<rparr>)"
    using write_at_result [OF inv k(1) a fits] by blast
  let ?s' = "(upd_inode k (?i\<lparr>i_size := z\<rparr>) (upd_fd n (?f\<lparr>fd_offset := ?o + count\<rparr>) s))\<lparr>pool := written_pool (pool s) a (i_size ?i) ?o ?bs\<rparr>"
  have "unat (?o + count) = unat ?o + unat count" using c by (intro unat_add_small) simp
  then have fdok: "fd_ok (next_inode s) (?f\<lparr>fd_offset := ?o + count\<rparr>)"
    using D(9) [OF n] fits K(2) by (simp add: fd_ok_def word_le_nat_alt RAMFS_MAX_FILESIZE_def)
  have inv1: "ramfs_inv (upd_fd n (?f\<lparr>fd_offset := ?o + count\<rparr>) s)" (is "ramfs_inv ?s1")
    by (rule ramfs_inv_upd_fd [OF inv fdok])
  have "ramfs_inv (upd_inode k (?i\<lparr>i_size := z\<rparr>) ?s1)"
  proof (rule ramfs_inv_upd_slot [OF inv1 k(1) _ _ _ _ k(2)])
    show "inode_ok (pool_used (upd_inode k (?i\<lparr>i_size := z\<rparr>) ?s1)) (next_inode (upd_inode k (?i\<lparr>i_size := z\<rparr>) ?s1)) (?i\<lparr>i_size := z\<rparr>)"
      using D(7) [OF k(1)] z(1) K(1) fits by (simp add: inode_ok_def word_le_nat_alt a)
    fix j assume j: "j < RAMFS_MAX_FILES" "j \<noteq> k"
    show "compatible (?i\<lparr>i_size := z\<rparr>) (inodes ?s1 ! j)"
      using D(8) [OF k(1) j(1)] j by (auto simp: compatible_def apart_def split: option.splits)
    show "unat off + unat (i_capacity (inodes ?s1 ! j)) \<le> unat (pool_used (upd_inode k (?i\<lparr>i_size := z\<rparr>) ?s1))"
      if "i_data (inodes ?s1 ! j) = Some off" for off
      using inode_okD(3) [OF D(7) [OF j(1)] D(3)] that by simp
  qed (use D(3) in simp_all)
  then have inv': "ramfs_inv ?s'" by simp
  have mine: "file_bytes ?s' k = splice (file_bytes s k) (unat ?o) ?bs"
    using written_pool_contents [OF c, of "pool s"] a len z(1) by (simp add: file_bytes_def)
  have others: "file_bytes ?s' j = file_bytes s j" if j: "j < RAMFS_MAX_FILES" "j \<noteq> k" for j
  proof (cases "i_data (inodes s ! j)")
    case (Some b)
    note J = inode_okD [OF D(7) [OF j(1)] D(3)]
    have ap: "unat a + unat (i_capacity ?i) \<le> unat b \<or> unat b + unat (i_capacity (inodes s ! j)) \<le> unat a"
      using D(8) [OF k(1) j(1)] j a Some by (simp add: compatible_def apart_def)
    have "written_pool (pool s) a (i_size ?i) ?o ?bs (b + of_nat i) = pool s (b + of_nat i)" if i: "i < unat (i_size (inodes s ! j))" for i
    proof (rule written_pool_out [OF c])
      have "unat (b + of_nat i) = unat b + i" using i J(1) J(3) [OF Some] D(3) by (intro unat_add_num) simp
      then show "unat (b + of_nat i) < unat a \<or> unat a + unat (i_capacity ?i) \<le> unat (b + of_nat i)"
        using ap i J(1) J(3) [OF Some] by auto
    qed
    then show ?thesis using j Some by (simp add: file_bytes_def read_bytes_def)
  qed (use j in \<open>simp add: file_bytes_def\<close>)
  show ?thesis using z(2) inv' mine others by auto
qed

text \<open>Descriptor \<open>fd\<close> is open on the regular file in slot \<open>k\<close>.\<close>

definition open_on :: "ramfs \<Rightarrow> int \<Rightarrow> nat \<Rightarrow> bool" where
  "open_on s fd k \<longleftrightarrow> 0 \<le> fd \<and> fd < 32 \<and> fd_ino (fds s ! nat fd) \<noteq> 0 \<and>
     slot_of_ino (fd_ino (fds s ! nat fd)) s = Some k \<and> i_type (inodes s ! k) = RAMFS_TYPE_FILE"

lemma open_onD:
  assumes "ramfs_inv s" "open_on s fd k"
  shows "k < RAMFS_MAX_FILES" "k \<noteq> 0" "i_ino (inodes s ! k) = fd_ino (fds s ! nat fd)"
    "i_ino (inodes s ! k) \<noteq> 0" "i_type (inodes s ! k) = RAMFS_TYPE_FILE" "nat fd < 32"
proof -
  note D = ramfs_invD [OF assms(1)]
  have f: "find_idx (\<lambda>i. i_ino i = fd_ino (fds s ! nat fd)) (inodes s) = Some k"
    using assms(2) by (simp add: open_on_def slot_of_ino_def)
  show k: "k < RAMFS_MAX_FILES" "i_ino (inodes s ! k) = fd_ino (fds s ! nat fd)"
    using find_idx_SomeD(1,2) [OF f] D(1) by simp_all
  show "i_ino (inodes s ! k) \<noteq> 0" "i_type (inodes s ! k) = RAMFS_TYPE_FILE" "nat fd < 32"
    using k assms(2) by (auto simp: open_on_def)
  with D(5) show "k \<noteq> 0" by (metis k(2))
qed

text \<open>Changes that keep what paths see: number, type, name and parent of every slot.\<close>

definition same_tree :: "ramfs \<Rightarrow> ramfs \<Rightarrow> bool" where
  "same_tree s s' \<longleftrightarrow> length (inodes s') = length (inodes s) \<and> next_inode s' = next_inode s \<and>
     (\<forall>j < length (inodes s). i_ino (inodes s' ! j) = i_ino (inodes s ! j) \<and>
        i_type (inodes s' ! j) = i_type (inodes s ! j) \<and>
        i_name (inodes s' ! j) = i_name (inodes s ! j) \<and>
        i_parent_ino (inodes s' ! j) = i_parent_ino (inodes s ! j))"

lemma same_tree_refl [simp]: "same_tree s s"
  by (simp add: same_tree_def)

lemma same_tree_trans: "same_tree s t \<Longrightarrow> same_tree t u \<Longrightarrow> same_tree s u"
  by (simp add: same_tree_def)

lemma same_tree_upd:
  assumes "i_ino i = i_ino (inodes s ! k)" "i_type i = i_type (inodes s ! k)"
    "i_name i = i_name (inodes s ! k)" "i_parent_ino i = i_parent_ino (inodes s ! k)"
    "inodes s' = (inodes s)[k := i]" "next_inode s' = next_inode s"
  shows "same_tree s s'"
  using assms by (cases "k < length (inodes s)")
    (auto simp: same_tree_def nth_list_update list_update_beyond)

lemma same_tree_reserved: "reserved k needed s s' \<Longrightarrow> same_tree s s'"
  unfolding reserved_def by (elim conjE exE) (rule same_tree_upd [where k = k], simp_all)

text \<open>The offset a write starts at: the end of the file in append mode.\<close>

definition write_offset :: "ramfs \<Rightarrow> int \<Rightarrow> nat \<Rightarrow> u32" where
  "write_offset s fd k =
     (if fd_flags (fds s ! nat fd) AND CHALES_O_APPEND \<noteq> 0 then i_size (inodes s ! k)
      else fd_offset (fds s ! nat fd))"

definition wrote :: "ramfs \<Rightarrow> int \<Rightarrow> nat \<Rightarrow> (nat \<Rightarrow> u8) \<Rightarrow> nat \<Rightarrow> ramfs \<Rightarrow> bool" where
  "wrote s fd k buf n s' \<longleftrightarrow>
     file_bytes s' k = (if n = 0 then file_bytes s k
       else splice (file_bytes s k) (unat (write_offset s fd k)) (map buf [0..<n])) \<and>
     unat (fd_offset (fds s' ! nat fd)) = unat (write_offset s fd k) + n"

lemma file_bytes_upd_fd [simp]: "file_bytes (s\<lparr>fds := fs\<rparr>) k = file_bytes s k"
  by (simp add: file_bytes_def split: option.split)

text \<open>The write proper, on a state \<open>s2\<close> in which the descriptor has the offset of the write and the
  block of the file has room.\<close>

lemma write_at_wrote:
  assumes inv: "ramfs_inv s" "ramfs_inv s2" and o: "open_on s fd k"
    and s2: "fds s2 = (fds s)[nat fd := (fds s ! nat fd)\<lparr>fd_offset := write_offset s fd k\<rparr>]"
      "\<forall>j < RAMFS_MAX_FILES. file_bytes s2 j = file_bytes s j" "same_tree s s2"
    and m: "0 < unat m" "unat (write_offset s fd k) + unat m \<le> unat (i_capacity (inodes s2 ! k))"
  shows "\<exists>s3. write_at (nat fd) k buf m s2 = Some (int (unat m), s3) \<and> ramfs_inv s3 \<and> same_tree s s3 \<and>
    (\<exists>ofs. fds s3 = (fds s)[nat fd := (fds s ! nat fd)\<lparr>fd_offset := ofs\<rparr>]) \<and>
    (\<forall>j < RAMFS_MAX_FILES. j \<noteq> k \<longrightarrow> file_bytes s3 j = file_bytes s j) \<and> wrote s fd k buf (unat m) s3"
proof -
  let ?n = "nat fd" and ?off = "write_offset s fd k"
  note O = open_onD [OF inv(1) o]
  have nl: "?n < length (fds s)" using ramfs_invD(2) [OF inv(1)] O(6) by simp
  then have o2: "fd_offset (fds s2 ! ?n) = ?off" using s2(1) by simp
  obtain s3 where s3: "write_at ?n k buf m s2 = Some (int (unat m), s3)" "ramfs_inv s3"
    "next_inode s3 = next_inode s2" "\<exists>z. inodes s3 = (inodes s2)[k := (inodes s2 ! k)\<lparr>i_size := z\<rparr>]"
    "fds s3 = (fds s2)[?n := (fds s2 ! ?n)\<lparr>fd_offset := ?off + m\<rparr>]"
    "file_bytes s3 k = splice (file_bytes s2 k) (unat ?off) (map buf [0..<unat m])"
    "\<forall>j < RAMFS_MAX_FILES. j \<noteq> k \<longrightarrow> file_bytes s3 j = file_bytes s2 j"
    using write_at_spec [OF inv(2) O(6) O(1,2), of m buf] m o2 by auto
  have "same_tree s2 s3" using s3(3,4) by (elim exE) (rule same_tree_upd [where k = k], simp_all)
  then have t3: "same_tree s s3" by (rule same_tree_trans [OF s2(3)])
  have "unat (i_capacity (inodes s2 ! k)) \<le> 262144"
    using inode_okD(2) [OF ramfs_invD(7) [OF inv(2) O(1)] ramfs_invD(3) [OF inv(2)]] .
  then have "unat (?off + m) = unat ?off + unat m" using m(2) by (intro unat_add_small) simp
  then have "wrote s fd k buf (unat m) s3" using s3(5,6) s2(1,2) O(1) m(1) nl by (simp add: wrote_def)
  moreover have "\<exists>ofs. fds s3 = (fds s)[?n := (fds s ! ?n)\<lparr>fd_offset := ofs\<rparr>]" using s3(5) s2(1) nl by auto
  ultimately show ?thesis using s3(1,2,7) t3 s2(2) by (intro exI [of _ s3]) auto
qed

text \<open>On an open descriptor that is not read-only, only the offset and the room decide.\<close>

lemma ramfs_write_open:
  assumes o: "open_on s fd k" and rw: "fd_flags (fds s ! nat fd) AND CHALES_O_ACCMODE \<noteq> CHALES_O_RDONLY"
  shows "ramfs_write fd (Some buf) count s =
    (let off = write_offset s fd k; s1 = upd_fd (nat fd) ((fds s ! nat fd)\<lparr>fd_offset := off\<rparr>) s;
         c = (if off + count > RAMFS_MAX_FILESIZE then RAMFS_MAX_FILESIZE - off else count) in
     if off \<ge> RAMFS_MAX_FILESIZE then Some (if count = 0 then 0 else - CHALES_ENOSPC, s1)
     else if c = 0 then Some (0, s1)
     else write_reserving (nat fd) k buf off c s1)"
proof -
  have "(fd < 0 \<or> fd \<ge> 32) = False" "(fd_ino (fds s ! nat fd) = 0) = False"
    "slot_of_ino (fd_ino (fds s ! nat fd)) s = Some k" "(i_type (inodes s ! k) \<noteq> RAMFS_TYPE_FILE) = False"
    "(fd_flags (fds s ! nat fd) AND CHALES_O_ACCMODE = CHALES_O_RDONLY) = False"
    using o rw by (auto simp: open_on_def)
  note facts = this
  show ?thesis by (simp only: ramfs_write_def Let_def option.case facts if_False write_offset_def)
qed

lemma ramfs_write_cases:
  assumes inv: "ramfs_inv s" and o: "open_on s fd k"
    and rw: "fd_flags (fds s ! nat fd) AND CHALES_O_ACCMODE \<noteq> CHALES_O_RDONLY"
    and small: "unat count \<le> 4294967295 - 262144"
  shows "\<exists>r s'. ramfs_write fd (Some buf) count s = Some (r, s') \<and> ramfs_inv s' \<and> same_tree s s' \<and>
    (\<exists>ofs. fds s' = (fds s)[nat fd := (fds s ! nat fd)\<lparr>fd_offset := ofs\<rparr>]) \<and>
    (\<forall>j < RAMFS_MAX_FILES. j \<noteq> k \<longrightarrow> file_bytes s' j = file_bytes s j) \<and>
    (r = - CHALES_ENOSPC \<and> 0 < unat count \<and> file_bytes s' k = file_bytes s k \<or>
     (\<exists>n \<le> unat count. r = int n \<and> (n = 0 \<longrightarrow> unat count = 0) \<and> wrote s fd k buf n s'))"
proof -
  let ?n = "nat fd" and ?off = "write_offset s fd k"
  note D = ramfs_invD [OF inv] and O = open_onD [OF inv o]
  note K = inode_okD [OF D(7) [OF O(1)] D(3)]
  define s1 where "s1 = upd_fd ?n ((fds s ! ?n)\<lparr>fd_offset := ?off\<rparr>) s"
  define c where "c = (if ?off + count > RAMFS_MAX_FILESIZE then RAMFS_MAX_FILESIZE - ?off else count)"
  note unf = ramfs_write_open [OF o rw, of buf count, unfolded Let_def, folded s1_def c_def]
  have off_le: "?off \<le> RAMFS_MAX_FILESIZE"
    using D(9) [OF O(6)] K(1,2) by (auto simp: write_offset_def fd_ok_def word_le_nat_alt RAMFS_MAX_FILESIZE_def)
  have inv1: "ramfs_inv s1"
    using D(9) [OF O(6)] off_le unfolding s1_def by (intro ramfs_inv_upd_fd [OF inv]) (simp add: fd_ok_def)
  have nl: "?n < length (fds s)" using D(2) O(6) by simp
  have s1: "inodes s1 = inodes s" "fds s1 = (fds s)[?n := (fds s ! ?n)\<lparr>fd_offset := ?off\<rparr>]"
    "file_bytes s1 j = file_bytes s j" "same_tree s s1" for j
    using nl by (auto simp: s1_def same_tree_def)
  show ?thesis
  proof (cases "?off \<ge> RAMFS_MAX_FILESIZE \<or> c = 0")
    case True
    have "c = 0 \<Longrightarrow> \<not> ?off \<ge> RAMFS_MAX_FILESIZE \<Longrightarrow> count = 0" by (auto simp: c_def split: if_splits)
    with True unf inv1 s1 nl show ?thesis by (auto simp: wrote_def unat_gt_0 intro!: exI [of _ "0::nat"])
  next
    case False
    have off: "unat ?off < 262144" using False by (simp add: word_less_nat_alt word_le_nat_alt RAMFS_MAX_FILESIZE_def)
    have "unat (?off + count) = unat ?off + unat count" using off small by (intro unat_add_small) simp
    then have c: "unat c \<le> unat count" "unat ?off + unat c \<le> 262144"
      using off by (auto simp: c_def word_less_nat_alt RAMFS_MAX_FILESIZE_def unat_sub_le)
    have un: "unat (?off + c) = unat ?off + unat c" using c by (intro unat_add_small) simp
    then have needed: "?off + c \<le> RAMFS_MAX_FILESIZE" using c by (simp add: word_le_nat_alt RAMFS_MAX_FILESIZE_def)
    have c0: "0 < unat c" using False by (simp add: unat_gt_0)
    have finish: ?thesis if s2: "ramfs_inv s2" "fds s2 = fds s1" "\<forall>j < RAMFS_MAX_FILES. file_bytes s2 j = file_bytes s j" "same_tree s s2"
      and m: "0 < unat m" "unat m \<le> unat c" "unat ?off + unat m \<le> unat (i_capacity (inodes s2 ! k))"
      and w: "ramfs_write fd (Some buf) count s = write_at ?n k buf m s2" for s2 m
      using write_at_wrote [OF inv s2(1) o s2(2) [unfolded s1(2)] s2(3,4) m(1,3), of buf] w m(1,2) c(1)
      by (elim exE conjE) (intro exI [of _ "int (unat m)"] exI conjI disjI2; auto)
    have live1: "i_ino (inodes s1 ! k) \<noteq> 0" "i_type (inodes s1 ! k) = RAMFS_TYPE_FILE" using O(4,5) s1 by simp_all
    from ramfs_reserve_spec [OF inv1 O(1,2) live1 needed] show ?thesis
    proof (elim disjE exE conjE)
      fix s2 assume r: "ramfs_reserve k (?off + c) s1 = Some (0, s2)" "reserved k (?off + c) s1 s2"
      then show ?thesis
        using False unf [unfolded write_reserving_def] c0 un s1 same_tree_trans [OF s1(4) same_tree_reserved [OF r(2)]]
        by (intro finish [of s2 c]) (auto simp: reserved_def word_le_nat_alt)
    next
      assume r: "ramfs_reserve k (?off + c) s1 = Some (-1, s1)" "i_capacity (inodes s1 ! k) < ?off + c"
      show ?thesis
      proof (cases "?off \<ge> i_capacity (inodes s1 ! k)")
        case True
        then show ?thesis using r False unf [unfolded write_reserving_def] inv1 s1 c0 c(1) by auto
      next
        case nf: False
        let ?m = "i_capacity (inodes s1 ! k) - ?off"
        have "unat ?m = unat (i_capacity (inodes s1 ! k)) - unat ?off"
          using nf by (intro unat_sub_le) (simp add: word_le_nat_alt)
        then show ?thesis
          using r nf False unf [unfolded write_reserving_def] inv1 s1 un by (intro finish [of s1 ?m]) (auto simp: word_le_nat_alt word_less_nat_alt)
      qed
    qed
  qed
qed

end
