(* ===== verification/Ramfs_Ops.thy ===== *)
theory Ramfs_Ops
  imports Ramfs_Inv
begin

text \<open>
  The operations on the directory tree and on descriptors: preservation of the invariant by
  every operation, what lookups return after a creation or a removal, reading, seeking, and
  the file system as a machine of operations.
\<close>

section \<open>Path lookup\<close>

text \<open>What path resolution sees of a slot.\<close>

definition dir_view :: "ramfs_inode \<Rightarrow> (u32 \<times> u32 \<times> string) option" where
  "dir_view i = (if i_ino i \<noteq> 0 \<and> i_type i = RAMFS_TYPE_DIR
                 then Some (i_ino i, i_parent_ino i, i_name i) else None)"

definition same_dirs :: "ramfs \<Rightarrow> ramfs \<Rightarrow> bool" where
  "same_dirs s s' \<longleftrightarrow> map dir_view (inodes s') = map dir_view (inodes s)"

lemma same_dirs_iff:
  "same_dirs s s' \<longleftrightarrow> length (inodes s') = length (inodes s) \<and>
     (\<forall>i < length (inodes s). dir_view (inodes s' ! i) = dir_view (inodes s ! i))"
  by (auto simp: same_dirs_def list_eq_iff_nth_eq)

lemma same_dirs_upd:
  "dir_view i = dir_view (inodes s ! k) \<Longrightarrow> inodes s' = (inodes s)[k := i] \<Longrightarrow> same_dirs s s'"
  by (auto simp: same_dirs_iff nth_upd)

lemma dir_view_eq_matches:
  "dir_view i = dir_view j \<Longrightarrow> dir_entry_matches c p n i = dir_entry_matches c p n j"
  by (auto simp: dir_view_def dir_entry_matches_def split: if_splits)

lemma same_dirs_find:
  "same_dirs s s' \<Longrightarrow>
    find_idx (dir_entry_matches c p n) (inodes s') = find_idx (dir_entry_matches c p n) (inodes s)"
  by (rule find_from_cong_nth) (auto simp: same_dirs_iff intro!: dir_view_eq_matches)

lemma same_dirs_ino:
  assumes "same_dirs s s'" "find_idx (dir_entry_matches c p n) (inodes s) = Some f"
  shows "i_ino (inodes s' ! f) = i_ino (inodes s ! f)"
proof -
  have f: "f < length (inodes s)" "dir_entry_matches c p n (inodes s ! f)"
    using find_idx_SomeD(1,2) [OF assms(2)] by auto
  have "dir_view (inodes s' ! f) = dir_view (inodes s ! f)"
    using assms(1) f(1) by (simp add: same_dirs_iff)
  with f(2) show ?thesis by (auto simp: dir_view_def dir_entry_matches_def split: if_splits)
qed

lemma same_dirs_resolve_loop:
  "same_dirs s s' \<Longrightarrow> resolve_loop s' p c = resolve_loop s p c"
proof (induction s p c rule: resolve_loop.induct)
  case (1 s p c)
  note IH = "1.IH" [OF _ refl refl]
  show ?case
  proof (cases "p = [] \<or> length (takeWhile not_slash p) = 0")
    case True
    then show ?thesis
      using IH(1) "1.prems" by (subst (1 2) resolve_loop.simps) auto
  next
    case False
    then show ?thesis
      using IH(2) "1.prems" same_dirs_find [OF "1.prems"] same_dirs_ino [OF "1.prems"]
      by (subst (1 2) resolve_loop.simps) (auto simp: Let_def split: option.splits)
  qed
qed

lemma same_dirs_resolve: "same_dirs s s' \<Longrightarrow> ramfs_resolve_dir p s' = ramfs_resolve_dir p s"
  by (simp add: ramfs_resolve_dir_def same_dirs_resolve_loop)

lemma same_tree_dirs: "same_tree s s' \<Longrightarrow> same_dirs s s'"
  by (simp add: same_dirs_iff same_tree_def dir_view_def)

lemma same_tree_find_inode:
  assumes "same_tree s s'"
  shows "ramfs_find_inode path s' = ramfs_find_inode path s"
proof -
  have "find_idx (entry_matches par nm) (inodes s') = find_idx (entry_matches par nm) (inodes s)"
    for par nm
    using assms by (intro find_from_cong_nth) (auto simp: same_tree_def entry_matches_def)
  then show ?thesis
    by (simp add: ramfs_find_inode_def Let_def same_dirs_resolve [OF same_tree_dirs [OF assms]]
        split: option.split prod.split)
qed

text \<open>The matches of the two lookups, for stored names and paths without NUL characters.\<close>

lemma cnth_nul: "CHR 0x00 \<notin> set nm \<Longrightarrow> cnth nm n = CHR 0x00 \<longleftrightarrow> length nm \<le> n"
  by (metis cnth_def linorder_not_le nth_mem)

lemma dir_entry_matches_iff:
  assumes "CHR 0x00 \<notin> set p" "CHR 0x00 \<notin> set (i_name i)" "n \<le> length p"
  shows "dir_entry_matches c p n i \<longleftrightarrow>
    i_ino i \<noteq> 0 \<and> i_parent_ino i = c \<and> i_type i = RAMFS_TYPE_DIR \<and> i_name i = take n p"
  using strncmp_l_name [OF assms(2,1,3)] cnth_nul [OF assms(2), of n]
  by (auto simp: dir_entry_matches_def)

lemma entry_matches_iff:
  assumes "CHR 0x00 \<notin> set nm" "CHR 0x00 \<notin> set (i_name i)"
  shows "entry_matches par nm i \<longleftrightarrow> i_ino i \<noteq> 0 \<and> i_parent_ino i = par \<and> i_name i = nm"
  using strcmp_l_eq_0 [OF assms(2,1)] by (auto simp: entry_matches_def)

lemma name_no_nul: "ramfs_inv s \<Longrightarrow> k < RAMFS_MAX_FILES \<Longrightarrow> CHR 0x00 \<notin> set (i_name (inodes s ! k))"
  using ramfs_invD(7) by (auto simp: inode_ok_def)

lemma last_slash_bound:
  "last_slash i p sl = Some k \<Longrightarrow> sl = Some k \<or> (i \<le> k \<and> k < i + length p)"
  by (induction i p sl rule: last_slash.induct) (auto split: if_splits)

lemma split_path_no_nul:
  assumes "CHR 0x00 \<notin> set p" "ramfs_split_path p sz = (d, nm)"
  shows "CHR 0x00 \<notin> set d" "CHR 0x00 \<notin> set nm"
  using assms by (auto simp: ramfs_split_path_def Let_def split: option.splits
      dest: in_set_takeD in_set_dropD)

text \<open>The last component of a path and the directory it is looked up in.\<close>

abbreviation path_name :: "string \<Rightarrow> string" where
  "path_name p \<equiv> snd (ramfs_split_path p RAMFS_MAX_FILENAME)"

abbreviation path_dir :: "string \<Rightarrow> string" where
  "path_dir p \<equiv> fst (ramfs_split_path p RAMFS_MAX_FILENAME)"

lemma path_name_no_nul: "CHR 0x00 \<notin> set p \<Longrightarrow> CHR 0x00 \<notin> set (path_name p)"
  using split_path_no_nul(2) [of p RAMFS_MAX_FILENAME "path_dir p" "path_name p"] by simp

definition root_path :: "string option \<Rightarrow> bool" where
  "root_path path \<longleftrightarrow> path = None \<or> path = Some '''' \<or> path = Some ''/''"

lemma find_inode_root [simp]: "root_path path \<Longrightarrow> ramfs_find_inode path s = Some 0"
  by (auto simp: root_path_def ramfs_find_inode_def ramfs_root_ino_def)

lemma find_inode_entry:
  assumes "\<not> root_path (Some p)"
  shows "ramfs_find_inode (Some p) s =
    (if ramfs_resolve_dir (path_dir p) s = -1 then None
     else find_idx (entry_matches (ramfs_resolve_dir (path_dir p) s) (path_name p)) (inodes s))"
proof -
  have "p \<noteq> []" "\<not> (p ! 0 = CHR ''/'' \<and> length p = 1)"
    using assms by (auto simp: root_path_def length_Suc_conv)
  then show ?thesis
    by (auto simp: ramfs_find_inode_def Let_def case_prod_beta)
qed

lemma find_inode_SomeD:
  assumes "ramfs_inv s" "ramfs_find_inode path s = Some k"
  shows "k < RAMFS_MAX_FILES" "k = 0 \<longleftrightarrow> root_path path"
    "\<not> root_path path \<Longrightarrow> i_ino (inodes s ! k) \<noteq> 0"
proof -
  note D = ramfs_invD [OF assms(1)]
  have nr: "k < RAMFS_MAX_FILES \<and> i_ino (inodes s ! k) \<noteq> 0" if "\<not> root_path path"
  proof -
    obtain p where p: "path = Some p" using \<open>\<not> root_path path\<close> by (cases path) (auto simp: root_path_def)
    show ?thesis
      using assms(2) that D(1) unfolding p find_inode_entry [OF that [unfolded p]]
      by (auto split: if_splits dest: find_idx_SomeD(1,2) simp: entry_matches_def)
  qed
  show "k < RAMFS_MAX_FILES"
    using nr assms(2) by (cases "root_path path") (auto simp: RAMFS_MAX_FILES_def)
  show "k = 0 \<longleftrightarrow> root_path path"
  proof (cases "root_path path")
    case False
    with nr D(5) show ?thesis by (cases k) auto
  qed (use assms(2) in simp)
  show "\<not> root_path path \<Longrightarrow> i_ino (inodes s ! k) \<noteq> 0" using nr by blast
qed

lemma find_inode_NoneD:
  assumes inv: "ramfs_inv s" and nf: "ramfs_find_inode (Some p) s = None"
    and nul: "CHR 0x00 \<notin> set p" and par: "ramfs_resolve_dir (path_dir p) s \<noteq> -1"
    and j: "j < RAMFS_MAX_FILES" "i_ino (inodes s ! j) \<noteq> 0"
  shows "\<not> (i_parent_ino (inodes s ! j) = ramfs_resolve_dir (path_dir p) s \<and>
            i_name (inodes s ! j) = path_name p)"
proof -
  have nr: "\<not> root_path (Some p)" using nf by auto
  have "\<not> entry_matches (ramfs_resolve_dir (path_dir p) s) (path_name p) (inodes s ! j)"
    using nf par j(1) ramfs_invD(1) [OF inv] unfolding find_inode_entry [OF nr]
    by (auto simp: find_from_None_iff)
  moreover have "CHR 0x00 \<notin> set (path_name p)"
    by (rule path_name_no_nul [OF nul])
  ultimately show ?thesis
    using entry_matches_iff name_no_nul [OF inv j(1)] j(2) by blast
qed

text \<open>Under the invariant a directory holds at most one entry of a name.\<close>

lemma find_entry_eq:
  assumes inv: "ramfs_inv s" and k: "k < RAMFS_MAX_FILES" "i_ino (inodes s ! k) \<noteq> 0"
    and nul: "CHR 0x00 \<notin> set nm"
    and e: "i_parent_ino (inodes s ! k) = par" "i_name (inodes s ! k) = nm"
  shows "find_idx (entry_matches par nm) (inodes s) = Some k"
proof (rule find_idx_unique)
  note D = ramfs_invD [OF inv]
  show "k < length (inodes s)" using D(1) k by simp
  show "entry_matches par nm (inodes s ! k)"
    using entry_matches_iff [OF nul name_no_nul [OF inv k(1)]] k e by simp
  fix j assume j: "j < length (inodes s)" "entry_matches par nm (inodes s ! j)"
  then have "i_ino (inodes s ! j) \<noteq> 0" "i_parent_ino (inodes s ! j) = par" "i_name (inodes s ! j) = nm"
    using entry_matches_iff [OF nul name_no_nul [OF inv]] D(1) by auto
  then show "j = k" using D(8) [of j k] j(1) k e D(1) by (auto simp: compatible_def)
qed

section \<open>Creating and removing nodes\<close>

lemma find_free_inodeD:
  assumes "ramfs_inv s" "ramfs_find_free_inode s = Some k"
  shows "k < RAMFS_MAX_FILES" "k \<noteq> 0" "i_ino (inodes s ! k) = 0"
proof -
  note D = ramfs_invD [OF assms(1)]
  have "1 \<le> k \<and> k - 1 < length (tl (inodes s)) \<and> i_ino (tl (inodes s) ! (k - 1)) = 0"
    using assms(2) unfolding ramfs_find_free_inode_def find_from_Some_iff by auto
  moreover from this have "tl (inodes s) ! (k - 1) = inodes s ! k"
    using D(1) by (cases "inodes s") (auto simp: RAMFS_MAX_FILES_def)
  ultimately show "k < RAMFS_MAX_FILES" "k \<noteq> 0" "i_ino (inodes s ! k) = 0"
    using D(1) by auto
qed

lemma find_free_fdD:
  "ramfs_inv s \<Longrightarrow> ramfs_find_free_fd s = Some n \<Longrightarrow> n < 32 \<and> fd_ino (fds s ! n) = 0"
  using find_idx_SomeD(1,2) ramfs_invD(2) by (fastforce simp: ramfs_find_free_fd_def)

text \<open>A free slot holds no block, so filling it or clearing it leaves the pool alone.\<close>

lemma free_slot_no_block:
  "ramfs_inv s \<Longrightarrow> k < RAMFS_MAX_FILES \<Longrightarrow> i_ino (inodes s ! k) = 0 \<Longrightarrow>
    i_data (inodes s ! k) = None \<and> i_capacity (inodes s ! k) = 0 \<and> i_size (inodes s ! k) = 0"
  using ramfs_invD(3,7) inode_okD(4,6) by (metis inode_ok_def)

lemma create_node_inv:
  assumes inv: "ramfs_inv s" and k: "k < RAMFS_MAX_FILES" "k \<noteq> 0" "i_ino (inodes s ! k) = 0"
    and nm: "CHR 0x00 \<notin> set nm" "length nm < RAMFS_MAX_FILENAME"
    and nxt: "unat (next_inode s) + 1 < 4294967296"
    and new: "\<And>j. j < RAMFS_MAX_FILES \<Longrightarrow> i_ino (inodes s ! j) \<noteq> 0 \<Longrightarrow>
        \<not> (i_parent_ino (inodes s ! j) = par \<and> i_name (inodes s ! j) = nm)"
    and c: "create_node k ty nm par s = Some s'"
  shows "ramfs_inv s'"
proof -
  note D = ramfs_invD [OF inv]
  note F = free_slot_no_block [OF inv k(1,3)]
  let ?i = "(inodes s ! k)\<lparr>i_ino := next_inode s, i_type := ty, i_name := nm, i_size := 0,
    i_parent_ino := par\<rparr>"
  have s': "s' = (upd_inode k ?i s)\<lparr>next_inode := next_inode s + 1\<rparr>"
    using c by (simp add: create_node_def split: if_splits)
  have n1: "unat (next_inode s + 1) = unat (next_inode s) + 1"
    using nxt by (subst unat_add_small) auto
  show ?thesis
  proof (rule ramfs_inv_upd_slot [OF inv k(1) _ _ _ _ k(2)])
    show "inodes s' = (inodes s)[k := ?i]" "fds s' = fds s" "unat (pool_used s') \<le> 786432"
      using D(3) by (simp_all add: s')
    show "next_inode s \<le> next_inode s'" by (simp add: s' word_le_nat_alt n1)
    show "inode_ok (pool_used s') (next_inode s') ?i"
      using F nm n1 by (simp add: inode_ok_def s' word_less_nat_alt)
    fix j assume j: "j < RAMFS_MAX_FILES" "j \<noteq> k"
    show "unat off + unat (i_capacity (inodes s ! j)) \<le> unat (pool_used s')"
      if "i_data (inodes s ! j) = Some off" for off
      using inode_okD(3) [OF D(7) [OF j(1)] D(3) that] by (simp add: s')
    show "compatible ?i (inodes s ! j)"
      using new [OF j(1)] F inode_okD(5) [OF D(7) [OF j(1)] D(3)]
      by (auto simp: compatible_def apart_def)
  qed
qed

lemma clear_slot_inv:
  assumes inv: "ramfs_inv s" and k: "k < RAMFS_MAX_FILES" "k \<noteq> 0"
    and u: "u = pool_used s \<or> newest_block (inodes s ! k) s \<and> u = pool_used s - i_capacity (inodes s ! k)"
  shows "ramfs_inv (upd_inode k zero_inode (s\<lparr>pool_used := u\<rparr>))" (is "ramfs_inv ?s'")
proof -
  note D = ramfs_invD [OF inv]
  note K = inode_okD [OF D(7) [OF k(1)] D(3)]
  have below: "unat off + unat (i_capacity (inodes s ! j)) \<le> unat u"
    if j: "j < RAMFS_MAX_FILES" "j \<noteq> k" "i_data (inodes s ! j) = Some off" for j off
  proof (cases "u = pool_used s")
    case True
    then show ?thesis using inode_okD(3) [OF D(7) [OF j(1)] D(3) j(3)] by simp
  next
    case False
    with u have newest: "newest_block (inodes s ! k) s" and ud: "u = pool_used s - i_capacity (inodes s ! k)"
      by auto
    obtain a where a: "i_data (inodes s ! k) = Some a"
      using newest by (auto simp: newest_block_def split: option.splits)
    have "u = a" using newest a ud by (simp add: newest_block_def eq_diff_eq [symmetric])
    then show ?thesis using apart_newest(1) [OF inv k(1) j(1,2) newest a j(3)] by simp
  qed
  have le: "unat u \<le> 786432"
  proof (cases "u = pool_used s")
    case False
    with u obtain a where "i_data (inodes s ! k) = Some a" "u = a"
      by (auto simp: newest_block_def eq_diff_eq [symmetric] split: option.splits)
    then show ?thesis using K(3) D(3) by fastforce
  qed (use D(3) in simp)
  show ?thesis
  proof (rule ramfs_inv_upd_slot [OF inv k(1) _ _ _ _ k(2)])
    show "inode_ok (pool_used ?s') (next_inode ?s') zero_inode"
      using D(4) by (simp add: inode_ok_def zero_inode_def RAMFS_MAX_FILENAME_def word_gt_0)
    show "compatible zero_inode (inodes s ! j)" for j
      by (simp add: compatible_def apart_def zero_inode_def)
  qed (use below le in simp_all)
qed

lemma resolve_dir_create_file:
  assumes "i_ino (inodes s ! k) = 0" "create_node k RAMFS_TYPE_FILE nm par s = Some s'"
  shows "ramfs_resolve_dir d s' = ramfs_resolve_dir d s"
proof (rule same_dirs_resolve)
  show "same_dirs s s'"
    using assms by (auto simp: create_node_def same_dirs_iff nth_upd dir_view_def split: if_splits)
qed

lemma create_node_slot:
  assumes "create_node k ty nm par s = Some s'" "k < length (inodes s)"
  shows "inodes s' ! k = (inodes s ! k)\<lparr>i_ino := next_inode s, i_type := ty, i_name := nm,
      i_size := 0, i_parent_ino := par\<rparr>" "fds s' = fds s" "pool s' = pool s"
    "next_inode s' = next_inode s + 1" "pool_used s' = pool_used s"
    "inodes s' = (inodes s)[k := inodes s' ! k]"
  using assms by (auto simp: create_node_def split: if_splits)

section \<open>Preservation by every operation\<close>

definition path_ok :: "string option \<Rightarrow> bool" where
  "path_ok path \<longleftrightarrow> (case path of None \<Rightarrow> True | Some p \<Rightarrow>
     CHR 0x00 \<notin> set p \<and> length (path_name p) < RAMFS_MAX_FILENAME)"

text \<open>The state after \<open>n\<close> more operations can still be reached without the inode counter
  running over.\<close>

definition ramfs_inv_n :: "nat \<Rightarrow> ramfs \<Rightarrow> bool" where
  "ramfs_inv_n n s \<longleftrightarrow> ramfs_inv s \<and> unat (next_inode s) + n < 4294967296"

lemma ramfs_inv_n_less: "ramfs_inv_n m s \<Longrightarrow> n \<le> m \<Longrightarrow> ramfs_inv_n n s"
  by (simp add: ramfs_inv_n_def)

lemma create_path_node_inv:
  assumes inv: "ramfs_inv_n (Suc n) s" and nf: "ramfs_find_inode (Some p) s = None"
    and ok: "path_ok (Some p)" and free: "ramfs_find_free_inode s = Some k"
    and par: "ramfs_resolve_dir (path_dir p) s \<noteq> -1"
  shows "\<exists>s'. create_node k ty (path_name p) (ramfs_resolve_dir (path_dir p) s) s = Some s' \<and>
    ramfs_inv_n n s'"
proof -
  have i: "ramfs_inv s" using inv by (simp add: ramfs_inv_n_def)
  have nul: "CHR 0x00 \<notin> set p" "length (path_name p) < RAMFS_MAX_FILENAME"
    using ok by (auto simp: path_ok_def)
  have nn: "CHR 0x00 \<notin> set (path_name p)" by (rule path_name_no_nul [OF nul(1)])
  note F = find_free_inodeD [OF i free]
  obtain s' where s': "create_node k ty (path_name p) (ramfs_resolve_dir (path_dir p) s) s = Some s'"
    using nul by (auto simp: create_node_def)
  have "ramfs_inv s'"
    using inv find_inode_NoneD [OF i nf nul(1) par]
    by (intro create_node_inv [OF i F nn nul(2) _ _ s']) (auto simp: ramfs_inv_n_def)
  moreover have "unat (next_inode s') + n < 4294967296"
  proof -
    have "unat (next_inode s + 1) = unat (next_inode s) + 1"
      using inv by (subst unat_add_small) (auto simp: ramfs_inv_n_def)
    then show ?thesis
      using inv create_node_slot(4) [OF s'] F(1) ramfs_invD(1) [OF i] by (simp add: ramfs_inv_n_def)
  qed
  ultimately show ?thesis using s' by (simp add: ramfs_inv_n_def)
qed

lemma ramfs_inv_n_upd_fd:
  "ramfs_inv_n n s \<Longrightarrow> fd_ok (next_inode s) f \<Longrightarrow> ramfs_inv_n n (upd_fd m f s)"
  by (simp add: ramfs_inv_n_def ramfs_inv_upd_fd)

lemma inode_ino_less: "ramfs_inv s \<Longrightarrow> k < RAMFS_MAX_FILES \<Longrightarrow> i_ino (inodes s ! k) < next_inode s"
  using ramfs_invD(7) by (auto simp: inode_ok_def)

lemma file_bytes_create:
  assumes inv: "ramfs_inv s" and k: "k < RAMFS_MAX_FILES" "i_ino (inodes s ! k) = 0"
    and c: "create_node k ty nm par s = Some s'" and j: "j < RAMFS_MAX_FILES"
  shows "file_bytes s' j = file_bytes s j"
  using free_slot_no_block [OF inv k] c j k ramfs_invD(1) [OF inv]
  by (auto simp: file_bytes_def create_node_def nth_upd split: if_splits option.splits)

lemma open_slot_spec:
  assumes inv: "ramfs_inv_n (Suc n) s" and ok: "path_ok path"
  shows "\<exists>r s1. open_slot path flags s = Some (r, s1) \<and> ramfs_inv_n n s1 \<and> fds s1 = fds s \<and>
    (\<forall>j < RAMFS_MAX_FILES. file_bytes s1 j = file_bytes s j) \<and> (r = None \<longrightarrow> s1 = s) \<and>
    (\<forall>k. r = Some k \<longrightarrow> k < RAMFS_MAX_FILES \<and> ramfs_find_inode path s1 = Some k \<and>
       (ramfs_find_inode path s = None \<longrightarrow>
          i_type (inodes s1 ! k) = RAMFS_TYPE_FILE \<and> i_ino (inodes s1 ! k) \<noteq> 0 \<and>
          file_bytes s1 k = []))"
proof -
  have i: "ramfs_inv s" and i0: "ramfs_inv_n n s" using inv by (auto simp: ramfs_inv_n_def)
  show ?thesis
  proof (cases "ramfs_find_inode path s")
    case (Some k)
    then show ?thesis using i0 find_inode_SomeD(1) [OF i Some] by (simp add: open_slot_def)
  next
    case None
    show ?thesis
    proof (cases "flags AND 1 \<noteq> 0 \<and> ramfs_find_free_inode s \<noteq> None \<and>
        (\<forall>p. path = Some p \<longrightarrow> ramfs_resolve_dir (path_dir p) s \<noteq> -1)")
      case False
      obtain p where "path = Some p" using None by (cases path) (auto simp: root_path_def)
      with False None i0 show ?thesis
        by (auto simp: open_slot_def Let_def case_prod_beta split: option.splits)
    next
      case True
      obtain p where p: "path = Some p" using None by (cases path) (auto simp: root_path_def)
      obtain k where k: "ramfs_find_free_inode s = Some k" using True by auto
      note F = find_free_inodeD [OF i k]
      have par: "ramfs_resolve_dir (path_dir p) s \<noteq> -1" using True p by simp
      let ?par = "ramfs_resolve_dir (path_dir p) s"
      obtain s' where s': "create_node k RAMFS_TYPE_FILE (path_name p) ?par s = Some s'" "ramfs_inv_n n s'"
        using create_path_node_inv [OF inv None [unfolded p] ok [unfolded p] k par] by blast
      have i': "ramfs_inv s'" using s'(2) by (simp add: ramfs_inv_n_def)
      note C = create_node_slot [OF s'(1)] F(1) [folded ramfs_invD(1) [OF i]]
      have kl: "k < length (inodes s)" using F(1) ramfs_invD(1) [OF i] by simp
      have nul: "CHR 0x00 \<notin> set (path_name p)"
        using ok p by (intro path_name_no_nul) (simp add: path_ok_def)
      have ino: "i_ino (inodes s' ! k) \<noteq> 0"
        using C(1) [OF kl] ramfs_invD(4) [OF i] by auto
      have nr: "\<not> root_path (Some p)" using None p by auto
      have "find_idx (entry_matches ?par (path_name p)) (inodes s') = Some k"
        using C(1) [OF kl] by (intro find_entry_eq [OF i' F(1) ino nul]) auto
      then have fi: "ramfs_find_inode path s' = Some k"
        unfolding p find_inode_entry [OF nr] resolve_dir_create_file [OF F(3) s'(1)] using par by simp
      have "file_bytes s' k = []"
        using C(1) [OF kl] free_slot_no_block [OF i F(1,3)] by (simp add: file_bytes_def)
      then show ?thesis
        using True p k None s' fi F(1) ino C(1,2) [OF kl] file_bytes_create [OF i F(1,3) s'(1)]
        by (auto simp: open_slot_def Let_def case_prod_beta)
    qed
  qed
qed

lemma ramfs_open_spec:
  assumes inv: "ramfs_inv_n (Suc n) s" and ok: "path_ok path"
  shows "\<exists>r s'. ramfs_open path flags s = Some (r, s') \<and> ramfs_inv_n n s' \<and>
    (\<forall>j < RAMFS_MAX_FILES. file_bytes s' j = file_bytes s j) \<and>
    (r = -1 \<and> fds s' = fds s \<or>
     (\<exists>k. open_on s' r k \<and> ramfs_find_inode path s' = Some k \<and> ramfs_find_inode path s \<noteq> Some 0 \<and>
       fd_ino (fds s ! nat r) = 0 \<and> (ramfs_find_inode path s = None \<longrightarrow> file_bytes s' k = []) \<and>
       fds s' = (fds s)[nat r := \<lparr>fd_ino = i_ino (inodes s' ! k), fd_offset = 0, fd_flags = CHALES_O_RDWR\<rparr>]))"
proof -
  have i: "ramfs_inv s" using inv by (simp add: ramfs_inv_n_def)
  obtain r s1 where s1: "open_slot path flags s = Some (r, s1)" "ramfs_inv_n n s1" "fds s1 = fds s"
    "\<forall>j < RAMFS_MAX_FILES. file_bytes s1 j = file_bytes s j"
    "\<And>k. r = Some k \<Longrightarrow> k < RAMFS_MAX_FILES \<and> ramfs_find_inode path s1 = Some k \<and>
       (ramfs_find_inode path s = None \<longrightarrow> file_bytes s1 k = [])"
    using open_slot_spec [OF inv ok, of flags] by blast
  have i1: "ramfs_inv s1" using s1(2) by (simp add: ramfs_inv_n_def)
  note D = ramfs_invD [OF i1]
  consider (fail) "r = None \<or> (\<exists>k. r = Some k \<and>
      (i_type (inodes s1 ! k) \<noteq> RAMFS_TYPE_FILE \<or> ramfs_find_free_fd s1 = None))"
    | (ok) k fd where "r = Some k" "i_type (inodes s1 ! k) = RAMFS_TYPE_FILE" "ramfs_find_free_fd s1 = Some fd"
    by (cases r; cases "ramfs_find_free_fd s1") auto
  then show ?thesis
  proof cases
    case fail
    then have "ramfs_open path flags s = Some (-1, s1)"
      using s1(1) by (auto simp: ramfs_open_def split: option.splits)
    with s1 show ?thesis by auto
  next
    case ok
    let ?s' = "upd_fd fd \<lparr>fd_ino = i_ino (inodes s1 ! k), fd_offset = 0, fd_flags = CHALES_O_RDWR\<rparr> s1"
    have k: "k < RAMFS_MAX_FILES" "ramfs_find_inode path s1 = Some k" using s1(5) ok by auto
    have fd: "fd < 32" "fd_ino (fds s1 ! fd) = 0" using find_free_fdD [OF i1 ok(3)] by auto
    have k0: "k \<noteq> 0" using ok(2) D(6) by (cases k) auto
    then have nr: "\<not> root_path path" using find_inode_SomeD(2) [OF i1 k(2)] by simp
    have ino: "i_ino (inodes s1 ! k) \<noteq> 0" by (rule find_inode_SomeD(3) [OF i1 k(2) nr])
    have "ramfs_inv_n n ?s'"
      using inode_ino_less [OF i1 k(1)] by (intro ramfs_inv_n_upd_fd [OF s1(2)]) (simp add: fd_ok_def)
    moreover have "slot_of_ino (i_ino (inodes s1 ! k)) s1 = Some k"
      unfolding slot_of_ino_def
    proof (rule find_idx_unique)
      show "k < length (inodes s1)" using k D(1) by simp
      fix j assume "j < length (inodes s1)" "i_ino (inodes s1 ! j) = i_ino (inodes s1 ! k)"
      with D(8) [of j k] D(1) k ino show "j = k" by (auto simp: compatible_def)
    qed simp
    then have "open_on ?s' (int fd) k"
      using fd ino ok(2) D(2) by (simp add: open_on_def slot_of_ino_def)
    moreover have "same_tree s1 ?s'" by (simp add: same_tree_def)
    then have "ramfs_find_inode path ?s' = Some k" using k(2) by (simp add: same_tree_find_inode)
    moreover have "ramfs_find_inode path s \<noteq> Some 0" using find_inode_SomeD(2) [OF i] nr by blast
    moreover have "ramfs_open path flags s = Some (int fd, ?s')"
      using s1(1) ok by (simp add: ramfs_open_def)
    ultimately show ?thesis
      using s1(3,4,5) ok(1) fd by (intro exI [of _ "int fd"] exI [of _ ?s']) auto
  qed
qed

section \<open>Descriptors: close, read, seek\<close>

lemma ramfs_close_inv: "ramfs_inv_n n s \<Longrightarrow> ramfs_inv_n n (snd (ramfs_close fd s))"
  using ramfs_invD(4) by (auto simp: ramfs_close_def ramfs_inv_n_def intro!: ramfs_inv_upd_fd fd_ok_zero)

lemma ramfs_close_same [simp]:
  "inodes (snd (ramfs_close fd s)) = inodes s" "pool (snd (ramfs_close fd s)) = pool s"
  "next_inode (snd (ramfs_close fd s)) = next_inode s"
  by (simp_all add: ramfs_close_def)

lemma ramfs_read_eq:
  assumes inv: "ramfs_inv s" and o: "open_on s fd k"
    and rd: "fd_flags (fds s ! nat fd) AND CHALES_O_ACCMODE \<noteq> CHALES_O_WRONLY"
    and bs: "bs = take (unat count) (drop (unat (fd_offset (fds s ! nat fd))) (file_bytes s k))"
  shows "ramfs_read fd False count s =
    Some (int (length bs), bs,
      upd_fd (nat fd) ((fds s ! nat fd)\<lparr>fd_offset :=
        fd_offset (fds s ! nat fd) + of_nat (length bs)\<rparr>) s)"
proof -
  let ?f = "fds s ! nat fd" and ?i = "inodes s ! k"
  let ?o = "fd_offset ?f"
  note D = ramfs_invD [OF inv] and O = open_onD [OF inv o]
  note K = inode_okD [OF D(7) [OF O(1)] D(3)]
  have len: "length (file_bytes s k) = unat (i_size ?i)" by (rule length_file_bytes [OF inv O(1)])
  have facts: "\<not> fd < 0" "\<not> 32 \<le> fd" "fd_ino ?f \<noteq> 0"
    "slot_of_ino (fd_ino ?f) s = Some k" "i_type ?i = RAMFS_TYPE_FILE"
    "fd_flags ?f AND CHALES_O_ACCMODE \<noteq> CHALES_O_WRONLY"
    using o rd by (auto simp: open_on_def)
  show ?thesis
  proof (cases "?o \<ge> i_size ?i")
    case True
    then have "bs = []" using bs len by (simp add: word_le_nat_alt)
    then show ?thesis
      using True by (simp add: ramfs_read_def Let_def facts)
  next
    case False
    define av where "av = i_size ?i - ?o"
    have uav: "unat av = unat (i_size ?i) - unat ?o"
      unfolding av_def using False by (intro unat_sub_le) (simp add: word_le_nat_alt)
    define tr where "tr = (if count < av then count else av)"
    have utr: "unat tr = min (unat count) (unat (i_size ?i) - unat ?o)"
      using uav by (auto simp: tr_def word_less_nat_alt)
    have lbs: "length bs = unat tr" using bs len utr by simp
    have "sint tr = int (unat tr)" using utr K(1,2) by (intro sint_small) simp
    have "i_capacity ?i \<noteq> 0" using K(6) False by auto
    then obtain a where a: "i_data ?i = Some a" using K(4) by auto
    have uo: "unat (a + ?o) = unat a + unat ?o"
      using K(1,2) K(3) [OF a] D(3) False by (intro unat_add_small) (simp add: word_le_nat_alt)
    have "unat tr \<le> unat (i_size ?i) - unat ?o" "unat ?o < unat (i_size ?i)"
      using utr False by (simp_all add: word_le_nat_alt)
    then have ok: "pool_ok (a + ?o) (unat tr)"
      using uo K(1) K(3) [OF a] D(3) by (simp add: pool_ok_def RAMFS_POOL_SIZE_def)
    have rb: "read_bytes (pool s) (a + ?o) (unat tr) = bs"
      using a len utr lbs \<open>unat ?o < unat (i_size ?i)\<close>
      by (intro nth_equalityI) (auto simp: bs file_bytes_def add.assoc less_diff_conv add.commute [of _ "unat ?o"])
    have body: "ramfs_read fd False count s =
        (if tr > 0 then Some (sint tr, read_bytes (pool s) (a + ?o) (unat tr),
            upd_fd (nat fd) (?f\<lparr>fd_offset := ?o + tr\<rparr>) s)
         else Some (sint tr, [], s))"
    proof -
      have "(fd < 0 \<or> fd \<ge> 32 \<or> False) = False" "(fd_ino ?f = 0) = False"
        "(i_type ?i \<noteq> RAMFS_TYPE_FILE) = False" "(?o \<ge> i_size ?i) = False"
        "(fd_flags ?f AND CHALES_O_ACCMODE = CHALES_O_WRONLY) = False"
        using facts False by auto
      note f = this
      show ?thesis
        using ok by (simp only: ramfs_read_def Let_def facts(4) f a option.case if_False tr_def av_def)
          simp
    qed
    show ?thesis
    proof (cases "tr > 0")
      case True
      then show ?thesis
        using body rb lbs \<open>sint tr = int (unat tr)\<close> by simp
    next
      case False
      then have "tr = 0" by (simp add: word_gt_0)
      then show ?thesis using body lbs by simp
    qed
  qed
qed

lemma ramfs_read_inv:
  assumes inv: "ramfs_inv_n n s"
  shows "\<exists>r bs s'. ramfs_read fd nul count s = Some (r, bs, s') \<and> ramfs_inv_n n s'"
proof -
  have i: "ramfs_inv s" using inv by (simp add: ramfs_inv_n_def)
  show ?thesis
  proof (cases "\<not> nul \<and> (\<exists>k. open_on s fd k) \<and>
      fd_flags (fds s ! nat fd) AND CHALES_O_ACCMODE \<noteq> CHALES_O_WRONLY")
    case False
    then show ?thesis
      using inv by (auto simp: ramfs_read_def open_on_def Let_def split: option.splits)
  next
    case True
    then obtain k where k: "open_on s fd k" and nul: "nul = False" by auto
    define bs where "bs = take (unat count) (drop (unat (fd_offset (fds s ! nat fd))) (file_bytes s k))"
    note O = open_onD [OF i k] and D = ramfs_invD [OF i]
    note K = inode_okD [OF D(7) [OF O(1)] D(3)]
    let ?o = "fd_offset (fds s ! nat fd)"
    have "fd_ok (next_inode s) ((fds s ! nat fd)\<lparr>fd_offset := ?o + of_nat (length bs)\<rparr>)"
    proof (cases "bs = []")
      case False
      have len: "length bs \<le> unat (i_size (inodes s ! k)) - unat ?o" "unat ?o \<le> unat (i_size (inodes s ! k))"
        using False length_file_bytes [OF i O(1)] by (auto simp: bs_def)
      then have "unat (?o + of_nat (length bs)) = unat ?o + length bs"
        using K(1,2) by (intro unat_add_num) simp
      then show ?thesis using len K(1,2) D(9) [OF O(6)]
        by (simp add: fd_ok_def word_le_nat_alt RAMFS_MAX_FILESIZE_def)
    qed (use D(9) [OF O(6)] in \<open>simp add: fd_ok_def\<close>)
    then show ?thesis
      using ramfs_read_eq [OF i k _ bs_def] True nul ramfs_inv_n_upd_fd [OF inv] by auto
  qed
qed

lemma ramfs_lseek_inv: "ramfs_inv_n n s \<Longrightarrow> ramfs_inv_n n (snd (ramfs_lseek fd off wh s))"
proof -
  assume inv: "ramfs_inv_n n s"
  then have i: "ramfs_inv s" by (simp add: ramfs_inv_n_def)
  have "fd_ok (next_inode s) ((fds s ! nat fd)\<lparr>fd_offset := word_of_int pos\<rparr>)"
    if "0 \<le> fd" "fd < 32" "0 \<le> pos" "pos \<le> 262144" for pos
  proof -
    have "uint (word_of_int pos :: u32) = pos" using that by (simp add: uint_word_of_int)
    then have "word_of_int pos \<le> RAMFS_MAX_FILESIZE"
      using that by (simp add: word_le_def RAMFS_MAX_FILESIZE_def)
    then show ?thesis using ramfs_invD(9) [OF i, of "nat fd"] that by (simp add: fd_ok_def)
  qed
  then have "ramfs_inv_n n (upd_fd (nat fd) ((fds s ! nat fd)\<lparr>fd_offset := word_of_int pos\<rparr>) s)"
    if "0 \<le> fd" "fd < 32" "0 \<le> pos" "pos \<le> uint RAMFS_MAX_FILESIZE" for pos
    using that by (intro ramfs_inv_n_upd_fd [OF inv]) (simp add: RAMFS_MAX_FILESIZE_def)
  then show ?thesis
    using inv unfolding ramfs_lseek_def Let_def
    by (simp del: of_int_add split: option.splits)
qed

section \<open>Directory operations\<close>

lemma ramfs_mkdir_inv:
  assumes inv: "ramfs_inv_n (Suc n) s" and ok: "path_ok path"
  shows "\<exists>r s'. ramfs_mkdir path s = Some (r, s') \<and> ramfs_inv_n n s'"
proof -
  have i0: "ramfs_inv_n n s" using inv by (simp add: ramfs_inv_n_def)
  show ?thesis
  proof (cases "\<exists>p k. path = Some p \<and> p \<noteq> [] \<and> ramfs_find_inode path s = None \<and>
      ramfs_find_free_inode s = Some k \<and> ramfs_resolve_dir (path_dir p) s \<noteq> -1")
    case False
    with i0 show ?thesis
      by (auto simp: ramfs_mkdir_def Let_def case_prod_beta split: option.splits)
  next
    case True
    then obtain p k where p: "path = Some p" "p \<noteq> []" "ramfs_find_inode (Some p) s = None"
      "ramfs_find_free_inode s = Some k" "ramfs_resolve_dir (path_dir p) s \<noteq> -1" by auto
    obtain s' where "create_node k RAMFS_TYPE_DIR (path_name p) (ramfs_resolve_dir (path_dir p) s) s = Some s'"
      "ramfs_inv_n n s'"
      using create_path_node_inv [OF inv p(3) ok [unfolded p(1)] p(4,5)] by blast
    then show ?thesis using p by (auto simp: ramfs_mkdir_def Let_def case_prod_beta)
  qed
qed

lemma ramfs_rmdir_inv:
  assumes inv: "ramfs_inv_n n s" and nr: "\<not> root_path path"
  shows "ramfs_inv_n n (snd (ramfs_rmdir path s))"
proof (cases "ramfs_find_inode path s")
  case (Some k)
  have i: "ramfs_inv s" using inv by (simp add: ramfs_inv_n_def)
  have "ramfs_inv (upd_inode k zero_inode (s\<lparr>pool_used := pool_used s\<rparr>))"
    using find_inode_SomeD [OF i Some] nr by (intro clear_slot_inv [OF i]) auto
  then show ?thesis using inv Some by (simp add: ramfs_rmdir_def ramfs_inv_n_def)
qed (use inv in \<open>simp add: ramfs_rmdir_def\<close>)

lemma ramfs_unlink_inv:
  assumes inv: "ramfs_inv_n n s"
  shows "ramfs_inv_n n (snd (ramfs_unlink path s))"
proof (cases "ramfs_find_inode path s")
  case (Some k)
  have i: "ramfs_inv s" using inv by (simp add: ramfs_inv_n_def)
  note D = ramfs_invD [OF i]
  show ?thesis
  proof (cases "i_type (inodes s ! k) = RAMFS_TYPE_FILE")
    case True
    have k: "k < RAMFS_MAX_FILES" by (rule find_inode_SomeD(1) [OF i Some])
    have k0: "k \<noteq> 0" using True D(6) by (cases k) auto
    note k = k k0
    have "ramfs_inv (upd_inode k zero_inode (ramfs_release k s))"
      using clear_slot_inv [OF i k, of "pool_used s"]
        clear_slot_inv [OF i k, of "pool_used s - i_capacity (inodes s ! k)"]
      by (auto simp: ramfs_release_def Let_def)
    then show ?thesis using inv Some True
      by (simp add: ramfs_unlink_def ramfs_inv_n_def ramfs_release_def Let_def)
  qed (use inv Some in \<open>simp add: ramfs_unlink_def\<close>)
qed (use inv in \<open>simp add: ramfs_unlink_def\<close>)

section \<open>Opening with flags\<close>

lemma find_inode_upd_fd [simp]: "ramfs_find_inode path (s\<lparr>fds := f\<rparr>) = ramfs_find_inode path s"
  by (rule same_tree_find_inode) (simp add: same_tree_def)

lemma truncate_inv:
  assumes inv: "ramfs_inv s" and k: "k < RAMFS_MAX_FILES" "k \<noteq> 0"
  shows "ramfs_inv (upd_inode k ((inodes s ! k)\<lparr>i_size := 0\<rparr>) s)"
proof (rule ramfs_inv_upd_slot [OF inv k(1) _ _ _ _ k(2)])
  note D = ramfs_invD [OF inv]
  show "unat (pool_used (upd_inode k ((inodes s ! k)\<lparr>i_size := 0\<rparr>) s)) \<le> 786432" using D(3) by simp
  show "inode_ok (pool_used (upd_inode k ((inodes s ! k)\<lparr>i_size := 0\<rparr>) s))
      (next_inode (upd_inode k ((inodes s ! k)\<lparr>i_size := 0\<rparr>) s)) ((inodes s ! k)\<lparr>i_size := 0\<rparr>)"
    using D(7) [OF k(1)] by (auto simp: inode_ok_def)
  fix j assume j: "j < RAMFS_MAX_FILES" "j \<noteq> k"
  show "unat off + unat (i_capacity (inodes s ! j))
      \<le> unat (pool_used (upd_inode k ((inodes s ! k)\<lparr>i_size := 0\<rparr>) s))"
    if "i_data (inodes s ! j) = Some off" for off
    using inode_okD(3) [OF D(7) [OF j(1)] D(3) that] by simp
  show "compatible ((inodes s ! k)\<lparr>i_size := 0\<rparr>) (inodes s ! j)"
    using D(8) [OF k(1) j(1) j(2) [symmetric]]
    by (auto simp: compatible_def apart_def split: option.splits)
qed simp_all

lemma open2_slot_spec:
  assumes inv: "ramfs_inv_n (Suc n) s" and ok: "path_ok path"
  shows "\<exists>r s1. open2_slot path oflags s = Some (r, s1) \<and> ramfs_inv_n n s1 \<and>
    (\<forall>e. r = Inl e \<longrightarrow> e < 0) \<and>
    (\<forall>j < RAMFS_MAX_FILES. file_bytes s1 j = file_bytes s j) \<and>
    (\<forall>k. r = Inr k \<longrightarrow> ramfs_find_inode path s1 = Some k \<and>
       (\<forall>m. fd_ino (fds s ! m) \<noteq> 0 \<longrightarrow> fds s1 ! m = fds s ! m) \<and>
       (ramfs_find_inode path s = None \<longrightarrow> file_bytes s1 k = []))"
proof (cases "ramfs_find_inode path s")
  case (Some k)
  moreover have "ramfs_inv_n n s" using inv by (simp add: ramfs_inv_n_def)
  ultimately show ?thesis by (auto simp: open2_slot_def)
next
  case None
  show ?thesis
  proof (cases "oflags AND CHALES_O_CREAT = 0")
    case True
    with None inv show ?thesis by (simp add: open2_slot_def ramfs_inv_n_def)
  next
    case False
    obtain r s1 where o: "ramfs_open path 1 s = Some (r, s1)" "ramfs_inv_n n s1"
      "\<forall>j < RAMFS_MAX_FILES. file_bytes s1 j = file_bytes s j" and
      c: "r = -1 \<and> fds s1 = fds s \<or> (\<exists>k. open_on s1 r k \<and> ramfs_find_inode path s1 = Some k \<and>
         fd_ino (fds s ! nat r) = 0 \<and> file_bytes s1 k = [] \<and>
         fds s1 = (fds s)[nat r := \<lparr>fd_ino = i_ino (inodes s1 ! k), fd_offset = 0, fd_flags = CHALES_O_RDWR\<rparr>])"
      using ramfs_open_spec [OF inv ok, of 1] None by fastforce
    have fb: "file_bytes (snd (ramfs_close r s1)) j = file_bytes s1 j" for j
      by (simp add: file_bytes_def split: option.split)
    show ?thesis
    proof (cases "r = -1")
      case True
      with o None False show ?thesis by (simp add: open2_slot_def)
    next
      case r: False
      define s2 where "s2 = snd (ramfs_close r s1)"
      from c r obtain k where k: "open_on s1 r k" "ramfs_find_inode path s1 = Some k"
        "fd_ino (fds s ! nat r) = 0" "file_bytes s1 k = []"
        "fds s1 = (fds s)[nat r := \<lparr>fd_ino = i_ino (inodes s1 ! k), fd_offset = 0, fd_flags = CHALES_O_RDWR\<rparr>]"
        by auto
      have "\<not> r < 0" using k(1) by (simp add: open_on_def)
      have "same_tree s1 s2" by (simp add: s2_def same_tree_def)
      then have "ramfs_find_inode path s2 = Some k" using k(2) by (simp add: same_tree_find_inode)
      moreover have "ramfs_inv_n n s2" unfolding s2_def by (rule ramfs_close_inv [OF o(2)])
      moreover have "fds s2 ! m = fds s ! m" if "fd_ino (fds s ! m) \<noteq> 0" for m
        using that k(3,5) by (cases "m = nat r") (auto simp: s2_def ramfs_close_def)
      ultimately show ?thesis
        using o None False fb k(4) \<open>\<not> r < 0\<close> by (simp add: open2_slot_def Let_def s2_def)
    qed
  qed
qed

lemma slot_of_live_ino:
  assumes inv: "ramfs_inv s" and k: "k < RAMFS_MAX_FILES" "i_ino (inodes s ! k) \<noteq> 0"
  shows "slot_of_ino (i_ino (inodes s ! k)) s = Some k"
  unfolding slot_of_ino_def
proof (rule find_idx_unique)
  note D = ramfs_invD [OF inv]
  show "k < length (inodes s)" using k D(1) by simp
  fix j assume "j < length (inodes s)" "i_ino (inodes s ! j) = i_ino (inodes s ! k)"
  with D(8) [of j k] D(1) k show "j = k" by (auto simp: compatible_def)
qed simp

text \<open>The state a successful \<open>ramfs_open2\<close> leaves: a free descriptor now points at the file, at
  offset 0 with the access mode and the append flag of the caller; the file is emptied exactly
  when truncation was asked for and the mode allows writing.\<close>

definition truncates :: "u32 \<Rightarrow> bool" where
  "truncates oflags \<longleftrightarrow> oflags AND CHALES_O_TRUNC \<noteq> 0 \<and>
     oflags AND CHALES_O_ACCMODE \<noteq> CHALES_O_RDONLY"

definition opened :: "string option \<Rightarrow> u32 \<Rightarrow> ramfs \<Rightarrow> int \<Rightarrow> nat \<Rightarrow> ramfs \<Rightarrow> bool" where
  "opened path oflags s fd k s' \<longleftrightarrow>
     open_on s' fd k \<and> fd_ino (fds s ! nat fd) = 0 \<and> ramfs_find_inode path s' = Some k \<and>
     fd_offset (fds s' ! nat fd) = 0 \<and>
     fd_flags (fds s' ! nat fd) = oflags AND (CHALES_O_ACCMODE OR CHALES_O_APPEND) \<and>
     file_bytes s' k = (if truncates oflags \<or> ramfs_find_inode path s = None then [] else file_bytes s k) \<and>
     (\<forall>j < RAMFS_MAX_FILES. j \<noteq> k \<longrightarrow> file_bytes s' j = file_bytes s j) \<and>
     (\<forall>m < 32. m \<noteq> nat fd \<longrightarrow> fd_ino (fds s ! m) \<noteq> 0 \<longrightarrow> fds s' ! m = fds s ! m)"

lemma open2_finish:
  assumes inv: "ramfs_inv_n n s" and k: "ramfs_find_inode path s = Some k"
    and ty: "i_type (inodes s ! k) = RAMFS_TYPE_FILE" and fd: "ramfs_find_free_fd s = Some fd"
    and t: "t = (if truncates oflags then upd_inode k ((inodes s ! k)\<lparr>i_size := 0\<rparr>) s else s)"
    and s': "s' = upd_fd fd \<lparr>fd_ino = i_ino (inodes t ! k), fd_offset = 0,
                fd_flags = oflags AND (CHALES_O_ACCMODE OR CHALES_O_APPEND)\<rparr> t"
  shows "ramfs_inv_n n s' \<and> opened path oflags s (int fd) k s'"
proof -
  have i: "ramfs_inv s" using inv by (simp add: ramfs_inv_n_def)
  note D = ramfs_invD [OF i]
  have kb: "k < RAMFS_MAX_FILES" by (rule find_inode_SomeD(1) [OF i k])
  have k0: "k \<noteq> 0" using ty D(6) by (cases k) auto
  then have "\<not> root_path path" using find_inode_SomeD(2) [OF i k] by simp
  then have ino: "i_ino (inodes s ! k) \<noteq> 0" by (rule find_inode_SomeD(3) [OF i k])
  have kl: "k < length (inodes s)" using kb D(1) by simp
  note F = find_free_fdD [OF i fd]
  have tt: "same_tree s t"
    unfolding t by (simp add: same_tree_upd [where k = k and i = "(inodes s ! k)\<lparr>i_size := 0\<rparr>"])
  have it: "ramfs_inv_n n t"
    using inv truncate_inv [OF i kb k0] by (simp add: t ramfs_inv_n_def)
  then have it': "ramfs_inv t" by (simp add: ramfs_inv_n_def)
  have ft: "fds t = fds s" by (simp add: t)
  have tk: "i_ino (inodes t ! k) = i_ino (inodes s ! k)" "i_type (inodes t ! k) = RAMFS_TYPE_FILE"
    using tt kl ty by (auto simp: same_tree_def)
  have "ramfs_inv_n n s'"
    unfolding s' using inode_ino_less [OF it' kb]
    by (intro ramfs_inv_n_upd_fd [OF it]) (simp add: fd_ok_def)
  moreover have "open_on s' (int fd) k"
    using slot_of_live_ino [OF it' kb] ino tk F D(2) ft
    by (simp add: s' open_on_def slot_of_ino_def)
  moreover have "ramfs_find_inode path s' = Some k"
    using k same_tree_find_inode [OF tt] by (simp add: s')
  moreover have "file_bytes s' k = (if truncates oflags then [] else file_bytes s k)"
    using kl by (auto simp: s' t file_bytes_def read_bytes_def split: option.split)
  moreover have "file_bytes s' j = file_bytes s j" if "j \<noteq> k" for j
    using that by (auto simp: s' t file_bytes_def split: option.split)
  ultimately show ?thesis
    using k F D(2) ft by (auto simp: opened_def s')
qed

lemma ramfs_open2_spec:
  assumes inv: "ramfs_inv_n (Suc n) s" and ok: "path_ok path"
  shows "\<exists>r s'. ramfs_open2 path oflags s = Some (r, s') \<and> ramfs_inv_n n s' \<and>
    (r < 0 \<and> (\<forall>j < RAMFS_MAX_FILES. file_bytes s' j = file_bytes s j) \<or>
     (\<exists>k. opened path oflags s r k s'))"
proof (cases "path = None")
  case True
  with inv show ?thesis by (simp add: ramfs_open2_def ramfs_inv_n_def)
next
  case pn: False
  obtain r s1 where s1: "open2_slot path oflags s = Some (r, s1)" "ramfs_inv_n n s1"
    "\<And>e. r = Inl e \<Longrightarrow> e < 0" "\<forall>j < RAMFS_MAX_FILES. file_bytes s1 j = file_bytes s j"
    and K: "\<And>k. r = Inr k \<Longrightarrow> ramfs_find_inode path s1 = Some k \<and>
       (\<forall>m. fd_ino (fds s ! m) \<noteq> 0 \<longrightarrow> fds s1 ! m = fds s ! m) \<and>
       (ramfs_find_inode path s = None \<longrightarrow> file_bytes s1 k = [])"
    using open2_slot_spec [OF inv ok, of oflags] by blast
  have i1: "ramfs_inv s1" using s1(2) by (simp add: ramfs_inv_n_def)
  show ?thesis
  proof (cases "\<exists>k fd. r = Inr k \<and> i_type (inodes s1 ! k) = RAMFS_TYPE_FILE \<and> ramfs_find_free_fd s1 = Some fd")
    case False
    have "\<exists>e. e < 0 \<and> ramfs_open2 path oflags s = Some (e, s1)"
    proof (cases r)
      case (Inl e)
      then show ?thesis using s1(1,3) pn by (auto simp: ramfs_open2_def)
    next
      case (Inr k)
      then show ?thesis
        using False s1(1) pn
        by (cases "i_type (inodes s1 ! k)"; cases path) (auto simp: ramfs_open2_def split: option.split)
    qed
    with s1 show ?thesis by auto
  next
    case True
    then obtain k fd where k: "r = Inr k" "i_type (inodes s1 ! k) = RAMFS_TYPE_FILE"
      "ramfs_find_free_fd s1 = Some fd" by blast
    define t where "t = (if truncates oflags then upd_inode k ((inodes s1 ! k)\<lparr>i_size := 0\<rparr>) s1 else s1)"
    define s' where "s' = upd_fd fd \<lparr>fd_ino = i_ino (inodes t ! k), fd_offset = 0,
                fd_flags = oflags AND (CHALES_O_ACCMODE OR CHALES_O_APPEND)\<rparr> t"
    have kf: "ramfs_find_inode path s1 = Some k" using K k by blast
    have "ramfs_open2 path oflags s = Some (int fd, s')"
      using s1(1) k pn by (simp add: ramfs_open2_def s'_def t_def truncates_def Let_def)
    moreover have o: "ramfs_inv_n n s' \<and> opened path oflags s1 (int fd) k s'"
      by (rule open2_finish [OF s1(2) kf k(2,3) t_def s'_def])
    moreover have "fd_ino (fds s ! fd) = 0"
      using K [OF k(1)] find_free_fdD [OF i1 k(3)] by (metis)
    then have "opened path oflags s (int fd) k s'"
      using o K [OF k(1)] kf s1(4) find_inode_SomeD(1) [OF i1 kf] by (auto simp: opened_def)
    ultimately show ?thesis by blast
  qed
qed

section \<open>Lookups across creations and removals\<close>

text \<open>One slot more in use: every directory that could be resolved still resolves to the same
  inode. Read from right to left this is what a removal does.\<close>

lemma more_dirs_find:
  assumes inv: "ramfs_inv s'" and s: "inodes s = (inodes s')[k := i]" "i_ino i = 0"
    and p: "CHR 0x00 \<notin> set p" "n \<le> length p"
    and f: "find_idx (dir_entry_matches c p n) (inodes s) = Some f"
  shows "find_idx (dir_entry_matches c p n) (inodes s') = Some f \<and> inodes s' ! f = inodes s ! f"
proof -
  note D = ramfs_invD [OF inv]
  have fl: "f < length (inodes s)" and fm: "dir_entry_matches c p n (inodes s ! f)"
    using find_idx_SomeD(1,2) [OF f] by auto
  have fk: "f \<noteq> k" using fl fm s by (auto simp: dir_entry_matches_def)
  then have same: "inodes s ! f = inodes s' ! f" using s(1) by simp
  have len: "length (inodes s) = RAMFS_MAX_FILES" using s(1) D(1) by simp
  note iff = dir_entry_matches_iff [OF p(1) name_no_nul [OF inv] p(2)]
  have "find_idx (dir_entry_matches c p n) (inodes s') = Some f"
  proof (rule find_idx_unique)
    show "f < length (inodes s')" using fl s(1) by simp
    show "dir_entry_matches c p n (inodes s' ! f)" using fm same by simp
    fix j assume j: "j < length (inodes s')" "dir_entry_matches c p n (inodes s' ! j)"
    have jl: "j < RAMFS_MAX_FILES" using j(1) D(1) by simp
    have fl': "f < RAMFS_MAX_FILES" using fl len by simp
    show "j = f"
      using D(8) [OF jl fl'] iff [OF jl] iff [OF fl'] j(2) fm same by (auto simp: compatible_def)
  qed
  with same show ?thesis by simp
qed

lemma no_nul_skip_slash: "CHR 0x00 \<notin> set p \<Longrightarrow> CHR 0x00 \<notin> set (skip_slash p)"
  by (auto simp: skip_slash_def split: list.splits)

lemma more_dirs_resolve_loop:
  assumes "ramfs_inv s'" "inodes s = (inodes s')[k := i]" "i_ino i = 0"
  shows "CHR 0x00 \<notin> set p \<Longrightarrow> resolve_loop s p c \<noteq> -1 \<Longrightarrow> resolve_loop s' p c = resolve_loop s p c"
  using assms
proof (induction s p c rule: resolve_loop.induct)
  case (1 s p c)
  note IH = "1.IH" [OF _ refl refl]
  show ?case
  proof (cases "p = []")
    case pn: False
    let ?n = "length (takeWhile not_slash p)"
    show ?thesis
    proof (cases "?n = 0")
      case True
      have "resolve_loop s (tl p) c \<noteq> -1"
        using "1.prems"(2) pn True by (subst (asm) resolve_loop.simps) simp
      moreover have "CHR 0x00 \<notin> set (tl p)" using "1.prems"(1) pn by (cases p) auto
      ultimately have "resolve_loop s' (tl p) c = resolve_loop s (tl p) c"
        using IH(1) [OF pn True] "1.prems"(3-) by simp
      then show ?thesis using pn True by (subst (1 2) resolve_loop.simps) simp
    next
      case False
      obtain f where f: "find_idx (dir_entry_matches c p ?n) (inodes s) = Some f"
        using "1.prems"(2) pn False by (subst (asm) resolve_loop.simps) (auto simp: Let_def split: option.splits)
      let ?r = "skip_slash (dropWhile not_slash p)"
      have nul: "CHR 0x00 \<notin> set ?r"
        using "1.prems"(1) no_nul_skip_slash set_dropWhileD by metis
      have m: "find_idx (dir_entry_matches c p ?n) (inodes s') = Some f" "inodes s' ! f = inodes s ! f"
        using more_dirs_find [OF "1.prems"(3-5,1) length_takeWhile_le f] by auto
      have "resolve_loop s ?r (i_ino (inodes s ! f)) \<noteq> -1"
        using "1.prems"(2) pn False f by (subst (asm) resolve_loop.simps) (simp add: Let_def)
      then have "resolve_loop s' ?r (i_ino (inodes s ! f)) = resolve_loop s ?r (i_ino (inodes s ! f))"
        using IH(2) [OF pn False f nul] "1.prems"(3-) by simp
      then show ?thesis
        using pn False f m by (subst (1 2) resolve_loop.simps) (simp add: Let_def)
    qed
  qed (simp add: resolve_loop.simps)
qed

lemma more_dirs_resolve:
  assumes "ramfs_inv s'" "inodes s = (inodes s')[k := i]" "i_ino i = 0" "CHR 0x00 \<notin> set p"
    "ramfs_resolve_dir p s \<noteq> -1"
  shows "ramfs_resolve_dir p s' = ramfs_resolve_dir p s"
proof -
  have "CHR 0x00 \<notin> set (skip_slash p)"
    using assms(4) by (rule no_nul_skip_slash)
  with assms(5) show ?thesis
    using more_dirs_resolve_loop [OF assms(1-3)] by (auto simp: ramfs_resolve_dir_def split: if_splits)
qed

lemma removed_not_found:
  assumes inv: "ramfs_inv s" and f: "ramfs_find_inode (Some p) s = Some k" and nr: "\<not> root_path (Some p)"
    and nul: "CHR 0x00 \<notin> set p" and s': "inodes s' = (inodes s)[k := zero_inode]"
  shows "ramfs_find_inode (Some p) s' = None"
proof (cases "ramfs_resolve_dir (path_dir p) s' = -1")
  case True
  then show ?thesis by (simp add: find_inode_entry [OF nr])
next
  case False
  let ?par = "ramfs_resolve_dir (path_dir p) s'"
  have d: "CHR 0x00 \<notin> set (path_dir p)" "CHR 0x00 \<notin> set (path_name p)"
    using split_path_no_nul [OF nul, of RAMFS_MAX_FILENAME "path_dir p" "path_name p"] by auto
  have r: "ramfs_resolve_dir (path_dir p) s = ?par"
    using more_dirs_resolve [OF inv s' _ d(1) False] by (simp add: zero_inode_def)
  then have fk: "find_idx (entry_matches ?par (path_name p)) (inodes s) = Some k"
    using f False unfolding find_inode_entry [OF nr] by simp
  note D = ramfs_invD [OF inv]
  have "\<not> entry_matches ?par (path_name p) (inodes s' ! j)" if j: "j < RAMFS_MAX_FILES" for j
  proof (cases "j = k")
    case True
    then show ?thesis using D(1) j s' by (simp add: entry_matches_def zero_inode_def)
  next
    case False
    have kk: "k < RAMFS_MAX_FILES" "entry_matches ?par (path_name p) (inodes s ! k)"
      using find_idx_SomeD(1,2) [OF fk] D(1) by auto
    show ?thesis
      using D(8) [OF j kk(1) False] kk(2) s' False entry_matches_iff [OF d(2) name_no_nul [OF inv j]]
        entry_matches_iff [OF d(2) name_no_nul [OF inv kk(1)]] by (auto simp: compatible_def)
  qed
  then have "find_idx (entry_matches ?par (path_name p)) (inodes s') = None"
    using D(1) s' by (auto simp: find_from_None_iff in_set_conv_nth)
  then show ?thesis by (simp add: find_inode_entry [OF nr])
qed

lemma created_found:
  assumes inv: "ramfs_inv s" and inv': "ramfs_inv s'" and nr: "\<not> root_path (Some p)"
    and nul: "CHR 0x00 \<notin> set p" and k: "k < RAMFS_MAX_FILES" "i_ino (inodes s ! k) = 0"
    and par: "ramfs_resolve_dir (path_dir p) s \<noteq> -1"
    and c: "create_node k ty (path_name p) (ramfs_resolve_dir (path_dir p) s) s = Some s'"
  shows "ramfs_find_inode (Some p) s' = Some k"
proof -
  note D = ramfs_invD [OF inv]
  have kl: "k < length (inodes s)" using k D(1) by simp
  note C = create_node_slot [OF c kl]
  have d: "CHR 0x00 \<notin> set (path_dir p)" "CHR 0x00 \<notin> set (path_name p)"
    using split_path_no_nul [OF nul, of RAMFS_MAX_FILENAME "path_dir p" "path_name p"] by auto
  have prev: "inodes s = (inodes s')[k := inodes s ! k]"
    by (subst C(6)) simp
  have r: "ramfs_resolve_dir (path_dir p) s' = ramfs_resolve_dir (path_dir p) s"
    by (rule more_dirs_resolve [OF inv' prev k(2) d(1) par])
  have "i_ino (inodes s' ! k) \<noteq> 0" using C(1) D(4) by (simp add: word_gt_0)
  then have "find_idx (entry_matches (ramfs_resolve_dir (path_dir p) s) (path_name p)) (inodes s') = Some k"
    using C(1) by (intro find_entry_eq [OF inv' k(1) _ d(2)]) auto
  with r par show ?thesis by (simp add: find_inode_entry [OF nr])
qed

end
