(* ===== verification/Ramfs_Spec.thy ===== *)
theory Ramfs_Spec
  imports Ramfs_Ops
begin

text \<open>
  What the file system promises its callers: the file system as a machine of operations that
  never touches memory outside its tables, isolation of files, the read/write/seek round trip,
  and what lookups return after creations and removals.
\<close>

section \<open>The file system as a machine\<close>

datatype ramfs_op =
    Open "string option" u32
  | Open2 "string option" u32
  | Close int
  | Read int bool u32
  | Write int "(nat \<Rightarrow> u8) option" u32
  | Lseek int int int
  | Mkdir "string option"
  | Rmdir "string option"
  | Unlink "string option"

fun ramfs_step :: "ramfs_op \<Rightarrow> ramfs \<Rightarrow> ramfs option" where
  "ramfs_step (Open p f) s = map_option snd (ramfs_open p f s)"
| "ramfs_step (Open2 p f) s = map_option snd (ramfs_open2 p f s)"
| "ramfs_step (Close fd) s = Some (snd (ramfs_close fd s))"
| "ramfs_step (Read fd nul c) s = map_option (snd \<circ> snd) (ramfs_read fd nul c s)"
| "ramfs_step (Write fd buf c) s = map_option snd (ramfs_write fd buf c s)"
| "ramfs_step (Lseek fd off wh) s = Some (snd (ramfs_lseek fd off wh s))"
| "ramfs_step (Mkdir p) s = map_option snd (ramfs_mkdir p s)"
| "ramfs_step (Rmdir p) s = Some (snd (ramfs_rmdir p s))"
| "ramfs_step (Unlink p) s = Some (snd (ramfs_unlink p s))"

text \<open>What a caller has to respect: a path is a C string whose last component fits the name
  field, a write is not within 256 KiB of the 4 GiB limit, and the root directory is not
  removed.\<close>

fun ramfs_op_ok :: "ramfs_op \<Rightarrow> bool" where
  "ramfs_op_ok (Open p f) = path_ok p"
| "ramfs_op_ok (Open2 p f) = path_ok p"
| "ramfs_op_ok (Write fd buf c) = (unat c \<le> 4294967295 - 262144)"
| "ramfs_op_ok (Mkdir p) = path_ok p"
| "ramfs_op_ok (Rmdir p) = (\<not> root_path p)"
| "ramfs_op_ok _ = True"

lemma ramfs_write_reject:
  assumes "\<not> (\<exists>buf k. bufp = Some buf \<and> open_on s fd k \<and>
      fd_flags (fds s ! nat fd) AND CHALES_O_ACCMODE \<noteq> CHALES_O_RDONLY)"
  shows "ramfs_write fd bufp count s = Some (-1, s)"
proof (cases bufp)
  case (Some buf)
  show ?thesis
  proof (cases "fd < 0 \<or> fd \<ge> 32 \<or> fd_ino (fds s ! nat fd) = 0")
    case True
    then show ?thesis using Some by (elim disjE) (simp_all add: ramfs_write_def Let_def)
  next
    case False
    show ?thesis
    proof (cases "slot_of_ino (fd_ino (fds s ! nat fd)) s")
      case None
      then show ?thesis using False Some by (simp add: ramfs_write_def Let_def)
    next
      case (Some k)
      have "i_type (inodes s ! k) \<noteq> RAMFS_TYPE_FILE \<or>
          fd_flags (fds s ! nat fd) AND CHALES_O_ACCMODE = CHALES_O_RDONLY"
        using assms False Some \<open>bufp = Some buf\<close> by (auto simp: open_on_def)
      then show ?thesis
        using False Some \<open>bufp = Some buf\<close> by (elim disjE) (simp_all add: ramfs_write_def Let_def)
    qed
  qed
qed (simp add: ramfs_write_def)

lemma ramfs_write_inv:
  assumes inv: "ramfs_inv_n n s" and small: "unat count \<le> 4294967295 - 262144"
  shows "\<exists>r s'. ramfs_write fd bufp count s = Some (r, s') \<and> ramfs_inv_n n s'"
proof -
  have i: "ramfs_inv s" using inv by (simp add: ramfs_inv_n_def)
  show ?thesis
  proof (cases "\<exists>buf k. bufp = Some buf \<and> open_on s fd k \<and>
      fd_flags (fds s ! nat fd) AND CHALES_O_ACCMODE \<noteq> CHALES_O_RDONLY")
    case False
    then show ?thesis using inv ramfs_write_reject [OF False, of count] by simp
  next
    case True
    then obtain buf k where k: "bufp = Some buf" "open_on s fd k"
      "fd_flags (fds s ! nat fd) AND CHALES_O_ACCMODE \<noteq> CHALES_O_RDONLY" by blast
    from ramfs_write_cases [OF i k(2,3) small, of buf] k(1) inv show ?thesis
      by (auto simp: ramfs_inv_n_def same_tree_def)
  qed
qed

lemma ramfs_step_ok:
  assumes "ramfs_op_ok x" "ramfs_inv_n (Suc n) s"
  shows "\<exists>s'. ramfs_step x s = Some s' \<and> ramfs_inv_n n s'"
proof -
  have i: "ramfs_inv_n n s" using assms(2) by (rule ramfs_inv_n_less) simp
  show ?thesis
  proof (cases x)
    case (Open p f)
    then show ?thesis using ramfs_open_spec [OF assms(2), of p f] assms(1) by fastforce
  next
    case (Open2 p f)
    then show ?thesis using ramfs_open2_spec [OF assms(2), of p f] assms(1) by fastforce
  next
    case (Read fd nul c)
    then show ?thesis using ramfs_read_inv [OF i, of fd nul c] by fastforce
  next
    case (Write fd buf c)
    then show ?thesis using ramfs_write_inv [OF i, of c fd buf] assms(1) by fastforce
  next
    case (Mkdir p)
    then show ?thesis using ramfs_mkdir_inv [OF assms(2), of p] assms(1) by fastforce
  qed (use i assms(1) in \<open>simp_all add: ramfs_close_inv ramfs_lseek_inv ramfs_rmdir_inv ramfs_unlink_inv\<close>)
qed

interpretation fsm: invariant_machine ramfs_step ramfs_op_ok ramfs_inv_n
  by unfold_locales (rule ramfs_step_ok)

lemma ramfs_blank_inv: "ramfs_inv (ramfs_blank m)"
  unfolding ramfs_inv_def
proof (intro conjI allI impI)
  have z: "inodes (ramfs_blank m) ! k = (if k = 0 then zero_inode\<lparr>i_type := RAMFS_TYPE_DIR, i_name := ''/''\<rparr>
      else zero_inode)" if "k < RAMFS_MAX_FILES" for k
    using that by (simp add: ramfs_blank_def nth_upd zero_inode_def)
  show "i_ino (inodes (ramfs_blank m) ! 0) = 0" "i_type (inodes (ramfs_blank m) ! 0) = RAMFS_TYPE_DIR"
    using z [of 0] by (simp_all add: zero_inode_def RAMFS_MAX_FILES_def)
  fix k assume "k < RAMFS_MAX_FILES"
  then show "inode_ok (pool_used (ramfs_blank m)) (next_inode (ramfs_blank m)) (inodes (ramfs_blank m) ! k)"
    by (simp add: z) (simp add: inode_ok_def zero_inode_def ramfs_blank_def RAMFS_MAX_FILENAME_def)
  fix j assume "j < RAMFS_MAX_FILES"
  with \<open>k < RAMFS_MAX_FILES\<close> show "compatible (inodes (ramfs_blank m) ! k) (inodes (ramfs_blank m) ! j)"
    by (simp add: z) (simp add: compatible_def apart_def zero_inode_def)
qed (simp_all add: ramfs_blank_def fd_ok_zero)

lemma ramfs_blank_inv_n: "n < 4294967295 \<Longrightarrow> ramfs_inv_n n (ramfs_blank m)"
  by (simp add: ramfs_inv_n_def ramfs_blank_inv) (simp add: ramfs_blank_def)

text \<open>C10: From the state \<open>ramfs_init\<close> sets up, any sequence of fewer than 2^32 - 1 file-system
  calls whose paths fit the name field, whose write counts do not reach within 256 KiB of 4 GiB
  and which do not remove the root directory runs without an access outside the pool or the
  tables, and keeps the invariant: blocks of different files never overlap and stay inside the
  pool, inode numbers and directory entries stay unique.\<close>

theorem ramfs_runs_safely:
  assumes "list_all ramfs_op_ok ops" "length ops < 4294967295"
  shows "\<exists>s'. run_ops ramfs_step ops (ramfs_blank m) = Some s' \<and> ramfs_inv s'"
  using fsm.run_ok [OF assms(1), of 0 "ramfs_blank m"] ramfs_blank_inv_n [of "length ops" m] assms(2)
  by (auto simp: ramfs_inv_n_def)

theorem ramfs_runs_safely_witness:
  "\<exists>s'. run_ops ramfs_step [Mkdir (Some ''/d''), Open2 (Some ''/d/f'') 0x202,
      Write 0 (Some (\<lambda>i. of_nat i)) 700, Unlink (Some ''/d/f''), Rmdir (Some ''/d'')] (ramfs_blank (\<lambda>a. 0))
    = Some s' \<and> ramfs_inv s'"
  by (rule ramfs_runs_safely)
    (simp_all add: path_ok_def root_path_def ramfs_split_path_def RAMFS_MAX_FILENAME_def)

section \<open>Reading and writing\<close>


text \<open>A state with one empty file, open for reading and writing, for the witnesses.\<close>

definition one_file :: ramfs where
  "one_file = (upd_fd 0 \<lparr>fd_ino = 1, fd_offset = 0, fd_flags = CHALES_O_RDWR\<rparr>
     (upd_inode 1 (zero_inode\<lparr>i_ino := 1, i_name := ''f''\<rparr>) (ramfs_blank (\<lambda>a. 0))))\<lparr>next_inode := 2\<rparr>"

lemma ramfs_blank_inodes:
  "inodes (ramfs_blank m) = zero_inode\<lparr>i_type := RAMFS_TYPE_DIR, i_name := ''/''\<rparr> # replicate 63 zero_inode"
proof -
  have "replicate RAMFS_MAX_FILES zero_inode = zero_inode # replicate 63 zero_inode"
    by (simp add: RAMFS_MAX_FILES_def numeral_eq_Suc)
  then show ?thesis by (simp add: ramfs_blank_def zero_inode_def)
qed

lemma one_file_open: "ramfs_open (Some ''/f'') 1 (ramfs_blank (\<lambda>a. 0)) = Some (0, one_file)"
proof -
  let ?b = "ramfs_blank (\<lambda>a. 0)"
  have "ramfs_find_inode (Some ''/f'') ?b = None"
    by (simp add: ramfs_find_inode_def ramfs_split_path_def ramfs_resolve_dir_def RAMFS_MAX_FILENAME_def
        ramfs_root_ino_def ramfs_blank_inodes find_from_replicate entry_matches_def zero_inode_def)
  moreover have "ramfs_find_free_inode ?b = Some 1" "ramfs_find_free_fd ?b = Some 0"
    by (simp_all add: ramfs_find_free_inode_def ramfs_find_free_fd_def ramfs_blank_inodes
        find_from_replicate zero_inode_def) (simp add: ramfs_blank_def find_from_replicate zero_fd_def)
  ultimately show ?thesis
    by (simp add: ramfs_open_def open_slot_def ramfs_split_path_def ramfs_resolve_dir_def
        RAMFS_MAX_FILENAME_def ramfs_root_ino_def create_node_def one_file_def ramfs_find_free_fd_def
        ramfs_blank_inodes) (simp add: ramfs_blank_def zero_inode_def)
qed

lemma one_file_facts:
  "ramfs_inv one_file" "open_on one_file 0 1" "file_bytes one_file 1 = []"
  "fd_flags (fds one_file ! 0) = CHALES_O_RDWR" "fd_offset (fds one_file ! 0) = 0"
proof -
  have "ramfs_inv_n 1 (ramfs_blank (\<lambda>a. 0))" by (rule ramfs_blank_inv_n) simp
  then show i: "ramfs_inv one_file"
    using ramfs_open_spec [of 0 "ramfs_blank (\<lambda>a. 0)" "Some ''/f''" 1] one_file_open
    by (simp add: path_ok_def ramfs_split_path_def RAMFS_MAX_FILENAME_def ramfs_inv_n_def)
  have k: "i_ino (inodes one_file ! 1) = 1"
    by (simp add: one_file_def ramfs_blank_def RAMFS_MAX_FILES_def)
  have "slot_of_ino 1 one_file = Some 1"
    using slot_of_live_ino [OF i, of 1] k by (simp add: RAMFS_MAX_FILES_def)
  then show "open_on one_file 0 1"
    by (simp add: open_on_def one_file_def ramfs_blank_def RAMFS_MAX_FILES_def zero_inode_def)
qed (simp_all add: one_file_def ramfs_blank_def RAMFS_MAX_FILES_def file_bytes_def zero_inode_def)


text \<open>Reading through an open, readable descriptor returns exactly the bytes of the file from
  the descriptor's offset, at most \<open>count\<close> of them and none past the end, advances the offset by
  their number and changes nothing else.\<close>

theorem ramfs_read_correct:
  assumes "ramfs_inv s" "open_on s fd k"
    and "fd_flags (fds s ! nat fd) AND CHALES_O_ACCMODE \<noteq> CHALES_O_WRONLY"
    and "bs = take (unat count) (drop (unat (fd_offset (fds s ! nat fd))) (file_bytes s k))"
  shows "ramfs_read fd False count s =
    Some (int (length bs), bs, upd_fd (nat fd) ((fds s ! nat fd)\<lparr>fd_offset :=
        fd_offset (fds s ! nat fd) + of_nat (length bs)\<rparr>) s)"
  by (rule ramfs_read_eq [OF assms])

theorem ramfs_read_correct_witness:
  "ramfs_read 0 False 4 one_file = Some (0, [], one_file)"
proof -
  have "(fds one_file)[0 := (fds one_file ! 0)\<lparr>fd_offset := 0\<rparr>] = fds one_file"
    using one_file_facts(5) by (metis list_update_id ramfs_fd.surjective ramfs_fd.update_convs(2)
        ramfs_fd.select_convs(2))
  then show ?thesis
    using ramfs_read_correct [OF one_file_facts(1,2), of "[]" 4] one_file_facts(3,4,5) by simp
qed

lemma open_on_same_tree:
  assumes "same_tree s s'" "open_on s fd k" "ramfs_inv s"
    "fds s' = (fds s)[nat fd := (fds s ! nat fd)\<lparr>fd_offset := ofs\<rparr>]"
  shows "open_on s' fd k"
proof -
  have "slot_of_ino i s' = slot_of_ino i s" for i
    using assms(1) unfolding slot_of_ino_def by (intro find_from_cong_nth) (auto simp: same_tree_def)
  moreover have "i_type (inodes s' ! k) = i_type (inodes s ! k)"
    using assms(1) open_onD(1) [OF assms(3,2)] ramfs_invD(1) [OF assms(3)] by (simp add: same_tree_def)
  ultimately show ?thesis
    using assms(2,4) ramfs_invD(2) [OF assms(3)] open_onD(6) [OF assms(3,2)]
    by (simp add: open_on_def)
qed

lemma ramfs_lseek_open:
  assumes inv: "ramfs_inv s" and o: "open_on s fd k"
    and w: "wh = CHALES_SEEK_SET \<and> b = 0 \<or> wh = CHALES_SEEK_CUR \<and> b = uint (fd_offset (fds s ! nat fd)) \<or>
      wh = CHALES_SEEK_END \<and> b = int (length (file_bytes s k))"
  shows "ramfs_lseek fd off wh s =
    (if b + off < 0 \<or> b + off > 262144 then (- CHALES_EINVAL, s)
     else (b + off, upd_fd (nat fd) ((fds s ! nat fd)\<lparr>fd_offset := word_of_int (b + off)\<rparr>) s))"
proof -
  have f: "\<not> fd < 0" "\<not> 32 \<le> fd" "fd_ino (fds s ! nat fd) \<noteq> 0"
    "slot_of_ino (fd_ino (fds s ! nat fd)) s = Some k"
    using o by (auto simp: open_on_def)
  have "int (length (file_bytes s k)) = uint (i_size (inodes s ! k))"
    using length_file_bytes [OF inv open_onD(1) [OF inv o]] by simp
  with f w show ?thesis
    by (auto simp: ramfs_lseek_def ramfs_inode_by_ino_def Let_def RAMFS_MAX_FILESIZE_def simp del: of_int_add)
qed

text \<open>Seeking an open descriptor moves its offset to exactly the requested position,
  counted from the start, the current offset or the end of the file, and returns it; a position
  below zero or past the largest file size is refused with -EINVAL and nothing changes.\<close>

theorem ramfs_lseek_correct:
  assumes "ramfs_inv s" "open_on s fd k"
    and "wh = CHALES_SEEK_SET \<and> b = 0 \<or> wh = CHALES_SEEK_CUR \<and> b = uint (fd_offset (fds s ! nat fd)) \<or>
      wh = CHALES_SEEK_END \<and> b = int (length (file_bytes s k))"
  shows "\<exists>r s'. ramfs_lseek fd off wh s = (r, s') \<and>
    (if 0 \<le> b + off \<and> b + off \<le> 262144
     then r = b + off \<and> uint (fd_offset (fds s' ! nat fd)) = b + off \<and> s' = s\<lparr>fds := fds s'\<rparr> \<and>
       (\<forall>m. m \<noteq> nat fd \<longrightarrow> fds s' ! m = fds s ! m)
     else r = - CHALES_EINVAL \<and> s' = s)"
proof (cases "0 \<le> b + off \<and> b + off \<le> 262144")
  case True
  then have "uint (word_of_int (b + off) :: u32) = b + off"
    by (simp add: unsigned_of_int take_bit_int_eq_self del: of_int_add)
  with True show ?thesis
    using ramfs_lseek_open [OF assms, of off] open_onD(6) [OF assms(1,2)] ramfs_invD(2) [OF assms(1)]
    by (simp del: of_int_add)
qed (use ramfs_lseek_open [OF assms, of off] in auto)

theorem ramfs_lseek_correct_witness:
  "\<exists>r s'. ramfs_lseek 0 100 CHALES_SEEK_END one_file = (r, s') \<and>
    (if 0 \<le> (0 :: int) + 100 \<and> (0 :: int) + 100 \<le> 262144
     then r = 0 + 100 \<and> uint (fd_offset (fds s' ! nat 0)) = 0 + 100 \<and> s' = one_file\<lparr>fds := fds s'\<rparr> \<and>
       (\<forall>m. m \<noteq> nat 0 \<longrightarrow> fds s' ! m = fds one_file ! m)
     else r = - CHALES_EINVAL \<and> s' = one_file)"
  by (rule ramfs_lseek_correct [OF one_file_facts(1,2)]) (use one_file_facts in simp)

lemma take_drop_splice:
  assumes "xs = splice ys off zs" "zs \<noteq> []"
  shows "take (length zs) (drop off xs) = zs"
  using assms by (intro nth_equalityI) (auto simp: length_splice nth_splice)

text \<open>What a write stored is what a read of the same descriptor gives back after seeking
  back over it: on a descriptor open for reading and writing, a successful \<open>write\<close> that returns
  \<open>n\<close>, followed by \<open>lseek (-n, SEEK_CUR)\<close> and \<open>read (n)\<close>, returns the first \<open>n\<close> bytes of the
  written buffer, in append mode too.\<close>

lemma write_read_back:
  assumes inv: "ramfs_inv s" and o: "open_on s fd k"
    and rdwr: "fd_flags (fds s ! nat fd) AND CHALES_O_ACCMODE = CHALES_O_RDWR"
    and small: "unat count \<le> 4294967295 - 262144"
    and w: "ramfs_write fd (Some buf) count s = Some (int n, s1)"
  shows "n \<le> unat count \<and> (\<exists>s2 s3. fst (ramfs_lseek fd (- int n) CHALES_SEEK_CUR s1) \<ge> 0 \<and>
    ramfs_lseek fd (- int n) CHALES_SEEK_CUR s1 = (uint (write_offset s fd k), s2) \<and>
    ramfs_read fd False (of_nat n) s2 = Some (int n, map buf [0..<n], s3))"
proof -
  have f: "fd_flags (fds s ! nat fd) AND CHALES_O_ACCMODE \<noteq> CHALES_O_RDONLY"
    "fd_flags (fds s ! nat fd) AND CHALES_O_ACCMODE \<noteq> CHALES_O_WRONLY" using rdwr by auto
  from ramfs_write_cases [OF inv o f(1) small, of buf] w
  obtain ofs where i1: "ramfs_inv s1" and t1: "same_tree s s1"
    and fds1: "fds s1 = (fds s)[nat fd := (fds s ! nat fd)\<lparr>fd_offset := ofs\<rparr>]"
    and n: "n \<le> unat count" and wr: "wrote s fd k buf n s1" by auto
  have o1: "open_on s1 fd k" by (rule open_on_same_tree [OF t1 o inv fds1])
  note O = open_onD [OF i1 o1] and D = ramfs_invD [OF i1]
  have nl: "nat fd < length (fds s1)" using D(2) O(6) by simp
  have nl0: "nat fd < length (fds s)" using nl fds1 by simp
  let ?w = "write_offset s fd k"
  define s2 where "s2 = upd_fd (nat fd) ((fds s1 ! nat fd)\<lparr>fd_offset := ?w\<rparr>) s1"
  have ofs: "unat (fd_offset (fds s1 ! nat fd)) = unat ?w + n" using wr by (simp add: wrote_def)
  then have "int (unat (fd_offset (fds s1 ! nat fd))) = int (unat ?w) + int n" by simp
  then have pos: "uint (fd_offset (fds s1 ! nat fd)) + - int n = uint ?w" by simp
  have le: "fd_offset (fds s1 ! nat fd) \<le> RAMFS_MAX_FILESIZE" using D(9) [OF O(6)] by (simp add: fd_ok_def)
  then have wle: "unat ?w + n \<le> 262144" using ofs by (simp add: word_le_nat_alt RAMFS_MAX_FILESIZE_def)
  then have "uint ?w \<le> 262144" by (metis add_leD1 of_nat_le_iff of_nat_numeral of_nat_unat)
  then have seek: "ramfs_lseek fd (- int n) CHALES_SEEK_CUR s1 = (uint ?w, s2)"
    using ramfs_lseek_open [OF i1 o1, of CHALES_SEEK_CUR "uint (fd_offset (fds s1 ! nat fd))" "- int n"]
      uint_ge_0 [of ?w] unfolding s2_def pos by simp
  have i2: "ramfs_inv s2"
    unfolding s2_def using D(9) [OF O(6)] wle
    by (intro ramfs_inv_upd_fd [OF i1]) (simp add: fd_ok_def word_le_nat_alt RAMFS_MAX_FILESIZE_def)
  have o2: "open_on s2 fd k"
    by (rule open_on_same_tree [OF _ o1 i1, of _ ?w]) (simp_all add: s2_def same_tree_def)
  have fl: "fd_flags (fds s2 ! nat fd) = fd_flags (fds s ! nat fd)" "fd_offset (fds s2 ! nat fd) = ?w"
    using nl nl0 by (simp_all add: s2_def fds1)
  have un: "unat (of_nat n :: u32) = n"
    using n unat_u32_less [of count] by (simp add: unat_of_nat take_bit_nat_eq_self)
  have "map buf [0..<n] = take n (drop (unat ?w) (file_bytes s2 k))"
  proof (cases "n = 0")
    case False
    then have "file_bytes s2 k = splice (file_bytes s k) (unat ?w) (map buf [0..<n])"
      using wr by (simp add: wrote_def s2_def)
    from take_drop_splice [OF this] False show ?thesis by simp
  qed simp
  then have bs: "map buf [0..<n] = take (unat (of_nat n :: u32))
      (drop (unat (fd_offset (fds s2 ! nat fd))) (file_bytes s2 k))" using un fl(2) by simp
  have "\<exists>s3. ramfs_read fd False (of_nat n) s2 = Some (int n, map buf [0..<n], s3)"
    using ramfs_read_eq [OF i2 o2 _ bs] fl(1) f(2) by simp
  then show ?thesis using n seek by simp
qed

lemma one_file_write:
  "\<exists>s1. ramfs_write 0 (Some buf) 10 one_file = Some (int 10, s1)"
proof -
  have s: "slot_of_ino 1 one_file = Some 1" using one_file_facts(2) by (simp add: open_on_def one_file_def ramfs_blank_def)
  have i: "inodes one_file ! 1 = zero_inode\<lparr>i_ino := 1, i_name := ''f''\<rparr>" "pool_used one_file = 0"
    "length (inodes one_file) = 64" "length (fds one_file) = 32"
    by (simp_all add: one_file_def ramfs_blank_def RAMFS_MAX_FILES_def)
  have f: "fds one_file ! 0 = \<lparr>fd_ino = 1, fd_offset = 0, fd_flags = CHALES_O_RDWR\<rparr>"
    by (simp add: one_file_def ramfs_blank_def)
  show ?thesis
    using s i f
    by (simp add: ramfs_write_def zero_inode_def RAMFS_MAX_FILESIZE_def write_reserving_def
        ramfs_reserve_def reserve_newcap_def newest_block_def RAMFS_POOL_SIZE_def write_at_def
        pool_ok_def)
qed

section \<open>The directory tree\<close>



text \<open>Unlinking a file makes its path stop resolving, keeps the invariant, and leaves the
  contents of every other slot unchanged; the pool space of the newest block is given back.\<close>

theorem ramfs_unlink_removes:
  assumes inv: "ramfs_inv s" and f: "ramfs_find_inode (Some p) s = Some k"
    and ty: "i_type (inodes s ! k) = RAMFS_TYPE_FILE" and nul: "CHR 0x00 \<notin> set p"
  shows "\<exists>s'. ramfs_unlink (Some p) s = (0, s') \<and> ramfs_inv s' \<and> ramfs_find_inode (Some p) s' = None \<and>
    (\<forall>j. j \<noteq> k \<longrightarrow> inodes s' ! j = inodes s ! j \<and> file_bytes s' j = file_bytes s j) \<and>
    pool_used s' = (if newest_block (inodes s ! k) s then pool_used s - i_capacity (inodes s ! k)
                    else pool_used s)"
proof -
  have "k \<noteq> 0" using ty ramfs_invD(6) [OF inv] by (cases k) auto
  then have nr: "\<not> root_path (Some p)" using find_inode_SomeD(2) [OF inv f] by simp
  let ?s' = "upd_inode k zero_inode (ramfs_release k s)"
  have u: "ramfs_unlink (Some p) s = (0, ?s')" using f ty by (simp add: ramfs_unlink_def)
  have i': "inodes ?s' = (inodes s)[k := zero_inode]" "pool ?s' = pool s"
    by (simp_all add: ramfs_release_def Let_def)
  have "ramfs_inv ?s'"
    using ramfs_unlink_inv [of 0 s "Some p"] inv u unat_u32_less [of "next_inode s"]
    by (simp add: ramfs_inv_n_def)
  moreover have "ramfs_find_inode (Some p) ?s' = None"
    by (rule removed_not_found [OF inv f nr nul i'(1)])
  moreover have "file_bytes ?s' j = file_bytes s j" if "j \<noteq> k" for j
    using that i' by (simp add: file_bytes_def split: option.split)
  ultimately show ?thesis using u i' by (simp add: ramfs_release_def Let_def)
qed

lemma one_file_find: "ramfs_find_inode (Some ''/f'') one_file = Some 1"
proof -
  have "ramfs_inv_n 1 (ramfs_blank (\<lambda>a. 0))" by (rule ramfs_blank_inv_n) simp
  then show ?thesis
    using ramfs_open_spec [of 0 "ramfs_blank (\<lambda>a. 0)" "Some ''/f''" 1] one_file_open one_file_facts(2)
    by (auto simp: path_ok_def ramfs_split_path_def RAMFS_MAX_FILENAME_def open_on_def)
qed

theorem ramfs_unlink_removes_witness:
  "\<exists>s'. ramfs_unlink (Some ''/f'') one_file = (0, s') \<and> ramfs_inv s' \<and>
    ramfs_find_inode (Some ''/f'') s' = None"
  using ramfs_unlink_removes [OF one_file_facts(1) one_file_find] one_file_facts(2)
  by (auto simp: open_on_def)

text \<open>After a successful \<open>mkdir\<close> the path resolves to a fresh directory inode, and a
  following \<open>rmdir\<close> of the same path succeeds, after which the path no longer resolves and the
  inode table is as if the two calls had not happened.\<close>

theorem ramfs_mkdir_rmdir:
  assumes inv: "ramfs_inv_n (Suc n) s" and ok: "path_ok (Some p)"
    and m: "ramfs_mkdir (Some p) s = Some (0, s1)"
  shows "\<exists>k s2. ramfs_find_inode (Some p) s = None \<and> ramfs_find_inode (Some p) s1 = Some k \<and>
    i_type (inodes s1 ! k) = RAMFS_TYPE_DIR \<and> i_ino (inodes s1 ! k) = next_inode s \<and>
    ramfs_rmdir (Some p) s1 = (0, s2) \<and> ramfs_find_inode (Some p) s2 = None \<and>
    inodes s2 = (inodes s)[k := zero_inode] \<and> i_ino (inodes s ! k) = 0"
proof -
  have i: "ramfs_inv s" using inv by (simp add: ramfs_inv_n_def)
  let ?par = "ramfs_resolve_dir (path_dir p) s"
  obtain k where k: "ramfs_find_inode (Some p) s = None" "ramfs_find_free_inode s = Some k"
    "?par \<noteq> -1" "create_node k RAMFS_TYPE_DIR (path_name p) ?par s = Some s1"
    using m by (auto simp: ramfs_mkdir_def Let_def case_prod_beta split: if_splits option.splits)
  have nul: "CHR 0x00 \<notin> set p" using ok by (simp add: path_ok_def)
  have nr: "\<not> root_path (Some p)" using k(1) by auto
  note F = find_free_inodeD [OF i k(2)]
  have kl: "k < length (inodes s)" using F(1) ramfs_invD(1) [OF i] by simp
  note C = create_node_slot [OF k(4) kl]
  have i1: "ramfs_inv s1"
    using create_path_node_inv [OF inv k(1) ok k(2,3), of RAMFS_TYPE_DIR] k(4) by (simp add: ramfs_inv_n_def)
  have f1: "ramfs_find_inode (Some p) s1 = Some k"
    by (rule created_found [OF i i1 nr nul F(1,3) k(3,4)])
  let ?s2 = "upd_inode k zero_inode s1"
  have r: "ramfs_rmdir (Some p) s1 = (0, ?s2)" using f1 C(1) by (simp add: ramfs_rmdir_def)
  have "ramfs_find_inode (Some p) ?s2 = None"
    by (rule removed_not_found [OF i1 f1 nr nul]) simp
  moreover have "inodes ?s2 = (inodes s)[k := zero_inode]" using C(6) by (metis list_update_overwrite ramfs.select_convs(1) ramfs.surjective ramfs.update_convs(1))
  ultimately show ?thesis using k(1) f1 C(1) r F(3) by auto
qed

theorem ramfs_mkdir_rmdir_witness:
  "\<exists>s1 k s2. ramfs_mkdir (Some ''/d'') (ramfs_blank (\<lambda>a. 0)) = Some (0, s1) \<and>
     ramfs_find_inode (Some ''/d'') s1 = Some k \<and> i_type (inodes s1 ! k) = RAMFS_TYPE_DIR \<and>
     ramfs_rmdir (Some ''/d'') s1 = (0, s2) \<and> ramfs_find_inode (Some ''/d'') s2 = None"
proof -
  let ?b = "ramfs_blank (\<lambda>a. 0)"
  have "ramfs_find_inode (Some ''/d'') ?b = None" "ramfs_find_free_inode ?b = Some 1"
    by (simp_all add: ramfs_find_inode_def ramfs_split_path_def ramfs_resolve_dir_def RAMFS_MAX_FILENAME_def
        ramfs_root_ino_def ramfs_blank_inodes find_from_replicate entry_matches_def zero_inode_def
        ramfs_find_free_inode_def)
  then have "\<exists>s1. ramfs_mkdir (Some ''/d'') ?b = Some (0, s1)"
    by (simp add: ramfs_mkdir_def ramfs_split_path_def ramfs_resolve_dir_def RAMFS_MAX_FILENAME_def
        ramfs_root_ino_def create_node_def)
  then obtain s1 where m: "ramfs_mkdir (Some ''/d'') ?b = Some (0, s1)" by blast
  have "ramfs_inv_n (Suc 0) ?b" by (rule ramfs_blank_inv_n) simp
  from ramfs_mkdir_rmdir [OF this _ m] m show ?thesis
    by (fastforce simp: path_ok_def ramfs_split_path_def RAMFS_MAX_FILENAME_def)
qed

section \<open>Where the code is not protected\<close>

text \<open>\<open>rmdir\<close> of the root (\<open>/\<close>, the empty path or NULL) is not refused: it clears the root
  inode, after which the root is no longer a directory, so \<open>stat\<close> of \<open>/\<close> reports a regular
  file and \<open>ramfs_open\<close> accepts it.\<close>

theorem ramfs_rmdir_root_destroys:
  assumes "ramfs_inv s" "root_path path"
  shows "\<exists>s'. ramfs_rmdir path s = (0, s') \<and> i_type (inodes s' ! 0) = RAMFS_TYPE_FILE \<and>
    ramfs_stat path s' = (0, Some \<lparr>st_mode = CHALES_S_IFREG OR 0x1A4, st_size = 0, st_ino = 0, st_nlink = 1\<rparr>)"
  using assms ramfs_invD(1,6) [OF assms(1)]
  by (simp add: ramfs_rmdir_def ramfs_stat_def ramfs_fill_stat_def RAMFS_MAX_FILES_def zero_inode_def)

theorem ramfs_rmdir_root_destroys_witness:
  "\<exists>s'. ramfs_rmdir (Some ''/'') (ramfs_blank (\<lambda>a. 0)) = (0, s') \<and>
    i_type (inodes s' ! 0) = RAMFS_TYPE_FILE"
  using ramfs_rmdir_root_destroys [OF ramfs_blank_inv, of "Some ''/''" "\<lambda>a. 0"] by (auto simp: root_path_def)

text \<open>The end of a write is computed as \<open>offset + count\<close> in 32 bits before it is compared
  with the largest file size. A count close to 2^32 wraps the sum below the limit, the clamp is
  skipped, and the copy runs out of the pool.\<close>

theorem ramfs_write_wraps:
  "ramfs_write 0 (Some buf) 0xFFFFFFFF (upd_fd 0 ((fds one_file ! 0)\<lparr>fd_offset := 16\<rparr>) one_file) = None"
proof -
  have s: "slot_of_ino 1 one_file = Some 1" using one_file_facts(2) by (simp add: open_on_def one_file_def ramfs_blank_def)
  have i: "inodes one_file ! 1 = zero_inode\<lparr>i_ino := 1, i_name := ''f''\<rparr>" "pool_used one_file = 0"
    "length (inodes one_file) = 64" "length (fds one_file) = 32"
    by (simp_all add: one_file_def ramfs_blank_def RAMFS_MAX_FILES_def)
  have f: "fds one_file ! 0 = \<lparr>fd_ino = 1, fd_offset = 0, fd_flags = CHALES_O_RDWR\<rparr>"
    by (simp add: one_file_def ramfs_blank_def)
  show ?thesis
    using s i f
    by (simp add: ramfs_write_def slot_of_ino_def zero_inode_def RAMFS_MAX_FILESIZE_def write_reserving_def
        ramfs_reserve_def reserve_newcap_def newest_block_def RAMFS_POOL_SIZE_def write_at_def
        pool_ok_def)
qed

end
