(* ===== verification/Format.thy ===== *)
theory Format
  imports Tty CString
begin

text \<open>
  Formatted output, \<open>libc/stdio/printk.c\<close>, \<open>snprintk.c\<close>, \<open>putchar.c\<close> and \<open>puts.c\<close>. Format strings and
  string arguments are lists without the terminator; the variable arguments are a list of values.
  What the C program leaves undefined is \<open>None\<close>: a store outside \<open>temp\<close> or \<open>buf\<close>, a missing or
  mistyped argument, a width beyond \<open>INT_MAX\<close>, the negation of \<open>INT_MIN\<close>. The number conversion is
  kept as the source has it, on the buffer and in place.
\<close>

section \<open>Numbers\<close>

definition INT_MAX :: nat where "INT_MAX = 2147483647"

text \<open>\<open>while (value > 0) temp[i++] = digits[value % base]\<close>, with \<open>char temp[32]\<close>.\<close>

function temp_loop :: "nat \<Rightarrow> string \<Rightarrow> nat \<Rightarrow> string \<Rightarrow> string option" where
  "temp_loop base digits value temp =
     (if value = 0 then Some temp
      else if 32 \<le> length temp then None
      else Option.bind (arr_get digits (value mod base)) (\<lambda>c. temp_loop base digits (value div base) (temp @ [c])))"
  by pat_completeness auto
termination by (relation "measure (\<lambda>(base, digits, value, temp). 32 - length temp)") auto

declare temp_loop.simps [simp del]

text \<open>Successive characters stored from an index on.\<close>

fun store_chars :: "nat \<Rightarrow> string \<Rightarrow> string \<Rightarrow> string option" where
  "store_chars off [] b = Some b"
| "store_chars off (c # cs) b = Option.bind (arr_set b off c) (store_chars (Suc off) cs)"

text \<open>A conversion returns the length and the buffer; \<open>off\<close> is where in the buffer it starts.\<close>

definition utoa_custom :: "u32 \<Rightarrow> nat \<Rightarrow> nat \<Rightarrow> string \<Rightarrow> string \<Rightarrow> (nat \<times> string) option" where
  "utoa_custom value off base digits b =
     (if value = 0 then map_option (Pair 1) (arr_set b off CHR ''0'')
      else do {
        temp \<leftarrow> temp_loop base digits (unat value) [];
        b1 \<leftarrow> store_chars off (rev temp) b;
        Some (length temp, b1)
      })"

text \<open>\<open>for (i = len; i > 0; i--) buffer[i + pad - 1] = buffer[i - 1]\<close>\<close>

fun shift_digits :: "nat \<Rightarrow> nat \<Rightarrow> nat \<Rightarrow> string \<Rightarrow> string option" where
  "shift_digits off pad 0 b = Some b"
| "shift_digits off pad (Suc i) b =
     do { c \<leftarrow> arr_get b (off + i); b1 \<leftarrow> arr_set b (off + i + pad) c; shift_digits off pad i b1 }"

definition utoa_padded_custom ::
  "u32 \<Rightarrow> nat \<Rightarrow> nat \<Rightarrow> string \<Rightarrow> int \<Rightarrow> char \<Rightarrow> string \<Rightarrow> (nat \<times> string) option" where
  "utoa_padded_custom value off base digits width pad_char b =
     do {
       (len, b1) \<leftarrow> utoa_custom value off base digits b;
       if 0 < width \<and> len < nat width then do {
         let pad = nat width - len;
         b2 \<leftarrow> shift_digits off pad len b1;
         b3 \<leftarrow> store_chars off (replicate pad pad_char) b2;
         Some (nat width, b3)
       } else Some (len, b1)
     }"

text \<open>\<open>unsigned long\<close> has 32 bits too.\<close>

definition ultoa_custom :: "u32 \<Rightarrow> nat \<Rightarrow> nat \<Rightarrow> string \<Rightarrow> string \<Rightarrow> (nat \<times> string) option" where
  "ultoa_custom = utoa_custom"

definition ultoa_padded_custom ::
  "u32 \<Rightarrow> nat \<Rightarrow> nat \<Rightarrow> string \<Rightarrow> int \<Rightarrow> char \<Rightarrow> string \<Rightarrow> (nat \<times> string) option" where
  "ultoa_padded_custom = utoa_padded_custom"

definition DIGITS10 :: string where "DIGITS10 = ''0123456789''"
definition DIGITS16 :: string where "DIGITS16 = ''0123456789abcdef''"
definition DIGITS16_UPPER :: string where "DIGITS16_UPPER = ''0123456789ABCDEF''"

definition itoa :: "u32 \<Rightarrow> nat \<Rightarrow> char \<Rightarrow> string \<Rightarrow> (nat \<times> string) option" where
  "itoa value width pad_char b =
     (if sint value < 0 then
        if value = 0x80000000 then None
        else do {
          b1 \<leftarrow> arr_set b 0 CHR ''-'';
          (len, b2) \<leftarrow> utoa_padded_custom (- value) 1 10 DIGITS10 (int width - 1) pad_char b1;
          Some (1 + len, b2)
        }
      else utoa_padded_custom value 0 10 DIGITS10 (int width) pad_char b)"

section \<open>Format strings\<close>

datatype arg = AWord u32 | AStr string

fun word_arg :: "arg list \<Rightarrow> (u32 \<times> arg list) option" where
  "word_arg (AWord v # args) = Some (v, args)"
| "word_arg _ = None"

fun str_arg :: "arg list \<Rightarrow> (string \<times> arg list) option" where
  "str_arg (AStr s # args) = Some (s, args)"
| "str_arg _ = None"

text \<open>The buffer \<open>char buf[64]\<close>, uninitialised in the source: what it holds at first is never printed.\<close>

definition BUF :: string where "BUF = replicate 64 CHR 0x00"

definition shown :: "(nat \<times> string) option \<Rightarrow> string option" where
  "shown r = map_option (\<lambda>(len, b). take len b) r"

text \<open>\<open>format[0] != '%' || format[1] == '%'\<close>, and the text up to the next percent sign.\<close>

definition is_literal :: "string \<Rightarrow> bool" where
  "is_literal fmt \<longleftrightarrow> hd fmt \<noteq> CHR ''%'' \<or> tl fmt \<noteq> [] \<and> hd (tl fmt) = CHR ''%''"

definition literal :: "string \<Rightarrow> string \<times> string" where
  "literal fmt =
     (let f = (if hd fmt = CHR ''%'' then tl fmt else fmt) in
      (hd f # takeWhile (\<lambda>c. c \<noteq> CHR ''%'') (tl f), dropWhile (\<lambda>c. c \<noteq> CHR ''%'') (tl f)))"

fun parse_width :: "nat \<Rightarrow> string \<Rightarrow> (nat \<times> string) option" where
  "parse_width w [] = Some (w, [])"
| "parse_width w (c # s) =
     (if 48 \<le> (of_char c :: nat) \<and> (of_char c :: nat) \<le> 57
      then let w1 = w * 10 + (of_char c - 48) in if INT_MAX < w1 then None else parse_width w1 s
      else Some (w, c # s))"

definition parse_padding :: "string \<Rightarrow> (char \<times> nat \<times> string) option" where
  "parse_padding f =
     (if f \<noteq> [] \<and> hd f = CHR ''0'' then map_option (Pair CHR ''0'') (parse_width 0 (tl f))
      else map_option (Pair CHR '' '') (parse_width 0 f))"

text \<open>A conversion takes its argument; it gives the characters printed, the rest of the format string
  and the arguments left.\<close>

definition conv_word :: "(u32 \<Rightarrow> string option) \<Rightarrow> string \<Rightarrow> arg list \<Rightarrow> (string \<times> string \<times> arg list) option" where
  "conv_word out rest args = do { (v, args1) \<leftarrow> word_arg args; s \<leftarrow> out v; Some (s, rest, args1) }"

definition conv_str :: "string \<Rightarrow> arg list \<Rightarrow> (string \<times> string \<times> arg list) option" where
  "conv_str rest args = do { (s, args1) \<leftarrow> str_arg args; Some (s, rest, args1) }"

definition hex_digits :: "char \<Rightarrow> string" where
  "hex_digits c = (if c = CHR ''X'' then DIGITS16_UPPER else DIGITS16)"

definition printk_long :: "char \<Rightarrow> nat \<Rightarrow> string \<Rightarrow> arg list \<Rightarrow> (string \<times> string \<times> arg list) option" where
  "printk_long pad_char width f args =
     (case f of [] \<Rightarrow> Some ([], [], args)
      | d # rest \<Rightarrow>
        if d = CHR ''u'' then conv_word (\<lambda>v. shown (ultoa_padded_custom v 0 10 DIGITS10 (int width) pad_char BUF)) rest args
        else if d = CHR ''x'' \<or> d = CHR ''X'' then
          conv_word (\<lambda>v. shown (ultoa_padded_custom v 0 16 (hex_digits d) (int width) pad_char BUF)) rest args
        else Some ([], f, args))"

definition printk_conv :: "string \<Rightarrow> char \<Rightarrow> nat \<Rightarrow> string \<Rightarrow> arg list \<Rightarrow> (string \<times> string \<times> arg list) option" where
  "printk_conv begun_at pad_char width f args =
     (case f of [] \<Rightarrow> Some (begun_at, [], args)
      | c # rest \<Rightarrow>
        if c = CHR ''c'' then conv_word (\<lambda>v. Some [u8_char (ucast v)]) rest args
        else if c = CHR ''s'' then conv_str rest args
        else if c = CHR ''d'' \<or> c = CHR ''i'' then conv_word (\<lambda>v. shown (itoa v width pad_char BUF)) rest args
        else if c = CHR ''u'' then conv_word (\<lambda>v. shown (utoa_padded_custom v 0 10 DIGITS10 (int width) pad_char BUF)) rest args
        else if c = CHR ''x'' \<or> c = CHR ''X'' then
          conv_word (\<lambda>v. shown (utoa_padded_custom v 0 16 (hex_digits c) (int width) pad_char BUF)) rest args
        else if c = CHR ''l'' then printk_long pad_char width rest args
        else if c = CHR ''p'' then
          conv_word (\<lambda>v. map_option ((@) ''0x'') (shown (ultoa_custom v 0 16 DIGITS16 BUF))) rest args
        else Some (begun_at, [], args))"

text \<open>One round of the loop of \<open>printk\<close>: what it prints and what is left.\<close>

definition printk_chunk :: "string \<Rightarrow> arg list \<Rightarrow> (string \<times> string \<times> arg list) option" where
  "printk_chunk fmt args =
     (if is_literal fmt then (let (s, rest) = literal fmt in Some (s, rest, args))
      else do { (pad_char, width, f) \<leftarrow> parse_padding (tl fmt); printk_conv fmt pad_char width f args })"

lemma literal_less: "fmt \<noteq> [] \<Longrightarrow> is_literal fmt \<Longrightarrow> length (snd (literal fmt)) < length fmt"
  using length_dropWhile_le [of "\<lambda>c. c \<noteq> CHR ''%''" "tl (tl fmt)"] length_dropWhile_le [of "\<lambda>c. c \<noteq> CHR ''%''" "tl fmt"]
  by (cases fmt) (auto simp: is_literal_def literal_def Let_def)

lemma parse_width_le: "parse_width w s = Some (w1, f) \<Longrightarrow> length f \<le> length s"
  by (induction w s rule: parse_width.induct) (auto simp: Let_def split: if_splits)

lemma parse_padding_le: "parse_padding s = Some (p, w, f) \<Longrightarrow> length f \<le> length s"
  by (cases s) (auto simp: parse_padding_def simp del: parse_width.simps dest!: parse_width_le split: if_splits)

lemma conv_rest:
  "conv_word out rest args = Some (s, f, args1) \<Longrightarrow> f = rest"
  "conv_str rest args = Some (s, f, args1) \<Longrightarrow> f = rest"
  by (auto simp: conv_word_def conv_str_def bind_eq_Some_conv)

lemma if_elims: "(if b then x else y) = z \<Longrightarrow> (b \<Longrightarrow> x = z \<Longrightarrow> P) \<Longrightarrow> (\<not> b \<Longrightarrow> y = z \<Longrightarrow> P) \<Longrightarrow> P"
  by (cases b) auto

lemma printk_long_less: "printk_long p w f args = Some (s, g, args1) \<Longrightarrow> length g \<le> length f"
  by (cases f) (auto simp: printk_long_def split: if_split_asm dest!: conv_rest)

lemma printk_conv_less:
  assumes "printk_conv z p w f args = Some (s, g, args1)"
  shows "length g \<le> length f"
proof (cases f)
  case (Cons c rest)
  show ?thesis using assms unfolding Cons printk_conv_def list.case length_Cons
    by (elim if_elims) (drule conv_rest printk_long_less, simp | simp)+
qed (use assms in \<open>simp add: printk_conv_def\<close>)

lemma chunk_less:
  assumes "fmt \<noteq> []" "\<And>z p w f s g args1. conv z p w f args = Some (s, g, args1) \<Longrightarrow> length g \<le> length f"
    "(if is_literal fmt then (let (s, rest) = literal fmt in Some (s, rest, args))
      else do { (pad_char, width, f) \<leftarrow> parse_padding (tl fmt); conv fmt pad_char width f args }) = Some (s, f, args1)"
  shows "length f < length fmt"
proof (cases "is_literal fmt")
  case True
  then show ?thesis using literal_less [OF assms(1)] assms(3) by (auto split: prod.splits)
next
  case False
  then obtain p w g where "parse_padding (tl fmt) = Some (p, w, g)" "conv fmt p w g args = Some (s, f, args1)"
    using assms(3) by (auto split: bind_splits)
  then have "length f \<le> length (tl fmt)" using parse_padding_le assms(2) by (metis le_trans)
  then show ?thesis using assms(1) by (cases fmt) auto
qed

lemma printk_chunk_less:
  assumes "fmt \<noteq> []" "printk_chunk fmt args = Some (s, f, args1)"
  shows "length f < length fmt"
  by (rule chunk_less [where conv = printk_conv, OF assms(1) _ assms(2) [unfolded printk_chunk_def]]) (rule printk_conv_less)

section \<open>Printing on the terminal\<close>

text \<open>\<open>putchar\<close> in the kernel: the character goes to the terminal, the argument is returned.\<close>

definition putchar :: "int \<Rightarrow> tty \<Rightarrow> (int \<times> tty) option" where
  "putchar ic t = map_option (Pair ic) (terminal_write [word_of_int ic] t)"

definition EOF :: int where "EOF = -1"

fun print :: "string \<Rightarrow> tty \<Rightarrow> (bool \<times> tty) option" where
  "print [] t = Some (True, t)"
| "print (c # s) t =
     do { (r, t1) \<leftarrow> putchar (of_char c) t; if r = EOF then Some (False, t1) else print s t1 }"

function printk_loop :: "string \<Rightarrow> arg list \<Rightarrow> nat \<Rightarrow> tty \<Rightarrow> (int \<times> tty) option" where
  "printk_loop fmt args written t =
     (if fmt = [] then Some (int written, t)
      else case printk_chunk fmt args of None \<Rightarrow> None
        | Some (s, f, args1) \<Rightarrow>
          if INT_MAX - written < length s then Some (-1, t)
          else (case print s t of None \<Rightarrow> None
            | Some (good, t1) \<Rightarrow> if good then printk_loop f args1 (written + length s) t1 else Some (-1, t1)))"
  by pat_completeness auto
termination by (relation "measure (\<lambda>(fmt, _). length fmt)") (auto dest: printk_chunk_less)

declare printk_loop.simps [simp del]

definition printk :: "string \<Rightarrow> arg list \<Rightarrow> tty \<Rightarrow> (int \<times> tty) option" where
  "printk format parameters t = printk_loop format parameters 0 t"

definition puts :: "string \<Rightarrow> tty \<Rightarrow> (int \<times> tty) option" where
  "puts s t = printk (''%s'' @ [CHR 0x0A]) [AStr s] t"

section \<open>Printing into a buffer\<close>

record snprintk_state =
  sn_buffer :: u32
  sn_position :: nat
  sn_size :: nat

definition snprintk_putchar :: "char \<Rightarrow> snprintk_state \<Rightarrow> mem \<Rightarrow> bool \<times> snprintk_state \<times> mem" where
  "snprintk_putchar c st m =
     (if sn_size st - 1 \<le> sn_position st then (False, st, m)
      else (True, st\<lparr>sn_position := sn_position st + 1\<rparr>, m(sn_buffer st + of_nat (sn_position st) := of_char c)))"

fun snprintk_print :: "string \<Rightarrow> snprintk_state \<Rightarrow> mem \<Rightarrow> bool \<times> snprintk_state \<times> mem" where
  "snprintk_print [] st m = (True, st, m)"
| "snprintk_print (c # s) st m =
     (let (good, st1, m1) = snprintk_putchar c st m in
      if good then snprintk_print s st1 m1 else (False, st1, m1))"

text \<open>The conversions of \<open>snprintk.c\<close> are copies of those above, with lower-case digits; the signed one
  takes no width.\<close>

definition utoa :: "u32 \<Rightarrow> nat \<Rightarrow> nat \<Rightarrow> string \<Rightarrow> (nat \<times> string) option" where
  "utoa value off base b = utoa_custom value off base DIGITS16 b"

definition utoa_padded :: "u32 \<Rightarrow> nat \<Rightarrow> int \<Rightarrow> char \<Rightarrow> string \<Rightarrow> (nat \<times> string) option" where
  "utoa_padded value base width pad_char b =
     do {
       (len, b1) \<leftarrow> utoa value 0 base b;
       if 0 < width \<and> len < nat width then do {
         b2 \<leftarrow> shift_digits 0 (nat width - len) len b1;
         b3 \<leftarrow> store_chars 0 (replicate (nat width - len) pad_char) b2;
         Some (nat width, b3)
       } else Some (len, b1)
     }"

definition snprintk_itoa :: "u32 \<Rightarrow> string \<Rightarrow> (nat \<times> string) option" where
  "snprintk_itoa value b =
     (if sint value < 0 then
        if value = 0x80000000 then None
        else do { b1 \<leftarrow> arr_set b 0 CHR ''-''; (len, b2) \<leftarrow> utoa (- value) 1 10 b1; Some (1 + len, b2) }
      else utoa value 0 10 b)"

definition snprintk_conv :: "string \<Rightarrow> char \<Rightarrow> nat \<Rightarrow> string \<Rightarrow> arg list \<Rightarrow> (string \<times> string \<times> arg list) option" where
  "snprintk_conv begun_at pad_char width f args =
     (case f of [] \<Rightarrow> Some (begun_at, [], args)
      | c # rest \<Rightarrow>
        if c = CHR ''c'' then conv_word (\<lambda>v. Some [u8_char (ucast v)]) rest args
        else if c = CHR ''s'' then conv_str rest args
        else if c = CHR ''d'' \<or> c = CHR ''i'' then conv_word (\<lambda>v. shown (snprintk_itoa v BUF)) rest args
        else if c = CHR ''l'' \<and> (rest = [] \<or> hd rest \<noteq> CHR ''u'') then Some (begun_at, [], args)
        else if c = CHR ''u'' \<or> c = CHR ''l'' then
          conv_word (\<lambda>v. shown (utoa_padded v 10 (int width) pad_char BUF)) (if c = CHR ''l'' then tl rest else rest) args
        else if c = CHR ''x'' then conv_word (\<lambda>v. shown (utoa v 0 16 BUF)) rest args
        else if c = CHR ''p'' then conv_word (\<lambda>v. map_option ((@) ''0x'') (shown (utoa v 0 16 BUF))) rest args
        else Some (begun_at, [], args))"

definition snprintk_chunk :: "string \<Rightarrow> arg list \<Rightarrow> (string \<times> string \<times> arg list) option" where
  "snprintk_chunk fmt args =
     (if is_literal fmt then (let (s, rest) = literal fmt in Some (s, rest, args))
      else do { (pad_char, width, f) \<leftarrow> parse_padding (tl fmt); snprintk_conv fmt pad_char width f args })"

lemma snprintk_conv_less:
  assumes "snprintk_conv z p w f args = Some (s, g, args1)"
  shows "length g \<le> length f"
proof (cases f)
  case (Cons c rest)
  have "length (if c = CHR ''l'' then tl rest else rest) \<le> Suc (length rest)" by (cases rest) auto
  then show ?thesis using assms unfolding Cons snprintk_conv_def list.case length_Cons
    by (elim if_elims) (drule conv_rest, simp only: le_SucI le_refl | simp)+
qed (use assms in \<open>simp add: snprintk_conv_def\<close>)

lemma snprintk_chunk_less:
  assumes "fmt \<noteq> []" "snprintk_chunk fmt args = Some (s, f, args1)"
  shows "length f < length fmt"
  by (rule chunk_less [where conv = snprintk_conv, OF assms(1) _ assms(2) [unfolded snprintk_chunk_def]]) (rule snprintk_conv_less)

text \<open>The overflow exit: the terminator goes after what was stored, at the end of the buffer at the
  latest.\<close>

definition snprintk_overflow :: "snprintk_state \<Rightarrow> mem \<Rightarrow> int \<times> mem" where
  "snprintk_overflow st m =
     (-1, m(sn_buffer st + of_nat (if sn_position st < sn_size st - 1 then sn_position st else sn_size st - 1) := 0))"

function snprintk_loop :: "string \<Rightarrow> arg list \<Rightarrow> nat \<Rightarrow> snprintk_state \<Rightarrow> mem \<Rightarrow> (int \<times> mem) option" where
  "snprintk_loop fmt args written st m =
     (if fmt = [] then Some (int written, m(sn_buffer st + of_nat (sn_position st) := 0))
      else case snprintk_chunk fmt args of None \<Rightarrow> None
        | Some (s, f, args1) \<Rightarrow>
          if INT_MAX - written < length s then Some (if is_literal fmt then (-1, m) else snprintk_overflow st m)
          else (case snprintk_print s st m of (good, st1, m1) \<Rightarrow>
             if good then snprintk_loop f args1 (written + length s) st1 m1 else Some (snprintk_overflow st1 m1)))"
  by pat_completeness auto
termination by (relation "measure (\<lambda>(fmt, _). length fmt)") (auto dest: snprintk_chunk_less)

declare snprintk_loop.simps [simp del]

definition snprintk :: "u32 \<Rightarrow> nat \<Rightarrow> string \<Rightarrow> arg list \<Rightarrow> mem \<Rightarrow> (int \<times> mem) option" where
  "snprintk buffer sz format parameters m =
     (if sz = 0 then Some (-1, m)
      else snprintk_loop format parameters 0 \<lparr>sn_buffer = buffer, sn_position = 0, sn_size = sz\<rparr> m)"

section \<open>Specification of the numbers\<close>

function numeral_string :: "nat \<Rightarrow> string \<Rightarrow> nat \<Rightarrow> string" where
  "numeral_string base digits n =
     (if n < base \<or> base < 2 then [digits ! n] else numeral_string base digits (n div base) @ [digits ! (n mod base)])"
  by pat_completeness auto
termination by (relation "measure (\<lambda>(base, digits, n). n)") auto

declare numeral_string.simps [simp del]

definition padded :: "int \<Rightarrow> char \<Rightarrow> string \<Rightarrow> string" where
  "padded width pad_char s = replicate (nat width - length s) pad_char @ s"

text \<open>The buffer with a string stored from an index on.\<close>

definition overwrite :: "nat \<Rightarrow> string \<Rightarrow> string \<Rightarrow> string" where
  "overwrite off s b = take off b @ s @ drop (off + length s) b"

lemma length_overwrite [simp]: "off + length s \<le> length b \<Longrightarrow> length (overwrite off s b) = length b"
  by (simp add: overwrite_def)

lemma nth_overwrite:
  "off + length s \<le> length b \<Longrightarrow> i < length b \<Longrightarrow>
    overwrite off s b ! i = (if off \<le> i \<and> i < off + length s then s ! (i - off) else b ! i)"
  by (auto simp: overwrite_def nth_append min_def)

lemma store_chars_eq:
  "cs \<noteq> [] \<Longrightarrow> store_chars off cs b = (if off + length cs \<le> length b then Some (overwrite off cs b) else None)"
proof (induction cs arbitrary: off b)
  case (Cons c cs)
  show ?case
  proof (cases "off < length b")
    case True
    have "overwrite (Suc off) cs (b[off := c]) = overwrite off (c # cs) b" if "off + length (c # cs) \<le> length b"
      using that True by (auto intro!: nth_equalityI simp: nth_overwrite nth_upd nth_Cons')
    moreover have "b[off := c] = overwrite off [c] b" using True by (simp add: overwrite_def upd_conv_take_nth_drop)
    ultimately show ?thesis using Cons True by (cases "cs = []") (auto simp: overwrite_def)
  qed (simp add: arr_set_def)
qed simp

lemma shift_digits_eq:
  assumes "0 < pad" "off + i + pad \<le> length b"
  shows "\<exists>b'. shift_digits off pad i b = Some b' \<and> length b' = length b \<and>
    (\<forall>j < length b. b' ! j = (if off + pad \<le> j \<and> j < off + pad + i then b ! (j - pad) else b ! j))"
  using assms(2)
proof (induction i arbitrary: b)
  case (Suc i)
  let ?b = "b[off + i + pad := b ! (off + i)]"
  obtain b' where b': "shift_digits off pad i ?b = Some b'" "length b' = length b"
    "\<And>j. j < length b \<Longrightarrow> b' ! j = (if off + pad \<le> j \<and> j < off + pad + i then ?b ! (j - pad) else ?b ! j)"
    using Suc.IH [of ?b] Suc.prems by auto
  have "b' ! j = (if off + pad \<le> j \<and> j < off + pad + Suc i then b ! (j - pad) else b ! j)" if "j < length b" for j
  proof -
    have "j - pad \<noteq> off + i + pad" if "j < off + pad + i" using that assms(1) by auto
    then show ?thesis using b'(3) [OF that] that Suc.prems
      by (cases "j = off + i + pad") (auto simp: nth_upd)
  qed
  then show ?case using b'(1,2) Suc.prems by simp
qed auto

lemma numeral_string_length: "0 < length (numeral_string base digits n)"
  by (subst numeral_string.simps) simp

text \<open>The digits collected in \<open>temp\<close> are those of the number, last first.\<close>

lemma temp_loop_eq:
  assumes "2 \<le> base" "base \<le> length digits" "n < base ^ k" "length temp + k \<le> 32"
  shows "temp_loop base digits n temp = Some (temp @ (if n = 0 then [] else rev (numeral_string base digits n)))"
  using assms(3,4)
proof (induction k arbitrary: n temp)
  case 0
  then show ?case by (simp add: temp_loop.simps [of _ _ 0])
next
  case (Suc k)
  show ?case
  proof (cases "n = 0")
    case False
    have "n div base < base ^ k" using Suc.prems(1) assms(1) by (simp add: less_mult_imp_div_less mult.commute)
    note IH = Suc.IH [OF this, of "temp @ [digits ! (n mod base)]"]
    have "n mod base < length digits" using assms(1,2) mod_less_divisor [of base n] by linarith
    moreover have "rev (numeral_string base digits n) = digits ! (n mod base) # (if n div base = 0 then [] else rev (numeral_string base digits (n div base)))"
      using assms(1) by (subst numeral_string.simps) (auto simp: div_eq_0_iff)
    ultimately show ?thesis using False IH Suc.prems by (subst temp_loop.simps) simp
  qed (simp add: temp_loop.simps [of _ _ 0])
qed

lemma numeral_string_le:
  "n < base ^ k \<Longrightarrow> 0 < k \<Longrightarrow> length (numeral_string base digits n) \<le> k"
proof (induction k arbitrary: n)
  case (Suc k)
  show ?case
  proof (cases "n < base \<or> base < 2")
    case False
    then have "0 < k" using Suc.prems(1) by (cases k) auto
    moreover have "n div base < base ^ k" using Suc.prems(1) False by (simp add: less_mult_imp_div_less mult.commute)
    ultimately show ?thesis using Suc.IH [of "n div base"] False by (subst numeral_string.simps) simp
  qed (subst numeral_string.simps, simp)
qed simp

lemma word_digits: "2 \<le> base \<Longrightarrow> unat (v :: u32) < base ^ 32"
  using unat_u32_less [of v] power_mono [of 2 base 32] by simp

text \<open>The conversion stores the numeral at its place, if the buffer has room for it.\<close>

lemma utoa_custom_eq:
  assumes "2 \<le> base" "base \<le> length digits" "digits ! 0 = CHR ''0''"
  shows "utoa_custom v off base digits b =
    (let s = numeral_string base digits (unat v) in if off + length s \<le> length b then Some (length s, overwrite off s b) else None)"
proof (cases "v = 0")
  case True
  then have "numeral_string base digits (unat v) = [CHR ''0'']" using assms by (simp add: numeral_string.simps)
  then show ?thesis using True store_chars_eq [of "[CHR ''0'']" off b]
    by (auto simp: utoa_custom_def Let_def arr_set_def split: if_splits)
next
  case False
  then have t: "temp_loop base digits (unat v) [] = Some (rev (numeral_string base digits (unat v)))"
    using temp_loop_eq [OF assms(1,2) word_digits [OF assms(1)], where temp = "[]"] by (simp add: unat_eq_zero)
  show ?thesis using False numeral_string_length [of base digits "unat v"]
    by (auto simp: utoa_custom_def t Let_def store_chars_eq)
qed

lemma shift_digits_None: "length b < off + i + pad \<Longrightarrow> 0 < i \<Longrightarrow> shift_digits off pad i b = None"
  by (cases i) (auto simp: arr_get_def arr_set_def)

lemma shift_fill:
  assumes "0 < pad" "off + length s + pad \<le> length b"
  shows "Option.bind (shift_digits off pad (length s) (overwrite off s b)) (store_chars off (replicate pad c)) =
    Some (overwrite off (replicate pad c @ s) b)"
proof -
  let ?b = "overwrite off s b"
  obtain b2 where b2: "shift_digits off pad (length s) ?b = Some b2" "length b2 = length b"
    "\<And>j. j < length b \<Longrightarrow> b2 ! j = (if off + pad \<le> j \<and> j < off + pad + length s then ?b ! (j - pad) else ?b ! j)"
    using shift_digits_eq [OF assms(1), of off "length s" ?b] assms(2) by auto
  have "overwrite off (replicate pad c) b2 = overwrite off (replicate pad c @ s) b"
  proof (rule nth_equalityI)
    fix j assume "j < length (overwrite off (replicate pad c) b2)"
    then have j: "j < length b" using b2(2) assms(2) by simp
    show "overwrite off (replicate pad c) b2 ! j = overwrite off (replicate pad c @ s) b ! j"
      using j b2(2,3) assms(2) by (auto simp: nth_overwrite nth_append add.commute)
  qed (use b2(2) assms(2) in simp)
  then show ?thesis using b2(1,2) assms by (simp add: store_chars_eq)
qed

text \<open>So does the padded one, with the padding in front: shifting the digits in place is safe
  because it starts at the end.\<close>

lemma utoa_padded_custom_eq:
  assumes "2 \<le> base" "base \<le> length digits" "digits ! 0 = CHR ''0''"
  shows "utoa_padded_custom v off base digits width pad_char b =
    (let s = padded width pad_char (numeral_string base digits (unat v)) in
     if off + length s \<le> length b then Some (length s, overwrite off s b) else None)"
proof -
  define s where "s = numeral_string base digits (unat v)"
  have len: "0 < length s" unfolding s_def by (rule numeral_string_length)
  note u = utoa_custom_eq [OF assms, of v off b, folded s_def, unfolded Let_def]
  show ?thesis
  proof (cases "0 < width \<and> length s < nat width")
    case True
    let ?pad = "nat width - length s"
    have ps: "padded width pad_char s = replicate ?pad pad_char @ s" "length (padded width pad_char s) = nat width"
      using True by (simp_all add: padded_def)
    show ?thesis
    proof (cases "off + nat width \<le> length b")
      case fits: True
      have "off + length s + ?pad \<le> length b" using fits True by simp
      then show ?thesis using True fits shift_fill [of ?pad off s b pad_char] ps u
        by (simp add: utoa_padded_custom_def s_def [symmetric] Let_def bind_eq_Some_conv)
    next
      case False
      then show ?thesis using True ps u len shift_digits_None [of "overwrite off s b" off "length s" ?pad]
        by (simp add: utoa_padded_custom_def s_def [symmetric] Let_def)
    qed
  next
    case False
    then have "padded width pad_char s = s" by (auto simp: padded_def)
    then show ?thesis using False u by (auto simp: utoa_padded_custom_def s_def [symmetric] Let_def)
  qed
qed

text \<open>A signed number: the sign comes before the padding.\<close>

definition int_string :: "nat \<Rightarrow> char \<Rightarrow> u32 \<Rightarrow> string" where
  "int_string width pad_char v =
     (if sint v < 0 then CHR ''-'' # padded (int width - 1) pad_char (numeral_string 10 DIGITS10 (nat (- sint v)))
      else padded (int width) pad_char (numeral_string 10 DIGITS10 (nat (sint v))))"

lemma digits_ok [simp]:
  "length DIGITS10 = 10" "length DIGITS16 = 16" "length DIGITS16_UPPER = 16"
  "DIGITS10 ! 0 = CHR ''0''" "DIGITS16 ! 0 = CHR ''0''" "DIGITS16_UPPER ! 0 = CHR ''0''"
  by (simp_all add: DIGITS10_def DIGITS16_def DIGITS16_UPPER_def)

lemma sint_cases:
  fixes v :: u32
  shows "0 \<le> sint v \<Longrightarrow> unat v = nat (sint v)" "sint v < 0 \<Longrightarrow> unat (- v) = nat (- sint v)"
proof -
  have r: "-2147483648 \<le> sint v" "sint v < 2147483648"
    using sint_greater_eq [of v] sint_lt [of v] by simp_all
  have m: "uint (word_of_int i :: u32) = i mod 4294967296" for i by (simp add: unsigned_of_int take_bit_eq_mod)
  have "uint v = sint v mod 4294967296" "uint (- v) = (- sint v) mod 4294967296"
    using m [of "sint v"] m [of "- sint v"] by simp_all
  moreover have "unat w = nat (uint w)" for w :: u32 by simp
  ultimately show "0 \<le> sint v \<Longrightarrow> unat v = nat (sint v)" "sint v < 0 \<Longrightarrow> unat (- v) = nat (- sint v)"
    using r by (simp_all only:) simp_all
qed

lemma itoa_eq:
  assumes "v \<noteq> 0x80000000" "length b = 64"
  shows "itoa v width pad_char b =
    (let s = int_string width pad_char v in if length s \<le> 64 then Some (length s, overwrite 0 s b) else None)"
proof (cases "sint v < 0")
  case True
  have "overwrite 1 s (b[0 := c]) = overwrite 0 (c # s) b" if "Suc (length s) \<le> length b" for s c
    using that assms(2) by (auto intro!: nth_equalityI simp: nth_overwrite nth_upd nth_Cons')
  then show ?thesis using True assms sint_cases(2) [OF True]
    by (auto simp: itoa_def int_string_def utoa_padded_custom_eq Let_def)
next
  case False
  then show ?thesis using assms sint_cases(1) [of v] by (simp add: itoa_def int_string_def utoa_padded_custom_eq)
qed

lemma length_BUF [simp]: "length BUF = 64"
  by (simp add: BUF_def)

lemma shown_BUF: "length s \<le> 64 \<Longrightarrow> shown (Some (length s, overwrite 0 s BUF)) = Some s"
  by (simp add: shown_def overwrite_def)

lemma length_numeral: "2 \<le> base \<Longrightarrow> length (numeral_string base digits (unat (v :: u32))) \<le> 32"
  by (rule numeral_string_le [OF word_digits]) simp_all

lemma shown_unsigned:
  assumes "2 \<le> base" "base \<le> length digits" "digits ! 0 = CHR ''0''" "width \<le> 64"
  shows "shown (utoa_padded_custom v 0 base digits (int width) pad_char BUF) = Some (padded (int width) pad_char (numeral_string base digits (unat v)))"
proof -
  let ?s = "numeral_string base digits (unat v)"
  have "length (padded (int width) pad_char ?s) \<le> 64"
    using length_numeral [OF assms(1), of digits v] assms(4) by (simp add: padded_def)
  then show ?thesis by (simp add: utoa_padded_custom_eq [OF assms(1-3)] shown_BUF Let_def)
qed

lemma shown_plain:
  assumes "2 \<le> base" "base \<le> length digits" "digits ! 0 = CHR ''0''"
  shows "shown (utoa_custom v 0 base digits BUF) = Some (numeral_string base digits (unat v))"
proof -
  have "length (numeral_string base digits (unat v)) \<le> 64"
    using length_numeral [OF assms(1), of digits v] by simp
  then show ?thesis by (simp add: utoa_custom_eq [OF assms] shown_BUF Let_def)
qed

lemma shown_signed:
  assumes "v \<noteq> 0x80000000" "width \<le> 64"
  shows "shown (itoa v width pad_char BUF) = Some (int_string width pad_char v)"
proof -
  have n: "length (numeral_string 10 DIGITS10 (unat w)) \<le> 32" for w :: u32 by (rule length_numeral) simp
  have "length (int_string width pad_char v) \<le> 64"
    using n [of v] n [of "- v"] sint_cases [of v] assms(2) by (auto simp: int_string_def padded_def)
  then show ?thesis by (simp add: itoa_eq [OF assms(1)] shown_BUF Let_def)
qed

text \<open>The copies in \<open>snprintk.c\<close> agree with those of \<open>printk.c\<close>.\<close>

lemma utoa_padded_eq: "utoa_padded v base width pad_char b = utoa_padded_custom v 0 base DIGITS16 width pad_char b"
  unfolding utoa_padded_def utoa_padded_custom_def utoa_def Let_def ..

lemma digits16_nth: "d < 10 \<Longrightarrow> DIGITS16 ! d = DIGITS10 ! d"
proof -
  assume "d < 10"
  then have "d \<in> set [0, 1, 2, 3, 4, 5, 6, 7, 8, 9]" by auto
  then show ?thesis by (auto simp: DIGITS10_def DIGITS16_def)
qed

lemma numeral_digits16: "numeral_string 10 DIGITS16 n = numeral_string 10 DIGITS10 n"
proof (induction n rule: less_induct)
  case (less n)
  then show ?case
    by (cases "n < 10") (simp_all add: digits16_nth numeral_string.simps [of 10 _ n])
qed

lemma shown_snprintk_itoa:
  assumes "v \<noteq> 0x80000000"
  shows "shown (snprintk_itoa v BUF) = Some (int_string 0 pad_char v)"
proof (cases "sint v < 0")
  case True
  let ?s = "numeral_string 10 DIGITS10 (nat (- sint v))"
  have l: "length ?s \<le> 32" using length_numeral [of 10 DIGITS10 "- v"] sint_cases(2) [OF True] by simp
  have "overwrite 1 ?s (BUF[0 := CHR ''-'']) = overwrite 0 (CHR ''-'' # ?s) BUF"
    using l by (auto intro!: nth_equalityI simp: nth_overwrite nth_upd nth_Cons')
  then have "snprintk_itoa v BUF = Some (length (CHR ''-'' # ?s), overwrite 0 (CHR ''-'' # ?s) BUF)"
    using True assms l sint_cases(2) [OF True] by (simp add: snprintk_itoa_def utoa_def utoa_custom_eq numeral_digits16 Let_def)
  moreover have "int_string 0 pad_char v = CHR ''-'' # ?s" using True by (simp add: int_string_def padded_def)
  moreover have "length (CHR ''-'' # ?s) \<le> 64" using l by simp
  ultimately show ?thesis using shown_BUF [of "CHR ''-'' # ?s"] by (simp only:)
next
  case False
  then show ?thesis using shown_plain [of 10 DIGITS16 v] sint_cases(1) [of v]
    by (simp add: snprintk_itoa_def utoa_def int_string_def padded_def numeral_digits16)
qed

end
