(* ===== verification/Format_Spec.thy ===== *)
theory Format_Spec
  imports Format
begin

text \<open>
  What \<open>printk\<close> and \<open>snprintk\<close> print. A format string is the text of a list of pieces, literal
  characters and conversions; the meaning of the pieces on the arguments is a string, and both
  functions deliver that string, one on the terminal, the other in a buffer as far as it goes.
  What the two share, reading the format string piece by piece, is proved once, in the locale
  \<open>formatter\<close>.
\<close>

section \<open>Pieces\<close>

datatype conv = Cchar | Cstring | Csigned | Cunsigned | Chex | CHEX | Clong | Clonghex | ClongHEX | Cpointer

fun conv_text :: "conv \<Rightarrow> string" where
  "conv_text Cchar = ''c''"
| "conv_text Cstring = ''s''"
| "conv_text Csigned = ''d''"
| "conv_text Cunsigned = ''u''"
| "conv_text Chex = ''x''"
| "conv_text CHEX = ''X''"
| "conv_text Clong = ''lu''"
| "conv_text Clonghex = ''lx''"
| "conv_text ClongHEX = ''lX''"
| "conv_text Cpointer = ''p''"

text \<open>A conversion has a flag for zero padding and a width; the width 0 is not written.\<close>

datatype piece = Lit char | Conv bool nat conv

fun piece_text :: "piece \<Rightarrow> string" where
  "piece_text (Lit c) = (if c = CHR ''%'' then ''%%'' else [c])"
| "piece_text (Conv zero width cv) =
     ''%'' @ (if zero then ''0'' else []) @ (if width = 0 then [] else numeral_string 10 DIGITS10 width) @ conv_text cv"

definition format_text :: "piece list \<Rightarrow> string" where
  "format_text ps = concat (map piece_text ps)"

fun meaning :: "(char \<Rightarrow> nat \<Rightarrow> conv \<Rightarrow> arg \<Rightarrow> string option) \<Rightarrow> piece list \<Rightarrow> arg list \<Rightarrow> string option" where
  "meaning out [] args = Some []"
| "meaning out (Lit c # ps) args = map_option (Cons c) (meaning out ps args)"
| "meaning out (Conv zero width cv # ps) [] = None"
| "meaning out (Conv zero width cv # ps) (a # args) =
     do { s \<leftarrow> out (if zero then CHR ''0'' else CHR '' '') width cv a; t \<leftarrow> meaning out ps args; Some (s @ t) }"

text \<open>What a conversion of \<open>printk\<close> prints. A width of more than 64 does not fit the buffer and
  \<open>INT_MIN\<close> has no negation.\<close>

fun printk_out :: "char \<Rightarrow> nat \<Rightarrow> conv \<Rightarrow> arg \<Rightarrow> string option" where
  "printk_out pad w Cstring (AStr s) = (if w \<le> 64 then Some s else None)"
| "printk_out pad w cv (AStr s) = None"
| "printk_out pad w cv (AWord v) =
     (if 64 < w then None
      else case cv of
        Cchar \<Rightarrow> Some [u8_char (ucast v)]
      | Cstring \<Rightarrow> None
      | Csigned \<Rightarrow> if v = 0x80000000 then None else Some (int_string w pad v)
      | Cunsigned \<Rightarrow> Some (padded (int w) pad (numeral_string 10 DIGITS10 (unat v)))
      | Clong \<Rightarrow> Some (padded (int w) pad (numeral_string 10 DIGITS10 (unat v)))
      | Chex \<Rightarrow> Some (padded (int w) pad (numeral_string 16 DIGITS16 (unat v)))
      | Clonghex \<Rightarrow> Some (padded (int w) pad (numeral_string 16 DIGITS16 (unat v)))
      | CHEX \<Rightarrow> Some (padded (int w) pad (numeral_string 16 DIGITS16_UPPER (unat v)))
      | ClongHEX \<Rightarrow> Some (padded (int w) pad (numeral_string 16 DIGITS16_UPPER (unat v)))
      | Cpointer \<Rightarrow> Some (''0x'' @ numeral_string 16 DIGITS16 (unat v)))"

text \<open>\<open>snprintk\<close> pads \<open>%u\<close> and \<open>%lu\<close> only and has no other long or upper-case conversion.\<close>

fun snprintk_out :: "char \<Rightarrow> nat \<Rightarrow> conv \<Rightarrow> arg \<Rightarrow> string option" where
  "snprintk_out pad w cv a =
     (if cv \<in> {Cunsigned, Clong} then printk_out pad w cv a
      else if cv \<in> {CHEX, Clonghex, ClongHEX} \<or> 64 < w then None
      else printk_out pad 0 cv a)"

section \<open>Reading a format string\<close>

text \<open>All that the rounds of a loop print.\<close>

function render :: "(string \<Rightarrow> arg list \<Rightarrow> (string \<times> string \<times> arg list) option) \<Rightarrow> string \<Rightarrow> arg list \<Rightarrow> string option" where
  "render chunk fmt args =
     (if fmt = [] then Some []
      else case chunk fmt args of None \<Rightarrow> None
        | Some (s, f, args1) \<Rightarrow> if length f < length fmt then map_option ((@) s) (render chunk f args1) else None)"
  by pat_completeness auto
termination by (relation "measure (\<lambda>(chunk, fmt, args). length fmt)") auto

declare render.simps [simp del]

lemma render_Nil [simp]: "render chunk [] args = Some []"
  by (simp add: render.simps)

locale formatter =
  fixes chunk :: "string \<Rightarrow> arg list \<Rightarrow> (string \<times> string \<times> arg list) option"
    and out :: "char \<Rightarrow> nat \<Rightarrow> conv \<Rightarrow> arg \<Rightarrow> string option"
  assumes chunk_shorter: "fmt \<noteq> [] \<Longrightarrow> chunk fmt args = Some (s, f, args1) \<Longrightarrow> length f < length fmt"
    and chunk_literal: "fmt \<noteq> [] \<Longrightarrow> is_literal fmt \<Longrightarrow> chunk fmt args = Some (fst (literal fmt), snd (literal fmt), args)"
    and chunk_conv: "out (if zero then CHR ''0'' else CHR '' '') w cv a = Some s \<Longrightarrow>
          chunk (piece_text (Conv zero w cv) @ rest) (a # args) = Some (s, rest, args)"
begin

lemma render_chunk:
  "fmt \<noteq> [] \<Longrightarrow> chunk fmt args = Some (s, f, args1) \<Longrightarrow> render chunk fmt args = map_option ((@) s) (render chunk f args1)"
  using chunk_shorter by (subst render.simps) simp

lemma render_lit: "render chunk (piece_text (Lit c) @ rest) args = map_option (Cons c) (render chunk rest args)"
proof -
  have f: "is_literal (piece_text (Lit c) @ rest)"
    "literal (piece_text (Lit c) @ rest) = (c # takeWhile (\<lambda>c. c \<noteq> CHR ''%'') rest, dropWhile (\<lambda>c. c \<noteq> CHR ''%'') rest)"
    by (simp_all add: is_literal_def literal_def)
  note l = render_chunk [OF _ chunk_literal [OF _ f(1)], unfolded f(2) fst_conv snd_conv]
  show ?thesis
  proof (cases "rest = [] \<or> hd rest = CHR ''%''")
    case True
    then have "takeWhile (\<lambda>c. c \<noteq> CHR ''%'') rest = []" "dropWhile (\<lambda>c. c \<noteq> CHR ''%'') rest = rest" by (cases rest; simp)+
    then show ?thesis using l by (simp add: append_Cons [abs_def])
  next
    case False
    then have r: "rest \<noteq> []" "is_literal rest" "hd rest \<noteq> CHR ''%''" by (simp_all add: is_literal_def)
    then have "literal rest = (takeWhile (\<lambda>c. c \<noteq> CHR ''%'') rest, dropWhile (\<lambda>c. c \<noteq> CHR ''%'') rest)"
      by (cases rest) (simp_all add: literal_def)
    then show ?thesis using l render_chunk [OF r(1) chunk_literal [OF r(1,2)]]
      by (cases "render chunk (dropWhile (\<lambda>c. c \<noteq> CHR ''%'') rest) args") simp_all
  qed
qed

lemma render_meaning: "meaning out ps args = Some s \<Longrightarrow> render chunk (format_text ps) args = Some s"
proof (induction ps arbitrary: args s)
  case (Cons p ps)
  have ft: "format_text (p # ps) = piece_text p @ format_text ps" by (simp add: format_text_def)
  show ?case
  proof (cases p)
    case (Lit c)
    then show ?thesis using Cons render_lit [of c "format_text ps" args] unfolding ft by (auto simp del: piece_text.simps)
  next
    case (Conv zero width cv)
    then obtain a args1 u t where u: "args = a # args1" "out (if zero then CHR ''0'' else CHR '' '') width cv a = Some u"
      "meaning out ps args1 = Some t" "s = u @ t"
      using Cons.prems by (cases args) (auto simp: bind_eq_Some_conv)
    have "piece_text p \<noteq> []" using Conv by simp
    then show ?thesis using render_chunk [OF _ chunk_conv [OF u(2), of "format_text ps" args1]] Cons.IH [OF u(3)] u(1,4) Conv
      unfolding ft by (simp del: piece_text.simps)
  qed
qed (simp add: format_text_def)

end

section \<open>Numbers are read back\<close>

lemma digit_char: "d < 10 \<Longrightarrow> (of_char (DIGITS10 ! d) :: nat) = 48 + d"
proof -
  assume "d < 10"
  then have "d \<in> set [0, 1, 2, 3, 4, 5, 6, 7, 8, 9]" by auto
  then show ?thesis by (auto simp: DIGITS10_def)
qed

lemma parse_width_digit:
  "d < 10 \<Longrightarrow> w * 10 + d \<le> INT_MAX \<Longrightarrow> parse_width w (DIGITS10 ! d # s) = parse_width (w * 10 + d) s"
  by (simp add: digit_char)

lemma parse_width_numeral:
  "acc * 10 ^ length (numeral_string 10 DIGITS10 n) + n \<le> INT_MAX \<Longrightarrow>
   parse_width acc (numeral_string 10 DIGITS10 n @ rest) = parse_width (acc * 10 ^ length (numeral_string 10 DIGITS10 n) + n) rest"
proof (induction n arbitrary: rest rule: less_induct)
  case (less n)
  show ?case
  proof (cases "n < 10")
    case True
    then have "numeral_string 10 DIGITS10 n = [DIGITS10 ! n]" by (simp add: numeral_string.simps)
    then show ?thesis using less.prems True parse_width_digit [of n acc rest] by simp
  next
    case False
    let ?q = "numeral_string 10 DIGITS10 (n div 10)" and ?v = "acc * 10 ^ length (numeral_string 10 DIGITS10 (n div 10)) + n div 10"
    have s: "numeral_string 10 DIGITS10 n = ?q @ [DIGITS10 ! (n mod 10)]" using False by (subst numeral_string.simps) simp
    have v: "?v * 10 + n mod 10 = acc * 10 ^ length (numeral_string 10 DIGITS10 n) + n" unfolding s by simp
    have le: "?v * 10 + n mod 10 \<le> INT_MAX" using less.prems unfolding v .
    have "?v \<le> INT_MAX" by (rule order_trans [OF _ le]) simp
    moreover have "n div 10 < n" using False by simp
    ultimately have "parse_width acc (?q @ DIGITS10 ! (n mod 10) # rest) = parse_width ?v (DIGITS10 ! (n mod 10) # rest)"
      by (rule less.IH [rotated])
    also have "\<dots> = parse_width (?v * 10 + n mod 10) rest" by (rule parse_width_digit [OF _ le]) simp
    finally have "parse_width acc (?q @ DIGITS10 ! (n mod 10) # rest) =
        parse_width (acc * 10 ^ length (numeral_string 10 DIGITS10 n) + n) rest" unfolding v .
    moreover have "numeral_string 10 DIGITS10 n @ rest = ?q @ DIGITS10 ! (n mod 10) # rest" using s by simp
    ultimately show ?thesis by (simp only:)
  qed
qed

lemma numeral_string_hd: "0 < n \<Longrightarrow> numeral_string 10 DIGITS10 n = DIGITS10 ! d # s \<Longrightarrow> d < 10 \<Longrightarrow> d \<noteq> 0"
proof (induction n arbitrary: d s rule: less_induct)
  case (less n)
  show ?case
  proof (cases "n < 10")
    case True
    then have "numeral_string 10 DIGITS10 n = [DIGITS10 ! n]" by (simp add: numeral_string.simps)
    then have "DIGITS10 ! n = DIGITS10 ! d" using less.prems(2) by simp
    then have "48 + n = 48 + d" using digit_char [OF True] digit_char [OF less.prems(3)] by metis
    then show ?thesis using less.prems(1) by simp
  next
    case False
    then have "numeral_string 10 DIGITS10 n = numeral_string 10 DIGITS10 (n div 10) @ [DIGITS10 ! (n mod 10)]"
      by (subst numeral_string.simps) simp
    then have s: "DIGITS10 ! d # s = numeral_string 10 DIGITS10 (n div 10) @ [DIGITS10 ! (n mod 10)]" using less.prems(2) by simp
    have "numeral_string 10 DIGITS10 (n div 10) \<noteq> []" using numeral_string_length by (metis length_greater_0_conv)
    then obtain s1 where "numeral_string 10 DIGITS10 (n div 10) = DIGITS10 ! d # s1"
      using s by (metis append_eq_Cons_conv)
    then show ?thesis using less.IH [of "n div 10" d s1] False less.prems(3) by simp
  qed
qed

lemma numeral_string_Cons: "\<exists>d s. d < 10 \<and> numeral_string 10 DIGITS10 n = DIGITS10 ! d # s"
proof (induction n rule: less_induct)
  case (less n)
  show ?case
  proof (cases "n < 10")
    case False
    then show ?thesis using less.IH [of "n div 10"] by (subst numeral_string.simps) auto
  qed (auto simp: numeral_string.simps)
qed

text \<open>The flag and the width of a conversion are read back from its text.\<close>

lemma conv_text_Cons: "\<exists>c s. conv_text cv = c # s \<and> \<not> (48 \<le> (of_char c :: nat) \<and> (of_char c :: nat) \<le> 57) \<and> c \<noteq> CHR ''%''"
  by (cases cv) auto

lemma parse_piece:
  assumes "w \<le> INT_MAX"
  shows "parse_padding (tl (piece_text (Conv zero w cv)) @ rest) = Some (if zero then CHR ''0'' else CHR '' '', w, conv_text cv @ rest)"
    "\<not> is_literal (piece_text (Conv zero w cv) @ rest)"
proof -
  obtain c s where c: "conv_text cv = c # s" "\<not> (48 \<le> (of_char c :: nat) \<and> (of_char c :: nat) \<le> 57)" "c \<noteq> CHR ''%''"
    using conv_text_Cons by blast
  have stop: "parse_width w (conv_text cv @ rest) = Some (w, conv_text cv @ rest)" unfolding c(1) using c(2) by auto
  have num: "parse_width 0 (numeral_string 10 DIGITS10 w @ conv_text cv @ rest) = Some (w, conv_text cv @ rest)"
    using parse_width_numeral [of 0 w "conv_text cv @ rest"] assms stop by simp
  obtain d u where d: "d < 10" "numeral_string 10 DIGITS10 w = DIGITS10 ! d # u" using numeral_string_Cons by blast
  have "DIGITS10 ! d \<noteq> CHR ''%''" using digit_char [OF d(1)] by auto
  moreover have "DIGITS10 ! d \<noteq> CHR ''0''" if "0 < w" using numeral_string_hd [OF that d(2,1)] digit_char [OF d(1)] by auto
  moreover have "c \<noteq> CHR ''0''" using c(2) by auto
  ultimately show "parse_padding (tl (piece_text (Conv zero w cv)) @ rest) = Some (if zero then CHR ''0'' else CHR '' '', w, conv_text cv @ rest)"
    "\<not> is_literal (piece_text (Conv zero w cv) @ rest)"
    using num stop c d by (auto simp: parse_padding_def is_literal_def simp del: parse_width.simps)
qed

section \<open>Both formatters are formatters\<close>

lemma INT_MAX_64: "w \<le> 64 \<Longrightarrow> w \<le> INT_MAX"
  by (simp add: INT_MAX_def)

lemma piece_text_Conv: "piece_text (Conv zero w cv) @ rest = CHR ''%'' # (tl (piece_text (Conv zero w cv)) @ rest)"
  by simp

lemma conv_word_eq [simp]: "conv_word f rest (AWord v # args) = map_option (\<lambda>s. (s, rest, args)) (f v)"
  by (cases "f v") (simp_all add: conv_word_def)

lemma conv_str_eq [simp]: "conv_str rest (AStr s # args) = Some (s, rest, args)"
  by (simp add: conv_str_def)

lemmas shown_hex = shown_unsigned [of 16 DIGITS16, simplified] shown_unsigned [of 16 DIGITS16_UPPER, simplified]
lemmas shown_dec = shown_unsigned [of 10 DIGITS10, simplified]
lemmas shown_ptr = shown_plain [of 16 DIGITS16, simplified]

interpretation printk: formatter printk_chunk printk_out
proof unfold_locales
  fix zero w cv a s rest args
  let ?pad = "if zero then CHR ''0'' else CHR '' ''"
  assume o: "printk_out ?pad w cv a = Some s"
  then have w: "w \<le> 64" by (cases a; cases cv) (auto split: if_split_asm)
  have "printk_conv fmt ?pad w (conv_text cv @ rest) (a # args) = Some (s, rest, args)" for fmt
    using o w by (cases a; cases cv)
      (simp_all add: printk_conv_def printk_long_def ultoa_padded_custom_def ultoa_custom_def shown_hex shown_dec shown_ptr shown_signed
        hex_digits_def split: if_split_asm)
  then show "printk_chunk (piece_text (Conv zero w cv) @ rest) (a # args) = Some (s, rest, args)"
    using parse_piece [OF INT_MAX_64 [OF w], of zero cv rest] by (subst piece_text_Conv) (simp add: printk_chunk_def)
qed (simp_all add: printk_chunk_def printk_chunk_less split: prod.splits)

interpretation snprintk: formatter snprintk_chunk snprintk_out
proof unfold_locales
  fix zero w cv a s rest args
  let ?pad = "if zero then CHR ''0'' else CHR '' ''"
  assume o: "snprintk_out ?pad w cv a = Some s"
  then have w: "w \<le> 64" by (cases a; cases cv) (auto split: if_split_asm)
  have "snprintk_conv fmt ?pad w (conv_text cv @ rest) (a # args) = Some (s, rest, args)" for fmt
    using o w by (cases a; cases cv)
      (simp_all add: snprintk_conv_def utoa_padded_eq utoa_def shown_unsigned shown_ptr shown_snprintk_itoa [of _ "CHR '' ''"] int_string_def numeral_digits16 padded_def
        split: if_split_asm)
  then show "snprintk_chunk (piece_text (Conv zero w cv) @ rest) (a # args) = Some (s, rest, args)"
    using parse_piece [OF INT_MAX_64 [OF w], of zero cv rest] by (subst piece_text_Conv) (simp add: snprintk_chunk_def)
qed (simp_all add: snprintk_chunk_def snprintk_chunk_less split: prod.splits)

section \<open>On the terminal\<close>

lemma putchar_char: "putchar (of_char c) t = map_option (Pair (of_char c)) (terminal_write [of_char c] t)"
proof -
  have "(word_of_int (of_char c) :: u8) = of_char c" by (metis of_int_of_char)
  then show ?thesis by (simp add: putchar_def)
qed

text \<open>A character is never \<open>EOF\<close>, so \<open>print\<close> does not fail.\<close>

lemma print_eq: "print s t = map_option (Pair True) (terminal_write (map of_char s) t)"
proof (induction s arbitrary: t)
  case (Cons c s)
  have "(of_char c :: int) \<noteq> EOF"
  proof -
    have "0 \<le> (of_char c :: int)" by (metis of_nat_0_le_iff of_nat_of_char)
    then show ?thesis by (simp add: EOF_def)
  qed
  then show ?case
    by (cases "terminal_putchar (of_char c) t") (simp_all add: putchar_char Cons terminal_write_def)
qed (simp add: terminal_write_def)

lemma terminal_write_append: "terminal_write (a @ b) t = Option.bind (terminal_write a t) (terminal_write b)"
  unfolding terminal_write_def by (induction a arbitrary: t) (auto split: bind_splits)

lemma printk_loop_render:
  assumes "render printk_chunk fmt args = Some s" "written + length s \<le> INT_MAX"
  shows "printk_loop fmt args written t = map_option (Pair (int (written + length s))) (terminal_write (map of_char s) t)"
  using assms
proof (induction fmt args written t arbitrary: s rule: printk_loop.induct)
  case (1 fmt args written t)
  show ?case
  proof (cases "fmt = []")
    case True
    then show ?thesis using 1(2) by (simp add: printk_loop.simps [of "[]"] terminal_write_def)
  next
    case False
    then obtain u f args1 where c: "printk_chunk fmt args = Some (u, f, args1)"
      using 1(2) by (subst (asm) render.simps) (auto split: option.splits)
    then obtain v where v: "render printk_chunk f args1 = Some v" "s = u @ v"
      using 1(2) printk.render_chunk [OF False c] by auto
    have n: "\<not> INT_MAX - written < length u" using 1(3) v(2) by simp
    show ?thesis
    proof (cases "terminal_write (map of_char u) t")
      case None
      then show ?thesis using False c n v(2) by (subst printk_loop.simps) (simp add: print_eq terminal_write_append)
    next
      case (Some t1)
      then have "printk_loop f args1 (written + length u) t1 =
          map_option (Pair (int (written + length u + length v))) (terminal_write (map of_char v) t1)"
        using 1(1) [OF False c refl refl n _ refl _ v(1)] 1(3) v(2) by (simp add: print_eq)
      then show ?thesis using False c n v(2) Some by (subst printk_loop.simps) (simp add: print_eq terminal_write_append add.assoc)
    qed
  qed
qed

section \<open>In a buffer\<close>

lemma snprintk_print_eq:
  assumes "length p \<le> n" "n < 2 ^ 32"
  shows "snprintk_print s \<lparr>sn_buffer = a, sn_position = length p, sn_size = Suc n\<rparr> (write_bytes m a (map of_char p)) =
    (length p + length s \<le> n, \<lparr>sn_buffer = a, sn_position = length (take n (p @ s)), sn_size = Suc n\<rparr>,
     write_bytes m a (map of_char (take n (p @ s))))"
  using assms(1)
proof (induction s arbitrary: p)
  case (Cons c s)
  show ?case
  proof (cases "length p < n")
    case True
    then have "(write_bytes m a (map of_char p))(a + of_nat (length p) := of_char c) = write_bytes m a (map of_char (p @ [c]))"
      using assms(2) write_bytes_snoc [of "map of_char p" m a "of_char c"] by simp
    then show ?thesis using True Cons.IH [of "p @ [c]"] by (simp add: snprintk_putchar_def del: fun_upd_apply)
  next
    case False
    then have "length p = n" using Cons.prems by simp
    then show ?thesis by (simp add: snprintk_putchar_def)
  qed
qed simp

lemma snprintk_loop_render:
  assumes "render snprintk_chunk fmt args = Some s" "written + length s \<le> INT_MAX" "written = length p" "length p \<le> n" "n < 2 ^ 32 - 1"
  shows "snprintk_loop fmt args written \<lparr>sn_buffer = a, sn_position = length p, sn_size = Suc n\<rparr> (write_bytes m a (map of_char p)) =
    Some (if length (p @ s) \<le> n then int (length (p @ s)) else -1, write_bytes m a (map of_char (take n (p @ s)) @ [0]))"
  using assms
proof (induction "length fmt" arbitrary: fmt args written s p rule: less_induct)
  case less
  have n: "n < 2 ^ 32" "length (take n q) < 2 ^ 32 - 1" for q :: string using less.prems(5) by auto
  have nul: "(write_bytes m a (map of_char q))(a + of_nat (length q) := 0) = write_bytes m a (map of_char q @ [0])"
    if "length q \<le> n" for q using write_bytes_snoc [of "map of_char q" m a 0] that n(1) by simp
  show ?case
  proof (cases "fmt = []")
    case True
    then show ?thesis using less.prems nul [of p] by (simp add: snprintk_loop.simps [of "[]"])
  next
    case False
    then obtain u f args1 where c: "snprintk_chunk fmt args = Some (u, f, args1)"
      using less.prems(1) by (subst (asm) render.simps) (auto split: option.splits)
    then obtain v where v: "render snprintk_chunk f args1 = Some v" "s = u @ v"
      using less.prems(1) snprintk.render_chunk [OF False c] by auto
    have w: "\<not> INT_MAX - written < length u" using less.prems(2) v(2) by simp
    note pr = snprintk_print_eq [OF less.prems(4) n(1), of u a m]
    show ?thesis
    proof (cases "length p + length u \<le> n")
      case True
      then have "take n (p @ u) = p @ u" by simp
      moreover have "written + length u + length v \<le> INT_MAX" "written + length u = length (p @ u)" "length (p @ u) \<le> n"
        using less.prems(2,3) v(2) True by simp_all
      ultimately show ?thesis using less.hyps [OF snprintk_chunk_less [OF False c] v(1), of "written + length u" "p @ u"]
          less.prems(5) False c w pr True v(2) by (subst snprintk_loop.simps) simp
    next
      case full: False
      then have "take n (p @ s) = take n (p @ u)" "length (take n (p @ u)) = n" "\<not> length (p @ s) \<le> n" using v(2) by simp_all
      then show ?thesis using False c w pr full nul [of "take n (p @ u)"]
        by (subst snprintk_loop.simps) (simp add: snprintk_overflow_def)
    qed
  qed
qed

section \<open>Properties\<close>

lemma printk_spec:
  assumes "meaning printk_out ps args = Some s" "length s \<le> INT_MAX" "tty_inv t"
  shows "\<exists>t'. printk (format_text ps) args t = Some (int (length s), t') \<and>
    terminal_write (map of_char s) t = Some t' \<and> tty_inv t'"
proof -
  obtain t' where "terminal_write (map of_char s) t = Some t'" "tty_inv t'"
    using ttym.run_ok [of "map of_char s" t] assms(3) by (auto simp: list_all_iff terminal_write_def)
  then show ?thesis
    using printk_loop_render [OF printk.render_meaning [OF assms(1)], of 0 t] assms(2) by (simp add: printk_def)
qed

text \<open>C36: \<open>printk\<close> prints what its format string means: for a format string that is the text of literal
  characters and conversions (\<open>%c %s %d %u %x %X %lu %lx %lX %p\<close>, with an optional zero flag and
  width of at most 64), and arguments that fit it, the string that the conversions give goes to
  the terminal character by character and its length is returned. Numbers are converted in place
  in a buffer of 64 characters, which no conversion leaves.\<close>

theorem printk_correct:
  assumes "meaning printk_out ps args = Some s" "length s \<le> INT_MAX" "tty_inv t"
  shows "\<exists>t'. printk (format_text ps) args t = Some (int (length s), t') \<and>
    terminal_write (map of_char s) t = Some t' \<and> tty_inv t'"
  by (rule printk_spec [OF assms])


lemma numeral_small: "n < base \<Longrightarrow> numeral_string base digits n = [digits ! n]"
  by (simp add: numeral_string.simps)

lemma numeral_big: "base \<le> n \<Longrightarrow> 2 \<le> base \<Longrightarrow> numeral_string base digits n = numeral_string base digits (n div base) @ [digits ! (n mod base)]"
  by (subst numeral_string.simps) simp

lemma replicate_num: "replicate (numeral k) x = x # replicate (pred_numeral k) x"
  by (simp add: numeral_eq_Suc)

text \<open>The text and the meaning of \<open>"pid %u at 0x%08x"\<close>.\<close>

definition demo_pieces :: "piece list" where
  "demo_pieces = map Lit ''pid '' @ [Conv False 0 Cunsigned] @ map Lit '' at 0x'' @ [Conv True 8 Chex]"

definition demo_args :: "arg list" where "demo_args = [AWord 27, AWord 0xBEEF]"

lemma demo_pieces:
  "format_text demo_pieces = ''pid %u at 0x%08x''"
  "meaning printk_out demo_pieces demo_args = Some ''pid 27 at 0x0000beef''"
  by (simp_all add: demo_pieces_def demo_args_def format_text_def padded_def numeral_small numeral_big replicate_num DIGITS10_def DIGITS16_def)

theorem printk_correct_witness:
  "\<exists>t'. printk ''pid %u at 0x%08x'' demo_args \<lparr>terminal_row = 24, terminal_column = 70, terminal_color = 7,
      terminal_buffer = replicate 2000 0\<rparr> = Some (20, t') \<and> tty_inv t'"
  using printk_correct [OF demo_pieces(2), of "\<lparr>terminal_row = 24, terminal_column = 70, terminal_color = 7, terminal_buffer = replicate 2000 0\<rparr>"]
  by (auto simp: demo_pieces INT_MAX_def tty_inv_def VGA_HEIGHT_def VGA_WIDTH_def)


text \<open>A width of 65 or more overruns the 64 characters of \<open>buf\<close>, whatever the number: the digits are
  shifted past its end before the padding is stored.\<close>

theorem printk_width_overrun:
  "utoa_padded_custom v 0 10 DIGITS10 65 CHR '' '' BUF = None"
  by (simp add: utoa_padded_custom_eq padded_def Let_def)

text \<open>The sign of a number is printed before the padding, so a negative number padded with spaces has
  them between the sign and its digits; and only \<open>printk\<close> pads a signed number at all.\<close>

theorem printk_sign_before_padding:
  "meaning printk_out [Conv False 5 Csigned] [AWord (- 5)] = Some ''-   5'' \<and>
   meaning snprintk_out [Conv False 5 Csigned] [AWord (- 5)] = Some ''-5''"
  by (simp add: int_string_def padded_def numeral_small replicate_num DIGITS10_def)

end
