(* ===== verification/Ramfs_Ls.thy ===== *)
theory Ramfs_Ls
  imports Ramfs_Spec Format_Spec
begin

text \<open>
  The operations of \<open>kernel/kernel/ramfs.c\<close> that print: \<open>ramfs_ls\<close> and \<open>ramfs_format\<close>. They put
  the file system and formatted output together.
\<close>

section \<open>Listing a directory\<close>

abbreviation newline :: string where "newline \<equiv> [CHR 0x0A]"

text \<open>\<open>printk\<close> for its effect.\<close>

definition printed :: "string \<Rightarrow> arg list \<Rightarrow> tty \<Rightarrow> tty option" where
  "printed fmt args t = map_option snd (printk fmt args t)"

text \<open>One round of the loop. The source compares the pointers \<open>type == "DIR"\<close> of string literals that
  the compiler merges; the model branches on the type they stand for.\<close>

definition ls_entry :: "u32 \<Rightarrow> ramfs_inode \<Rightarrow> tty \<Rightarrow> tty option" where
  "ls_entry dir_ino i t =
     (if i_ino i \<noteq> 0 \<and> i_parent_ino i = dir_ino then
        (if i_type i = RAMFS_TYPE_DIR then printed (''  %s/'' @ newline) [AStr (i_name i)] t
         else printed (''  %s (%lu bytes)'' @ newline) [AStr (i_name i), AWord (i_size i)] t)
      else Some t)"

definition ramfs_ls :: "string option \<Rightarrow> ramfs \<Rightarrow> tty \<Rightarrow> tty option" where
  "ramfs_ls path s t =
     (case ramfs_find_inode path s of
        None \<Rightarrow> printed (''[ramfs] directory not found'' @ newline) [] t
      | Some k \<Rightarrow>
          if i_type (inodes s ! k) \<noteq> RAMFS_TYPE_DIR then printed (''[ramfs] not a directory'' @ newline) [] t
          else run_ops (ls_entry (i_ino (inodes s ! k))) (inodes s) t)"

text \<open>The end of \<open>ramfs_init\<close>, and \<open>ramfs_format\<close>.\<close>

definition ramfs_init_report :: "tty \<Rightarrow> tty option" where
  "ramfs_init_report t = printed (''[ramfs] initialized (root inode: %lu)'' @ newline) [AWord ramfs_root_ino] t"

definition ramfs_format :: "(string \<Rightarrow> u8 list) \<Rightarrow> ramfs \<Rightarrow> tty \<Rightarrow> (ramfs \<times> tty) option" where
  "ramfs_format elf s t =
     do {
       s1 \<leftarrow> ramfs_init elf s;
       t1 \<leftarrow> ramfs_init_report t;
       t2 \<leftarrow> printed (''[ramfs] formatted'' @ newline) [] t1;
       Some (s1, t2)
     }"

section \<open>What is listed\<close>

text \<open>A text without percent signs is its own format string.\<close>

lemma format_text_plain: "CHR ''%'' \<notin> set s \<Longrightarrow> format_text (map Lit s) = s"
  by (induction s) (auto simp: format_text_def)

lemma meaning_plain: "meaning out (map Lit s @ ps) args = map_option ((@) s) (meaning out ps args)"
  by (induction s) (simp_all add: option.map_comp comp_def option.map_ident)

lemma format_text_append: "format_text (ps @ qs) = format_text ps @ format_text qs"
  by (simp add: format_text_def)

lemma printk_plain:
  assumes "CHR ''%'' \<notin> set s" "length s \<le> INT_MAX" "tty_inv t"
  shows "\<exists>t'. printed s [] t = Some t' \<and> terminal_write (map of_char s) t = Some t' \<and> tty_inv t'"
  using printk_spec [of "map Lit s" "[]" s t] assms meaning_plain [of printk_out s "[]" "[]"]
  by (auto simp: printed_def format_text_plain)

lemma printed_ok:
  assumes "meaning printk_out ps args = Some s" "length s \<le> INT_MAX" "tty_inv t" "format_text ps = fmt"
  shows "\<exists>t'. printed fmt args t = Some t' \<and> terminal_write (map of_char s) t = Some t' \<and> tty_inv t'"
  using printk_spec [OF assms(1-3)] assms(4) by (auto simp: printed_def)

lemma ramfs_init_report_ok: "tty_inv t \<Longrightarrow> \<exists>t'. ramfs_init_report t = Some t' \<and> tty_inv t'"
proof -
  assume t: "tty_inv t"
  let ?ps = "map Lit ''[ramfs] initialized (root inode: '' @ [Conv False 0 Clong] @ map Lit ('')'' @ newline)"
  let ?s = "''[ramfs] initialized (root inode: '' @ numeral_string 10 DIGITS10 (unat ramfs_root_ino) @ '')'' @ newline"
  have m: "meaning printk_out ?ps [AWord ramfs_root_ino] = Some ?s"
    "format_text ?ps = ''[ramfs] initialized (root inode: %lu)'' @ newline"
    by (simp_all add: format_text_def padded_def)
  have "length ?s \<le> INT_MAX" using length_numeral [of 10 DIGITS10 ramfs_root_ino] by (simp add: INT_MAX_def)
  from printed_ok [OF m(1) this t m(2)] show ?thesis by (auto simp: ramfs_init_report_def)
qed

text \<open>The line of a node in the directory, nothing for other slots.\<close>

definition ls_line :: "u32 \<Rightarrow> ramfs_inode \<Rightarrow> string" where
  "ls_line dir_ino i =
     (if i_ino i = 0 \<or> i_parent_ino i \<noteq> dir_ino then []
      else if i_type i = RAMFS_TYPE_DIR then ''  '' @ i_name i @ ''/'' @ newline
      else ''  '' @ i_name i @ '' ('' @ numeral_string 10 DIGITS10 (unat (i_size i)) @ '' bytes)'' @ newline)"

lemma terminal_write_ok: "tty_inv t \<Longrightarrow> \<exists>t'. terminal_write bs t = Some t' \<and> tty_inv t'"
  using ttym.run_ok [of bs t] by (auto simp: list_all_iff terminal_write_def)

lemma ls_entry_spec:
  assumes "tty_inv t" "length (i_name i) < RAMFS_MAX_FILENAME"
  shows "\<exists>t'. ls_entry d i t = Some t' \<and> terminal_write (map of_char (ls_line d i)) t = Some t' \<and> tty_inv t'"
proof -
  let ?n = "numeral_string 10 DIGITS10 (unat (i_size i))"
  have dir: "format_text (map Lit ''  '' @ [Conv False 0 Cstring] @ map Lit (''/'' @ newline)) = ''  %s/'' @ newline"
    "meaning printk_out (map Lit ''  '' @ [Conv False 0 Cstring] @ map Lit (''/'' @ newline)) [AStr (i_name i)] =
      Some (''  '' @ i_name i @ ''/'' @ newline)"
    by (simp_all add: format_text_def)
  have fl: "format_text (map Lit ''  '' @ [Conv False 0 Cstring] @ map Lit '' ('' @ [Conv False 0 Clong] @ map Lit ('' bytes)'' @ newline)) =
      ''  %s (%lu bytes)'' @ newline"
    "meaning printk_out (map Lit ''  '' @ [Conv False 0 Cstring] @ map Lit '' ('' @ [Conv False 0 Clong] @ map Lit ('' bytes)'' @ newline))
      [AStr (i_name i), AWord (i_size i)] = Some (''  '' @ i_name i @ '' ('' @ ?n @ '' bytes)'' @ newline)"
    by (simp_all add: format_text_def padded_def)
  have l: "length ?n \<le> 32" by (rule length_numeral) simp
  have b: "length (''  '' @ i_name i @ ''/'' @ newline) \<le> INT_MAX" "length (''  '' @ i_name i @ '' ('' @ ?n @ '' bytes)'' @ newline) \<le> INT_MAX"
    using l assms(2) by (simp_all add: RAMFS_MAX_FILENAME_def INT_MAX_def)
  show ?thesis
    using printk_spec [OF dir(2) b(1) assms(1)] printk_spec [OF fl(2) b(2) assms(1)] terminal_write_ok [OF assms(1), of "[]"] assms(1)
    unfolding dir(1) fl(1) ls_entry_def ls_line_def printed_def
    by (auto simp: terminal_write_def)
qed

lemma ls_entries_spec:
  assumes "tty_inv t" "\<And>i. i \<in> set is \<Longrightarrow> length (i_name i) < RAMFS_MAX_FILENAME"
  shows "\<exists>t'. run_ops (ls_entry d) is t = Some t' \<and> terminal_write (map of_char (concat (map (ls_line d) is))) t = Some t' \<and> tty_inv t'"
  using assms
proof (induction "is" arbitrary: t)
  case (Cons i "is")
  then obtain t1 where t1: "ls_entry d i t = Some t1" "terminal_write (map of_char (ls_line d i)) t = Some t1" "tty_inv t1"
    using ls_entry_spec [of t i d] by auto
  then show ?case using Cons.IH [OF t1(3)] Cons.prems(2) by (simp add: terminal_write_append)
qed (simp add: terminal_write_def)

text \<open>\<open>ramfs_ls\<close> lists a directory, one line for each node in it, in the order of the inode table, the
  name of a directory with a slash, that of a file with its size in decimal; for a path that is
  missing or no directory it prints a message.\<close>

lemma ramfs_ls_spec:
  assumes "ramfs_inv s" "tty_inv t"
  shows "\<exists>t'. ramfs_ls path s t = Some t' \<and> tty_inv t' \<and>
    terminal_write (map of_char
      (case ramfs_find_inode path s of
         None \<Rightarrow> ''[ramfs] directory not found'' @ newline
       | Some k \<Rightarrow> if i_type (inodes s ! k) \<noteq> RAMFS_TYPE_DIR then ''[ramfs] not a directory'' @ newline
                 else concat (map (ls_line (i_ino (inodes s ! k))) (inodes s)))) t = Some t'"
proof -
  have n: "length (i_name i) < RAMFS_MAX_FILENAME" if "i \<in> set (inodes s)" for i
    using that ramfs_invD [OF assms(1)] by (auto simp: in_set_conv_nth inode_ok_def)
  note e = ls_entries_spec [OF assms(2) n]
  show ?thesis
    using printk_plain [of "''[ramfs] directory not found'' @ newline", OF _ _ assms(2)]
      printk_plain [of "''[ramfs] not a directory'' @ newline", OF _ _ assms(2)] e
    by (auto simp: ramfs_ls_def INT_MAX_def split: option.split)
qed

end
