(* ===== verification/Diagnostics.thy ===== *)
theory Diagnostics
  imports Process Ramfs_Ls
begin

text \<open>
  The messages with which \<open>elf.c\<close>, \<open>exec.c\<close> and \<open>sched.c\<close> report to the console, apart from
  what these functions do: printing changes the screen and nothing else, and which message is printed
  is decided by the same tests as the result. Each function here runs through the tests of the
  function it is named after and gives the format string and arguments of the \<open>printk\<close> it reaches, or
  none; the new line at the end of each format string is added when it is printed.
\<close>

section \<open>Messages\<close>

type_synonym message = "string \<times> arg list"

definition print_message :: "message option \<Rightarrow> tty \<Rightarrow> tty option" where
  "print_message msg t = (case msg of None \<Rightarrow> Some t | Some (fmt, args) \<Rightarrow> printed (fmt @ newline) args t)"

lemma print_message_None [simp]: "print_message None t = Some t"
  by (simp add: print_message_def)

section \<open>The ELF loader\<close>

definition elf_validate_message :: "u8 list \<Rightarrow> message option option" where
  "elf_validate_message img =
     (if length img < EHDR_SIZE then Some (Some (''[elf] file too small to hold an ELF header'', []))
      else do {
        eh \<leftarrow> ehdr_of img;
        Some
          (if e_ident eh ! EI_MAG0 \<noteq> ELFMAG0 \<or> e_ident eh ! EI_MAG1 \<noteq> ELFMAG1 \<or> e_ident eh ! EI_MAG2 \<noteq> ELFMAG2 \<or>
              e_ident eh ! EI_MAG3 \<noteq> ELFMAG3
           then Some (''[elf] bad magic'', [])
           else if e_ident eh ! EI_CLASS \<noteq> ELFCLASS32 then Some (''[elf] not a 32-bit ELF (ELFCLASS32)'', [])
           else if e_ident eh ! EI_DATA \<noteq> ELFDATA2LSB then Some (''[elf] not little-endian (ELFDATA2LSB)'', [])
           else if e_type eh \<noteq> ET_EXEC then Some (''[elf] only statically-linked ET_EXEC binaries are supported'', [])
           else if e_machine eh \<noteq> EM_386 then Some (''[elf] not an i386 (EM_386) binary'', [])
           else if e_phoff eh = 0 \<or> e_phnum eh = 0 then Some (''[elf] no program headers'', [])
           else if unat (e_phentsize eh) < PHDR_SIZE then Some (''[elf] program header entry too small'', [])
           else if unat (e_phoff eh) + unat (e_phnum eh) * unat (e_phentsize eh) > length img
           then Some (''[elf] program header table runs past end of file'', [])
           else None)
      })"

text \<open>The tests of the first pass of \<open>elf_load\<close> on segment \<open>i\<close>.\<close>

definition seg_message :: "u32 \<Rightarrow> u32 \<Rightarrow> u8 list \<Rightarrow> nat \<Rightarrow> elf32_phdr \<Rightarrow> message option" where
  "seg_message kernel_start kernel_end img i ph =
     (let seg_end = of_nat (unat (p_vaddr ph) + unat (p_memsz ph)) :: u32 in
      if p_filesz ph > p_memsz ph then Some (''[elf] segment %u: filesz > memsz'', [AWord (of_nat i)])
      else if unat (p_offset ph) + unat (p_filesz ph) > length img
      then Some (''[elf] segment %u: file range out of bounds'', [AWord (of_nat i)])
      else if unat (p_vaddr ph) + unat (p_memsz ph) > unat ELF_LOAD_LIMIT
      then Some (''[elf] segment %u: vaddr range extends past identity-mapped memory (limit 0x%lx)'',
                 [AWord (of_nat i), AWord ELF_LOAD_LIMIT])
      else if p_vaddr ph < kernel_end \<and> seg_end > kernel_start
      then Some (''[elf] segment %u: vaddr 0x%lx..0x%lx overlaps the kernel image (0x%lx..0x%lx)'',
                 [AWord (of_nat i), AWord (p_vaddr ph), AWord seg_end, AWord kernel_start, AWord kernel_end])
      else None)"

fun check_message :: "u32 \<Rightarrow> u32 \<Rightarrow> u8 list \<Rightarrow> elf32_ehdr \<Rightarrow> nat \<Rightarrow> nat \<Rightarrow> message option option" where
  "check_message ks ke img eh i 0 = Some None"
| "check_message ks ke img eh i (Suc n) =
     do {
       ph \<leftarrow> phdr_at img eh i;
       (if p_type ph \<noteq> PT_LOAD then check_message ks ke img eh (Suc i) n
        else case seg_message ks ke img i ph of
            Some msg \<Rightarrow> Some (Some msg)
          | None \<Rightarrow> check_message ks ke img eh (Suc i) n)
     }"

definition elf_load_message :: "u32 \<Rightarrow> u32 \<Rightarrow> u8 list \<Rightarrow> message option option" where
  "elf_load_message kernel_start kernel_end img =
     do {
       v \<leftarrow> elf_validate_message img;
       (case v of
          Some msg \<Rightarrow> Some (Some msg)
        | None \<Rightarrow> do {
            eh \<leftarrow> ehdr_of img;
            c \<leftarrow> check_message kernel_start kernel_end img eh 0 (unat (e_phnum eh));
            Some (case c of
                Some msg \<Rightarrow> Some msg
              | None \<Rightarrow>
                  if e_entry eh \<ge> ELF_LOAD_LIMIT \<or> (e_entry eh < kernel_end \<and> e_entry eh \<ge> kernel_start)
                  then Some (''[elf] entry point 0x%lx is outside any valid segment'', [AWord (e_entry eh)])
                  else None)
          })
     }"

section \<open>Program execution and the end of tasks\<close>

text \<open>\<open>elf_extent\<close> and \<open>elf_load\<close> print what their tests find; the other failures of \<open>exec_run\<close> without a
  message of their own are silent.\<close>

definition exec_message ::
  "u32 \<Rightarrow> u32 \<Rightarrow> ramfs \<Rightarrow> string option \<Rightarrow> u32 \<Rightarrow> u32 \<Rightarrow> kern \<Rightarrow> message option option" where
  "exec_message ks ke f prog argv envp k =
     (if prog = None then Some None
      else
        (case ramfs_file_data prog f of
           None \<Rightarrow> Some None
         | Some (None, len) \<Rightarrow> Some None
         | Some (Some off, len) \<Rightarrow>
             if len = 0 then Some None
             else
               (let img = read_bytes (pool f) off (unat len) in
                do {
                  extent \<leftarrow> elf_extent img;
                  (case extent of
                     None \<Rightarrow> elf_validate_message img
                   | Some e \<Rightarrow>
                       (case exec_args (ram k) argv envp of
                          None \<Rightarrow> Some (Some (''[exec] argv/envp too large'', []))
                        | Some args \<Rightarrow> do {
                            parent \<leftarrow> tasks k (current_task k);
                            (let fr = exec_frame parent (fst e) (snd e) in
                             if exec_pool_used k + (align16 (fst fr) + align16 (snd (snd fr))) > EXEC_POOL_SIZE
                             then Some (Some (''[exec] out of memory to save the caller'', []))
                             else if fst (elf_build_user_stack (EXEC_STACK_TOP - EXEC_STACK_SIZE) EXEC_STACK_TOP
                                            (Some (fst args)) (Some (snd args)) (ram k)) = 0 then Some None
                             else elf_load_message ks ke img)
                          }))
                })))"

text \<open>\<open>schedule\<close> comes back to a dead task only if nothing else can run.\<close>

definition exit_message :: "exit_outcome \<Rightarrow> message option" where
  "exit_message out = (if out = Halts then Some (''[sched] no runnable tasks left, halting'', []) else None)"

section \<open>Printing a message\<close>

text \<open>A format string of plain text and conversions of numbers. \<open>directives\<close> reads it.\<close>

fun directives :: "string \<Rightarrow> piece list" where
  "directives [] = []"
| "directives (c # f) =
     (if c \<noteq> CHR ''%'' then Lit c # directives f
      else case f of
          CHR ''u'' # g \<Rightarrow> Conv False 0 Cunsigned # directives g
        | CHR ''s'' # g \<Rightarrow> Conv False 0 Cstring # directives g
        | CHR ''l'' # CHR ''u'' # g \<Rightarrow> Conv False 0 Clong # directives g
        | CHR ''l'' # CHR ''x'' # g \<Rightarrow> Conv False 0 Clonghex # directives g
        | _ \<Rightarrow> [])"

definition message_text :: "message \<Rightarrow> string option" where
  "message_text msg = meaning printk_out (directives (fst msg @ newline)) (snd msg)"

definition reportable :: "message \<Rightarrow> bool" where
  "reportable msg \<longleftrightarrow> format_text (directives (fst msg @ newline)) = fst msg @ newline \<and>
     (\<exists>s. message_text msg = Some s \<and> length s \<le> INT_MAX)"

lemma print_message_ok:
  assumes "tty_inv t" "\<And>m. msg = Some m \<Longrightarrow> reportable m"
  shows "\<exists>t'. print_message msg t = Some t' \<and> tty_inv t' \<and>
    (case msg of None \<Rightarrow> t' = t | Some m \<Rightarrow> terminal_write (map of_char (the (message_text m))) t = Some t')"
proof (cases msg)
  case (Some m)
  obtain fmt args where m: "m = (fmt, args)" by fastforce
  obtain s where s: "format_text (directives (fmt @ newline)) = fmt @ newline" "message_text m = Some s" "length s \<le> INT_MAX"
    using assms(2) [OF Some] by (auto simp: reportable_def m)
  then have "\<exists>t'. printed (fmt @ newline) args t = Some t' \<and> terminal_write (map of_char s) t = Some t' \<and> tty_inv t'"
    using printed_ok [of _ args s t "fmt @ newline", OF _ s(3) assms(1) s(1)] by (simp add: message_text_def m)
  then show ?thesis using s(2) by (auto simp: Some m print_message_def)
qed (use assms(1) in \<open>simp add: print_message_def\<close>)

lemma short_numeral: "2 \<le> b \<Longrightarrow> length (numeral_string b d (unat (w :: u32))) \<le> 32"
  by (rule length_numeral)

lemma reportable_plain: "CHR ''%'' \<notin> set f \<Longrightarrow> length f < 1000 \<Longrightarrow> reportable (f, [])"
proof -
  have d: "CHR ''%'' \<notin> set g \<Longrightarrow> directives g = map Lit g" for g by (induction g) auto
  assume a: "CHR ''%'' \<notin> set f" "length f < 1000"
  then have "directives (f @ newline) = map Lit (f @ newline)" by (intro d) simp
  then show "reportable (f, [])" using a meaning_plain [of printk_out "f @ newline" "[]" "[]"] format_text_plain [of "f @ newline"]
    by (simp add: reportable_def message_text_def INT_MAX_def)
qed

lemma length_numeral_INT_MAX: "length (numeral_string 16 DIGITS16 (unat (w :: u32))) \<le> 32" "length (numeral_string 10 DIGITS10 (unat (w :: u32))) \<le> 32"
  by (simp_all add: length_numeral)

lemmas reportable_numbers = reportable_def message_text_def format_text_def padded_def INT_MAX_def

lemma reportable_segment:
  "reportable (''[elf] segment %u: filesz > memsz'', [AWord a])"
  "reportable (''[elf] segment %u: file range out of bounds'', [AWord a])"
  "reportable (''[elf] segment %u: vaddr range extends past identity-mapped memory (limit 0x%lx)'', [AWord a, AWord b])"
  "reportable (''[elf] segment %u: vaddr 0x%lx..0x%lx overlaps the kernel image (0x%lx..0x%lx)'', [AWord a, AWord b, AWord c, AWord d, AWord e])"
  "reportable (''[elf] entry point 0x%lx is outside any valid segment'', [AWord a])"
  using length_numeral_INT_MAX(2) [of a] length_numeral_INT_MAX(1) [of a] length_numeral_INT_MAX(1) [of b] length_numeral_INT_MAX(1) [of c]
    length_numeral_INT_MAX(1) [of d] length_numeral_INT_MAX(1) [of e]
  by (simp_all add: reportable_numbers)

section \<open>A message is printed exactly on failure\<close>

lemma elf_validate_message_iff:
  "\<exists>r. elf_validate_message img = Some r \<and> elf_validate img = Some (r = None) \<and> (\<forall>m. r = Some m \<longrightarrow> reportable m)"
proof (cases "ehdr_of img")
  case None
  then have "length img < EHDR_SIZE" by (simp add: ehdr_of_def split: if_splits)
  then show ?thesis by (simp add: elf_validate_message_def elf_validate_def reportable_plain)
next
  case (Some eh)
  then have "\<not> length img < EHDR_SIZE" by (simp add: ehdr_of_def split: if_splits)
  then show ?thesis by (auto simp: elf_validate_message_def elf_validate_def Some reportable_plain)
qed

lemma seg_message_iff:
  "(seg_message ks ke img i ph = None) = seg_accepted ks ke img ph"
  "seg_message ks ke img i ph = Some m \<Longrightarrow> reportable m"
  by (auto simp: seg_message_def seg_accepted_def Let_def reportable_segment split: if_splits)

lemma check_message_iff:
  "(\<And>j. i \<le> j \<Longrightarrow> j < i + n \<Longrightarrow> \<exists>ph. phdr_at img eh j = Some ph) \<Longrightarrow>
    \<exists>r. check_message ks ke img eh i n = Some r \<and> check_loop ks ke img eh i n = Some (r = None) \<and> (\<forall>m. r = Some m \<longrightarrow> reportable m)"
proof (induction n arbitrary: i)
  case (Suc n)
  obtain ph where ph: "phdr_at img eh i = Some ph" using Suc.prems [of i] by auto
  have "\<exists>r. check_message ks ke img eh (Suc i) n = Some r \<and> check_loop ks ke img eh (Suc i) n = Some (r = None) \<and>
      (\<forall>m. r = Some m \<longrightarrow> reportable m)"
    using Suc.prems by (intro Suc.IH) auto
  then show ?case using ph seg_message_iff [of ks ke img i ph] by (auto split: option.split)
qed simp

text \<open>The tests of \<open>elf_load\<close>, with the message of the one that fails.\<close>

lemma elf_load_message_iff:
  assumes l: "length img < 4294967296" and pg: "pt_maps U (snd s)"
  shows "\<exists>r e s'. elf_load_message ks ke img = Some r \<and> elf_load ks ke img s = Some (e, s') \<and> (e = None \<longleftrightarrow> r \<noteq> None) \<and>
    (\<forall>m. r = Some m \<longrightarrow> reportable m)"
proof -
  obtain e s' where e: "elf_load ks ke img s = Some (e, s')" using elf_load_spec [OF assms] by blast
  obtain r where r: "elf_validate_message img = Some r" "elf_validate img = Some (r = None)" "\<And>m. r = Some m \<Longrightarrow> reportable m"
    using elf_validate_message_iff by blast
  show ?thesis
  proof (cases r)
    case None
    then obtain eh where eh: "valid_ehdr img eh" using r(2) by (cases rule: elf_validate_cases [of img]) auto
    then obtain c where c: "check_message ks ke img eh 0 (unat (e_phnum eh)) = Some c"
      "check_loop ks ke img eh 0 (unat (e_phnum eh)) = Some (c = None)" "\<And>m. c = Some m \<Longrightarrow> reportable m"
      using check_message_iff [of 0 "unat (e_phnum eh)" img eh ks ke] phdr_at_defined [OF _ l] by auto
    show ?thesis using e r None c valid_ehdr_unique [OF eh]
      by (auto simp: elf_load_message_def elf_load_def reportable_segment split: if_splits option.splits bind_splits)
  qed (use e r in \<open>auto simp: elf_load_message_def elf_load_def\<close>)
qed

text \<open>What \<open>exec_run\<close> prints is defined whenever it is, and it prints nothing when it starts the program.\<close>

lemma exec_message_ok:
  assumes pg: "pt_maps U (kpaging k)" and t: "tasks k (current_task k) = Some t"
  shows "\<exists>r. exec_message ks ke f prog argv envp k = Some r \<and> (\<forall>m. r = Some m \<longrightarrow> reportable m)"
proof -
  have v: "\<exists>r. elf_validate_message img = Some r \<and> (\<forall>m. r = Some m \<longrightarrow> reportable m)" for img
    using elf_validate_message_iff [of img] by blast
  have ld: "\<exists>r. elf_load_message ks ke (read_bytes m a (unat n)) = Some r \<and> (\<forall>m. r = Some m \<longrightarrow> reportable m)" for m a and n :: u32
    using elf_load_message_iff [of "read_bytes m a (unat n)" U "(ram k, kpaging k)" ks ke] pg unat_u32_less [of n] by auto
  have x: "\<exists>r. elf_extent (read_bytes m a (unat n)) = Some r" for m a and n :: u32
    using elf_extent_defined [of "read_bytes m a (unat n)"] unat_u32_less [of n] by simp
  have "\<exists>r. exec_message ks ke f prog argv envp k = Some r \<and> (\<forall>m. r = Some m \<longrightarrow> reportable m)"
    if "ramfs_file_data prog f = Some (Some off, n)" for off n
  proof -
    obtain e where e: "elf_extent (read_bytes (pool f) off (unat n)) = Some e" using x by blast
    show ?thesis using v [of "read_bytes (pool f) off (unat n)"] ld [of "pool f" off n] t that
      by (cases e; cases "exec_args (ram k) argv envp") (auto simp: exec_message_def Let_def e reportable_plain)
  qed
  then show ?thesis
    by (cases "ramfs_file_data prog f") (auto simp: exec_message_def split: option.split)
qed

lemma exec_message_silent:
  assumes pg: "pt_maps U (kpaging k)" and r: "exec_run hs he ks ke enter f prog argv envp k = Some (0, sw, k')"
  shows "exec_message ks ke f prog argv envp k = Some None"
proof (rule exec_run_cases [of hs he ks ke enter f prog argv envp k])
  fix off len img lo hi as es
  assume y: "ramfs_file_data prog f = Some (Some off, len)" "img = read_bytes (pool f) off (unat len)"
    and x: "length img < 4294967296" "elf_extent img = Some (Some (lo, hi))" "exec_args (ram k) argv envp = Some (as, es)"
      "exec_run hs he ks ke enter f prog argv envp k = exec_image hs he ks ke enter img (lo, hi) (as, es) k"
  obtain par where par: "tasks k (current_task k) = Some par"
    using r unfolding x(4) by (auto simp: exec_image_def split: bind_splits)
  obtain pg' where pg': "paging_map_user_range (EXEC_STACK_TOP - EXEC_STACK_SIZE) EXEC_STACK_TOP (kpaging k) = Some pg'"
      "pt_maps (\<lambda>i. U i \<or> page_in (EXEC_STACK_TOP - EXEC_STACK_SIZE) EXEC_STACK_TOP i) pg'"
    using map_user_range_maps [OF pg] by blast
  obtain sp m where st: "elf_build_user_stack (EXEC_STACK_TOP - EXEC_STACK_SIZE) EXEC_STACK_TOP (Some as) (Some es) (ram k) = (sp, m)"
    by fastforce
  obtain v e s' where ld: "elf_load_message ks ke img = Some v" "elf_load ks ke img (m, pg') = Some (e, s')" "e = None \<longleftrightarrow> v \<noteq> None"
    using elf_load_message_iff [OF x(1), of "\<lambda>i. U i \<or> page_in (EXEC_STACK_TOP - EXEC_STACK_SIZE) EXEC_STACK_TOP i" "(m, pg')" ks ke] pg'(2)
    by fastforce
  have f: "exec_fail a b c = Some (0, q) \<longleftrightarrow> False" for a b c q by (auto simp: exec_fail_def split: prod.splits)
  have "e \<noteq> None" "sp \<noteq> 0"
      "\<not> exec_pool_used k + (align16 (fst (exec_frame par lo hi)) + align16 (snd (snd (exec_frame par lo hi)))) > EXEC_POOL_SIZE"
    using r ld(2) unfolding x(4) by (auto simp: exec_image_def par pg'(1) st f Let_def split: bind_splits if_splits option.splits)
  moreover from this(1) have "v = None" using ld(3) by blast
  moreover have "prog \<noteq> None" using r by (cases prog) (simp_all add: exec_run_def)
  moreover have "len \<noteq> 0" using x(2) y(2) by (auto simp: elf_extent_def elf_validate_def read_bytes_def)
  ultimately show ?thesis
    using ld(1,3) x(2,3) y by (simp add: exec_message_def par st Let_def)
qed (use r in simp)

lemma exit_message_ok: "exit_message out = Some m \<Longrightarrow> reportable m"
  by (auto simp: exit_message_def reportable_plain split: if_splits)

end
