(* ===== verification/Devices.thy ===== *)
theory Devices
  imports Prelude
begin

text \<open>
  Port input and output, \<open>kernel/include/kernel/portio.h\<close>, the interrupt controllers,
  \<open>kernel/arch/i386/pic.c\<close>, and the timer, \<open>kernel/arch/i386/timer.c\<close>. The devices behind the ports
  are not part of the program: what a port answers is a function of the accesses so far, an
  argument of the definitions. Each operation appends its accesses to that history.
\<close>

section \<open>Ports\<close>

datatype port_event = Out8 u16 u8 | Out16 u16 u16 | Out32 u16 u32 | In8 u16 | In16 u16 | In32 u16

type_synonym port_log = "port_event list"
type_synonym device = "port_log \<Rightarrow> u16 \<Rightarrow> u32"

definition outport8 :: "u16 \<Rightarrow> u8 \<Rightarrow> port_log \<Rightarrow> u8 \<times> port_log" where
  "outport8 port v h = (v, h @ [Out8 port v])"

definition outport16 :: "u16 \<Rightarrow> u16 \<Rightarrow> port_log \<Rightarrow> u16 \<times> port_log" where
  "outport16 port v h = (v, h @ [Out16 port v])"

definition outport32 :: "u16 \<Rightarrow> u32 \<Rightarrow> port_log \<Rightarrow> u32 \<times> port_log" where
  "outport32 port v h = (v, h @ [Out32 port v])"

definition inport8 :: "device \<Rightarrow> u16 \<Rightarrow> port_log \<Rightarrow> u8 \<times> port_log" where
  "inport8 dev port h = (ucast (dev h port), h @ [In8 port])"

definition inport16 :: "device \<Rightarrow> u16 \<Rightarrow> port_log \<Rightarrow> u16 \<times> port_log" where
  "inport16 dev port h = (ucast (dev h port), h @ [In16 port])"

definition inport32 :: "device \<Rightarrow> u16 \<Rightarrow> port_log \<Rightarrow> u32 \<times> port_log" where
  "inport32 dev port h = (dev h port, h @ [In32 port])"

lemmas port_defs = outport8_def outport16_def outport32_def inport8_def inport16_def inport32_def

text \<open>A sequence of byte outputs.\<close>

definition outports :: "(u16 \<times> u8) list \<Rightarrow> port_log \<Rightarrow> port_log" where
  "outports = fold (\<lambda>(p, v) h. snd (outport8 p v h))"

lemma outports_eq: "outports pvs h = h @ map (\<lambda>(p, v). Out8 p v) pvs"
  by (induction pvs arbitrary: h) (auto simp: outports_def outport8_def)

section \<open>Interrupt controllers\<close>

definition PIC_MASTER :: u16 where "PIC_MASTER = 0x20"
definition PIC_SLAVE :: u16 where "PIC_SLAVE = 0xA0"
definition PIC_COMMAND :: u16 where "PIC_COMMAND = 0x00"
definition PIC_DATA :: u16 where "PIC_DATA = 0x01"
definition PIC_CMD_ENDINTR :: u8 where "PIC_CMD_ENDINTR = 0x20"
definition PIC_ICW1_ICW4 :: u8 where "PIC_ICW1_ICW4 = 0x01"
definition PIC_CMD_INIT :: u8 where "PIC_CMD_INIT = 0x10"
definition PIC_MODE_8086 :: u8 where "PIC_MODE_8086 = 0x01"
definition PIC_READ_IRR :: u8 where "PIC_READ_IRR = 0x0A"
definition PIC_READ_ISR :: u8 where "PIC_READ_ISR = 0x0B"

lemmas pic_consts [const_defs] = PIC_MASTER_def PIC_SLAVE_def PIC_COMMAND_def PIC_DATA_def PIC_CMD_ENDINTR_def
  PIC_ICW1_ICW4_def PIC_CMD_INIT_def PIC_MODE_8086_def PIC_READ_IRR_def PIC_READ_ISR_def

text \<open>Both status reads differ in the command only. C leaves the order of the two reads open; the
  model takes them from left to right.\<close>

definition pic_read :: "device \<Rightarrow> u8 \<Rightarrow> port_log \<Rightarrow> u16 \<times> port_log" where
  "pic_read dev cmd h0 =
     (let h1 = outports [(PIC_MASTER + PIC_COMMAND, cmd), (PIC_SLAVE + PIC_COMMAND, cmd)] h0;
          (m, h2) = inport8 dev (PIC_MASTER + PIC_COMMAND) h1;
          (s, h3) = inport8 dev (PIC_SLAVE + PIC_COMMAND) h2 in
      (ucast m OR push_bit 8 (ucast s), h3))"

definition pic_read_irr :: "device \<Rightarrow> port_log \<Rightarrow> u16 \<times> port_log" where
  "pic_read_irr dev h = pic_read dev PIC_READ_IRR h"

definition pic_read_isr :: "device \<Rightarrow> port_log \<Rightarrow> u16 \<times> port_log" where
  "pic_read_isr dev h = pic_read dev PIC_READ_ISR h"

definition pic_eoi_master :: "port_log \<Rightarrow> port_log" where
  "pic_eoi_master h = outports [(PIC_MASTER, PIC_CMD_ENDINTR)] h"

definition pic_eoi_slave :: "port_log \<Rightarrow> port_log" where
  "pic_eoi_slave h = outports [(PIC_SLAVE, PIC_CMD_ENDINTR)] h"

definition pic_initialize :: "port_log \<Rightarrow> port_log" where
  "pic_initialize h =
     (let map_irsq_at = 32; master_mask = 0; slave_mask = 0 in
      outports [(PIC_MASTER + PIC_COMMAND, PIC_CMD_INIT OR PIC_ICW1_ICW4),
                (PIC_SLAVE + PIC_COMMAND, PIC_CMD_INIT OR PIC_ICW1_ICW4),
                (PIC_MASTER + PIC_DATA, map_irsq_at + 0), (PIC_SLAVE + PIC_DATA, map_irsq_at + 8),
                (PIC_MASTER + PIC_DATA, 0x04), (PIC_SLAVE + PIC_DATA, 0x02),
                (PIC_MASTER + PIC_DATA, PIC_MODE_8086), (PIC_SLAVE + PIC_DATA, PIC_MODE_8086),
                (PIC_MASTER + PIC_DATA, master_mask), (PIC_SLAVE + PIC_DATA, slave_mask)] h)"

text \<open>The port and the line on it of an interrupt request.\<close>

definition pic_line :: "u8 \<Rightarrow> u16 \<times> u8" where
  "pic_line irq = (if irq < 8 then (PIC_MASTER + PIC_DATA, irq) else (PIC_SLAVE + PIC_DATA, irq - 8))"

definition pic_set_mask :: "device \<Rightarrow> u8 \<Rightarrow> port_log \<Rightarrow> port_log" where
  "pic_set_mask dev irq h =
     (let (port, line) = pic_line irq;
          (v, h1) = inport8 dev port h in
      snd (outport8 port (v OR push_bit (unat line) 1) h1))"

definition pic_clear_mask :: "device \<Rightarrow> u8 \<Rightarrow> port_log \<Rightarrow> port_log" where
  "pic_clear_mask dev irq h =
     (let (port, line) = pic_line irq;
          (v, h1) = inport8 dev port h in
      snd (outport8 port (v AND NOT (push_bit (unat line) 1)) h1))"

section \<open>Timer\<close>

definition PIT_CHANNEL_0 :: u16 where "PIT_CHANNEL_0 = 0x40"
definition PIT_COMMAND_REG :: u16 where "PIT_COMMAND_REG = 0x43"
definition PIT_CMD_INIT :: u8 where "PIT_CMD_INIT = 0x00 OR 0x30 OR 0x04 OR 0x00"
definition PIT_BASE_FREQUENCY :: nat where "PIT_BASE_FREQUENCY = 1193182"
definition TIMER_FREQUENCY :: nat where "TIMER_FREQUENCY = 1000"

definition timer_initialize :: "port_log \<Rightarrow> u32 \<times> port_log" where
  "timer_initialize h =
     (let divisor = of_nat (PIT_BASE_FREQUENCY div TIMER_FREQUENCY) :: u16 in
      (0, outports [(PIT_COMMAND_REG, PIT_CMD_INIT), (PIT_CHANNEL_0, ucast (divisor AND 0xFF)),
                    (PIT_CHANNEL_0, ucast (drop_bit 8 divisor AND 0xFF))] h))"

definition timer_tick :: "u32 \<Rightarrow> u32" where
  "timer_tick system_ticks = system_ticks + 1"

definition timer_get_ticks :: "u32 \<Rightarrow> u32" where
  "timer_get_ticks system_ticks = system_ticks"

definition timer_get_ms :: "u32 \<Rightarrow> u32" where
  "timer_get_ms system_ticks = system_ticks"

section \<open>The mask registers\<close>

text \<open>The last byte written to a port.\<close>

fun last_out :: "u16 \<Rightarrow> port_log \<Rightarrow> u8 option" where
  "last_out p [] = None"
| "last_out p (e # h) = (case last_out p h of Some v \<Rightarrow> Some v
     | None \<Rightarrow> (case e of Out8 q v \<Rightarrow> if q = p then Some v else None | _ \<Rightarrow> None))"

lemma last_out_append: "last_out p (h @ h') = (case last_out p h' of Some v \<Rightarrow> Some v | None \<Rightarrow> last_out p h)"
  by (induction h) (auto split: option.splits)

text \<open>A history that has set the controllers up and not begun to set them up again (a command with
  bit 4 set does). From then on a controller's data port reads back the mask last written to it,
  as the 8259A documents.\<close>

definition in_service :: "port_log \<Rightarrow> bool" where
  "in_service h \<longleftrightarrow> (\<exists>h0 h'. h = pic_initialize h0 @ h' \<and>
     (\<forall>p v. Out8 p v \<in> set h' \<longrightarrow> p \<in> {PIC_MASTER + PIC_COMMAND, PIC_SLAVE + PIC_COMMAND} \<longrightarrow> \<not> bit v 4))"

definition mask_readback :: "device \<Rightarrow> bool" where
  "mask_readback dev \<longleftrightarrow> (\<forall>h p v. in_service h \<longrightarrow> p \<in> {PIC_MASTER + PIC_DATA, PIC_SLAVE + PIC_DATA} \<longrightarrow>
     last_out p h = Some v \<longrightarrow> ucast (dev h p) = v)"

text \<open>Whether a request line is masked after a history.\<close>

definition mask_port :: "nat \<Rightarrow> u16" where
  "mask_port irq = (if irq < 8 then PIC_MASTER + PIC_DATA else PIC_SLAVE + PIC_DATA)"

definition masked :: "port_log \<Rightarrow> nat \<Rightarrow> bool" where
  "masked h irq \<longleftrightarrow> (\<exists>v. last_out (mask_port irq) h = Some v \<and> bit v (irq mod 8))"

datatype mask_op = Mask u8 | Unmask u8

fun mask_step :: "device \<Rightarrow> mask_op \<Rightarrow> port_log \<Rightarrow> port_log" where
  "mask_step dev (Mask n) h = pic_set_mask dev n h"
| "mask_step dev (Unmask n) h = pic_clear_mask dev n h"

fun mask_effect :: "mask_op \<Rightarrow> nat set \<Rightarrow> nat set" where
  "mask_effect (Mask n) S = insert (unat n) S"
| "mask_effect (Unmask n) S = S - {unat n}"

definition mask_line :: "mask_op \<Rightarrow> nat" where
  "mask_line op = (case op of Mask n \<Rightarrow> unat n | Unmask n \<Rightarrow> unat n)"

lemma in_service_masks:
  "in_service h \<Longrightarrow> last_out (PIC_MASTER + PIC_DATA) h \<noteq> None \<and> last_out (PIC_SLAVE + PIC_DATA) h \<noteq> None"
  by (auto simp: in_service_def pic_initialize_def outports_eq last_out_append const_defs split: option.splits)

lemma in_service_initialize: "in_service (pic_initialize h)"
  unfolding in_service_def by (rule exI [of _ h], rule exI [of _ "[]"]) simp

lemma in_service_data:
  assumes "in_service h" "q \<in> {PIC_MASTER + PIC_DATA, PIC_SLAVE + PIC_DATA}"
  shows "in_service (h @ [In8 p, Out8 q v])"
proof -
  obtain h0 h' where h: "h = pic_initialize h0 @ h'"
    "\<forall>p v. Out8 p v \<in> set h' \<longrightarrow> p \<in> {PIC_MASTER + PIC_COMMAND, PIC_SLAVE + PIC_COMMAND} \<longrightarrow> \<not> bit v 4"
    using assms(1) unfolding in_service_def by blast
  show ?thesis unfolding in_service_def
    by (rule exI [of _ h0], rule exI [of _ "h' @ [In8 p, Out8 q v]"]) (use h assms(2) in \<open>auto simp: const_defs\<close>)
qed

lemma pic_line_eq:
  assumes "unat n < 16"
  shows "\<exists>l. pic_line n = (mask_port (unat n), l) \<and> unat l = unat n mod 8"
proof (cases "n < 8")
  case True
  then show ?thesis by (simp add: pic_line_def mask_port_def word_less_nat_alt)
next
  case False
  then have "unat (n - 8) = unat n - 8" by (simp add: unat_sub word_le_nat_alt not_less)
  then show ?thesis using False assms by (simp add: pic_line_def mask_port_def word_less_nat_alt le_mod_geq)
qed

lemma mask_port_eq_iff: "i < 16 \<Longrightarrow> j < 16 \<Longrightarrow> mask_port i = mask_port j \<and> i mod 8 = j mod 8 \<longleftrightarrow> i = j"
  by (auto simp: mask_port_def const_defs le_mod_geq not_less)

text \<open>One update of a mask register: a read, a change, a write of the same port.\<close>

lemma mask_write:
  assumes d: "mask_readback dev" "in_service h" and n: "n < 16"
    and f: "\<And>v. h' v = h @ [In8 (mask_port n), Out8 (mask_port n) (f v)]"
  shows "\<exists>v. last_out (mask_port n) h = Some v \<and> ucast (dev h (mask_port n)) = v \<and>
    (\<forall>i < 16. last_out (mask_port i) (h' v) = (if mask_port i = mask_port n then Some (f v) else last_out (mask_port i) h))"
    "in_service (h' v)"
proof -
  have m: "mask_port i \<in> {PIC_MASTER + PIC_DATA, PIC_SLAVE + PIC_DATA}" for i by (simp add: mask_port_def)
  obtain v where v: "last_out (mask_port n) h = Some v"
    using in_service_masks [OF d(2)] by (cases "n < 8") (auto simp: mask_port_def)
  then show "\<exists>v. last_out (mask_port n) h = Some v \<and> ucast (dev h (mask_port n)) = v \<and>
    (\<forall>i < 16. last_out (mask_port i) (h' v) = (if mask_port i = mask_port n then Some (f v) else last_out (mask_port i) h))"
    using d m [of n] by (auto simp: f last_out_append mask_readback_def)
  show "in_service (h' v)" for v unfolding f by (rule in_service_data [OF d(2) m])
qed

lemma mask_step_masked:
  assumes d: "mask_readback dev" "in_service h" and n: "mask_line op < 16"
  shows "irq < 16 \<Longrightarrow> masked (mask_step dev op h) irq \<longleftrightarrow> irq \<in> mask_effect op {i. i < 16 \<and> masked h i}"
    "in_service (mask_step dev op h)"
proof -
  let ?n = "mask_line op" and ?b = "push_bit (mask_line op mod 8) (1 :: u8)"
  define f where "f = (\<lambda>v. case op of Mask _ \<Rightarrow> v OR ?b | Unmask _ \<Rightarrow> v AND NOT ?b)"
  define h' where "h' v = h @ [In8 (mask_port ?n), Out8 (mask_port ?n) (f v)]" for v
  obtain v where v: "last_out (mask_port ?n) h = Some v" "ucast (dev h (mask_port ?n)) = v"
    "\<And>i. i < 16 \<Longrightarrow> last_out (mask_port i) (h' v) = (if mask_port i = mask_port ?n then Some (f v) else last_out (mask_port i) h)"
    using mask_write(1) [OF d n, of h' f] by (auto simp: h'_def)
  have st: "mask_step dev op h = h' v"
  proof (cases op)
    case (Mask m)
    then show ?thesis using pic_line_eq [of m] n v(2)
      by (auto simp: pic_set_mask_def inport8_def outport8_def h'_def f_def mask_line_def)
  next
    case (Unmask m)
    then show ?thesis using pic_line_eq [of m] n v(2)
      by (auto simp: pic_clear_mask_def inport8_def outport8_def h'_def f_def mask_line_def)
  qed
  show "in_service (mask_step dev op h)" unfolding st by (rule mask_write(2) [OF d n]) (simp add: h'_def)
  assume i: "irq < 16"
  have b: "bit (2 ^ (k mod 8) :: u8) j \<longleftrightarrow> j = k mod 8" for j k :: nat by (auto simp: bit_simps)
  have eff: "irq \<in> mask_effect op S \<longleftrightarrow> (case op of Mask _ \<Rightarrow> irq = ?n \<or> irq \<in> S | Unmask _ \<Rightarrow> irq \<noteq> ?n \<and> irq \<in> S)" for S
    by (cases op) (auto simp: mask_line_def)
  show "masked (mask_step dev op h) irq \<longleftrightarrow> irq \<in> mask_effect op {i. i < 16 \<and> masked h i}"
  proof (cases "mask_port irq = mask_port ?n")
    case True
    then have "last_out (mask_port irq) (h' v) = Some (f v)" "last_out (mask_port irq) h = Some v" using v(1) v(3) [OF i] by simp_all
    then have "masked (mask_step dev op h) irq \<longleftrightarrow> bit (f v) (irq mod 8)" "masked h irq \<longleftrightarrow> bit v (irq mod 8)"
      by (simp_all add: st masked_def)
    moreover have "irq mod 8 = ?n mod 8 \<longleftrightarrow> irq = ?n" using mask_port_eq_iff [OF i n] True by blast
    ultimately show ?thesis using i unfolding eff f_def by (cases op) (auto simp: bit_or_iff bit_and_iff bit_not_iff b)
  next
    case False
    then have "masked (mask_step dev op h) irq \<longleftrightarrow> masked h irq" using v(3) [OF i] by (simp add: st masked_def)
    moreover have "irq \<noteq> ?n" using False by auto
    ultimately show ?thesis using i unfolding eff by (cases op) auto
  qed
qed


text \<open>After \<open>pic_initialize\<close> no interrupt request is masked, and any sequence of \<open>pic_set_mask\<close> and
  \<open>pic_clear_mask\<close> calls for the sixteen requests then leaves masked exactly the requests that the
  calls, read as operations on a set, put into it: the two registers are read, changed in one bit
  and written back. This rests on the controllers reading back the mask last written once they are
  set up.\<close>

theorem pic_masks_correct:
  assumes "mask_readback dev" "\<forall>op \<in> set ops. mask_line op < 16" "irq < 16"
  shows "masked (fold (mask_step dev) ops (pic_initialize h)) irq \<longleftrightarrow> irq \<in> fold mask_effect ops {}"
proof -
  have "masked (fold (mask_step dev) ops h) irq \<longleftrightarrow> irq \<in> fold mask_effect ops {i. i < 16 \<and> masked h i}" if "in_service h" for h
    using that assms(2)
  proof (induction ops arbitrary: h)
    case Nil
    then show ?case using assms(3) by simp
  next
    case (Cons op ops)
    have "mask_line op < 16" using Cons.prems by simp
    note s = mask_step_masked [OF assms(1) Cons.prems(1) this]
    have "{i. i < 16 \<and> masked (mask_step dev op h) i} = mask_effect op {i. i < 16 \<and> masked h i}"
      using s(1) Cons.prems(2) by (cases op) (auto simp: mask_line_def)
    then show ?case using Cons.IH [OF s(2)] Cons.prems by simp
  qed
  moreover have "\<not> masked (pic_initialize h) i" for i
    by (simp add: masked_def mask_port_def pic_initialize_def outports_eq last_out_append const_defs)
  ultimately show ?thesis using in_service_initialize by simp
qed

text \<open>A controller that does nothing but read back its masks.\<close>

definition mask_device :: device where
  "mask_device h p = (case last_out p h of Some v \<Rightarrow> ucast v | None \<Rightarrow> 0)"

lemma mask_device: "mask_readback mask_device"
proof -
  have "ucast (ucast v :: u32) = v" for v :: u8 by (rule bit_word_eqI) (simp add: bit_simps)
  then show ?thesis by (simp add: mask_readback_def mask_device_def)
qed

theorem pic_masks_correct_witness:
  "masked (fold (mask_step mask_device) [Mask 3, Unmask 0, Mask 12, Unmask 3] (pic_initialize [])) 12"
  using pic_masks_correct [OF mask_device, of "[Mask 3, Unmask 0, Mask 12, Unmask 3]" 12 "[]"]
  by (simp add: mask_line_def)

end
