(* ===== verification/Syscall.thy ===== *)
theory Syscall
  imports Diagnostics Keyboard Devices
begin

text \<open>
  The interrupt dispatcher, \<open>kernel/arch/i386/interrupt.c\<close>: exceptions, interrupt requests and the
  system calls, which bring all components together. The state of the machine is the record of
  their states; the memory that user pointers reach is the memory of the kernel record. The static
  data of the other components (inode table, key buffer, screen) is apart from it.
\<close>

section \<open>State\<close>

record machine =
  m_kern :: kern
  m_files :: ramfs
  m_keys :: kbd
  m_screen :: tty
  m_ticks :: u32
  m_ports :: port_log

text \<open>What the linker and the assembly fix, and the devices behind the ports.\<close>

record platform =
  p_heap_start :: u32
  p_heap_end :: u32
  p_kernel_start :: u32
  p_kernel_end :: u32
  p_task_enter :: u32
  p_user_heap_start :: u32
  p_user_heap_end :: u32
  p_user_start :: u32
  p_user_end :: u32
  p_device :: device

record interrupt_context =
  cr2 :: u32
  gs :: u32
  fs :: u32
  es :: u32
  ds :: u32
  edi :: u32
  esi :: u32
  ebp :: u32
  ebx :: u32
  edx :: u32
  ecx :: u32
  eax :: u32
  int_no :: u32
  err_code :: u32
  eip :: u32
  cs :: u32
  eflags :: u32
  esp :: u32
  ss :: u32

abbreviation mem_of :: "machine \<Rightarrow> mem" where
  "mem_of s \<equiv> ram (m_kern s)"

abbreviation set_mem :: "mem \<Rightarrow> machine \<Rightarrow> machine" where
  "set_mem m s \<equiv> s\<lparr>m_kern := set_ram m (m_kern s)\<rparr>"

text \<open>A path argument: NULL, or the string at the address.\<close>

definition user_path :: "mem \<Rightarrow> u32 \<Rightarrow> string option option" where
  "user_path m p = (if p = 0 then Some None else map_option Some (read_cstr m p))"

definition stat_words :: "chales_stat \<Rightarrow> u32 list" where
  "stat_words st = [st_mode st, st_size st, st_ino st, st_nlink st]"

section \<open>Exceptions and interrupt requests\<close>

definition isr_handler :: "interrupt_context \<Rightarrow> machine \<Rightarrow> machine option" where
  "isr_handler c s =
     map_option (\<lambda>t. s\<lparr>m_screen := t\<rparr>)
       (printed (''[EXCEPTION] INT %lu  ERR=%lu  EIP=0x%lx'' @ newline) [AWord (int_no c), AWord (err_code c), AWord (eip c)] (m_screen s))"

text \<open>The handler reads the register \<open>cr2\<close> again; the entry stub has put the same value into the
  context.\<close>

definition page_fault_handler :: "interrupt_context \<Rightarrow> machine \<Rightarrow> machine option" where
  "page_fault_handler c s =
     map_option (\<lambda>t. s\<lparr>m_screen := t\<rparr>)
       (printed (''[PAGE FAULT] addr=0x%08x err=0x%08x eip=0x%08x'' @ newline) [AWord (cr2 c), AWord (err_code c), AWord (eip c)] (m_screen s))"

definition KEYBOARD_DATA_PORT :: u16 where "KEYBOARD_DATA_PORT = 0x60"

definition keyboard_read_scancode :: "device \<Rightarrow> port_log \<Rightarrow> u8 \<times> port_log" where
  "keyboard_read_scancode dev h = inport8 dev KEYBOARD_DATA_PORT h"

definition irq_work :: "device \<Rightarrow> u8 \<Rightarrow> machine \<Rightarrow> machine" where
  "irq_work dev irq s =
     (if irq = 1 then
        (let (scancode, h) = keyboard_read_scancode dev (m_ports s) in
         s\<lparr>m_ports := h, m_keys := irq_keyboard scancode (m_keys s)\<rparr>)
      else if irq = 0 then s\<lparr>m_ticks := timer_tick (m_ticks s)\<rparr>
      else s)"

definition irq_eoi :: "u8 \<Rightarrow> machine \<Rightarrow> machine" where
  "irq_eoi irq s = s\<lparr>m_ports := pic_eoi_master (if 8 \<le> irq then pic_eoi_slave (m_ports s) else m_ports s)\<rparr>"

definition irq_handler :: "device \<Rightarrow> interrupt_context \<Rightarrow> machine \<Rightarrow> machine" where
  "irq_handler dev c s =
     (let irq = ucast (int_no c - 32) :: u8 in
      if irq = 7 \<or> irq = 15 then
        (let (isr, h) = pic_read_isr dev (m_ports s); s1 = s\<lparr>m_ports := h\<rparr> in
         if irq = 7 \<and> isr AND push_bit 7 1 = 0 then s1
         else if irq = 15 \<and> isr AND push_bit 15 1 = 0 then s1\<lparr>m_ports := pic_eoi_master h\<rparr>
         else irq_eoi irq (irq_work dev irq s1))
      else irq_eoi irq (irq_work dev irq s))"

section \<open>Services\<close>

definition sbrk_handler :: "u32 \<Rightarrow> u32 \<Rightarrow> u32 \<Rightarrow> kern \<Rightarrow> u32 \<times> kern" where
  "sbrk_handler heap_start heap_end increment k0 =
     (let k = (if user_brk k0 = 0 then k0\<lparr>user_brk := heap_start\<rparr> else k0);
          old_brk = user_brk k; new_brk = user_brk k + increment in
      if sint increment < 0 \<and> new_brk < heap_start then (-1, k)
      else if heap_end < new_brk then (-1, k)
      else (old_brk, k\<lparr>user_brk := new_brk\<rparr>))"

text \<open>An addition to \<open>fd\<close> that would overflow gives an invalid descriptor in any case; descriptors are
  exact integers here.\<close>

definition sys_read :: "int \<Rightarrow> u32 \<Rightarrow> u32 \<Rightarrow> machine \<Rightarrow> (int \<times> machine) option" where
  "sys_read fd buf n s =
     (if buf = 0 then Some (- CHALES_EFAULT, s)
      else if fd = CHALES_FD_STDIN then
        (let (out, keys) = drain keyboard_buffer_has_data keyboard_buffer_pop (unat n) (m_keys s);
             s1 = set_mem (write_bytes (mem_of s) buf (map of_char out)) (s\<lparr>m_keys := keys\<rparr>) in
         Some (if n = 0 then 0 else if out \<noteq> [] then int (length out) else - CHALES_EAGAIN, s1))
      else if fd < CHALES_FD_FILE_BASE then Some (- CHALES_EBADF, s)
      else do {
        (r, bytes, f) \<leftarrow> ramfs_read (fd - CHALES_FD_FILE_BASE) False n (m_files s);
        Some (if r < 0 then - CHALES_EBADF else r, set_mem (write_bytes (mem_of s) buf bytes) (s\<lparr>m_files := f\<rparr>))
      })"

definition sys_write :: "int \<Rightarrow> u32 \<Rightarrow> u32 \<Rightarrow> machine \<Rightarrow> (int \<times> machine) option" where
  "sys_write fd buf n s =
     (if buf = 0 then Some (- CHALES_EFAULT, s)
      else if fd = CHALES_FD_STDOUT \<or> fd = CHALES_FD_STDERR then do {
        t \<leftarrow> terminal_write (read_bytes (mem_of s) buf (unat n)) (m_screen s);
        Some (sint n, s\<lparr>m_screen := t\<rparr>)
      }
      else if fd < CHALES_FD_FILE_BASE then Some (- CHALES_EBADF, s)
      else do {
        (r, f) \<leftarrow> ramfs_write (fd - CHALES_FD_FILE_BASE) (Some (\<lambda>i. mem_of s (buf + of_nat i))) n (m_files s);
        Some (if r < 0 then (if r = - CHALES_ENOSPC then r else - CHALES_EBADF) else r, s\<lparr>m_files := f\<rparr>)
      })"

definition sys_close :: "int \<Rightarrow> machine \<Rightarrow> int \<times> machine" where
  "sys_close fd s =
     (if 0 \<le> fd \<and> fd < CHALES_FD_FILE_BASE then (0, s)
      else (let (r, f) = ramfs_close (fd - CHALES_FD_FILE_BASE) (m_files s) in
            (if r < 0 then - CHALES_EBADF else 0, s\<lparr>m_files := f\<rparr>)))"

definition sys_wrap_fd :: "int \<Rightarrow> int" where
  "sys_wrap_fd r = (if r < 0 then r else r + CHALES_FD_FILE_BASE)"

definition sys_lseek :: "int \<Rightarrow> int \<Rightarrow> int \<Rightarrow> machine \<Rightarrow> int \<times> machine" where
  "sys_lseek fd off whence s =
     (if 0 \<le> fd \<and> fd < CHALES_FD_FILE_BASE then (- CHALES_ESPIPE, s)
      else (let (r, f) = ramfs_lseek (fd - CHALES_FD_FILE_BASE) off whence (m_files s) in (r, s\<lparr>m_files := f\<rparr>)))"

definition sys_fstat :: "int \<Rightarrow> u32 \<Rightarrow> machine \<Rightarrow> int \<times> machine" where
  "sys_fstat fd st s =
     (if st = 0 then (- CHALES_EFAULT, s)
      else if 0 \<le> fd \<and> fd < CHALES_FD_FILE_BASE then
        (0, set_mem (store_words st (stat_words \<lparr>st_mode = CHALES_S_IFCHR OR 0x190, st_size = 0, st_ino = word_of_int fd,
                                                st_nlink = 1\<rparr>) (mem_of s)) s)
      else (case ramfs_fstat (fd - CHALES_FD_FILE_BASE) (m_files s) of
              (r, None) \<Rightarrow> (r, s)
            | (r, Some x) \<Rightarrow> (r, set_mem (store_words st (stat_words x) (mem_of s)) s)))"

section \<open>System calls\<close>

text \<open>What a system call does: whether it comes back, the new value of \<open>eax\<close> if it has one, and the
  state. The arguments are the registers \<open>ebx\<close>, \<open>ecx\<close>, \<open>edx\<close>.\<close>

type_synonym sys_result = "(exit_outcome \<times> u32 option \<times> machine) option"

abbreviation ret :: "u32 \<Rightarrow> machine \<Rightarrow> sys_result" where
  "ret v s \<equiv> Some (Returns, Some v, s)"

abbreviation ret_int :: "int \<times> machine \<Rightarrow> sys_result" where
  "ret_int r \<equiv> ret (word_of_int (fst r)) (snd r)"

definition on_exit :: "(exit_outcome \<times> kern) option \<Rightarrow> u32 option \<Rightarrow> machine \<Rightarrow> sys_result" where
  "on_exit r v s =
     do { (out, k) \<leftarrow> r; t \<leftarrow> print_message (exit_message out) (m_screen s); Some (out, v, s\<lparr>m_kern := k, m_screen := t\<rparr>) }"

definition call_exit :: "u32 \<Rightarrow> machine \<Rightarrow> sys_result" where
  "call_exit a1 s = on_exit (sched_task_exit (current_task (m_kern s)) (push_bit 8 (sint a1 AND 0xFF)) (m_kern s)) None s"

definition call_putchar :: "u32 \<Rightarrow> machine \<Rightarrow> sys_result" where
  "call_putchar a1 s = map_option (\<lambda>(_, t). (Returns, None, s\<lparr>m_screen := t\<rparr>)) (putchar (sint a1) (m_screen s))"

text \<open>\<open>(uint32_t) c\<close> of a plain \<open>char\<close>, which is signed.\<close>

definition call_getchar :: "machine \<Rightarrow> sys_result" where
  "call_getchar s =
     (if keyboard_buffer_has_data (m_keys s) then
        (let (c, keys) = keyboard_buffer_pop (m_keys s) in ret (scast (of_char c :: u8)) (s\<lparr>m_keys := keys\<rparr>))
      else ret 0 s)"

definition call_sbrk :: "platform \<Rightarrow> u32 \<Rightarrow> machine \<Rightarrow> sys_result" where
  "call_sbrk p a1 s =
     (let (r, k) = sbrk_handler (p_user_heap_start p) (p_user_heap_end p) a1 (m_kern s) in ret r (s\<lparr>m_kern := k\<rparr>))"

definition call_ls :: "u32 \<Rightarrow> machine \<Rightarrow> sys_result" where
  "call_ls a1 s =
     do { path \<leftarrow> user_path (mem_of s) a1; t \<leftarrow> ramfs_ls path (m_files s) (m_screen s); ret 0 (s\<lparr>m_screen := t\<rparr>) }"

definition call_open :: "u32 \<Rightarrow> u32 \<Rightarrow> machine \<Rightarrow> sys_result" where
  "call_open a1 a2 s =
     do {
       path \<leftarrow> user_path (mem_of s) a1;
       (r, f) \<leftarrow> ramfs_open path a2 (m_files s);
       ret_int (if r < 0 then -1 else sys_wrap_fd r, s\<lparr>m_files := f\<rparr>)
     }"

definition call_mkdir :: "u32 \<Rightarrow> machine \<Rightarrow> sys_result" where
  "call_mkdir a1 s =
     do { path \<leftarrow> user_path (mem_of s) a1; (r, f) \<leftarrow> ramfs_mkdir path (m_files s); ret_int (r, s\<lparr>m_files := f\<rparr>) }"

definition call_unlink :: "u32 \<Rightarrow> machine \<Rightarrow> sys_result" where
  "call_unlink a1 s =
     do { path \<leftarrow> user_path (mem_of s) a1; (let (r, f) = ramfs_unlink path (m_files s) in ret_int (r, s\<lparr>m_files := f\<rparr>)) }"

definition call_rmdir :: "u32 \<Rightarrow> machine \<Rightarrow> sys_result" where
  "call_rmdir a1 s =
     do { path \<leftarrow> user_path (mem_of s) a1; (let (r, f) = ramfs_rmdir path (m_files s) in ret_int (r, s\<lparr>m_files := f\<rparr>)) }"

definition call_clear_screen :: "machine \<Rightarrow> sys_result" where
  "call_clear_screen s = do { t \<leftarrow> terminal_initialize (m_screen s); ret 0 (s\<lparr>m_screen := t\<rparr>) }"

text \<open>A port access: the value, widened, and the ports.\<close>

definition call_port :: "(port_log \<Rightarrow> 'a::len word \<times> port_log) \<Rightarrow> machine \<Rightarrow> sys_result" where
  "call_port acc s = (let (v, h) = acc (m_ports s) in ret (ucast v) (s\<lparr>m_ports := h\<rparr>))"

text \<open>\<open>while (inport8(0x64) & 0x02)\<close>, which need not end.\<close>

partial_function (option) wait_controller :: "device \<Rightarrow> port_log \<Rightarrow> port_log option" where
  "wait_controller dev h =
     (let (v, h1) = inport8 dev 0x64 h in if v AND 0x02 \<noteq> 0 then wait_controller dev h1 else Some h1)"

definition call_reset :: "device \<Rightarrow> machine \<Rightarrow> sys_result" where
  "call_reset dev s =
     do { h \<leftarrow> wait_controller dev (m_ports s); Some (Halts, None, s\<lparr>m_ports := snd (outport8 0x64 0xFE h)\<rparr>) }"

definition call_exec :: "platform \<Rightarrow> u32 \<Rightarrow> u32 \<Rightarrow> u32 \<Rightarrow> machine \<Rightarrow> sys_result" where
  "call_exec p a1 a2 a3 s =
     do {
       path \<leftarrow> user_path (mem_of s) a1;
       (r, sw, k) \<leftarrow> exec_run (p_heap_start p) (p_heap_end p) (p_kernel_start p) (p_kernel_end p) (p_task_enter p)
                       (m_files s) path a2 a3 (m_kern s);
       msg \<leftarrow> exec_message (p_kernel_start p) (p_kernel_end p) (m_files s) path a2 a3 (m_kern s);
       t \<leftarrow> print_message msg (m_screen s);
       Some (case sw of None \<Rightarrow> Returns | Some (prev, nxt) \<Rightarrow> Switches prev nxt, Some (word_of_int r), s\<lparr>m_kern := k, m_screen := t\<rparr>)
     }"

definition call_wait :: "u32 \<Rightarrow> machine \<Rightarrow> sys_result" where
  "call_wait a1 s =
     do {
       me \<leftarrow> tasks (m_kern s) (current_task (m_kern s));
       (if \<not> t_zombie_valid me then ret_int (- CHALES_ECHILD, s)
        else
          (let s1 = (if a1 \<noteq> 0 then set_mem (store32 (mem_of s) a1 (word_of_int (t_zombie_status me))) s else s) in
           do {
             k \<leftarrow> upd_task (current_task (m_kern s)) (\<lambda>t. t\<lparr>t_zombie_valid := False\<rparr>) (m_kern s1);
             ret (t_zombie_pid me) (s1\<lparr>m_kern := k\<rparr>)
           }))
     }"

definition call_open2 :: "u32 \<Rightarrow> u32 \<Rightarrow> machine \<Rightarrow> sys_result" where
  "call_open2 a1 a2 s =
     do {
       path \<leftarrow> user_path (mem_of s) a1;
       (r, f) \<leftarrow> ramfs_open2 path a2 (m_files s);
       ret_int (sys_wrap_fd r, s\<lparr>m_files := f\<rparr>)
     }"

definition call_stat :: "u32 \<Rightarrow> u32 \<Rightarrow> machine \<Rightarrow> sys_result" where
  "call_stat a1 a2 s =
     (if a1 = 0 \<or> a2 = 0 then ret_int (- CHALES_EFAULT, s)
      else do {
        path \<leftarrow> user_path (mem_of s) a1;
        (case ramfs_stat path (m_files s) of
           (r, None) \<Rightarrow> ret_int (r, s)
         | (r, Some x) \<Rightarrow> ret_int (r, set_mem (store_words a2 (stat_words x) (mem_of s)) s))
      })"

definition call_getpid :: "machine \<Rightarrow> sys_result" where
  "call_getpid s = do { me \<leftarrow> tasks (m_kern s) (current_task (m_kern s)); ret (t_pid me) s }"

definition call_kill :: "u32 \<Rightarrow> u32 \<Rightarrow> machine \<Rightarrow> sys_result" where
  "call_kill a1 sig s =
     do {
       target \<leftarrow> sched_find_task a1 (m_kern s);
       (if 64 < sig then ret_int (- CHALES_EINVAL, s)
        else if target = 0 then ret_int (- CHALES_ESRCH, s)
        else if sig = 0 then ret 0 s
        else on_exit (sched_task_exit target (sint sig) (m_kern s)) (Some 0) s)
     }"

definition call_times :: "u32 \<Rightarrow> machine \<Rightarrow> sys_result" where
  "call_times a1 s =
     (let ticks = timer_get_ticks (m_ticks s) in
      ret ticks (if a1 \<noteq> 0 then set_mem (store_words a1 [ticks, 0, 0, 0] (mem_of s)) s else s))"

definition call_gettimeofday :: "u32 \<Rightarrow> machine \<Rightarrow> sys_result" where
  "call_gettimeofday a1 s =
     (let ms = timer_get_ms (m_ticks s) in
      if a1 = 0 then ret_int (- CHALES_EFAULT, s)
      else ret 0 (set_mem (store_words a1 [ms div 1000, ms mod 1000 * 1000] (mem_of s)) s))"

definition call_unknown :: "u32 \<Rightarrow> machine \<Rightarrow> sys_result" where
  "call_unknown n s =
     do {
       t \<leftarrow> printed (''[SYSCALL] unknown syscall %lu'' @ newline) [AWord n] (m_screen s);
       ret_int (- CHALES_ENOSYS, s\<lparr>m_screen := t\<rparr>)
     }"

definition syscall :: "platform \<Rightarrow> u32 \<Rightarrow> u32 \<Rightarrow> u32 \<Rightarrow> u32 \<Rightarrow> machine \<Rightarrow> sys_result" where
  "syscall p n a1 a2 a3 s =
     (if n = 0 then call_exit a1 s
      else if n = 1 then call_putchar a1 s
      else if n = 2 then call_getchar s
      else if n = 3 then ret (timer_get_ticks (m_ticks s)) s
      else if n = 4 then call_sbrk p a1 s
      else if n = 5 then call_ls a1 s
      else if n = 6 then call_open a1 a2 s
      else if n = 7 then ret_int (sys_close (sint a1) s)
      else if n = 8 then do { r \<leftarrow> sys_read (sint a1) a2 a3 s; ret_int r }
      else if n = 9 then do { r \<leftarrow> sys_write (sint a1) a2 a3 s; ret_int r }
      else if n = 10 then call_mkdir a1 s
      else if n = 11 then call_unlink a1 s
      else if n = 12 then call_rmdir a1 s
      else if n = 13 then call_clear_screen s
      else if n = 14 then call_port (outport8 (ucast a1) (ucast a2)) s
      else if n = 15 then call_port (outport16 (ucast a1) (ucast a2)) s
      else if n = 16 then call_port (outport32 (ucast a1) a2) s
      else if n = 17 then call_port (inport8 (p_device p) (ucast a1)) s
      else if n = 18 then call_port (inport16 (p_device p) (ucast a1)) s
      else if n = 19 then call_port (inport32 (p_device p) (ucast a1)) s
      else if n = 20 then call_reset (p_device p) s
      else if n = 21 then call_exec p a1 a2 a3 s
      else if n = SYS_wait then call_wait a1 s
      else if n = SYS_open2 then call_open2 a1 a2 s
      else if n = SYS_lseek then ret_int (sys_lseek (sint a1) (sint a2) (sint a3) s)
      else if n = SYS_fstat then ret_int (sys_fstat (sint a1) a2 s)
      else if n = SYS_stat then call_stat a1 a2 s
      else if n = SYS_isatty then ret (if a1 < 3 then 1 else 0) s
      else if n = SYS_getpid then call_getpid s
      else if n = SYS_kill then call_kill a1 a2 s
      else if n = SYS_times then call_times a1 s
      else if n = SYS_gettimeofday then call_gettimeofday a1 s
      else call_unknown n s)"

definition syscall_handler :: "platform \<Rightarrow> interrupt_context \<Rightarrow> machine \<Rightarrow> (exit_outcome \<times> interrupt_context \<times> machine) option" where
  "syscall_handler p c s =
     map_option (\<lambda>(out, v, s1). (out, (case v of None \<Rightarrow> c | Some x \<Rightarrow> c\<lparr>eax := x\<rparr>), s1))
       (syscall p (eax c) (ebx c) (ecx c) (edx c) s)"

definition interrupt_handler :: "platform \<Rightarrow> interrupt_context \<Rightarrow> machine \<Rightarrow> (exit_outcome \<times> interrupt_context \<times> machine) option" where
  "interrupt_handler p c s =
     (if int_no c = 14 then map_option (\<lambda>s1. (Halts, c, s1)) (page_fault_handler c s)
      else if int_no c < 32 then map_option (\<lambda>s1. (Halts, c, s1)) (isr_handler c s)
      else if 32 \<le> int_no c \<and> int_no c < 32 + 16 then Some (Returns, c, irq_handler (p_device p) c s)
      else if int_no c = 0x80 then syscall_handler p c s
      else Some (Returns, c, s))"

end
