(* ===== verification/System.thy ===== *)
theory System
  imports Syscall
begin

text \<open>
  The machine as a whole: a state that is well formed in every component stays so through every
  interrupt, exception and system call, whatever user code does in between, as long as the
  arguments of system calls respect what the kernel does not check. Then what single interrupts and
  system calls do.
\<close>

section \<open>The invariant of the machine\<close>

text \<open>What user code can write: everything outside the kernel image, and of the image the pages that
  the page table gives to it, the \<open>.user\<close> section and the user heap. The kernel heap has to be apart
  from them, with 8 bytes to spare behind it, where the allocator may look for a header.\<close>

definition user_byte :: "platform \<Rightarrow> u32 \<Rightarrow> bool" where
  "user_byte p a \<longleftrightarrow> a < p_kernel_start p \<or> p_kernel_end p \<le> a \<or>
     p_user_start p \<le> a \<and> a < p_user_end p \<or> p_user_heap_start p \<le> a \<and> a < p_user_heap_end p"

abbreviation kernel_byte :: "platform \<Rightarrow> u32 \<Rightarrow> bool" where
  "kernel_byte p a \<equiv> \<not> user_byte p a"

definition heap_apart :: "platform \<Rightarrow> u32 \<Rightarrow> u32 \<Rightarrow> bool" where
  "heap_apart p lo hi \<longleftrightarrow> hi \<le> lo \<or> hi \<le> p_heap_start p \<or> unat (p_heap_end p) + 8 \<le> unat lo"

definition platform_ok :: "platform \<Rightarrow> bool" where
  "platform_ok p \<longleftrightarrow> layout_ok (p_heap_start p) (p_heap_end p) (p_kernel_start p) (p_kernel_end p) \<and>
     heap_apart p (p_user_start p) (p_user_end p) \<and> heap_apart p (p_user_heap_start p) (p_user_heap_end p)"

lemma platform_okD: "platform_ok p \<Longrightarrow> layout_ok (p_heap_start p) (p_heap_end p) (p_kernel_start p) (p_kernel_end p)"
  by (simp add: platform_ok_def)

lemma kernel_byte_heap:
  "platform_ok p \<Longrightarrow> unat (p_heap_start p) \<le> unat a \<Longrightarrow> unat a < unat (p_heap_end p) + 8 \<Longrightarrow> kernel_byte p a"
  by (auto simp: platform_ok_def layout_ok_def heap_apart_def user_byte_def word_le_nat_alt word_less_nat_alt)

definition kern_ok :: "platform \<Rightarrow> kern \<Rightarrow> bool" where
  "kern_ok p k \<longleftrightarrow> proc_good (p_heap_start p) (p_heap_end p) (p_kernel_start p) (p_kernel_end p) k"

text \<open>The number is how many files the counter of inode numbers still has room for.\<close>

definition machine_ok :: "platform \<Rightarrow> nat \<Rightarrow> machine \<Rightarrow> bool" where
  "machine_ok p n s \<longleftrightarrow> kern_ok p (m_kern s) \<and> ramfs_inv_n n (m_files s) \<and> kbd_inv (m_keys s) \<and> tty_inv (m_screen s)"

text \<open>What a system call relies on and does not check: a path is a string whose last component fits a
  name field, a pointer that the kernel writes through does not lead into the kernel, a write is
  not within 256 KiB of the 4 GiB limit, the root directory is not removed, and the keyboard
  controller becomes ready for a reset.\<close>

definition path_arg :: "machine \<Rightarrow> u32 \<Rightarrow> bool" where
  "path_arg s a \<longleftrightarrow> (\<exists>path. user_path (mem_of s) a = Some path \<and> path_ok path)"

definition user_region :: "platform \<Rightarrow> u32 \<Rightarrow> nat \<Rightarrow> bool" where
  "user_region p a len \<longleftrightarrow> (\<forall>x. in_region x a len \<longrightarrow> \<not> kernel_byte p x)"

definition call_ok :: "platform \<Rightarrow> machine \<Rightarrow> u32 \<Rightarrow> u32 \<Rightarrow> u32 \<Rightarrow> u32 \<Rightarrow> bool" where
  "call_ok p s n a1 a2 a3 \<longleftrightarrow>
     (n \<in> {5, 6, 10, 11, 12, 21, SYS_open2, SYS_stat} \<longrightarrow> path_arg s a1) \<and>
     (n = 12 \<longrightarrow> \<not> root_path (the (user_path (mem_of s) a1))) \<and>
     (n = 8 \<longrightarrow> user_region p a2 (unat a3)) \<and>
     (n = 9 \<longrightarrow> unat a3 \<le> 4294967295 - 262144) \<and>
     (n = 20 \<longrightarrow> wait_controller (p_device p) (m_ports s) \<noteq> None) \<and>
     (n = SYS_wait \<longrightarrow> a1 \<noteq> 0 \<longrightarrow> user_region p a1 4) \<and>
     (n \<in> {SYS_fstat, SYS_stat} \<longrightarrow> user_region p a2 16) \<and>
     (n = SYS_times \<longrightarrow> a1 \<noteq> 0 \<longrightarrow> user_region p a1 16) \<and>
     (n = SYS_gettimeofday \<longrightarrow> user_region p a1 8)"

text \<open>The outcome of a call: defined, and if the machine goes on, in a well-formed state.\<close>

definition good :: "platform \<Rightarrow> nat \<Rightarrow> sys_result \<Rightarrow> bool" where
  "good p n r \<longleftrightarrow> (\<exists>out v s. r = Some (out, v, s) \<and> (out \<noteq> Halts \<longrightarrow> machine_ok p n s))"

section \<open>Memory outside the kernel\<close>

lemma kern_ok_user:
  assumes "platform_ok p" "kern_ok p k" "\<And>a. kernel_byte p a \<Longrightarrow> m a = ram k a"
  shows "kern_ok p ((set_ram m k)\<lparr>user_brk := b\<rparr>)"
  using assms exec_ok_user kernel_byte_heap unfolding kern_ok_def proc_good_def by meson

lemma machine_ok_mem:
  assumes "platform_ok p" "machine_ok p n s" "\<And>a. kernel_byte p a \<Longrightarrow> m a = mem_of s a"
  shows "machine_ok p n (set_mem m s)"
proof -
  have "kern_ok p ((set_ram m (m_kern s))\<lparr>user_brk := user_brk (m_kern s)\<rparr>)"
    by (rule kern_ok_user [OF assms(1)]) (use assms(2,3) in \<open>auto simp: machine_ok_def\<close>)
  moreover have "(set_ram m (m_kern s))\<lparr>user_brk := user_brk (m_kern s)\<rparr> = set_ram m (m_kern s)" by simp
  ultimately show ?thesis using assms(2) by (simp add: machine_ok_def)
qed

lemma write_bytes_user:
  "user_region p a len \<Longrightarrow> length bs \<le> len \<Longrightarrow> kernel_byte p x \<Longrightarrow> write_bytes m a bs x = m x"
  by (rule write_bytes_out) (auto simp: user_region_def in_region_def)

lemma store_words_user:
  "user_region p a len \<Longrightarrow> 4 * length ws \<le> len \<Longrightarrow> len \<le> 2 ^ 32 \<Longrightarrow> kernel_byte p x \<Longrightarrow> store_words a ws m x = m x"
  by (rule store_words_out) (auto simp: user_region_def dest: in_region_mono)

section \<open>The components keep their invariants\<close>

lemma machine_okD:
  "machine_ok p n s \<Longrightarrow> kern_ok p (m_kern s)" "machine_ok p n s \<Longrightarrow> ramfs_inv_n n (m_files s)"
  "machine_ok p n s \<Longrightarrow> kbd_inv (m_keys s)" "machine_ok p n s \<Longrightarrow> tty_inv (m_screen s)"
  by (simp_all add: machine_ok_def)

lemma machine_ok_less: "machine_ok p m s \<Longrightarrow> n \<le> m \<Longrightarrow> machine_ok p n s"
  by (auto simp: machine_ok_def intro: ramfs_inv_n_less)

lemma machine_ok_upd [simp]:
  "machine_ok p n (s\<lparr>m_ticks := x\<rparr>) = machine_ok p n s" "machine_ok p n (s\<lparr>m_ports := h\<rparr>) = machine_ok p n s"
  by (simp_all add: machine_ok_def)

lemma machine_ok_kern: "machine_ok p n s \<Longrightarrow> kern_ok p k \<Longrightarrow> machine_ok p n (s\<lparr>m_kern := k\<rparr>)"
  by (simp add: machine_ok_def)

lemma machine_ok_files: "machine_ok p m s \<Longrightarrow> ramfs_inv_n n f \<Longrightarrow> machine_ok p n (s\<lparr>m_files := f\<rparr>)"
  by (simp add: machine_ok_def)

lemma machine_ok_keys: "machine_ok p n s \<Longrightarrow> kbd_inv q \<Longrightarrow> machine_ok p n (s\<lparr>m_keys := q\<rparr>)"
  by (simp add: machine_ok_def)

lemma machine_ok_screen: "machine_ok p n s \<Longrightarrow> tty_inv t \<Longrightarrow> machine_ok p n (s\<lparr>m_screen := t\<rparr>)"
  by (simp add: machine_ok_def)

lemmas machine_ok_parts = machine_ok_kern machine_ok_files machine_ok_keys machine_ok_screen

text \<open>What the kernel record keeps: the end of a task, a run of a program, the answer to \<open>wait\<close>.\<close>

lemma kern_ok_current:
  assumes "kern_ok p k"
  obtains t where "tasks k (current_task k) = Some t" "t_state t \<noteq> TASK_DEAD"
  using assms by (auto simp: kern_ok_def proc_good_def exec_ok_def alive_def)

lemma kern_ok_maps: "kern_ok p k \<Longrightarrow> \<exists>U. pt_maps U (kpaging k)"
  by (auto simp: kern_ok_def proc_good_def exec_ok_def)

lemma kern_ok_find:
  assumes "kern_ok p k"
  obtains "sched_find_task pid k = Some 0" | t tk rest L where "sched_find_task pid k = Some t" "t \<in> set (current_task k # rest)"
    "tasks k t = Some tk" "t_state tk \<noteq> TASK_DEAD" "t \<noteq> 0"
    "exec_ok (p_heap_start p) (p_heap_end p) (p_kernel_start p) (p_kernel_end p) k rest L"
proof -
  obtain rest L where ok: "exec_ok (p_heap_start p) (p_heap_end p) (p_kernel_start p) (p_kernel_end p) k rest L"
    using assms by (auto simp: kern_ok_def proc_good_def)
  then have r: "ring k rest" "0 \<notin> set (current_task k # rest)"
    by (auto simp: exec_ok_def sched_inv_def procs_ok_def tree_ok_def)
  show thesis by (rule find_task_member [OF r(1), of pid]) (use that ok r(2) in auto)
qed

lemma kern_ok_exit:
  assumes lay: "platform_ok p" and ok: "exec_ok (p_heap_start p) (p_heap_end p) (p_kernel_start p) (p_kernel_end p) k rest L"
    and t: "task \<in> set (current_task k # rest)" "tasks k task = Some t" "t_state t \<noteq> TASK_DEAD"
  shows "\<exists>out k'. sched_task_exit task st k = Some (out, k') \<and> (out \<noteq> Halts \<longrightarrow> kern_ok p k')"
  using exec_ok_exit [OF platform_okD [OF lay] ok t, of st] unfolding kern_ok_def proc_good_def by blast

lemma kern_ok_exec:
  assumes lay: "platform_ok p" and ok: "kern_ok p k"
  shows "\<exists>r sw k'. exec_run (p_heap_start p) (p_heap_end p) (p_kernel_start p) (p_kernel_end p) enter f prog argv envp k =
    Some (r, sw, k') \<and> kern_ok p k'"
proof -
  obtain rest L where e: "exec_ok (p_heap_start p) (p_heap_end p) (p_kernel_start p) (p_kernel_end p) k rest L"
    using ok by (auto simp: kern_ok_def proc_good_def)
  obtain t where t: "tasks k (current_task k) = Some t" using kern_ok_current [OF ok] by blast
  obtain r sw k' where r: "exec_run (p_heap_start p) (p_heap_end p) (p_kernel_start p) (p_kernel_end p) enter f prog argv envp k = Some (r, sw, k')"
    using exec_run_spec [OF platform_okD [OF lay] e t, of enter f prog argv envp] by blast
  then have "kern_ok p k'"
    using proc_step_good [OF platform_okD [OF lay] proc_step.exec [OF r]] ok by (simp add: kern_ok_def)
  with r show ?thesis by blast
qed

lemma kern_ok_zombie:
  assumes ok: "kern_ok p k" and t: "tasks k (current_task k) = Some t"
  shows "kern_ok p (k\<lparr>tasks := (tasks k)(current_task k := Some (t\<lparr>t_zombie_valid := False\<rparr>))\<rparr>)"
proof -
  let ?k = "k\<lparr>tasks := (tasks k)(current_task k := Some (t\<lparr>t_zombie_valid := False\<rparr>))\<rparr>"
  obtain rest L where e: "exec_ok (p_heap_start p) (p_heap_end p) (p_kernel_start p) (p_kernel_end p) k rest L"
    using ok by (auto simp: kern_ok_def proc_good_def)
  have "sched_inv (p_heap_start p) (p_heap_end p) ?k rest L"
    by (rule sched_inv_cong [of _ _ k]) (use e t in \<open>auto simp: exec_ok_def skeleton_def\<close>)
  moreover have a: "alive ?k x = alive k x" "parent_of ?k x = parent_of k x" for x
    using t by (auto simp: alive_def parent_of_def)
  moreover have "procs_ok (p_kernel_start p) (p_kernel_end p) (set (current_task k # rest)) ?k"
    using e t unfolding exec_ok_def procs_ok_def tree_ok_def a by (auto simp: frame_ok_def frame_fits_def frame_byte_def)
  ultimately have "exec_ok (p_heap_start p) (p_heap_end p) (p_kernel_start p) (p_kernel_end p) ?k rest L"
    using e t by (auto simp: exec_ok_def elf_ok_def)
  then show ?thesis by (auto simp: kern_ok_def proc_good_def)
qed

section \<open>Each system call\<close>

lemma good_ret [simp]: "good p n (ret v s) = machine_ok p n s"
  by (auto simp: good_def)

lemma good_bind: "x = Some y \<Longrightarrow> good p n (f y) \<Longrightarrow> good p n (Option.bind x f)"
  by simp

lemma good_exit:
  assumes "machine_ok p n s" "r = Some (out, k)" "out \<noteq> Halts \<longrightarrow> kern_ok p k"
  shows "good p n (on_exit r v s)"
proof -
  obtain t where "print_message (exit_message out) (m_screen s) = Some t" "tty_inv t"
    using print_message_ok [OF machine_okD(4) [OF assms(1)], of "exit_message out"] exit_message_ok by blast
  then show ?thesis using assms by (auto simp: good_def on_exit_def machine_ok_def)
qed

lemma good_path:
  assumes "path_arg s a" "\<And>path. user_path (mem_of s) a = Some path \<Longrightarrow> path_ok path \<Longrightarrow> good p n (f path)"
  shows "good p n (Option.bind (user_path (mem_of s) a) f)"
  using assms by (auto simp: path_arg_def)

lemma good_call_exit:
  assumes lay: "platform_ok p" and ok: "machine_ok p n s"
  shows "good p n (call_exit a1 s)"
proof -
  obtain rest L where e: "exec_ok (p_heap_start p) (p_heap_end p) (p_kernel_start p) (p_kernel_end p) (m_kern s) rest L"
    using machine_okD(1) [OF ok] by (auto simp: kern_ok_def proc_good_def)
  obtain t where "tasks (m_kern s) (current_task (m_kern s)) = Some t" "t_state t \<noteq> TASK_DEAD"
    using kern_ok_current [OF machine_okD(1) [OF ok]] by blast
  from kern_ok_exit [OF lay e _ this] obtain out k' where
    "sched_task_exit (current_task (m_kern s)) (push_bit 8 (sint a1 AND 0xFF)) (m_kern s) = Some (out, k')" "out \<noteq> Halts \<longrightarrow> kern_ok p k'"
    by (metis list.set_intros(1))
  from good_exit [OF ok this] show ?thesis by (simp add: call_exit_def)
qed

lemma good_call_kill:
  assumes lay: "platform_ok p" and ok: "machine_ok p n s"
  shows "good p n (call_kill a1 sig s)"
proof (rule kern_ok_find [OF machine_okD(1) [OF ok], of a1], goal_cases)
  case 1
  then show ?case using ok by (simp add: call_kill_def)
next
  case (2 t tk rest L)
  obtain out k' where "sched_task_exit t (sint sig) (m_kern s) = Some (out, k')" "out \<noteq> Halts \<longrightarrow> kern_ok p k'"
    using kern_ok_exit [OF lay 2(6,2-4)] by blast
  from good_exit [OF ok this] show ?case using 2(1) ok by (simp add: call_kill_def)
qed

lemma good_call_exec:
  assumes lay: "platform_ok p" and ok: "machine_ok p n s" and path: "path_arg s a1"
  shows "good p n (call_exec p a1 a2 a3 s)"
  unfolding call_exec_def
proof (rule good_path [OF path])
  fix path
  let ?ks = "p_kernel_start p" and ?ke = "p_kernel_end p" and ?k = "m_kern s"
  obtain r sw k where r: "exec_run (p_heap_start p) (p_heap_end p) ?ks ?ke (p_task_enter p) (m_files s) path a2 a3 ?k = Some (r, sw, k)"
      "kern_ok p k"
    using kern_ok_exec [OF lay machine_okD(1) [OF ok], of "p_task_enter p" "m_files s" path a2 a3] by blast
  obtain t U where "tasks ?k (current_task ?k) = Some t" "pt_maps U (kpaging ?k)"
    using kern_ok_current [OF machine_okD(1) [OF ok]] kern_ok_maps [OF machine_okD(1) [OF ok]] by metis
  then obtain msg where msg: "exec_message ?ks ?ke (m_files s) path a2 a3 ?k = Some msg" "\<And>m. msg = Some m \<Longrightarrow> reportable m"
    using exec_message_ok by blast
  obtain t' where "print_message msg (m_screen s) = Some t'" "tty_inv t'"
    using print_message_ok [OF machine_okD(4) [OF ok] msg(2)] by blast
  with r msg(1) show "good p n (do {
      (r, sw, k) \<leftarrow> exec_run (p_heap_start p) (p_heap_end p) ?ks ?ke (p_task_enter p) (m_files s) path a2 a3 ?k;
      msg \<leftarrow> exec_message ?ks ?ke (m_files s) path a2 a3 ?k;
      t \<leftarrow> print_message msg (m_screen s);
      Some (case sw of None \<Rightarrow> Returns | Some (prev, nxt) \<Rightarrow> Switches prev nxt, Some (word_of_int r), s\<lparr>m_kern := k, m_screen := t\<rparr>) })"
    using ok by (auto simp: good_def machine_ok_def)
qed

lemma good_call_wait:
  assumes lay: "platform_ok p" and ok: "machine_ok p n s" and a: "a1 \<noteq> 0 \<longrightarrow> user_region p a1 4"
  shows "good p n (call_wait a1 s)"
proof -
  obtain t where t: "tasks (m_kern s) (current_task (m_kern s)) = Some t" using kern_ok_current [OF machine_okD(1) [OF ok]] by blast
  let ?s = "if a1 \<noteq> 0 then set_mem (store32 (mem_of s) a1 (word_of_int (t_zombie_status t))) s else s"
  have "store32 (mem_of s) a1 w x = mem_of s x" if "a1 \<noteq> 0" "kernel_byte p x" for x w
    by (rule store32_out) (use a that in \<open>auto simp: user_region_def\<close>)
  then have s: "machine_ok p n ?s" using ok machine_ok_mem [OF lay ok, of "store32 (mem_of s) a1 (word_of_int (t_zombie_status t))"] by simp
  have "tasks (m_kern ?s) (current_task (m_kern ?s)) = Some t" using t by simp
  from kern_ok_zombie [OF machine_okD(1) [OF s] this] have
    "kern_ok p ((m_kern ?s)\<lparr>tasks := (tasks (m_kern ?s))(current_task (m_kern ?s) := Some (t\<lparr>t_zombie_valid := False\<rparr>))\<rparr>)" .
  from machine_ok_kern [OF s this] show ?thesis using t ok by (auto simp: call_wait_def upd_task_def Let_def)
qed

lemma good_call_sbrk:
  assumes "platform_ok p" "machine_ok p n s"
  shows "good p n (call_sbrk p a1 s)"
proof -
  have "snd (sbrk_handler hs he a1 k) = (set_ram (ram k) k)\<lparr>user_brk := user_brk (snd (sbrk_handler hs he a1 k))\<rparr>" for hs he k
    by (simp add: sbrk_handler_def Let_def)
  then have "kern_ok p (snd (sbrk_handler (p_user_heap_start p) (p_user_heap_end p) a1 (m_kern s)))"
    using kern_ok_user [OF assms(1) machine_okD(1) [OF assms(2)], of "mem_of s"] by metis
  then show ?thesis using assms(2) by (auto simp: call_sbrk_def machine_ok_kern split: prod.splits)
qed

lemma good_call_getpid: "machine_ok p n s \<Longrightarrow> good p n (call_getpid s)"
proof -
  assume ok: "machine_ok p n s"
  obtain t where "tasks (m_kern s) (current_task (m_kern s)) = Some t" using kern_ok_current [OF machine_okD(1) [OF ok]] by blast
  then show ?thesis using ok by (simp add: call_getpid_def)
qed

lemma good_call_getchar: "machine_ok p n s \<Longrightarrow> good p n (call_getchar s)"
  using kq.pop_inv [of "m_keys s"] by (auto simp: call_getchar_def machine_ok_keys machine_okD(3) split: prod.splits)

lemma good_call_putchar: "machine_ok p n s \<Longrightarrow> good p n (call_putchar a1 s)"
  using terminal_write_ok [OF machine_okD(4), of p n s "[word_of_int (sint a1)]"]
  by (auto simp: call_putchar_def putchar_def good_def intro: machine_ok_screen)

lemma good_call_clear: "machine_ok p n s \<Longrightarrow> good p n (call_clear_screen s)"
  using terminal_initialize_eq [of "m_screen s"] machine_okD(4) [of p n s]
  by (auto simp: call_clear_screen_def tty_inv_def VGA_HEIGHT_def VGA_WIDTH_def intro!: machine_ok_screen)

lemma good_call_unknown: "machine_ok p n s \<Longrightarrow> good p n (call_unknown k s)"
proof -
  assume ok: "machine_ok p n s"
  let ?ps = "map Lit ''[SYSCALL] unknown syscall '' @ [Conv False 0 Clong] @ map Lit newline"
  let ?s = "''[SYSCALL] unknown syscall '' @ numeral_string 10 DIGITS10 (unat k) @ newline"
  have m: "meaning printk_out ?ps [AWord k] = Some ?s" "format_text ?ps = ''[SYSCALL] unknown syscall %lu'' @ newline"
    by (simp_all add: format_text_def padded_def)
  have "length ?s \<le> INT_MAX" using length_numeral [of 10 DIGITS10 k] by (simp add: INT_MAX_def)
  from printed_ok [OF m(1) this machine_okD(4) [OF ok] m(2)] show ?thesis
    using ok by (auto simp: call_unknown_def machine_ok_screen)
qed

lemma ramfs_read_length:
  assumes "ramfs_read fd nul n s = Some (r, bs, s')"
  shows "length bs \<le> unat n"
  using assms by (auto simp: ramfs_read_def Let_def word_le_nat_alt word_less_nat_alt split: if_splits option.splits)

lemma good_sys_read:
  assumes lay: "platform_ok p" and ok: "machine_ok p n s" and a: "user_region p buf (unat len)"
  shows "\<exists>r s'. sys_read fd buf len s = Some (r, s') \<and> machine_ok p n s'"
proof -
  have w: "machine_ok p n (set_mem (write_bytes (mem_of s) buf bs) s)" if "length bs \<le> unat len" for bs
    by (rule machine_ok_mem [OF lay ok]) (use write_bytes_user [OF a that] in blast)
  show ?thesis
  proof (cases "buf \<noteq> 0 \<and> fd = 0")
    case True
    obtain out q where d: "drain keyboard_buffer_has_data keyboard_buffer_pop (unat len) (m_keys s) = (out, q)" by fastforce
    have k: "length out \<le> unat len" "kbd_inv q"
      using kq.drain_spec [OF machine_okD(3) [OF ok], of "unat len"] by (simp_all add: d)
    have "machine_ok p n ((set_mem (write_bytes (mem_of s) buf (map of_char out)) s)\<lparr>m_keys := q\<rparr>)"
      by (rule machine_ok_keys [OF w k(2)]) (use k(1) in simp)
    then show ?thesis using True d by (simp add: sys_read_def machine_ok_def)
  next
    case False
    obtain r bs f where f: "ramfs_read (fd - 3) False len (m_files s) = Some (r, bs, f)" "ramfs_inv_n n f"
      using ramfs_read_inv [OF machine_okD(2) [OF ok], of "fd - 3" False len] by blast
    from machine_ok_files [OF w [OF ramfs_read_length [OF f(1)]] f(2)] show ?thesis
      using False f(1) ok by (auto simp: sys_read_def machine_ok_def)
  qed
qed

lemma good_sys_write:
  assumes ok: "machine_ok p n s" and a: "unat len \<le> 4294967295 - 262144"
  shows "\<exists>r s'. sys_write fd buf len s = Some (r, s') \<and> machine_ok p n s'"
proof -
  obtain t where t: "terminal_write (read_bytes (mem_of s) buf (unat len)) (m_screen s) = Some t" "tty_inv t"
    using terminal_write_ok [OF machine_okD(4) [OF ok]] by blast
  obtain r f where f: "ramfs_write (fd - 3) (Some (\<lambda>i. mem_of s (buf + of_nat i))) len (m_files s) = Some (r, f)" "ramfs_inv_n n f"
    using ramfs_write_inv [OF machine_okD(2) [OF ok] a] by blast
  show ?thesis using t f ok by (auto simp: sys_write_def machine_ok_screen intro: machine_ok_files)
qed

lemma good_sys_fstat:
  assumes lay: "platform_ok p" and ok: "machine_ok p n s" and a: "user_region p st 16"
  shows "machine_ok p n (snd (sys_fstat fd st s))"
proof -
  have "machine_ok p n (set_mem (store_words st (stat_words x) (mem_of s)) s)" for x
    by (rule machine_ok_mem [OF lay ok]) (rule store_words_user [OF a], simp_all add: stat_words_def)
  then show ?thesis using ok by (auto simp: sys_fstat_def split: prod.splits option.splits)
qed

lemma good_call_stat:
  assumes lay: "platform_ok p" and ok: "machine_ok p n s" and path: "path_arg s a1" and a: "user_region p a2 16"
  shows "good p n (call_stat a1 a2 s)"
proof -
  have "machine_ok p n (set_mem (store_words a2 (stat_words x) (mem_of s)) s)" for x
    by (rule machine_ok_mem [OF lay ok]) (rule store_words_user [OF a], simp_all add: stat_words_def)
  then show ?thesis using ok path by (auto simp: call_stat_def path_arg_def split: prod.splits option.splits)
qed

lemma good_store:
  assumes "platform_ok p" "machine_ok p n s" "user_region p a len" "4 * length ws \<le> len" "len \<le> 2 ^ 32"
  shows "machine_ok p n (set_mem (store_words a ws (mem_of s)) s)"
  by (rule machine_ok_mem [OF assms(1,2)]) (rule store_words_user [OF assms(3-5)])

lemma good_files:
  assumes ok: "machine_ok p (Suc n) s" and path: "path_arg s a1"
  shows "good p n (call_open a1 a2 s)" "good p n (call_open2 a1 a2 s)" "good p n (call_mkdir a1 s)" "good p n (call_unlink a1 s)"
    "good p n (call_ls a1 s)" "\<not> root_path (the (user_path (mem_of s) a1)) \<Longrightarrow> good p n (call_rmdir a1 s)"
proof -
  obtain path where pa: "user_path (mem_of s) a1 = Some path" "path_ok path" using path by (auto simp: path_arg_def)
  note inv = machine_okD(2) [OF ok]
  have inv0: "ramfs_inv_n n (m_files s)" by (rule ramfs_inv_n_less [OF inv]) simp
  have i: "ramfs_inv (m_files s)" using inv by (simp add: ramfs_inv_n_def)
  show "good p n (call_open a1 a2 s)" using ramfs_open_spec [OF inv pa(2), of a2] pa(1) machine_ok_files [OF ok]
    by (auto simp: call_open_def)
  show "good p n (call_open2 a1 a2 s)" using ramfs_open2_spec [OF inv pa(2), of a2] pa(1) machine_ok_files [OF ok]
    by (auto simp: call_open2_def)
  show "good p n (call_mkdir a1 s)" using ramfs_mkdir_inv [OF inv pa(2)] pa(1) machine_ok_files [OF ok]
    by (auto simp: call_mkdir_def)
  show "good p n (call_unlink a1 s)" using ramfs_unlink_inv [OF inv0, of path] pa(1) machine_ok_files [OF ok]
    by (auto simp: call_unlink_def split: prod.splits)
  show "good p n (call_ls a1 s)"
    using ramfs_ls_spec [OF i machine_okD(4) [OF ok], of path] pa(1) machine_ok_screen [OF machine_ok_less [OF ok, of n]]
    by (auto simp: call_ls_def)
  show "good p n (call_rmdir a1 s)" if "\<not> root_path (the (user_path (mem_of s) a1))"
    using ramfs_rmdir_inv [OF inv0, of path] pa(1) that machine_ok_files [OF ok]
    by (auto simp: call_rmdir_def split: prod.splits)
qed

lemma good_sys_close: "machine_ok p n s \<Longrightarrow> machine_ok p n (snd (sys_close fd s))"
  using ramfs_close_inv [of n "m_files s" "fd - 3"] by (auto simp: sys_close_def machine_okD(2) intro: machine_ok_files split: prod.splits)

lemma good_sys_lseek: "machine_ok p n s \<Longrightarrow> machine_ok p n (snd (sys_lseek fd off wh s))"
  using ramfs_lseek_inv [of n "m_files s" "fd - 3" off wh] by (auto simp: sys_lseek_def machine_okD(2) intro: machine_ok_files split: prod.splits)

lemma good_call_port: "machine_ok p n s \<Longrightarrow> good p n (call_port acc s)"
  by (simp add: call_port_def split: prod.splits)

lemma good_call_reset: "wait_controller dev (m_ports s) \<noteq> None \<Longrightarrow> good p n (call_reset dev s)"
  by (auto simp: call_reset_def good_def)

lemma good_if: "(b \<Longrightarrow> good p n x) \<Longrightarrow> (\<not> b \<Longrightarrow> good p n y) \<Longrightarrow> good p n (if b then x else y)"
  by simp

text \<open>Every system call whose arguments respect \<open>call_ok\<close> is defined and keeps the machine well
  formed.\<close>

lemma syscall_good:
  assumes lay: "platform_ok p" and ok: "machine_ok p (Suc n) s" and args: "call_ok p s k a1 a2 a3"
  shows "good p n (syscall p k a1 a2 a3 s)"
proof -
  have ok0: "machine_ok p n s" by (rule machine_ok_less [OF ok]) simp
  have rd: "good p n (Option.bind (sys_read (sint a1) a2 a3 s) ret_int)" if "k = 8"
    using good_sys_read [OF lay ok0, of a2 a3 "sint a1"] args that by (auto simp: call_ok_def)
  have wr: "good p n (Option.bind (sys_write (sint a1) a2 a3 s) ret_int)" if "k = 9"
    using good_sys_write [OF ok0, of a3 "sint a1" a2] args that by (auto simp: call_ok_def)
  have tm: "good p n (call_times a1 s)" if "k = 29"
    using good_store [OF lay ok0, of a1 16 "[timer_get_ticks (m_ticks s), 0, 0, 0]"] args that ok0 by (auto simp: call_ok_def call_times_def Let_def)
  have td: "good p n (call_gettimeofday a1 s)" if "k = 30"
    using good_store [OF lay ok0, of a1 8 "[timer_get_ms (m_ticks s) div 1000, timer_get_ms (m_ticks s) mod 1000 * 1000]"] args that ok0
    by (auto simp: call_ok_def call_gettimeofday_def Let_def)
  note calls = good_call_exit [OF lay ok0] good_call_putchar [OF ok0] good_call_getchar [OF ok0] good_call_sbrk [OF lay ok0]
    good_files [OF ok] good_sys_close [OF ok0] rd wr good_call_clear [OF ok0] good_call_port [OF ok0] good_call_reset
    good_call_exec [OF lay ok0] good_call_wait [OF lay ok0] good_sys_lseek [OF ok0] good_sys_fstat [OF lay ok0]
    good_call_stat [OF lay ok0] good_call_getpid [OF ok0] good_call_kill [OF lay ok0] tm td good_call_unknown [OF ok0]
  show ?thesis unfolding syscall_def
    by (intro good_if) (use args in \<open>simp_all add: calls call_ok_def ok0\<close>)
qed

section \<open>Interrupts\<close>

lemma irq_handler_ok: "machine_ok p n s \<Longrightarrow> machine_ok p n (irq_handler dev c s)"
  by (auto simp: irq_handler_def irq_work_def irq_eoi_def keyboard_read_scancode_def Let_def machine_okD(3)
      intro!: machine_ok_keys irq_keyboard_inv split: prod.splits)

definition interrupt_ok :: "platform \<Rightarrow> interrupt_context \<Rightarrow> machine \<Rightarrow> bool" where
  "interrupt_ok p c s \<longleftrightarrow> int_no c = 0x80 \<longrightarrow> call_ok p s (eax c) (ebx c) (ecx c) (edx c)"

lemma padded_length: "length s \<le> 32 \<Longrightarrow> w \<le> 32 \<Longrightarrow> length (padded w c s) \<le> 32"
  by (simp add: padded_def)

lemma isr_defined: "tty_inv (m_screen s) \<Longrightarrow> \<exists>s'. isr_handler c s = Some s'"
proof -
  assume t: "tty_inv (m_screen s)"
  let ?n = "\<lambda>b w. numeral_string b (if b = 10 then DIGITS10 else DIGITS16) (unat w)"
  let ?ps = "map Lit ''[EXCEPTION] INT '' @ [Conv False 0 Clong] @ map Lit ''  ERR='' @ [Conv False 0 Clong] @ map Lit ''  EIP=0x'' @
    [Conv False 0 Clonghex] @ map Lit newline"
  let ?s = "''[EXCEPTION] INT '' @ ?n 10 (int_no c) @ ''  ERR='' @ ?n 10 (err_code c) @ ''  EIP=0x'' @ ?n 16 (eip c) @ newline"
  have m: "meaning printk_out ?ps [AWord (int_no c), AWord (err_code c), AWord (eip c)] = Some ?s"
    "format_text ?ps = ''[EXCEPTION] INT %lu  ERR=%lu  EIP=0x%lx'' @ newline"
    by (simp_all add: format_text_def padded_def)
  have "length ?s \<le> INT_MAX"
    using length_numeral [of 10 DIGITS10 "int_no c"] length_numeral [of 10 DIGITS10 "err_code c"] length_numeral [of 16 DIGITS16 "eip c"]
    by (simp add: INT_MAX_def)
  from printed_ok [OF m(1) this t m(2)] show ?thesis by (auto simp: isr_handler_def)
qed

lemma page_fault_defined: "tty_inv (m_screen s) \<Longrightarrow> \<exists>s'. page_fault_handler c s = Some s'"
proof -
  assume t: "tty_inv (m_screen s)"
  let ?n = "\<lambda>w. padded 8 CHR ''0'' (numeral_string 16 DIGITS16 (unat w))"
  let ?ps = "map Lit ''[PAGE FAULT] addr=0x'' @ [Conv True 8 Chex] @ map Lit '' err=0x'' @ [Conv True 8 Chex] @ map Lit '' eip=0x'' @
    [Conv True 8 Chex] @ map Lit newline"
  let ?s = "''[PAGE FAULT] addr=0x'' @ ?n (cr2 c) @ '' err=0x'' @ ?n (err_code c) @ '' eip=0x'' @ ?n (eip c) @ newline"
  have m: "meaning printk_out ?ps [AWord (cr2 c), AWord (err_code c), AWord (eip c)] = Some ?s"
    "format_text ?ps = ''[PAGE FAULT] addr=0x%08x err=0x%08x eip=0x%08x'' @ newline"
    by (simp_all add: format_text_def numeral_small DIGITS10_def)
  have n: "length (?n w) \<le> 32" for w :: u32 by (rule padded_length [OF length_numeral]) simp_all
  have "length ?s \<le> INT_MAX" using n [of "cr2 c"] n [of "err_code c"] n [of "eip c"] by (simp add: INT_MAX_def)
  from printed_ok [OF m(1) this t m(2)] show ?thesis by (auto simp: page_fault_handler_def)
qed

lemma interrupt_good:
  assumes lay: "platform_ok p" and ok: "machine_ok p (Suc n) s" and args: "interrupt_ok p c s"
  shows "\<exists>out c' s'. interrupt_handler p c s = Some (out, c', s') \<and> (out \<noteq> Halts \<longrightarrow> machine_ok p n s')"
proof -
  have ok0: "machine_ok p n s" by (rule machine_ok_less [OF ok]) simp
  note t = machine_okD(4) [OF ok0]
  have "good p n (syscall p (eax c) (ebx c) (ecx c) (edx c) s)" if "int_no c = 0x80"
    using syscall_good [OF lay ok] args that by (simp add: interrupt_ok_def)
  then have sc: "\<exists>out c' s'. syscall_handler p c s = Some (out, c', s') \<and> (out \<noteq> Halts \<longrightarrow> machine_ok p n s')" if "int_no c = 0x80"
    using that by (auto simp: syscall_handler_def good_def)
  consider "int_no c = 14" | "int_no c \<noteq> 14" "int_no c < 32" | "\<not> int_no c < 32" "int_no c < 48"
    | "\<not> int_no c < 32" "\<not> int_no c < 48" "int_no c = 0x80" | "\<not> int_no c < 32" "\<not> int_no c < 48" "int_no c \<noteq> 0x80" by blast
  then show ?thesis
  proof cases
    case 1
    then show ?thesis using page_fault_defined [OF t, of c] by (auto simp: interrupt_handler_def)
  next
    case 2
    then show ?thesis using isr_defined [OF t, of c] by (auto simp: interrupt_handler_def)
  next
    case 3
    then show ?thesis using irq_handler_ok [OF ok0, of "p_device p" c] by (auto simp: interrupt_handler_def)
  next
    case 4
    then show ?thesis using sc by (simp add: interrupt_handler_def)
  next
    case 5
    then show ?thesis using ok0 by (auto simp: interrupt_handler_def)
  qed
qed

text \<open>A run of the machine: interrupts of any kind and what user code does to memory outside the kernel.
  The number counts the interrupts.\<close>

inductive machine_run :: "platform \<Rightarrow> nat \<Rightarrow> machine \<Rightarrow> machine \<Rightarrow> bool" for p where
  start: "machine_run p 0 s s"
| interrupt: "machine_run p k s s1 \<Longrightarrow> interrupt_ok p c s1 \<Longrightarrow> interrupt_handler p c s1 = Some (out, c', s2) \<Longrightarrow> out \<noteq> Halts \<Longrightarrow>
    machine_run p (Suc k) s s2"
| user: "machine_run p k s s1 \<Longrightarrow> (\<And>a. kernel_byte p a \<Longrightarrow> m a = mem_of s1 a) \<Longrightarrow> machine_run p k s (set_mem m s1)"

inductive_cases machine_runE: "machine_run p k s s'"

lemma machine_run_ok:
  assumes lay: "platform_ok p" and run: "machine_run p k s0 s" and ok: "machine_ok p (k + Suc n) s0"
  shows "machine_ok p (Suc n) s \<and>
    (interrupt_ok p c s \<longrightarrow> (\<exists>out c' s'. interrupt_handler p c s = Some (out, c', s') \<and> (out \<noteq> Halts \<longrightarrow> machine_ok p n s')))"
proof -
  have "machine_ok p m s" if "machine_ok p (k + m) s0" for m
    using run that
  proof (induction arbitrary: m rule: machine_run.induct)
    case (interrupt k s s1 c out c' s2)
    then have "machine_ok p (Suc m) s1" by simp
    from interrupt_good [OF lay this interrupt.hyps(2)] interrupt.hyps(3,4) show ?case by auto
  next
    case (user k s s1 m')
    then show ?case using machine_ok_mem [OF lay] by blast
  qed simp
  then have "machine_ok p (Suc n) s" using ok by blast
  then show ?thesis using interrupt_good [OF lay] by blast
qed

end
