(* ===== verification/System_Calls.thy ===== *)
theory System_Calls
  imports System
begin

text \<open>
  What single interrupts and system calls do: the acknowledgement of hardware interrupts, the heap
  break, input and output through descriptors, the error codes, the status of finished programs.
\<close>

section \<open>A machine for the examples\<close>

lemma kbd_init_inv: "kbd_inv kbd_init"
  by (simp add: kbd_inv_def kbd_init_def KEYBOARD_BUFFER_SIZE_def)

text \<open>A machine with one open file, in which a program runs.\<close>

definition demo_platform :: platform where
  "demo_platform = \<lparr>p_heap_start = 0x110000, p_heap_end = 0x1F0000, p_kernel_start = 0x100000, p_kernel_end = 0x200000,
     p_task_enter = 0x100123, p_user_heap_start = 0x1F1000, p_user_heap_end = 0x1FB000,
     p_user_start = 0x104000, p_user_end = 0x106000, p_device = (\<lambda>_ _. 0)\<rparr>"

definition demo_machine :: machine where
  "demo_machine = \<lparr>m_kern = demo_kern, m_files = one_file, m_keys = kbd_init,
     m_screen = \<lparr>terminal_row = 0, terminal_column = 0, terminal_color = 7, terminal_buffer = replicate 2000 0\<rparr>, m_ticks = 7, m_ports = []\<rparr>"

lemma demo_machine_ok: "platform_ok demo_platform" "machine_ok demo_platform 5 demo_machine"
proof -
  have "kern_ok demo_platform demo_kern" using demo_ok by (auto simp: kern_ok_def proc_good_def demo_platform_def)
  moreover have "ramfs_inv_n 5 one_file" using one_file_facts(1) by (simp add: ramfs_inv_n_def one_file_def)
  moreover have "tty_inv (m_screen demo_machine)" by (simp add: demo_machine_def tty_inv_def VGA_HEIGHT_def VGA_WIDTH_def)
  ultimately show "machine_ok demo_platform 5 demo_machine" by (simp add: machine_ok_def demo_machine_def kbd_init_inv)
  show "platform_ok demo_platform" using demo_layout by (simp add: platform_ok_def demo_platform_def heap_apart_def)
qed

text \<open>What the stubs save for interrupt \<open>i\<close> with \<open>a\<close> in \<open>eax\<close>.\<close>

definition demo_context :: "u32 \<Rightarrow> u32 \<Rightarrow> interrupt_context" where
  "demo_context i a = \<lparr>cr2 = 0, gs = 0, fs = 0, es = 0, ds = 0, edi = 0, esi = 0, ebp = 0, ebx = 0, edx = 0, ecx = 0, eax = a, int_no = i,
     err_code = 0, eip = 0, cs = 0, eflags = 0, esp = 0, ss = 0\<rparr>"

section \<open>Hardware interrupts\<close>

lemma and_push_bit_eq_0: "x AND push_bit n 1 = 0 \<longleftrightarrow> \<not> bit x n" if "n < 16" for x :: u16
  by (simp add: push_bit_eq_mult and_exp_eq_0_iff_not_bit)

text \<open>The in-service registers are read for the two requests that can be spurious.\<close>

definition irq_probe :: "device \<Rightarrow> nat \<Rightarrow> port_log \<Rightarrow> port_log" where
  "irq_probe dev n h = (if n = 7 \<or> n = 15 then snd (pic_read_isr dev h) else h)"

definition spurious :: "device \<Rightarrow> nat \<Rightarrow> port_log \<Rightarrow> bool" where
  "spurious dev n h \<longleftrightarrow> (n = 7 \<or> n = 15) \<and> \<not> bit (fst (pic_read_isr dev h)) n"

text \<open>C18: A hardware interrupt is acknowledged exactly as the two controllers require: the end of interrupt
  goes to the slave first when the request came through it, and then to the master; a spurious
  request 7 is not acknowledged at all and a spurious request 15 at the master only, and for these
  two requests the in-service registers are read first. The keyboard request reads one scancode and
  hands it to the driver, the timer request counts a tick, and nothing else changes.\<close>

theorem irq_handler_correct:
  assumes c: "int_no c = of_nat (32 + n)" and n: "n < 16"
  shows "irq_handler dev c s =
    s\<lparr>m_ports := irq_probe dev n (m_ports s) @ (if n = 1 then [In8 0x60] else []) @
        (if spurious dev n (m_ports s) then (if n = 15 then [Out8 0x20 0x20] else [])
         else (if 8 \<le> n then [Out8 0xA0 0x20] else []) @ [Out8 0x20 0x20]),
      m_keys := (if n = 1 then irq_keyboard (ucast (dev (m_ports s) 0x60)) (m_keys s) else m_keys s),
      m_ticks := (if n = 0 then m_ticks s + 1 else m_ticks s)\<rparr>"
proof -
  obtain isr h where i: "pic_read_isr dev (m_ports s) = (isr, h)" by fastforce
  have b: "isr AND 0x80 = 0 \<longleftrightarrow> \<not> bit isr 7" "isr AND 0x8000 = 0 \<longleftrightarrow> \<not> bit isr 15"
    using and_push_bit_eq_0 [of 7 isr] and_push_bit_eq_0 [of 15 isr] by simp_all
  define irq where "irq = (ucast (int_no c - 32) :: u8)"
  have "unat irq = n"
  proof -
    have "int_no c - 32 = of_nat n" using c by simp
    then show ?thesis using n by (simp add: irq_def unsigned_ucast_eq unat_of_nat32 take_bit_nat_eq_self)
  qed
  then have q: "irq = k \<longleftrightarrow> n = unat k" "k \<le> irq \<longleftrightarrow> unat k \<le> n" for k by (auto simp: word_unat_eq_iff word_le_nat_alt)
  show ?thesis
    unfolding irq_handler_def irq_def [symmetric] Let_def i prod.case irq_eoi_def irq_work_def irq_probe_def spurious_def q
      keyboard_read_scancode_def inport8_def timer_tick_def pic_eoi_master_def pic_eoi_slave_def outports_eq
    using i b by (simp add: const_defs KEYBOARD_DATA_PORT_def)
qed

theorem irq_handler_correct_witness:
  "irq_handler (\<lambda>_ _. 0x1C) (demo_context 40 0) demo_machine = demo_machine\<lparr>m_ports := [Out8 0xA0 0x20, Out8 0x20 0x20]\<rparr>"
  using irq_handler_correct [of "demo_context 40 0" 8 "\<lambda>_ _. 0x1C" demo_machine]
  by (simp add: irq_probe_def spurious_def demo_context_def demo_machine_def)

section \<open>The heap break\<close>

lemma uint_add_sint: "uint (b + inc) = (uint b + sint inc) mod 4294967296" for b inc :: u32
proof -
  have "b + inc = word_of_int (uint b + sint inc)" by simp
  then show ?thesis by (simp only: unsigned_of_int take_bit_eq_mod) simp
qed

lemma brk_arith:
  fixes B I H E :: int
  assumes "0 \<le> H" "H \<le> B" "B \<le> E" "E < 2147483648" "-2147483648 \<le> I" "I < 2147483648"
  shows "(I < 0 \<and> (if 0 \<le> B + I then B + I else B + I + 4294967296) < H \<or> E < (if 0 \<le> B + I then B + I else B + I + 4294967296)) \<longleftrightarrow>
    \<not> (H \<le> B + I \<and> B + I \<le> E)"
  using assms by (cases "0 \<le> B + I") auto

text \<open>C19: \<open>sbrk\<close> on a user heap below 2 GiB: the break moves by the increment and the old break is returned
  if the new one lies in the heap, and otherwise nothing moves and -1 is returned; so the break
  stays in the heap, for every increment, however large or negative.\<close>

theorem sbrk_correct:
  assumes "0 < hs" "hs \<le> he" "he < 0x80000000" "user_brk k = 0 \<or> hs \<le> user_brk k \<and> user_brk k \<le> he"
  defines "b \<equiv> (if user_brk k = 0 then hs else user_brk k)"
  shows "sbrk_handler hs he inc k =
    (if uint hs \<le> uint b + sint inc \<and> uint b + sint inc \<le> uint he then (b, k\<lparr>user_brk := b + inc\<rparr>)
     else (-1, k\<lparr>user_brk := b\<rparr>)) \<and>
    hs \<le> user_brk (snd (sbrk_handler hs he inc k)) \<and> user_brk (snd (sbrk_handler hs he inc k)) \<le> he"
proof -
  let ?t = "uint b + sint inc"
  have r: "-2147483648 \<le> sint inc" "sint inc < 2147483648" using sint_greater_eq [of inc] sint_lt [of inc] by simp_all
  have b: "uint hs \<le> uint b" "uint b \<le> uint he" "uint he < 2147483648" "b \<noteq> 0"
    using assms by (auto simp: word_le_def word_less_def split: if_splits)
  have t: "uint (b + inc) = (if 0 \<le> ?t then ?t else ?t + 4294967296)"
  proof (cases "0 \<le> ?t")
    case True
    then have "?t mod 4294967296 = ?t" using r b by (intro mod_pos_pos_trivial) linarith+
    then show ?thesis using True by (simp add: uint_add_sint)
  next
    case False
    have "?t mod 4294967296 = (?t + 4294967296) mod 4294967296" by simp
    also have "\<dots> = ?t + 4294967296" using r uint_ge_0 [of b] False by (intro mod_pos_pos_trivial) linarith+
    finally show ?thesis using False by (simp add: uint_add_sint)
  qed
  have l: "b + inc < hs \<longleftrightarrow> uint (b + inc) < uint hs" "he < b + inc \<longleftrightarrow> uint he < uint (b + inc)" by (simp_all add: word_less_def)
  have k: "(if user_brk k = 0 then k\<lparr>user_brk := hs\<rparr> else k) = k\<lparr>user_brk := b\<rparr>" by (simp add: b_def)
  have s: "sbrk_handler hs he inc k =
      (if uint hs \<le> ?t \<and> ?t \<le> uint he then (b, k\<lparr>user_brk := b + inc\<rparr>) else (-1, k\<lparr>user_brk := b\<rparr>))"
  proof -
    have e: "(sint inc < 0 \<and> b + inc < hs \<or> he < b + inc) \<longleftrightarrow> \<not> (uint hs \<le> ?t \<and> ?t \<le> uint he)"
      unfolding l t by (rule brk_arith) (use b(1-3) r uint_ge_0 [of hs] in simp_all)
    have "sbrk_handler hs he inc k =
        (if sint inc < 0 \<and> b + inc < hs \<or> he < b + inc then (-1, k\<lparr>user_brk := b\<rparr>) else (b, k\<lparr>user_brk := b + inc\<rparr>))"
      unfolding sbrk_handler_def k Let_def by simp
    then show ?thesis unfolding e by simp
  qed
  moreover have "hs \<le> b + inc \<and> b + inc \<le> he" if "uint hs \<le> ?t \<and> ?t \<le> uint he"
  proof -
    have "0 \<le> ?t" using that uint_ge_0 [of hs] by linarith
    then show ?thesis using that by (simp add: word_le_def t)
  qed
  moreover have "hs \<le> b \<and> b \<le> he" using b by (simp add: word_le_def)
  ultimately show ?thesis by simp
qed

theorem sbrk_correct_witness:
  "sbrk_handler 0x400000 0x500000 0xFFFFF000 (demo_kern\<lparr>user_brk := 0x402000\<rparr>) = (0x402000, demo_kern\<lparr>user_brk := 0x401000\<rparr>)"
  using sbrk_correct [of "0x400000" "0x500000" "demo_kern\<lparr>user_brk := 0x402000\<rparr>" "0xFFFFF000"] by simp

section \<open>Input and output\<close>

text \<open>C15: What is typed is what is read: after any keyboard interrupts, a \<open>read\<close> from descriptor 0 stores in
  the buffer, and returns the number of, the oldest characters that the keys gave, as many as asked
  for and there are, and takes just these out of the key buffer; a \<open>read\<close> with nothing typed
  returns \<open>EAGAIN\<close>. The key buffer holds 256 characters and drops what is typed beyond.\<close>

theorem typed_is_read:
  assumes inv: "kbd_inv (m_keys s)" and buf: "buf \<noteq> 0" and keys: "m_keys s1 = fold irq_keyboard scs (m_keys s)"
  defines "typed \<equiv> take KEYBOARD_BUFFER_SIZE (kbd_contents (m_keys s) @ List.map_filter key_char scs)"
  shows "\<exists>r s2. sys_read 0 buf n s1 = Some (r, s2) \<and>
    r = (if n = 0 then 0 else if typed = [] then - CHALES_EAGAIN else int (min (unat n) (length typed))) \<and>
    mem_of s2 = write_bytes (mem_of s1) buf (map of_char (take (unat n) typed)) \<and>
    kbd_contents (m_keys s2) = drop (unat n) typed \<and> kbd_inv (m_keys s2)"
proof -
  have k: "kbd_inv (m_keys s1)" "kbd_contents (m_keys s1) = typed"
    unfolding keys typed_def using keys_fifo [OF inv, of scs] by simp_all
  obtain out q where d: "drain keyboard_buffer_has_data keyboard_buffer_pop (unat n) (m_keys s1) = (out, q)" by fastforce
  have "out = take (unat n) typed" "kbd_contents q = drop (unat n) typed" "kbd_inv q"
    using kq.drain_spec [OF k(1), of "unat n"] unfolding d k(2) by simp_all
  moreover have "take (unat n) typed \<noteq> [] \<longleftrightarrow> n \<noteq> 0 \<and> typed \<noteq> []" by (auto simp: unat_eq_zero)
  ultimately show ?thesis using buf by (auto simp: sys_read_def d min.commute)
qed

theorem typed_is_read_witness:
  "\<exists>r s2. sys_read 0 0x400000 5 (demo_machine\<lparr>m_keys := fold irq_keyboard [0x10, 0x90, 0x1C] kbd_init\<rparr>) = Some (r, s2) \<and> r = 2 \<and>
     mem_of s2 = write_bytes (mem_of demo_machine) 0x400000 [113, 10] \<and> kbd_contents (m_keys s2) = []"
proof -
  have keys: "List.map_filter key_char [0x10, 0x90, 0x1C] = ''q'' @ [CHR 0x0A]" by code_simp
  have "m_keys demo_machine = kbd_init" "kbd_contents kbd_init = []" by (simp_all add: demo_machine_def kbd_contents_def kbd_init_def)
  then show ?thesis
    using typed_is_read [of demo_machine "0x400000" "demo_machine\<lparr>m_keys := fold irq_keyboard [0x10, 0x90, 0x1C] kbd_init\<rparr>" "[0x10, 0x90, 0x1C]" 5] keys
    by (auto simp: kbd_init_inv KEYBOARD_BUFFER_SIZE_def)
qed

text \<open>C14: What a program writes to a file through the system calls is what it reads back: on a descriptor
  open for reading and writing, a \<open>write\<close> that returns \<open>m\<close>, an \<open>lseek\<close> back by \<open>m\<close> and a \<open>read\<close>
  of \<open>m\<close> bytes into any other buffer store there the first \<open>m\<close> bytes of the written buffer.\<close>

theorem file_round_trip:
  assumes inv: "ramfs_inv (m_files s)" and o: "open_on (m_files s) (fd - 3) k"
    and rdwr: "fd_flags (fds (m_files s) ! nat (fd - 3)) AND CHALES_O_ACCMODE = CHALES_O_RDWR"
    and small: "unat n \<le> 4294967295 - 262144" and buf: "buf' \<noteq> 0"
    and w: "sys_write fd buf n s = Some (int m, s1)"
  shows "\<exists>r s2 s3. sys_lseek fd (- int m) CHALES_SEEK_CUR s1 = (r, s2) \<and> 0 \<le> r \<and>
    sys_read fd buf' (of_nat m) s2 = Some (int m, s3) \<and> read_bytes (mem_of s3) buf' m = read_bytes (mem_of s) buf m"
proof -
  have fd: "3 \<le> fd" using o by (simp add: open_on_def)
  obtain f where f: "ramfs_write (fd - 3) (Some (\<lambda>i. mem_of s (buf + of_nat i))) n (m_files s) = Some (int m, f)" "s1 = s\<lparr>m_files := f\<rparr>"
    using w fd by (auto simp: sys_write_def bind_eq_Some_conv split: if_splits)
  obtain f2 f3 where r: "m \<le> unat n" "ramfs_lseek (fd - 3) (- int m) CHALES_SEEK_CUR f = (uint (write_offset (m_files s) (fd - 3) k), f2)"
    "ramfs_read (fd - 3) False (of_nat m) f2 = Some (int m, map (\<lambda>i. mem_of s (buf + of_nat i)) [0..<m], f3)"
    using write_read_back [OF inv o rdwr small f(1)] by blast
  have l: "m < 2 ^ 32" using r(1) unat_u32_less [of n] by simp
  have "read_bytes (write_bytes (mem_of s) buf' (read_bytes (mem_of s) buf m)) buf' m = read_bytes (mem_of s) buf m"
    using read_write_same [of "read_bytes (mem_of s) buf m" "mem_of s" buf'] l by simp
  then show ?thesis using r(2,3) f(2) fd buf by (auto simp: sys_lseek_def sys_read_def read_bytes_def)
qed

theorem file_round_trip_witness:
  "\<exists>s1 r s2 s3. sys_write 3 0x300000 10 demo_machine = Some (int 10, s1) \<and>
    sys_lseek 3 (- int 10) CHALES_SEEK_CUR s1 = (r, s2) \<and> 0 \<le> r \<and>
    sys_read 3 0x400000 (of_nat 10) s2 = Some (int 10, s3) \<and> read_bytes (mem_of s3) 0x400000 10 = read_bytes (mem_of demo_machine) 0x300000 10"
proof -
  obtain f where "ramfs_write 0 (Some (\<lambda>i. mem_of demo_machine (0x300000 + of_nat i))) 10 one_file = Some (int 10, f)"
    using one_file_write by blast
  then have w: "sys_write 3 0x300000 10 demo_machine = Some (int 10, demo_machine\<lparr>m_files := f\<rparr>)"
    by (simp add: sys_write_def) (simp add: demo_machine_def)
  have m: "m_files demo_machine = one_file" by (simp add: demo_machine_def)
  show ?thesis
    using file_round_trip [OF _ _ _ _ _ w, of 1 "0x400000"] w one_file_facts unfolding m by fastforce
qed

section \<open>Process status\<close>

text \<open>C20: The status a program exits with reaches its parent: when the running program calls
  \<open>exit (code)\<close>, the next \<open>wait (&status)\<close> of its parent, whenever that runs again and as long as no
  other child has ended, returns the program's process number and stores the low byte of the code
  in bits 8 to 15 of the status, as newlib expects; a second \<open>wait\<close> reports that there is none.\<close>

theorem exit_then_wait:
  assumes lay: "platform_ok p" and ok: "machine_ok p n s"
    and c: "tasks (m_kern s) (current_task (m_kern s)) = Some c" "t_parent c \<noteq> 0"
    and ex: "call_exit code s = Some (out, v, s1)"
    and s2: "current_task (m_kern s2) = t_parent c"
      "map_option zombie (tasks (m_kern s2) (t_parent c)) = map_option zombie (tasks (m_kern s1) (t_parent c))"
    and st: "st \<noteq> 0"
  shows "\<exists>s3. call_wait st s2 = ret (t_pid c) s3 \<and> load32 (mem_of s3) st = push_bit 8 (code AND 0xFF) \<and>
    call_wait st s3 = ret_int (- CHALES_ECHILD, s3)"
proof -
  obtain rest L where e: "exec_ok (p_heap_start p) (p_heap_end p) (p_kernel_start p) (p_kernel_end p) (m_kern s) rest L"
    using machine_okD(1) [OF ok] by (auto simp: kern_ok_def proc_good_def)
  then have live: "t_state c \<noteq> TASK_DEAD" using c(1) by (auto simp: exec_ok_def alive_def)
  let ?status = "push_bit 8 (sint code AND 0xFF)"
  have "sched_task_exit (current_task (m_kern s)) ?status (m_kern s) = Some (out, m_kern s1)"
    using ex by (auto simp: call_exit_def on_exit_def split: bind_splits)
  then have "map_option zombie (tasks (m_kern s1) (t_parent c)) = Some (True, t_pid c, ?status)"
    using sched_task_exit_spec [OF platform_okD [OF lay] e _ c(1) live, of ?status] c(2) by auto
  then obtain q where q: "tasks (m_kern s2) (t_parent c) = Some q" "t_zombie_valid q" "t_zombie_pid q = t_pid c" "t_zombie_status q = ?status"
    using s2(2) by (cases "tasks (m_kern s2) (t_parent c)") (auto simp: zombie_def)
  have "(word_of_int ?status :: u32) = push_bit 8 (code AND 0xFF)"
    by (rule bit_word_eqI) (auto simp: bit_simps)
  then show ?thesis using q s2(1) st by (simp add: call_wait_def upd_task_def Let_def)
qed

theorem exit_then_wait_witness:
  "\<exists>s out v s1 s3. call_exit 0x101 s = Some (out, v, s1) \<and> call_wait 0x400000 (s1\<lparr>m_kern := (m_kern s1)\<lparr>current_task := 0x9000\<rparr>\<rparr>) = ret 3 s3 \<and>
    load32 (mem_of s3) 0x400000 = 0x100 \<and> call_wait 0x400000 s3 = ret_int (- CHALES_ECHILD, s3)"
proof -
  obtain q where q: "tasks demo_kern (current_task demo_kern) = Some q" by (simp add: demo_kern_def boot_kern_def)
  obtain child k1 where r: "demo_run = Some (0, Some (0x9000, child), k1)" using demo_started by blast
  obtain rest1 L1 c where k1: "exec_ok 0x110000 0x1F0000 0x100000 0x200000 k1 rest1 L1" "current_task k1 = child"
    "tasks k1 child = Some c" "t_pid c = 3" "t_parent c = 0x9000"
    using exec_run_spec [OF demo_layout demo_ok q, of "0x100123" demo_fs "Some ''/f''" 0 0] r
    by (auto simp: child_started_def demo_current)
  let ?s = "demo_machine\<lparr>m_kern := k1\<rparr>"
  have "kern_ok demo_platform k1" using k1(1) by (auto simp: kern_ok_def proc_good_def demo_platform_def)
  then have ok: "machine_ok demo_platform 5 ?s" using demo_machine_ok(2) by (rule machine_ok_kern [rotated])
  have "good demo_platform 5 (call_exit 0x101 ?s)" by (rule good_call_exit [OF demo_machine_ok(1) ok])
  then obtain out v s1 where ex: "call_exit 0x101 ?s = Some (out, v, s1)" by (auto simp: good_def)
  obtain s3 where "call_wait 0x400000 (s1\<lparr>m_kern := (m_kern s1)\<lparr>current_task := 0x9000\<rparr>\<rparr>) = ret 3 s3" "load32 (mem_of s3) 0x400000 = 0x100"
    "call_wait 0x400000 s3 = ret_int (- CHALES_ECHILD, s3)"
    using exit_then_wait [OF demo_machine_ok(1) ok _ _ ex, of c "s1\<lparr>m_kern := (m_kern s1)\<lparr>current_task := 0x9000\<rparr>\<rparr>" "0x400000"] k1
    by auto
  then show ?thesis using ex by blast
qed



end
