(* ===== verification/Descriptors.thy ===== *)
theory Descriptors
  imports Prelude
begin

text \<open>
  Segment and interrupt descriptors, \<open>kernel/arch/i386/gdt.c\<close> and \<open>idt.c\<close>: the packed entries, the
  tables, and what the processor reads from them. The addresses of the task state segment and of
  the interrupt entry stubs, which are assembly, are arguments.
\<close>

section \<open>Segment descriptors\<close>

record gdt_entry =
  limit_low :: u16
  base_low :: u16
  base_middle :: u8
  access :: u8
  granularity :: u8
  base_high :: u8

definition GRAN_32_BIT_MODE :: u32 where "GRAN_32_BIT_MODE = push_bit 6 1"
definition GRAN_4KIB_BLOCKS :: u32 where "GRAN_4KIB_BLOCKS = push_bit 7 1"

definition GDT_ENTRY :: "u32 \<Rightarrow> u32 \<Rightarrow> u32 \<Rightarrow> u32 \<Rightarrow> gdt_entry" where
  "GDT_ENTRY b l a g =
     \<lparr>limit_low = ucast (l AND 0xFFFF), base_low = ucast (drop_bit 0 b AND 0xFFFF),
      base_middle = ucast (drop_bit 16 b AND 0xFF), access = ucast (a AND 0xFF),
      granularity = ucast ((drop_bit 16 l AND 0x0F) OR (g AND 0xF0)), base_high = ucast (drop_bit 24 b AND 0xFF)\<rparr>"

section \<open>The task state segment\<close>

text \<open>The processor takes the kernel's stack pointer from it on an interrupt in user mode. Members without
  an initialiser are zero.\<close>

record tss_entry =
  ts_prev_tss :: u32
  ts_esp0 :: u32
  ts_ss0 :: u32
  ts_esp1 :: u32
  ts_ss1 :: u32
  ts_esp2 :: u32
  ts_ss2 :: u32
  ts_cr3 :: u32
  ts_eip :: u32
  ts_eflags :: u32
  ts_eax :: u32
  ts_ecx :: u32
  ts_edx :: u32
  ts_ebx :: u32
  ts_esp :: u32
  ts_ebp :: u32
  ts_esi :: u32
  ts_edi :: u32
  ts_es :: u32
  ts_cs :: u32
  ts_ss :: u32
  ts_ds :: u32
  ts_fs :: u32
  ts_gs :: u32
  ts_ldt :: u32
  ts_trap :: u16
  ts_iomap_base :: u16

definition tss :: tss_entry where
  "tss = \<lparr>ts_prev_tss = 0, ts_esp0 = 0, ts_ss0 = 0x10, ts_esp1 = 0, ts_ss1 = 0, ts_esp2 = 0, ts_ss2 = 0, ts_cr3 = 0,
     ts_eip = 0, ts_eflags = 0, ts_eax = 0, ts_ecx = 0, ts_edx = 0, ts_ebx = 0, ts_esp = 0, ts_ebp = 0, ts_esi = 0, ts_edi = 0,
     ts_es = 0x10, ts_cs = 0x08, ts_ss = 0, ts_ds = 0x13, ts_fs = 0x13, ts_gs = 0x13, ts_ldt = 0, ts_trap = 0, ts_iomap_base = 0\<rparr>"

definition tss_set_kernel_stack :: "u32 \<Rightarrow> tss_entry \<Rightarrow> tss_entry" where
  "tss_set_kernel_stack sp t = t\<lparr>ts_esp0 := sp\<rparr>"

text \<open>\<open>sizeof(tss)\<close>: 25 words and two half words.\<close>

definition sizeof_tss :: u32 where "sizeof_tss = 25 * 4 + 2 * 2"

section \<open>The segment table\<close>

definition gdt :: "gdt_entry list" where
  "gdt = [GDT_ENTRY 0 0 0 0,
     GDT_ENTRY 0 0xFFFFFFFF 0x9A (GRAN_32_BIT_MODE OR GRAN_4KIB_BLOCKS),
     GDT_ENTRY 0 0xFFFFFFFF 0x92 (GRAN_32_BIT_MODE OR GRAN_4KIB_BLOCKS),
     GDT_ENTRY 0 0xFFFFFFFF 0xFA (GRAN_32_BIT_MODE OR GRAN_4KIB_BLOCKS),
     GDT_ENTRY 0 0xFFFFFFFF 0xF2 (GRAN_32_BIT_MODE OR GRAN_4KIB_BLOCKS),
     GDT_ENTRY 0 (sizeof_tss - 1) 0xE9 0x00]"

text \<open>The limit that \<open>boot.S\<close> loads with \<open>lgdt\<close>: eight bytes an entry, less one.\<close>

definition gdt_size_minus_one :: u16 where
  "gdt_size_minus_one = of_nat (length gdt * 8) - 1"

text \<open>The address of \<open>tss\<close> is an argument.\<close>

definition gdt_set_tss_base :: "u32 \<Rightarrow> gdt_entry list \<Rightarrow> gdt_entry list" where
  "gdt_set_tss_base tss_addr g =
     (let base = tss_addr; limit = sizeof_tss - 1 in
      g[5 := (g ! 5)\<lparr>base_low := ucast (base AND 0xFFFF), base_middle := ucast (drop_bit 16 base AND 0xFF),
                    base_high := ucast (drop_bit 24 base AND 0xFF), limit_low := ucast (limit AND 0xFFFF)\<rparr>])"

text \<open>What the processor takes from an entry.\<close>

definition seg_base :: "gdt_entry \<Rightarrow> u32" where
  "seg_base e = ucast (base_low e) OR push_bit 16 (ucast (base_middle e)) OR push_bit 24 (ucast (base_high e))"

definition seg_limit :: "gdt_entry \<Rightarrow> u32" where
  "seg_limit e = ucast (limit_low e) OR push_bit 16 (ucast (granularity e AND 0x0F))"

definition seg_dpl :: "gdt_entry \<Rightarrow> u8" where
  "seg_dpl e = drop_bit 5 (access e) AND 3"

text \<open>What the code relies on: the stack segment for interrupts is the kernel's data segment (ring 0), the
  last byte of the table belongs to its last entry, and \<open>tss_set_kernel_stack\<close> changes nothing else.\<close>

lemma tss_stack:
  "access (gdt ! unat (drop_bit 3 (ts_ss0 (tss_set_kernel_stack sp tss)))) = 0x92" "ts_ss0 (tss_set_kernel_stack sp tss) AND 3 = 0"
  "ts_esp0 (tss_set_kernel_stack sp t) = sp" "(tss_set_kernel_stack sp t)\<lparr>ts_esp0 := ts_esp0 t\<rparr> = t"
  "unat gdt_size_minus_one = length gdt * 8 - 1"
  by (simp_all add: tss_set_kernel_stack_def tss_def gdt_def GDT_ENTRY_def drop_bit_eq_div gdt_size_minus_one_def)

text \<open>The selectors of the data segments name the kernel's data segment with requested privilege 3.\<close>

lemma tss_segments:
  "x \<in> {ts_ds tss, ts_fs tss, ts_gs tss} \<Longrightarrow> gdt ! unat (drop_bit 3 x) = gdt ! 2 \<and> x AND 3 = 3"
  by (auto simp: tss_def drop_bit_eq_div)

section \<open>Interrupt descriptors\<close>

record idt_entry =
  handler_low :: u16
  selector :: u16
  ist :: u8
  gate_flags :: u8
  handler_high :: u16

definition IDT_TYPE_INTERRUPT :: u8 where "IDT_TYPE_INTERRUPT = 0xE"
definition IDT_TYPE_TRAP :: u8 where "IDT_TYPE_TRAP = 0xF"
definition IDT_FLAG_PRESENT :: u8 where "IDT_FLAG_PRESENT = push_bit 7 1"
definition IDT_FLAG_DPL_SHIFT :: nat where "IDT_FLAG_DPL_SHIFT = 5"
definition IDT_FLAG_TYPE_SHIFT :: nat where "IDT_FLAG_TYPE_SHIFT = 0"

definition zero_gate :: idt_entry where
  "zero_gate = \<lparr>handler_low = 0, selector = 0, ist = 0, gate_flags = 0, handler_high = 0\<rparr>"

definition idt_format_normal_entry :: "u32 \<Rightarrow> u8 \<Rightarrow> u8 \<Rightarrow> idt_entry" where
  "idt_format_normal_entry handler ty rpl =
     \<lparr>handler_low = ucast (drop_bit 0 handler AND 0xFFFF), selector = 0x08, ist = 0,
      gate_flags = IDT_FLAG_PRESENT OR push_bit IDT_FLAG_DPL_SHIFT rpl OR push_bit IDT_FLAG_TYPE_SHIFT ty,
      handler_high = ucast (drop_bit 16 handler AND 0xFFFF)\<rparr>"

text \<open>The gates in the order of the source: the exceptions, the interrupt requests without the
  cascade (2), the system call.\<close>

definition idt_gates :: "(nat \<Rightarrow> u32) \<Rightarrow> (nat \<Rightarrow> u32) \<Rightarrow> u32 \<Rightarrow> (nat \<times> idt_entry) list" where
  "idt_gates isr irq isr_syscall =
     map (\<lambda>n. (n, idt_format_normal_entry (isr n) IDT_TYPE_INTERRUPT 0)) [0..<32] @
     map (\<lambda>n. (32 + n, idt_format_normal_entry (irq n) IDT_TYPE_INTERRUPT 0)) ([0, 1] @ [3..<16]) @
     [(0x80, idt_format_normal_entry isr_syscall IDT_TYPE_TRAP 3)]"

definition idt_initialize :: "(nat \<Rightarrow> u32) \<Rightarrow> (nat \<Rightarrow> u32) \<Rightarrow> u32 \<Rightarrow> idt_entry list" where
  "idt_initialize isr irq isr_syscall =
     fold (\<lambda>(n, e) t. t[n := e]) (idt_gates isr irq isr_syscall) (replicate 256 zero_gate)"

text \<open>What the processor takes from a gate.\<close>

definition gate_handler :: "idt_entry \<Rightarrow> u32" where
  "gate_handler e = ucast (handler_low e) OR push_bit 16 (ucast (handler_high e))"

definition gate_present :: "idt_entry \<Rightarrow> bool" where
  "gate_present e \<longleftrightarrow> bit (gate_flags e) 7"

definition gate_dpl :: "idt_entry \<Rightarrow> u8" where
  "gate_dpl e = drop_bit 5 (gate_flags e) AND 3"

definition gate_type :: "idt_entry \<Rightarrow> u8" where
  "gate_type e = gate_flags e AND 0xF"

section \<open>Lemmas\<close>

lemma masks: "(0xFFFF :: u32) = mask 16" "(0xFF :: u32) = mask 8" "(0xF :: u32) = mask 4" "(0xF :: u8) = mask 4"
  "(0xF0 :: u32) = push_bit 4 (mask 4)" "(3 :: u8) = mask 2"
  by (simp_all add: mask_eq_exp_minus_1 push_bit_eq_mult)

lemma base_bytes:
  "ucast (ucast (x AND 0xFFFF) :: u16) OR push_bit 16 (ucast (ucast (drop_bit 16 x AND 0xFF) :: u8)) OR
     push_bit 24 (ucast (ucast (drop_bit 24 x AND 0xFF) :: u8)) = (x :: u32)"
  unfolding masks
proof (rule bit_word_eqI)
  fix n assume "n < LENGTH(32)"
  then show "bit (ucast (ucast (x AND mask 16) :: u16) OR push_bit 16 (ucast (ucast (drop_bit 16 x AND mask 8) :: u8)) OR
     push_bit 24 (ucast (ucast (drop_bit 24 x AND mask 8) :: u8)) :: u32) n = bit x n"
    by (cases "n < 24") (auto simp: bit_simps not_less)
qed

lemma seg_base_entry [simp]: "seg_base (GDT_ENTRY b l a g) = b"
  using base_bytes [of b] by (simp add: seg_base_def GDT_ENTRY_def)

lemma seg_limit_entry [simp]: "seg_limit (GDT_ENTRY b l a g) = l AND 0xFFFFF"
proof -
  have m: "(0xFFFFF :: u32) = mask 20" by (simp add: mask_eq_exp_minus_1)
  show ?thesis unfolding seg_limit_def GDT_ENTRY_def masks m
    by (rule bit_word_eqI) (auto simp: bit_simps not_less)
qed

lemma access_entry [simp]: "access (GDT_ENTRY b l a g) = ucast a"
  unfolding GDT_ENTRY_def masks by (simp, rule bit_word_eqI) (auto simp: bit_simps)

lemma flags_entry [simp]: "drop_bit 4 (granularity (GDT_ENTRY b l a g)) = ucast (drop_bit 4 g AND 0xF)"
  unfolding GDT_ENTRY_def masks by (simp, rule bit_word_eqI) (auto simp: bit_simps)

lemma gate_handler_entry [simp]: "gate_handler (idt_format_normal_entry h ty rpl) = h"
  unfolding gate_handler_def idt_format_normal_entry_def masks
  by (rule bit_word_eqI) (auto simp: bit_simps not_less)

text \<open>\<open>GDT_ENTRY\<close> packs a descriptor that the processor reads back as intended: the base is the
  given one, the limit its low 20 bits, the access byte and the flag nibble are kept. After
  \<open>gdt_set_tss_base\<close> the task state segment is where the kernel put it, with its size as limit
  and its type unchanged, and every other descriptor is untouched: the code and data segments
  span the whole address space at privilege 0 and 3.\<close>

theorem gdt_correct:
  "seg_base (GDT_ENTRY b l a g) = b \<and> seg_limit (GDT_ENTRY b l a g) = l AND 0xFFFFF \<and>
   access (GDT_ENTRY b l a g) = ucast a \<and> drop_bit 4 (granularity (GDT_ENTRY b l a g)) = ucast (drop_bit 4 g AND 0xF) \<and>
   seg_base (gdt_set_tss_base addr gdt ! 5) = addr \<and> seg_limit (gdt_set_tss_base addr gdt ! 5) = 103 \<and>
   access (gdt_set_tss_base addr gdt ! 5) = 0xE9 \<and>
   map (\<lambda>e. (seg_base e, seg_limit e, seg_dpl e)) (take 5 (gdt_set_tss_base addr gdt)) =
     [(0, 0, 0), (0, 0xFFFFF, 0), (0, 0xFFFFF, 0), (0, 0xFFFFF, 3), (0, 0xFFFFF, 3)]"
proof -
  have "seg_base (e\<lparr>base_low := ucast (x AND 0xFFFF), base_middle := ucast (drop_bit 16 x AND 0xFF),
      base_high := ucast (drop_bit 24 x AND 0xFF), limit_low := y\<rparr>) = x" for e :: gdt_entry and x y
    using base_bytes [of x] by (simp add: seg_base_def)
  then have "seg_base (gdt_set_tss_base addr gdt ! 5) = addr" by (simp add: gdt_set_tss_base_def gdt_def)
  moreover have "access (gdt_set_tss_base addr gdt ! 5) = 0xE9" by (simp add: gdt_set_tss_base_def gdt_def)
  moreover have "seg_limit (gdt_set_tss_base addr gdt ! 5) = 103"
    by (simp add: gdt_set_tss_base_def gdt_def seg_limit_def sizeof_tss_def GDT_ENTRY_def)
  moreover have "take 5 (gdt_set_tss_base addr gdt) = take 5 gdt" by (simp add: gdt_set_tss_base_def)
  moreover have "map (\<lambda>e. (seg_base e, seg_limit e, seg_dpl e)) (take 5 gdt) =
     [(0, 0, 0), (0, 0xFFFFF, 0), (0, 0xFFFFF, 0), (0, 0xFFFFF, 3), (0, 0xFFFFF, 3)]"
    by (simp add: gdt_def seg_dpl_def)
  ultimately show ?thesis by simp
qed

lemma fold_update_nth:
  "distinct (map fst kvs) \<Longrightarrow> v < length t \<Longrightarrow>
    fold (\<lambda>(n, e) t. t[n := e]) kvs t ! v = (case map_of kvs v of None \<Rightarrow> t ! v | Some e \<Rightarrow> e)"
proof (induction kvs arbitrary: t)
  case (Cons a kvs)
  obtain n e where a: "a = (n, e)" by (cases a)
  have "map_of kvs n = None" using Cons.prems(1) a by (simp add: map_of_eq_None_iff)
  then show ?case using Cons a by (cases "v = n") (auto simp: nth_list_update split: option.splits)
qed simp

lemma idt_at:
  assumes "v < 256"
  shows "idt_initialize isr irq sysc ! v =
    (if v < 32 then idt_format_normal_entry (isr v) IDT_TYPE_INTERRUPT 0
     else if v < 48 \<and> v \<noteq> 34 then idt_format_normal_entry (irq (v - 32)) IDT_TYPE_INTERRUPT 0
     else if v = 0x80 then idt_format_normal_entry sysc IDT_TYPE_TRAP 3 else zero_gate)"
proof -
  have keys: "map fst (idt_gates isr irq sysc) = [0..<34] @ [35..<48] @ [0x80]"
    by (simp add: idt_gates_def comp_def upt_rec)
  then have "distinct (map fst (idt_gates isr irq sysc))" by simp
  note at = fold_update_nth [OF this, of v "replicate 256 zero_gate"]
  have r: "map_of (map (\<lambda>n. (32 + n, f n)) xs) v = (if 32 \<le> v \<and> v - 32 \<in> set xs then Some (f (v - 32)) else None)"
    for f :: "nat \<Rightarrow> idt_entry" and xs
    by (induction xs) auto
  have i: "map_of (map (\<lambda>n. (n, f n)) xs) v = (if v \<in> set xs then Some (f v) else None)" for f :: "nat \<Rightarrow> idt_entry" and xs
    by (induction xs) auto
  have s: "x \<in> set ([0, 1] @ [3..<16]) \<longleftrightarrow> x < 16 \<and> x \<noteq> 2" for x :: nat unfolding set_append set_upt by auto
  have "map_of (idt_gates isr irq sysc) v =
    (if v = 0x80 then Some (idt_format_normal_entry sysc IDT_TYPE_TRAP 3)
     else if 32 \<le> v \<and> v - 32 < 16 \<and> v - 32 \<noteq> 2 then Some (idt_format_normal_entry (irq (v - 32)) IDT_TYPE_INTERRUPT 0)
     else if v < 32 then Some (idt_format_normal_entry (isr v) IDT_TYPE_INTERRUPT 0) else None)"
    unfolding idt_gates_def map_of_append map_add_def i r s by simp
  then show ?thesis using at assms unfolding idt_initialize_def by auto
qed

text \<open>After \<open>idt_initialize\<close> exactly the exceptions 0 to 31, the interrupt requests 0 to 15 at
  vectors 32 to 47 (but for the cascade, 34) and vector 0x80 have a present gate, each leading to its
  entry stub in the kernel code segment. All of them disable interrupts and refuse software
  interrupts from user mode, except 0x80, the one gate user mode may call.\<close>

theorem idt_correct:
  assumes "v < 256"
  shows "let e = idt_initialize isr irq sysc ! v in
    (gate_present e \<longleftrightarrow> v < 48 \<and> v \<noteq> 34 \<or> v = 0x80) \<and>
    (gate_present e \<longrightarrow> selector e = 0x08 \<and>
       gate_handler e = (if v < 32 then isr v else if v < 48 then irq (v - 32) else sysc) \<and>
       gate_type e = (if v = 0x80 then IDT_TYPE_TRAP else IDT_TYPE_INTERRUPT)) \<and>
    (gate_present e \<and> gate_dpl e = 3 \<longleftrightarrow> v = 0x80)"
proof -
  have g: "gate_present (idt_format_normal_entry h IDT_TYPE_INTERRUPT 0)" "gate_dpl (idt_format_normal_entry h IDT_TYPE_INTERRUPT 0) = 0"
    "gate_type (idt_format_normal_entry h IDT_TYPE_INTERRUPT 0) = IDT_TYPE_INTERRUPT"
    "gate_present (idt_format_normal_entry h IDT_TYPE_TRAP 3)" "gate_dpl (idt_format_normal_entry h IDT_TYPE_TRAP 3) = 3"
    "gate_type (idt_format_normal_entry h IDT_TYPE_TRAP 3) = IDT_TYPE_TRAP" "selector (idt_format_normal_entry h ty rpl) = 0x08"
    "\<not> gate_present zero_gate" for h ty rpl
    by (simp_all add: gate_present_def gate_dpl_def gate_type_def idt_format_normal_entry_def zero_gate_def IDT_FLAG_PRESENT_def
        IDT_FLAG_DPL_SHIFT_def IDT_FLAG_TYPE_SHIFT_def IDT_TYPE_INTERRUPT_def IDT_TYPE_TRAP_def)
  show ?thesis unfolding Let_def idt_at [OF assms] by (simp add: g)
qed

theorem idt_correct_witness:
  "gate_handler (idt_initialize (\<lambda>n. 0x101000 + of_nat n * 16) (\<lambda>n. 0x102000 + of_nat n * 16) 0x103000 ! 33) = 0x102010 \<and>
   \<not> gate_present (idt_initialize (\<lambda>n. 0x101000 + of_nat n * 16) (\<lambda>n. 0x102000 + of_nat n * 16) 0x103000 ! 34)"
  using idt_correct [of 33 "\<lambda>n. 0x101000 + of_nat n * 16" "\<lambda>n. 0x102000 + of_nat n * 16" "0x103000"]
    idt_correct [of 34 "\<lambda>n. 0x101000 + of_nat n * 16" "\<lambda>n. 0x102000 + of_nat n * 16" "0x103000"]
  by (simp add: Let_def)

end
