(* ===== verification/Boot.thy ===== *)
theory Boot
  imports System_Calls Descriptors
begin

text \<open>
  The start of the kernel: \<open>kernel_early\<close> and \<open>kernel_main\<close> of \<open>kernel/kernel/kernel.c\<close> with the
  structures of \<open>multiboot.h\<close>, and the switch to user mode, \<open>kernel/arch/i386/usermode.c\<close>. The boot
  loader has stored the memory map; \<open>boot.S\<close> has set up a stack. \<open>kernel_main\<close> ends either in the
  halt for lack of memory or in user mode, with the registers that \<open>iret\<close> loads.
\<close>

section \<open>State\<close>

record computer =
  c_machine :: machine
  c_gdt :: "gdt_entry list"
  c_idt :: "idt_entry list"
  c_idtr :: "u32 \<times> u16"
  c_intr :: bool

text \<open>Addresses and values that the linker, the assembly and the build fix: the tables, the entry stubs,
  the stacks, the stack pointer and flags in front of the switch to user mode, the embedded programs.\<close>

record boot_image =
  b_platform :: platform
  b_idt :: u32
  b_isr :: "nat \<Rightarrow> u32"
  b_irq :: "nat \<Rightarrow> u32"
  b_isr_syscall :: u32
  b_tss :: u32
  b_page_directory :: u32
  b_page_table0 :: u32
  b_task0 :: u32
  b_stack_bottom :: u32
  b_stack_top :: u32
  b_user_main :: u32
  b_user_stack :: u32
  b_esp :: u32
  b_eflags :: u32
  b_programs :: "string \<Rightarrow> u8 list"

text \<open>The registers in user mode.\<close>

record user_cpu =
  r_eip :: u32
  r_cs :: u16
  r_eflags :: u32
  r_esp :: u32
  r_ss :: u16
  r_data :: u16

text \<open>Printing a message of the kernel.\<close>

definition say :: "string \<Rightarrow> arg list \<Rightarrow> computer \<Rightarrow> computer option" where
  "say fmt args c =
     map_option (\<lambda>t. c\<lparr>c_machine := (c_machine c)\<lparr>m_screen := t\<rparr>\<rparr>) (printed (fmt @ newline) args (m_screen (c_machine c)))"

section \<open>The memory map\<close>

definition BOOT_MAGIC :: u32 where "BOOT_MAGIC = 0x2BADB002"
definition MBI_FLAG_MMAP :: u32 where "MBI_FLAG_MMAP = push_bit 6 1"
definition MIN_RAM_KIB :: u32 where "MIN_RAM_KIB = 3500"

record multiboot_info =
  mbi_flags :: u32
  mmap_length :: u32
  mmap_addr :: u32

record mmap_entry =
  me_size :: u32
  me_base :: u64
  me_length :: u64
  me_type :: u32

definition load64 :: "mem \<Rightarrow> u32 \<Rightarrow> u64" where
  "load64 m a = ucast (load32 m a) OR push_bit 32 (ucast (load32 m (a + 4)))"

definition multiboot_info_at :: "mem \<Rightarrow> u32 \<Rightarrow> multiboot_info" where
  "multiboot_info_at m a = \<lparr>mbi_flags = load32 m a, mmap_length = load32 m (a + 44), mmap_addr = load32 m (a + 48)\<rparr>"

definition mmap_entry_at :: "mem \<Rightarrow> u32 \<Rightarrow> mmap_entry" where
  "mmap_entry_at m p =
     \<lparr>me_size = load32 m p, me_base = load64 m (p + 4), me_length = load64 m (p + 12), me_type = load32 m (p + 20)\<rparr>"

definition region_names :: "string list" where
  "region_names = [''?'', ''usable'', ''reserved'', ''ACPI reclaim'', ''ACPI NVS'', ''bad'']"

definition region_kib :: "mmap_entry \<Rightarrow> u32" where
  "region_kib e = ucast (drop_bit 10 (me_length e))"

definition region_name :: "mmap_entry \<Rightarrow> string" where
  "region_name e = (if me_type e < 6 then region_names ! unat (me_type e) else ''?'')"

text \<open>\<open>while (p < end)\<close>, which need not end: the size of an entry comes from the boot loader.\<close>

partial_function (option) memory_regions :: "mem \<Rightarrow> u32 \<Rightarrow> u32 \<Rightarrow> u32 \<Rightarrow> tty \<Rightarrow> (u32 \<times> tty) option" where
  "memory_regions m p q sum_kib t =
     (if p < q then
        (let e = mmap_entry_at m p in
         do {
           t1 \<leftarrow> printed (''  %08x%08x  %u KiB  %s'' @ newline)
                  [AWord (ucast (drop_bit 32 (me_base e))), AWord (ucast (me_base e)), AWord (region_kib e), AStr (region_name e)] t;
           memory_regions m (p + (me_size e + 4)) q (if me_type e = 1 then sum_kib + region_kib e else sum_kib) t1
         })
      else Some (sum_kib, t))"

definition print_memory_map :: "u32 \<Rightarrow> u32 \<Rightarrow> mem \<Rightarrow> tty \<Rightarrow> (u32 \<times> tty) option" where
  "print_memory_map magic mbi m t =
     (let i = multiboot_info_at m mbi in
      if magic \<noteq> BOOT_MAGIC \<or> mbi = 0 \<or> mbi_flags i AND MBI_FLAG_MMAP = 0 then
        map_option (Pair 0) (printed (''[mem] no memory map from bootloader (magic=%x)'' @ newline) [AWord magic] t)
      else do {
        t1 \<leftarrow> printed (''[mem] BIOS memory map:'' @ newline) [] t;
        (sum_kib, t2) \<leftarrow> memory_regions m (mmap_addr i) (mmap_addr i + mmap_length i) 0 t1;
        t3 \<leftarrow> printed (''[mem] usable: %u KiB'' @ newline) [AWord sum_kib] t2;
        Some (sum_kib, t3)
      })"

section \<open>The switch to user mode\<close>

text \<open>\<open>iret\<close> to a less privileged level.\<close>

definition iret :: "mem \<Rightarrow> u32 \<Rightarrow> u16 \<Rightarrow> user_cpu" where
  "iret m sp data =
     \<lparr>r_eip = load32 m sp, r_cs = ucast (load32 m (sp + 4)), r_eflags = load32 m (sp + 8), r_esp = load32 m (sp + 12),
      r_ss = ucast (load32 m (sp + 16)), r_data = data\<rparr>"

definition enter_user_mode_at :: "u32 \<Rightarrow> u32 \<Rightarrow> u32 \<Rightarrow> u32 \<Rightarrow> computer \<Rightarrow> (user_cpu \<times> computer) option" where
  "enter_user_mode_at sp flags entry_point stack_top c =
     do {
       c1 \<leftarrow> say ''[KERNEL] Entering Ring 3 user mode...'' [] c;
       c2 \<leftarrow> say ''[KERNEL] User stack top: 0x%lx'' [AWord stack_top] c1;
       c3 \<leftarrow> say ''[KERNEL] User entry point: 0x%lx'' [AWord entry_point] c2;
       (let (m, sp1) = push_words [0x23, stack_top, flags OR 0x200, 0x1B, entry_point] (mem_of (c_machine c3), sp) in
        Some (iret m sp1 0x23, c3\<lparr>c_machine := set_mem m (c_machine c3)\<rparr>))
     }"

definition enter_user_mode :: "boot_image \<Rightarrow> computer \<Rightarrow> (user_cpu \<times> computer) option" where
  "enter_user_mode b = enter_user_mode_at (b_esp b) (b_eflags b) (b_user_main b) (b_user_stack b + 4 * 1024)"

section \<open>Start-up\<close>

definition kernel_early :: "computer \<Rightarrow> computer option" where
  "kernel_early c =
     map_option (\<lambda>t. c\<lparr>c_machine := (c_machine c)\<lparr>m_screen := t\<rparr>\<rparr>) (terminal_initialize (m_screen (c_machine c)))"

text \<open>The static \<open>task0\<close>, zero before.\<close>

definition boot_task :: "boot_image \<Rightarrow> task" where
  "boot_task b = zero_task\<lparr>t_state := TASK_RUNNING, t_next := b_task0 b, t_stack := b_stack_bottom b,
     t_stack_size := b_stack_top b - b_stack_bottom b\<rparr>"

definition on_machine :: "(machine \<Rightarrow> machine) \<Rightarrow> computer \<Rightarrow> computer" where
  "on_machine f c = c\<lparr>c_machine := f (c_machine c)\<rparr>"

definition on_ports :: "(port_log \<Rightarrow> port_log) \<Rightarrow> computer \<Rightarrow> computer" where
  "on_ports f = on_machine (\<lambda>s. s\<lparr>m_ports := f (m_ports s)\<rparr>)"

definition on_paging :: "(paging \<Rightarrow> paging option) \<Rightarrow> computer \<Rightarrow> computer option" where
  "on_paging f c =
     (let k = m_kern (c_machine c) in
      map_option (\<lambda>pg. c\<lparr>c_machine := (c_machine c)\<lparr>m_kern := k\<lparr>kpaging := pg\<rparr>\<rparr>\<rparr>) (f (kpaging k)))"

definition start_timer :: "computer \<Rightarrow> computer" where
  "start_timer = on_machine (\<lambda>s. let (ticks, h) = timer_initialize (m_ports s) in s\<lparr>m_ticks := ticks, m_ports := h\<rparr>)"

text \<open>\<open>idt_initialize\<close> ends with \<open>lidt\<close>: the address of the table and its size less one.\<close>

definition lidt :: "u32 \<Rightarrow> u16 \<Rightarrow> computer \<Rightarrow> computer" where
  "lidt base limit c = c\<lparr>c_idtr := (base, limit)\<rparr>"

definition load_idt :: "boot_image \<Rightarrow> computer \<Rightarrow> computer" where
  "load_idt b c = lidt (b_idt b) (256 * 8 - 1) (c\<lparr>c_idt := idt_initialize (b_isr b) (b_irq b) (b_isr_syscall b)\<rparr>)"

definition start_tasks :: "boot_image \<Rightarrow> computer \<Rightarrow> computer option" where
  "start_tasks b c =
     (let k = m_kern (c_machine c) in
      map_option (\<lambda>k'. c\<lparr>c_machine := (c_machine c)\<lparr>m_kern := k'\<rparr>\<rparr>) (sched_init (b_task0 b) (k\<lparr>tasks := (tasks k)(b_task0 b \<mapsto> boot_task b)\<rparr>)))"

definition kernel_main :: "boot_image \<Rightarrow> u32 \<Rightarrow> u32 \<Rightarrow> computer \<Rightarrow> (user_cpu option \<times> computer) option" where
  "kernel_main b magic mbi c =
     (let p = b_platform b in
      do {
        (total_kib, t) \<leftarrow> print_memory_map magic mbi (mem_of (c_machine c)) (m_screen (c_machine c));
        (let c0 = on_machine (\<lambda>s. s\<lparr>m_screen := t\<rparr>) c in
         if total_kib < MIN_RAM_KIB then
           map_option (Pair None)
             (say ''[mem] not enough RAM: %u KiB usable, need more than %u KiB.'' [AWord total_kib, AWord MIN_RAM_KIB] c0)
         else do {
           c1 \<leftarrow> say ''[IDT] initializing'' [] c0;
           c2 \<leftarrow> say ''[PIC] initializing'' [] (load_idt b c1);
           c3 \<leftarrow> say ''[timer] initializing'' [] (on_ports pic_initialize c2);
           c4 \<leftarrow> say ''[irq] enabling timer and keyboard'' [] (start_timer c3);
           c5 \<leftarrow> say ''[paging] preparing page tables'' []
                  (on_ports (pic_clear_mask (p_device p) 1) (on_ports (pic_clear_mask (p_device p) 0) c4));
           c6 \<leftarrow> on_paging (paging_initialize (p_user_start p) (p_user_end p) (p_user_heap_start p) (p_user_heap_end p) (b_page_table0 b)) c5;
           c7 \<leftarrow> say ''[paging] enabling paging'' [] c6;
           c8 \<leftarrow> on_paging (\<lambda>pg. Some (paging_enable (b_page_directory b) pg)) c7;
           c9 \<leftarrow> say ''[cpu] enabling interrupts'' [] c8;
           c10 \<leftarrow> say ''[KERNEL] initialization complete'' [] (c9\<lparr>c_intr := True\<rparr>);
           f \<leftarrow> ramfs_init (b_programs b) (m_files (c_machine c10));
           t10 \<leftarrow> ramfs_init_report (m_screen (c_machine c10));
           c11 \<leftarrow> start_tasks b ((on_machine (\<lambda>s. s\<lparr>m_files := f, m_screen := t10\<rparr>) c10)\<lparr>c_gdt := gdt_set_tss_base (b_tss b) (c_gdt c10)\<rparr>);
           (cpu, c12) \<leftarrow> enter_user_mode b c11;
           Some (Some cpu, c12)
         })
      })"

end
