(* ===== verification/Boot_Spec.thy ===== *)
theory Boot_Spec
  imports Boot
begin

text \<open>
  Lemmas on the start of the kernel: what the memory map adds up to, the registers after the switch
  to user mode, and that \<open>kernel_main\<close> establishes the invariant of the machine.
\<close>

section \<open>Messages\<close>

lemma screen_upd_same: "c\<lparr>c_machine := (c_machine c)\<lparr>m_screen := m_screen (c_machine c)\<rparr>\<rparr> = c"
  by simp

text \<open>A step that prints a text without conversions goes through, whatever follows; only the screen
  changes.\<close>

lemma say_bind:
  assumes "CHR ''%'' \<notin> set fmt" "length fmt < 1000" "tty_inv (m_screen (c_machine c))"
    and "\<And>t. tty_inv t \<Longrightarrow> Q (f (on_machine (\<lambda>s. s\<lparr>m_screen := t\<rparr>) c))"
  shows "Q (Option.bind (say fmt [] c) f)"
proof -
  have "CHR ''%'' \<notin> set (fmt @ newline)" "length (fmt @ newline) \<le> INT_MAX"
    using assms(1,2) by (simp_all add: INT_MAX_def)
  from printk_plain [OF this assms(3)] assms(4) show ?thesis by (auto simp: say_def on_machine_def)
qed

lemma say_word_bind:
  assumes "CHR ''%'' \<notin> set pre" "length pre < 1000" "tty_inv (m_screen (c_machine c))"
    and "\<And>t. tty_inv t \<Longrightarrow> Q (f (on_machine (\<lambda>s. s\<lparr>m_screen := t\<rparr>) c))"
  shows "Q (Option.bind (say (pre @ ''%lx'') [AWord w] c) f)"
proof -
  let ?n = "numeral_string 16 DIGITS16 (unat w)"
  let ?ps = "map Lit pre @ [Conv False 0 Clonghex] @ map Lit newline"
  have "meaning printk_out ?ps [AWord w] = Some (pre @ ?n @ newline)"
    by (simp add: meaning_plain padded_def)
  moreover have "length (pre @ ?n @ newline) \<le> INT_MAX"
    using length_numeral [of 16 DIGITS16 w] assms(2) by (simp add: INT_MAX_def)
  moreover have "format_text ?ps = (pre @ ''%lx'') @ newline"
    using assms(1) by (simp add: format_text_append format_text_plain) (simp add: format_text_def)
  ultimately have "\<exists>t'. printed ((pre @ ''%lx'') @ newline) [AWord w] (m_screen (c_machine c)) = Some t' \<and> tty_inv t'"
    using printed_ok [OF _ _ assms(3)] by blast
  with assms(4) show ?thesis by (auto simp: say_def on_machine_def)
qed

section \<open>The memory map\<close>

text \<open>A memory map in memory: the entries one after the other from \<open>p\<close> to \<open>q\<close>, with the space after each
  that its size says.\<close>

fun regions_at :: "mem \<Rightarrow> u32 \<Rightarrow> mmap_entry list \<Rightarrow> u32 \<Rightarrow> bool" where
  "regions_at m p [] q \<longleftrightarrow> p = q"
| "regions_at m p (e # rs) q \<longleftrightarrow> mmap_entry_at m p = e \<and> unat p + unat (me_size e) + 4 < 4294967296 \<and>
     regions_at m (p + (me_size e + 4)) rs q"

definition usable_kib :: "mmap_entry list \<Rightarrow> u32" where
  "usable_kib rs = sum_list (map region_kib (filter (\<lambda>e. me_type e = 1) rs))"

definition hex8 :: "u32 \<Rightarrow> string" where
  "hex8 w = padded 8 CHR ''0'' (numeral_string 16 DIGITS16 (unat w))"

definition decimal :: "u32 \<Rightarrow> string" where
  "decimal w = numeral_string 10 DIGITS10 (unat w)"

definition region_text :: "mmap_entry \<Rightarrow> string" where
  "region_text e = ''  '' @ hex8 (ucast (drop_bit 32 (me_base e))) @ hex8 (ucast (me_base e)) @ ''  '' @ decimal (region_kib e) @
     '' KiB  '' @ region_name e @ newline"

lemma length_hex8: "length (hex8 w) \<le> 32"
  unfolding hex8_def by (rule padded_length [OF length_numeral]) simp_all

lemma length_decimal: "length (decimal w) \<le> 32"
  unfolding decimal_def by (rule length_numeral) simp

lemma region_name_cases: "region_name e \<in> set region_names"
proof (cases "me_type e < 6")
  case True
  then have "unat (me_type e) < length region_names" by (simp add: region_names_def word_less_nat_alt)
  then show ?thesis using True by (simp add: region_name_def)
qed (simp add: region_name_def region_names_def)

lemma print_region:
  assumes t: "tty_inv t"
  shows "\<exists>t'. printed (''  %08x%08x  %u KiB  %s'' @ newline)
      [AWord (ucast (drop_bit 32 (me_base e))), AWord (ucast (me_base e)), AWord (region_kib e), AStr (region_name e)] t = Some t' \<and>
    terminal_write (map of_char (region_text e)) t = Some t' \<and> tty_inv t'"
proof -
  let ?ps = "map Lit ''  '' @ [Conv True 8 Chex, Conv True 8 Chex] @ map Lit ''  '' @ [Conv False 0 Cunsigned] @ map Lit '' KiB  '' @
    [Conv False 0 Cstring] @ map Lit newline"
  have m: "meaning printk_out ?ps [AWord (ucast (drop_bit 32 (me_base e))), AWord (ucast (me_base e)), AWord (region_kib e), AStr (region_name e)] =
      Some (region_text e)"
    by (simp add: region_text_def hex8_def decimal_def padded_def)
  have f: "format_text ?ps = ''  %08x%08x  %u KiB  %s'' @ newline"
    by (simp add: format_text_def numeral_small DIGITS10_def)
  have "length (region_name e) \<le> 12" using region_name_cases [of e] by (auto simp: region_names_def)
  then have "length (region_text e) \<le> INT_MAX"
    using length_hex8 [of "ucast (drop_bit 32 (me_base e))"] length_hex8 [of "ucast (me_base e)"] length_decimal [of "region_kib e"]
    by (simp add: region_text_def INT_MAX_def)
  from printed_ok [OF m this t f] show ?thesis .
qed

lemma regions_at_le: "regions_at m p rs q \<Longrightarrow> unat p \<le> unat q \<and> (rs \<noteq> [] \<longrightarrow> p < q)"
proof (induction rs arbitrary: p)
  case (Cons e rs)
  have "unat (p + (me_size e + 4)) = unat p + unat (me_size e) + 4"
    using Cons.prems unat_add_small [of "me_size e" 4] unat_add_small [of p "me_size e + 4"] by simp
  moreover from Cons.IH [of "p + (me_size e + 4)"] Cons.prems have "unat (p + (me_size e + 4)) \<le> unat q" by simp
  ultimately show ?case by (simp add: word_less_nat_alt)
qed simp

text \<open>The loop over a well-formed map ends and returns the sum over its usable regions.\<close>

lemma memory_regions_spec:
  assumes "regions_at m p rs q" "tty_inv t"
  shows "\<exists>t'. memory_regions m p q n t = Some (n + usable_kib rs, t') \<and> tty_inv t' \<and>
    terminal_write (map of_char (concat (map region_text rs))) t = Some t'"
  using assms
proof (induction rs arbitrary: p n t)
  case Nil
  then show ?case by (subst memory_regions.simps) (simp add: usable_kib_def terminal_write_def)
next
  case (Cons e rs)
  then obtain t1 where t1: "terminal_write (map of_char (region_text e)) t = Some t1" "tty_inv t1"
    "printed (''  %08x%08x  %u KiB  %s'' @ newline)
      [AWord (ucast (drop_bit 32 (me_base e))), AWord (ucast (me_base e)), AWord (region_kib e), AStr (region_name e)] t = Some t1"
    using print_region [of t e] by blast
  have "regions_at m (p + (me_size e + 4)) rs q" "p < q" "mmap_entry_at m p = e"
    using Cons.prems(1) regions_at_le [OF Cons.prems(1)] by simp_all
  moreover from Cons.IH [OF this(1) t1(2), of "if me_type e = 1 then n + region_kib e else n"] obtain t' where
    "memory_regions m (p + (me_size e + 4)) q (if me_type e = 1 then n + region_kib e else n) t1 =
      Some ((if me_type e = 1 then n + region_kib e else n) + usable_kib rs, t')" "tty_inv t'"
    "terminal_write (map of_char (concat (map region_text rs))) t1 = Some t'" by blast
  ultimately show ?case using t1
    by (subst memory_regions.simps) (simp add: Let_def usable_kib_def terminal_write_append algebra_simps)
qed

section \<open>The embedded programs\<close>

definition program_fits :: "u8 list \<Rightarrow> bool" where
  "program_fits bs \<longleftrightarrow> length bs \<le> 4294967295 - 262144"

lemma add_binary_inv:
  assumes "ramfs_inv_n (Suc n) s" "path_ok (Some nm)" "program_fits bs"
  shows "\<exists>s'. ramfs_add_binary nm bs s = Some s' \<and> ramfs_inv_n n s'"
proof -
  obtain fd s1 where o: "ramfs_open (Some nm) 1 s = Some (fd, s1)" "ramfs_inv_n n s1"
    using ramfs_open_spec [OF assms(1,2), of 1] by blast
  have "unat (of_nat (length bs) :: u32) \<le> 4294967295 - 262144"
    using assms(3) by (simp add: program_fits_def unat_of_nat32)
  from ramfs_write_inv [OF o(2) this, of fd "Some (\<lambda>i. bs ! i)"] obtain r s2 where
    "ramfs_write fd (Some (\<lambda>i. bs ! i)) (of_nat (length bs)) s1 = Some (r, s2)" "ramfs_inv_n n s2" by blast
  then show ?thesis using o ramfs_close_inv by (auto simp: ramfs_add_binary_def)
qed

lemma add_binaries_inv:
  assumes "ramfs_inv_n (length bins + n) s" "\<forall>(nm, bs) \<in> set bins. path_ok (Some nm) \<and> program_fits bs"
  shows "\<exists>s'. add_binaries bins s = Some s' \<and> ramfs_inv_n n s'"
  using assms
proof (induction bins arbitrary: s)
  case (Cons x bins)
  obtain nm bs where x: "x = (nm, bs)" by fastforce
  obtain s1 where "ramfs_add_binary nm bs s = Some s1" "ramfs_inv_n (length bins + n) s1"
    using add_binary_inv [of "length bins + n" s nm bs] Cons.prems x by auto
  with Cons show ?case by (simp add: x)
qed simp

text \<open>The file system that the kernel starts with, for any programs of a sane size.\<close>

lemma ramfs_init_inv:
  assumes "\<And>name. program_fits (elf name)" "n < 4294967288"
  shows "\<exists>s'. ramfs_init elf s = Some s' \<and> ramfs_inv_n n s'"
proof -
  have "ramfs_inv_n (Suc (6 + n)) (ramfs_blank (pool s))" using assms(2) by (intro ramfs_blank_inv_n) simp
  from ramfs_mkdir_inv [OF this, of "Some ''/bin''"] obtain r s1 where
    s1: "ramfs_mkdir (Some ''/bin'') (ramfs_blank (pool s)) = Some (r, s1)" "ramfs_inv_n (6 + n) s1"
    by (auto simp: path_ok_def ramfs_split_path_def RAMFS_MAX_FILENAME_def)
  have l: "length [(''/bin/hello'', elf ''hello''), (''/bin/uptime'', elf ''uptime''), (''/bin/beep'', elf ''beep''),
      (''/bin/shell'', elf ''shell''), (''/bin/cowsay'', elf ''cowsay''), (''/bin/nltest'', elf ''nltest'')] + n = 6 + n" by simp
  show ?thesis
    unfolding ramfs_init_def ramfs_populate_def s1(1)
    by (simp only: Option.bind_lunit prod.case)
      (rule add_binaries_inv, simp only: l s1(2), simp add: assms(1) path_ok_def ramfs_split_path_def RAMFS_MAX_FILENAME_def)
qed

section \<open>The switch to user mode\<close>

text \<open>What \<open>iret\<close> loads: the user code and data selectors, interrupts on.\<close>

definition user_registers :: "u32 \<Rightarrow> u32 \<Rightarrow> u32 \<Rightarrow> user_cpu" where
  "user_registers entry_point stack_top flags =
     \<lparr>r_eip = entry_point, r_cs = 0x1B, r_eflags = flags OR 0x200, r_esp = stack_top, r_ss = 0x23, r_data = 0x23\<rparr>"

lemma iret_frame:
  assumes "20 \<le> unat sp"
  obtains m' where "push_words [0x23, stack_top, flags OR 0x200, 0x1B, entry_point] (m, sp) = (m', sp - 20)"
    "iret m' (sp - 20) 0x23 = user_registers entry_point stack_top flags"
    "\<And>a. unat a < unat sp - 20 \<or> unat sp \<le> unat a \<Longrightarrow> m' a = m a"
proof -
  let ?ws = "[0x23, stack_top, flags OR 0x200, 0x1B, entry_point]"
  obtain m' where m: "push_words ?ws (m, of_nat (unat sp)) = (m', of_nat (unat sp - 4 * length ?ws))"
    "\<forall>j < length ?ws. load32 m' (of_nat (unat sp - 4 * length ?ws + 4 * j)) = rev ?ws ! j"
    "\<forall>y < 4294967296. y < unat sp - 4 * length ?ws \<or> unat sp \<le> y \<longrightarrow> m' (of_nat y) = m (of_nat y)"
    using push_words_spec [of ?ws "unat sp" m] assms unat_u32_less [of sp] by auto
  have sp: "of_nat (unat sp - 20) = sp - 20" using assms by (simp add: of_nat_diff)
  have "load32 m' (sp - 20 + of_nat (4 * j)) = rev ?ws ! j" if "j < 5" for j
    using m(2) [rule_format, of j] that sp by simp
  from this [of 0] this [of 1] this [of 2] this [of 3] this [of 4]
  have "iret m' (sp - 20) 0x23 = user_registers entry_point stack_top flags"
    by (simp add: iret_def user_registers_def)
  moreover have "m' a = m a" if "unat a < unat sp - 20 \<or> unat sp \<le> unat a" for a
    using m(3) [rule_format, of "unat a"] unat_u32_less [of a] that by simp
  ultimately show thesis using that m(1) sp by simp
qed

lemma enter_user_mode_spec:
  assumes t: "tty_inv (m_screen (c_machine c))" and sp: "20 \<le> unat sp"
    and Q: "\<And>m t. tty_inv t \<Longrightarrow> (\<And>a. unat a < unat sp - 20 \<or> unat sp \<le> unat a \<Longrightarrow> m a = mem_of (c_machine c) a) \<Longrightarrow>
      Q (Some (user_registers entry_point stack_top flags, on_machine (\<lambda>s. set_mem m (s\<lparr>m_screen := t\<rparr>)) c))"
  shows "Q (enter_user_mode_at sp flags entry_point stack_top c)"
proof -
  have w: "''[KERNEL] User stack top: 0x%lx'' = ''[KERNEL] User stack top: 0x'' @ ''%lx''"
    "''[KERNEL] User entry point: 0x%lx'' = ''[KERNEL] User entry point: 0x'' @ ''%lx''" by simp_all
  show ?thesis unfolding enter_user_mode_at_def w
  proof (intro say_bind [where Q = Q] say_word_bind [where Q = Q], goal_cases)
    case (10 t1 t2 t3)
    obtain m where "push_words [0x23, stack_top, flags OR 0x200, 0x1B, entry_point] (mem_of (c_machine c), sp) = (m, sp - 20)"
      "iret m (sp - 20) 0x23 = user_registers entry_point stack_top flags"
      "\<And>a. unat a < unat sp - 20 \<or> unat sp \<le> unat a \<Longrightarrow> m a = mem_of (c_machine c) a"
      using iret_frame [OF sp] by blast
    with Q [OF 10(3), of m] show ?case by (simp add: on_machine_def)
  qed (use t in \<open>simp_all add: on_machine_def\<close>)
qed

section \<open>The kernel boots\<close>

lemma boot_exec_ok:
  assumes "kheap_fresh hs he (kheap k)" "\<exists>U. pt_maps U (kpaging k)" "exec_pool_used k = 0"
    and "current_task k \<noteq> 0" "unat (current_task k) < unat hs \<or> unat he \<le> unat (current_task k)"
    and "tasks k (current_task k) = Some (zero_task\<lparr>t_pid := pid, t_next := current_task k, t_stack := st, t_stack_size := sz\<rparr>)"
  shows "exec_ok hs he ks ke k [] {}"
proof -
  have "tree_ok (\<lambda>_. 0) {current_task k} k"
    using assms(4,6) by (simp add: tree_ok_def parent_of_def zero_task_def)
  then have "procs_ok ks ke {current_task k} k"
    using assms(6) by (auto simp: procs_ok_def zero_task_def frame_ok_def frame_fits_def frame_byte_def)
  moreover have "ring k []" using assms(4,6) by (simp add: ring_def zero_task_def)
  moreover have "krep hs he (kheap k) {}" using assms(1) by (simp add: krep_def)
  ultimately show ?thesis
    using assms by (simp add: exec_ok_def sched_inv_def owned_def owned_by_def static_apart_def alive_def elf_ok_def zero_task_def)
qed

text \<open>What the loader and the zeroed data of the image give to \<open>kernel_main\<close>.\<close>

definition boot_ready :: "boot_image \<Rightarrow> computer \<Rightarrow> bool" where
  "boot_ready b c \<longleftrightarrow>
     (let p = b_platform b; s = c_machine c; k = m_kern s in
      platform_ok p \<and> p_user_end p \<le> 0x400000 \<and> p_user_heap_end p \<le> 0x400000 \<and>
      length (page_directory (kpaging k)) = 1024 \<and> length (page_table0 (kpaging k)) = 1024 \<and>
      kheap_fresh (p_heap_start p) (p_heap_end p) (kheap k) \<and> exec_pool_used k = 0 \<and>
      b_task0 b \<noteq> 0 \<and> (unat (b_task0 b) < unat (p_heap_start p) \<or> unat (p_heap_end p) \<le> unat (b_task0 b)) \<and>
      20 \<le> unat (b_esp b) \<and> (unat (b_esp b) \<le> unat (p_heap_start p) \<or> unat (p_heap_end p) + 28 \<le> unat (b_esp b)) \<and>
      kbd_inv (m_keys s) \<and> tty_inv (m_screen s))"

text \<open>The memory map that the boot loader passes.\<close>

definition boots_with :: "u32 \<Rightarrow> computer \<Rightarrow> mmap_entry list \<Rightarrow> bool" where
  "boots_with mbi c rs \<longleftrightarrow>
     (let i = multiboot_info_at (mem_of (c_machine c)) mbi in
      mbi \<noteq> 0 \<and> mbi_flags i AND MBI_FLAG_MMAP \<noteq> 0 \<and>
      regions_at (mem_of (c_machine c)) (mmap_addr i) rs (mmap_addr i + mmap_length i))"

definition memory_map_text :: "mmap_entry list \<Rightarrow> string" where
  "memory_map_text rs = (''[mem] BIOS memory map:'' @ newline) @ concat (map region_text rs) @
     (''[mem] usable: '' @ decimal (usable_kib rs) @ '' KiB'' @ newline)"

lemma write_texts:
  assumes "terminal_write (map of_char a) t = Some t1" "terminal_write (map of_char b) t1 = Some t2"
    "terminal_write (map of_char c) t2 = Some t3"
  shows "terminal_write (map of_char (a @ b @ c)) t = Some t3"
  using assms by (simp add: terminal_write_append)

lemma print_memory_map_spec:
  assumes b: "boots_with mbi c rs" and t: "tty_inv t"
  shows "\<exists>t'. print_memory_map BOOT_MAGIC mbi (mem_of (c_machine c)) t = Some (usable_kib rs, t') \<and> tty_inv t' \<and>
    terminal_write (map of_char (memory_map_text rs)) t = Some t'"
proof -
  let ?i = "multiboot_info_at (mem_of (c_machine c)) mbi"
  have "CHR ''%'' \<notin> set (''[mem] BIOS memory map:'' @ newline)" "length (''[mem] BIOS memory map:'' @ newline) \<le> INT_MAX"
    by (simp_all add: INT_MAX_def)
  from printk_plain [OF this t] obtain t1 where t1: "printed (''[mem] BIOS memory map:'' @ newline) [] t = Some t1"
    "terminal_write (map of_char (''[mem] BIOS memory map:'' @ newline)) t = Some t1" "tty_inv t1" by blast
  have "regions_at (mem_of (c_machine c)) (mmap_addr ?i) rs (mmap_addr ?i + mmap_length ?i)"
    using b by (simp add: boots_with_def Let_def)
  from memory_regions_spec [OF this t1(3), of 0] obtain t2 where
    t2: "memory_regions (mem_of (c_machine c)) (mmap_addr ?i) (mmap_addr ?i + mmap_length ?i) 0 t1 = Some (usable_kib rs, t2)"
      "tty_inv t2" "terminal_write (map of_char (concat (map region_text rs))) t1 = Some t2" by auto
  let ?ps = "map Lit ''[mem] usable: '' @ [Conv False 0 Cunsigned] @ map Lit ('' KiB'' @ newline)"
  have m: "meaning printk_out ?ps [AWord (usable_kib rs)] = Some (''[mem] usable: '' @ decimal (usable_kib rs) @ '' KiB'' @ newline)"
    "format_text ?ps = ''[mem] usable: %u KiB'' @ newline"
    by (simp_all add: format_text_def decimal_def padded_def)
  have "length (''[mem] usable: '' @ decimal (usable_kib rs) @ '' KiB'' @ newline) \<le> INT_MAX"
    using length_decimal [of "usable_kib rs"] by (simp add: INT_MAX_def)
  from printed_ok [OF m(1) this t2(2) m(2)] obtain t3 where
    t3: "printed (''[mem] usable: %u KiB'' @ newline) [AWord (usable_kib rs)] t2 = Some t3"
      "terminal_write (map of_char (''[mem] usable: '' @ decimal (usable_kib rs) @ '' KiB'' @ newline)) t2 = Some t3" "tty_inv t3"
    by blast
  have "terminal_write (map of_char (memory_map_text rs)) t = Some t3"
    unfolding memory_map_text_def by (rule write_texts [OF t1(2) t2(3) t3(2)])
  then show ?thesis using b t1(1) t2(1) t3(1,3) by (simp add: print_memory_map_def boots_with_def Let_def)
qed

lemma say_no_ram:
  assumes t: "tty_inv (m_screen (c_machine c))"
  shows "\<exists>t'. say ''[mem] not enough RAM: %u KiB usable, need more than %u KiB.'' [AWord x, AWord y] c =
    Some (on_machine (\<lambda>s. s\<lparr>m_screen := t'\<rparr>) c)"
proof -
  let ?ps = "map Lit ''[mem] not enough RAM: '' @ [Conv False 0 Cunsigned] @ map Lit '' KiB usable, need more than '' @
    [Conv False 0 Cunsigned] @ map Lit ('' KiB.'' @ newline)"
  let ?s = "''[mem] not enough RAM: '' @ decimal x @ '' KiB usable, need more than '' @ decimal y @ '' KiB.'' @ newline"
  have m: "meaning printk_out ?ps [AWord x, AWord y] = Some ?s"
    "format_text ?ps = ''[mem] not enough RAM: %u KiB usable, need more than %u KiB.'' @ newline"
    by (simp_all add: format_text_def decimal_def padded_def)
  have "length ?s \<le> INT_MAX" using length_decimal [of x] length_decimal [of y] by (simp add: INT_MAX_def)
  from printed_ok [OF m(1) this t m(2)] show ?thesis by (auto simp: say_def on_machine_def)
qed

text \<open>The state that \<open>kernel_main\<close> leaves, as far as the interrupt handlers depend on it.\<close>

lemma boot_machine_ok:
  assumes ready: "boot_ready b c" and files: "ramfs_inv_n n f" and scr: "tty_inv t" and pg: "\<exists>U. pt_maps U pg"
    and m: "\<And>a. unat a < unat (b_esp b) - 20 \<or> unat (b_esp b) \<le> unat a \<Longrightarrow> m a = mem_of (c_machine c) a"
    and t0: "tk = (boot_task b)\<lparr>t_pid := next_pid (m_kern (c_machine c))\<rparr>"
  shows "machine_ok (b_platform b) n
    (set_mem m ((c_machine c)\<lparr>m_kern := (m_kern (c_machine c))\<lparr>kpaging := pg, tasks := ts(b_task0 b \<mapsto> tk), next_pid := np, current_task := b_task0 b\<rparr>,
       m_files := f, m_screen := t, m_ticks := tc, m_ports := h\<rparr>))"
    "kheap_fresh (p_heap_start (b_platform b)) (p_heap_end (b_platform b)) ((kheap (m_kern (c_machine c)))\<lparr>km_mem := m\<rparr>)"
proof -
  let ?p = "b_platform b" and ?k = "m_kern (c_machine c)"
  let ?k' = "set_ram m (?k\<lparr>kpaging := pg, tasks := ts(b_task0 b \<mapsto> tk), next_pid := np, current_task := b_task0 b\<rparr>)"
  note r = ready [unfolded boot_ready_def Let_def]
  show fresh: "kheap_fresh (p_heap_start ?p) (p_heap_end ?p) ((kheap ?k)\<lparr>km_mem := m\<rparr>)"
  proof (rule kheap_fresh_frame)
    show "kheap_fresh (p_heap_start ?p) (p_heap_end ?p) (kheap ?k)" using r by blast
    fix y assume y: "y < 4294967296" "unat (p_heap_start ?p) \<le> y" "y < unat (p_heap_end ?p) + 8"
    then have "unat (of_nat y :: u32) = y" by (simp add: unat_of_nat32)
    then show "m (of_nat y) = mem_of (c_machine c) (of_nat y)" using m [of "of_nat y"] r y by auto
  qed
  from fresh have "exec_ok (p_heap_start ?p) (p_heap_end ?p) (p_kernel_start ?p) (p_kernel_end ?p) ?k' [] {}"
    by (intro boot_exec_ok) (use r pg in \<open>auto simp: t0 boot_task_def zero_task_def\<close>)
  then show "machine_ok ?p n
    (set_mem m ((c_machine c)\<lparr>m_kern := ?k\<lparr>kpaging := pg, tasks := ts(b_task0 b \<mapsto> tk), next_pid := np, current_task := b_task0 b\<rparr>,
       m_files := f, m_screen := t, m_ticks := tc, m_ports := h\<rparr>))"
    using r files scr by (auto simp: machine_ok_def kern_ok_def proc_good_def)
qed

lemma on_machine_sel [simp]:
  "c_machine (on_machine f c) = f (c_machine c)" "c_gdt (on_machine f c) = c_gdt c" "c_idt (on_machine f c) = c_idt c"
  "c_idtr (on_machine f c) = c_idtr c" "c_intr (on_machine f c) = c_intr c"
  by (simp_all add: on_machine_def)

text \<open>What holds when user code is entered.\<close>

definition boot_leaves :: "boot_image \<Rightarrow> machine \<Rightarrow> machine \<Rightarrow> bool" where
  "boot_leaves b s s' \<longleftrightarrow>
     ramfs_init (b_programs b) (m_files s) = Some (m_files s') \<and>
     tasks (m_kern s') (b_task0 b) = Some ((boot_task b)\<lparr>t_pid := next_pid (m_kern s)\<rparr>) \<and>
     next_pid (m_kern s') = next_pid (m_kern s) + 1 \<and> exec_pool_used (m_kern s') = 0 \<and>
     kheap_fresh (p_heap_start (b_platform b)) (p_heap_end (b_platform b)) (kheap (m_kern s')) \<and>
     (\<forall>a. unat a < unat (b_esp b) - 20 \<or> unat (b_esp b) \<le> unat a \<longrightarrow> mem_of s' a = mem_of s a)"

definition booted :: "boot_image \<Rightarrow> computer \<Rightarrow> nat \<Rightarrow> (user_cpu option \<times> computer) option \<Rightarrow> bool" where
  "booted b c n r \<longleftrightarrow> (\<exists>c'. r = Some (Some (user_registers (b_user_main b) (b_user_stack b + 4096) (b_eflags b)), c') \<and>
     machine_ok (b_platform b) n (c_machine c') \<and> boot_leaves b (c_machine c) (c_machine c') \<and> c_intr c' \<and>
     c_idt c' = idt_initialize (b_isr b) (b_irq b) (b_isr_syscall b) \<and> c_idtr c' = (b_idt b, 2047) \<and>
     current_task (m_kern (c_machine c')) = b_task0 b \<and>
     (let pg = kpaging (m_kern (c_machine c')); p = b_platform b in
      pt_maps (\<lambda>i. page_in (p_user_start p) (p_user_end p) i \<or> page_in (p_user_heap_start p) (p_user_heap_end p) i) pg \<and>
      bit (cr0 pg) 31 \<and> cr3 pg = b_page_directory b))"

lemma start_timer_eq:
  "start_timer c = on_machine (\<lambda>s. s\<lparr>m_ticks := 0, m_ports := snd (timer_initialize (m_ports s))\<rparr>) c"
  by (simp add: start_timer_def timer_initialize_def Let_def)

lemma on_paging_bind:
  assumes "f pg = Some pg'" "kpaging (m_kern (c_machine c)) = pg" "Q (g (on_machine (\<lambda>s. s\<lparr>m_kern := (m_kern s)\<lparr>kpaging := pg'\<rparr>\<rparr>) c))"
  shows "Q (Option.bind (on_paging f c) g)"
  using assms by (simp add: on_paging_def on_machine_def Let_def)

lemma enable_paging_bind:
  "Q (g (on_machine (\<lambda>s. s\<lparr>m_kern := (m_kern s)\<lparr>kpaging := f (kpaging (m_kern s))\<rparr>\<rparr>) c)) \<Longrightarrow>
   Q (Option.bind (on_paging (\<lambda>pg. Some (f pg)) c) g)"
  by (simp add: on_paging_def on_machine_def Let_def)

lemma some_bind: "x = Some y \<Longrightarrow> Q (f y) \<Longrightarrow> Q (Option.bind x f)"
  by simp

lemma report_bind:
  assumes "tty_inv t" "\<And>t'. tty_inv t' \<Longrightarrow> Q (f t')"
  shows "Q (Option.bind (ramfs_init_report t) f)"
  using ramfs_init_report_ok [OF assms(1)] assms(2) by auto

lemma boot_end:
  assumes ready: "boot_ready b c" and files: "ramfs_inv_n n f" "ramfs_init (b_programs b) (m_files (c_machine c)) = Some f" and t: "tty_inv t"
    and pg: "pt_maps (\<lambda>i. page_in (p_user_start (b_platform b)) (p_user_end (b_platform b)) i \<or>
        page_in (p_user_heap_start (b_platform b)) (p_user_heap_end (b_platform b)) i) pg"
    and cr: "bit (cr0 pg) 31" "cr3 pg = b_page_directory b"
    and c': "c_machine c' = (c_machine c)\<lparr>m_ticks := tc, m_ports := h, m_kern := (m_kern (c_machine c))\<lparr>kpaging := pg\<rparr>, m_screen := t, m_files := f\<rparr>"
      "c_intr c'" "c_idt c' = idt_initialize (b_isr b) (b_irq b) (b_isr_syscall b)" "c_idtr c' = (b_idt b, 2047)"
  shows "booted b c n (do { c1 \<leftarrow> start_tasks b c'; (cpu, c2) \<leftarrow> enter_user_mode b c1; Some (Some cpu, c2) })"
proof -
  let ?k = "m_kern (c_machine c)"
  let ?s = "(c_machine c)\<lparr>m_ticks := tc, m_ports := h, m_screen := t, m_files := f, m_kern := ?k\<lparr>kpaging := pg, tasks := (tasks ?k)(b_task0 b \<mapsto> (boot_task b)\<lparr>t_pid := next_pid ?k\<rparr>), next_pid := next_pid ?k + 1, current_task := b_task0 b\<rparr>\<rparr>"
  have "start_tasks b c' = Some (c'\<lparr>c_machine := ?s\<rparr>)"
    by (simp add: start_tasks_def sched_init_def upd_task_def Let_def c'(1) boot_task_def zero_task_def)
  moreover have "booted b c n (Option.bind (enter_user_mode b (c'\<lparr>c_machine := ?s\<rparr>)) (\<lambda>(cpu, c2). Some (Some cpu, c2)))"
    unfolding enter_user_mode_def
  proof (rule enter_user_mode_spec [where Q = "\<lambda>r. booted b c n (Option.bind r (\<lambda>(cpu, c2). Some (Some cpu, c2)))"], goal_cases)
    case (3 m t')
    have u: "\<exists>U. pt_maps U pg" using pg by blast
    have m: "m a = mem_of (c_machine c) a" if "unat a < unat (b_esp b) - 20 \<or> unat (b_esp b) \<le> unat a" for a
      using 3(2) [OF that] by simp
    note M = boot_machine_ok(1) [OF ready files(1) 3(1) u m refl, where ts = "tasks ?k" and np = "next_pid ?k + 1" and tc = tc and h = h]
    have "machine_ok (b_platform b) n (set_mem m (?s\<lparr>m_screen := t'\<rparr>))" using M by (simp add: machine_ok_def)
    moreover have "boot_leaves b (c_machine c) (set_mem m (?s\<lparr>m_screen := t'\<rparr>))"
      using boot_machine_ok(2) [OF ready files(1) 3(1) u m refl] files(2) m ready by (simp add: boot_leaves_def boot_ready_def Let_def)
    ultimately show ?case using pg cr c'(2-4) by (simp add: booted_def)
  qed (use ready t in \<open>simp_all add: boot_ready_def Let_def\<close>)
  ultimately show ?thesis by simp
qed

lemma kernel_main_booted:
  assumes ready: "boot_ready b c" and progs: "\<And>name. program_fits (b_programs b name)" and map: "boots_with mbi c rs"
    and n: "n < 4294967288" and ram: "\<not> usable_kib rs < MIN_RAM_KIB"
  shows "booted b c n (kernel_main b BOOT_MAGIC mbi c)"
proof -
  let ?p = "b_platform b" and ?k = "m_kern (c_machine c)" and ?Q = "booted b c n"
  note r = ready [unfolded boot_ready_def Let_def]
  obtain t0 where t0: "print_memory_map BOOT_MAGIC mbi (mem_of (c_machine c)) (m_screen (c_machine c)) = Some (usable_kib rs, t0)" "tty_inv t0"
    using print_memory_map_spec [OF map] r by blast
  have "length (page_directory (kpaging ?k)) = 1024" "length (page_table0 (kpaging ?k)) = 1024" "p_user_end ?p \<le> 0x400000" "p_user_heap_end ?p \<le> 0x400000"
    using r by simp_all
  from paging_initialize_correct [OF this] obtain pg where
    pg: "paging_initialize (p_user_start ?p) (p_user_end ?p) (p_user_heap_start ?p) (p_user_heap_end ?p) (b_page_table0 b) (kpaging ?k) = Some pg"
      "pt_maps (\<lambda>i. page_in (p_user_start ?p) (p_user_end ?p) i \<or> page_in (p_user_heap_start ?p) (p_user_heap_end ?p) i) pg"
    by metis
  obtain f where f: "ramfs_init (b_programs b) (m_files (c_machine c)) = Some f" "ramfs_inv_n n f"
    using ramfs_init_inv [of "b_programs b", OF progs n] by blast
  let ?pg = "paging_enable (b_page_directory b) pg"
  have cr: "bit (cr0 ?pg) 31" "cr3 ?pg = b_page_directory b"
    using bit_exp_iff [where 'a = "32 word", of 31] by (simp_all add: paging_enable_def bit_or_iff)
  have maps: "pt_maps U ?pg = pt_maps U pg" for U by (simp add: paging_enable_def pt_maps_def)
  let ?init = "paging_initialize (p_user_start ?p) (p_user_end ?p) (p_user_heap_start ?p) (p_user_heap_end ?p) (b_page_table0 b)"
  show ?thesis
    unfolding kernel_main_def Let_def t0(1) Option.bind_lunit prod.case if_not_P [OF ram]
  proof (intro say_bind [where Q = ?Q] on_paging_bind [where Q = ?Q and f = ?init and pg = "kpaging ?k" and pg' = pg] enable_paging_bind [where Q = ?Q]
      some_bind [where Q = ?Q and y = f] report_bind [where Q = ?Q], goal_cases)
    case (29 t1 t2 t3 t4 t5 t6 t7 t8 t9)
    show ?case
      by (rule boot_end [OF ready f(2,1) 29(9), where pg = ?pg and tc = 0 and
            h = "pic_clear_mask (p_device ?p) 1 (pic_clear_mask (p_device ?p) 0 (snd (timer_initialize (pic_initialize (m_ports (c_machine c))))))"])
        (use pg(2) cr in \<open>simp_all add: maps load_idt_def lidt_def start_timer_eq on_ports_def\<close>)
  qed (use t0(2) pg(1) f(1) in \<open>simp_all add: load_idt_def lidt_def start_timer_eq on_ports_def\<close>)
qed

text \<open>A region whose size says that the next one starts at the same place is never left.\<close>

lemma memory_regions_stuck:
  assumes "p < q" "me_size (mmap_entry_at m p) = - 4"
  shows "memory_regions m p q n t = None"
proof -
  have "\<not> (p < q \<and> me_size (mmap_entry_at m p) = - 4)" if "memory_regions m p q n t = Some r" for r
    using memory_regions.raw_induct [where P = "\<lambda>m p q n t r. \<not> (p < q \<and> me_size (mmap_entry_at m p) = - 4)", OF _ that]
    by (fastforce simp: Let_def bind_eq_Some_conv split: if_splits)
  with assms show ?thesis by (cases "memory_regions m p q n t") auto
qed

text \<open>C39: The memory map: for any map of the boot loader whose entries lie one behind the other,
  \<open>print_memory_map\<close> ends, prints each region with its base, its size in KiB and its kind, and
  returns the sum of the usable sizes. An entry that says its size is \<open>-4\<close> keeps it in its loop
  for ever: the loop has no other guard.\<close>

theorem print_memory_map_correct:
  assumes "boots_with mbi c rs" "tty_inv t"
  shows "(\<exists>t'. print_memory_map BOOT_MAGIC mbi (mem_of (c_machine c)) t = Some (usable_kib rs, t') \<and> tty_inv t' \<and>
      terminal_write (map of_char (memory_map_text rs)) t = Some t') \<and>
    (p < q \<and> me_size (mmap_entry_at m p) = - 4 \<longrightarrow> memory_regions m p q n t = None)"
  using print_memory_map_spec [OF assms] memory_regions_stuck by blast


text \<open>A machine in front of \<open>kernel_main\<close>, with 15 MiB of memory.\<close>

definition demo_image :: boot_image where
  "demo_image = \<lparr>b_platform = demo_platform, b_idt = 0x103000, b_isr = (\<lambda>n. 0x101000), b_irq = (\<lambda>n. 0x102000),
     b_isr_syscall = 0x102800, b_tss = 0x103800, b_page_directory = 0x107000, b_page_table0 = 0x108000, b_task0 = 0x109000,
     b_stack_bottom = 0x1FB000, b_stack_top = 0x1FF000, b_user_main = 0x104000, b_user_stack = 0x105000, b_esp = 0x1FEF00,
     b_eflags = 2, b_programs = (\<lambda>_. [])\<rparr>"

definition demo_mbi :: mem where
  "demo_mbi = store_words 0x600 [20, 0x100000, 0, 0xF00000, 0, 1] (store32 (store32 (store32 (\<lambda>a. 0) 0x500 0x40) 0x52C 24) 0x530 0x600)"

definition demo_computer :: computer where
  "demo_computer = \<lparr>c_machine = \<lparr>m_kern = boot_kern\<lparr>kheap := \<lparr>km_mem = demo_mbi, heap_base = 0, heap_ptr = 0\<rparr>\<rparr>,
       m_files = ramfs_blank (\<lambda>a. 0), m_keys = kbd_init,
       m_screen = \<lparr>terminal_row = 0, terminal_column = 0, terminal_color = 7, terminal_buffer = replicate 2000 0\<rparr>,
       m_ticks = 0, m_ports = []\<rparr>, c_gdt = gdt, c_idt = [], c_idtr = (0, 0), c_intr = False\<rparr>"

definition demo_region :: mmap_entry where
  "demo_region = \<lparr>me_size = 20, me_base = 0x100000, me_length = 0xF00000, me_type = 1\<rparr>"

lemma demo_boots_with: "boots_with 0x500 demo_computer [demo_region]"
  by (simp add: boots_with_def demo_computer_def demo_mbi_def demo_region_def multiboot_info_at_def mmap_entry_at_def
      load32_def load64_def store32_def MBI_FLAG_MMAP_def)

lemma demo_boot_ready: "boot_ready demo_image demo_computer"
proof -
  have "kheap_fresh 0x110000 0x1F0000 \<lparr>km_mem = (\<lambda>a. 0), heap_base = 0, heap_ptr = 0\<rparr>"
    by (simp add: kheap_fresh_def virgin_def load32_def KMALLOC_MAGIC_def)
  moreover have "demo_mbi a = 0" if "4096 \<le> unat a" for a
    using that by (auto simp: demo_mbi_def store32_def)
  ultimately have "kheap_fresh 0x110000 0x1F0000 \<lparr>km_mem = demo_mbi, heap_base = 0, heap_ptr = 0\<rparr>"
    using kheap_fresh_frame [of "0x110000" "0x1F0000" "\<lparr>km_mem = (\<lambda>a. 0), heap_base = 0, heap_ptr = 0\<rparr>" demo_mbi]
    by (simp add: unat_of_nat32)
  then show ?thesis using demo_machine_ok(1)
    by (simp add: boot_ready_def demo_image_def demo_computer_def boot_kern_def kbd_init_inv) (simp add: demo_platform_def identity_pt_def tty_inv_def VGA_HEIGHT_def VGA_WIDTH_def)
qed


theorem print_memory_map_correct_witness:
  "(\<exists>t'. print_memory_map BOOT_MAGIC 0x500 demo_mbi (m_screen demo_machine) = Some (15360, t')) \<and>
    memory_regions (store_words 0x600 [0xFFFFFFFC] (\<lambda>a. 0)) 0x600 0x700 0 (m_screen demo_machine) = None"
proof -
  have "usable_kib [demo_region] = 15360"
    by (simp add: usable_kib_def region_kib_def demo_region_def drop_bit_eq_div)
  moreover have "mem_of (c_machine demo_computer) = demo_mbi" by (simp add: demo_computer_def)
  moreover have "me_size (mmap_entry_at (store_words 0x600 [0xFFFFFFFC] (\<lambda>a. 0)) 0x600) = - 4"
    by (simp add: mmap_entry_at_def)
  ultimately show ?thesis
    using print_memory_map_correct [OF demo_boots_with machine_okD(4) [OF demo_machine_ok(2)], of "0x600" "0x700"
        "store_words 0x600 [0xFFFFFFFC] (\<lambda>a. 0)" 0] by auto
qed

text \<open>The switch to user mode: whatever was in memory, \<open>iret\<close> loads the entry point and stack given,
  interrupts on, and selectors that the descriptor table resolves, with requested privilege 3, to
  the flat user code and data segments; memory changes only in the 20 bytes of the frame.\<close>

theorem enter_user_mode_correct:
  assumes "tty_inv (m_screen (c_machine c))" "20 \<le> unat sp"
  shows "\<exists>cpu c'. enter_user_mode_at sp flags entry_point stack_top c = Some (cpu, c') \<and>
    r_eip cpu = entry_point \<and> r_esp cpu = stack_top \<and> bit (r_eflags cpu) 9 \<and>
    (let code = gdt ! unat (drop_bit 3 (r_cs cpu)); data = gdt ! unat (drop_bit 3 (r_ss cpu)) in
     r_cs cpu AND 7 = 3 \<and> r_ss cpu AND 7 = 3 \<and> r_data cpu = r_ss cpu \<and>
     access code = 0xFA \<and> access data = 0xF2 \<and> seg_dpl code = 3 \<and> seg_dpl data = 3 \<and>
     seg_base code = 0 \<and> seg_base data = 0 \<and> seg_limit code = 0xFFFFF \<and> seg_limit data = 0xFFFFF) \<and>
    (\<forall>a. unat a < unat sp - 20 \<or> unat sp \<le> unat a \<longrightarrow> mem_of (c_machine c') a = mem_of (c_machine c) a)"
proof (rule enter_user_mode_spec [OF assms], goal_cases)
  case (1 m t)
  have "bit (flags OR 0x200) 9" using bit_exp_iff [where 'a = "32 word", of 9] by (simp add: bit_or_iff)
  then show ?case using 1(2)
    by (simp add: user_registers_def gdt_def seg_dpl_def drop_bit_eq_div)
qed

theorem enter_user_mode_correct_witness:
  "\<exists>cpu c'. enter_user_mode_at 0x1FEF00 2 0x104000 0x106000 demo_computer = Some (cpu, c') \<and> r_eip cpu = 0x104000 \<and>
     r_esp cpu = 0x106000 \<and> bit (r_eflags cpu) 9 \<and> r_cs cpu AND 7 = 3"
  using enter_user_mode_correct [of demo_computer "0x1FEF00" 2 "0x104000" "0x106000"] demo_boot_ready
  by (auto simp: boot_ready_def Let_def)

end
