(* ===== verification/Elf_Run.thy ===== *)
theory Elf_Run
  imports Boot_Spec
begin

text \<open>
  \<open>elf_exec_file\<close> of \<open>kernel/arch/i386/elf.c\<close>: running a program straight from the file system, in place
  of the running kernel thread. It puts the file system, the loader, the console and the switch to
  user mode together. The result is the registers in user mode, or none where the code returns -1.
\<close>

section \<open>Code\<close>

definition ELF_USER_STACK_WORDS :: u32 where "ELF_USER_STACK_WORDS = 4096 div 4"

lemma stack_words: "4 * ELF_USER_STACK_WORDS = 4096"
  by (simp add: ELF_USER_STACK_WORDS_def)

text \<open>Loading a file's bytes, with the messages of the loader.\<close>

definition load_image :: "platform \<Rightarrow> u8 list \<Rightarrow> computer \<Rightarrow> (u32 option \<times> computer) option" where
  "load_image p img c =
     (let s = c_machine c; k = m_kern s in
      do {
        msg \<leftarrow> elf_load_message (p_kernel_start p) (p_kernel_end p) img;
        t \<leftarrow> print_message msg (m_screen s);
        (entry, m, pg) \<leftarrow> elf_load (p_kernel_start p) (p_kernel_end p) img (ram k, kpaging k);
        Some (entry, on_machine (\<lambda>s. s\<lparr>m_kern := (set_ram m k)\<lparr>kpaging := pg\<rparr>, m_screen := t\<rparr>) c)
      })"

definition elf_exec_file :: "boot_image \<Rightarrow> u32 \<Rightarrow> string \<Rightarrow> computer \<Rightarrow> (user_cpu option \<times> computer) option" where
  "elf_exec_file b elf_user_stack name c =
     (let f = m_files (c_machine c); q = [CHR 0x27] in
      case ramfs_file_data (Some name) f of
        Some (Some off, len) \<Rightarrow>
          (if len = 0 then
             map_option (Pair None) (say (''[elf] '' @ q @ ''%s'' @ q @ '' is empty or unreadable'') [AStr name] c)
           else do {
             (loaded, c1) \<leftarrow> load_image (b_platform b) (read_bytes (pool f) off (unat len)) c;
             (case loaded of
                None \<Rightarrow> map_option (Pair None) (say (''[elf] failed to load '' @ q @ ''%s'' @ q) [AStr name] c1)
              | Some entry \<Rightarrow> do {
                  c2 \<leftarrow> say (''[elf] executing '' @ q @ ''%s'' @ q @ '' (entry=0x%lx)'') [AStr name, AWord entry] c1;
                  (cpu, c3) \<leftarrow> enter_user_mode_at (b_esp b) (b_eflags b) entry (elf_user_stack + 4 * ELF_USER_STACK_WORDS) c2;
                  Some (Some cpu, c3)
                })
           })
      | _ \<Rightarrow> map_option (Pair None) (say (''[elf] cannot open '' @ q @ ''%s'' @ q) [AStr name] c))"

section \<open>Which images are accepted\<close>

definition elf_acceptable :: "u32 \<Rightarrow> u32 \<Rightarrow> u8 list \<Rightarrow> bool" where
  "elf_acceptable ks ke img \<longleftrightarrow>
     (\<exists>eh. valid_ehdr img eh \<and> elf_validate img = Some True \<and> list_all (seg_accepted ks ke img) (loads img eh) \<and>
        e_entry eh < 0x400000 \<and> \<not> (ks \<le> e_entry eh \<and> e_entry eh < ke))"

lemma elf_load_acceptable:
  assumes l: "length img < 4294967296" and pg: "pt_maps U (snd s)"
  shows "\<exists>r s'. elf_load ks ke img s = Some (r, s') \<and> (r \<noteq> None \<longleftrightarrow> elf_acceptable ks ke img)"
proof (rule elf_load_cases [OF assms, of ks ke])
  fix eh s'
  assume "elf_load ks ke img s = Some (Some (e_entry eh), s')" "valid_ehdr img eh" "elf_validate img = Some True"
    "e_entry eh < 0x400000" "\<not> (ks \<le> e_entry eh \<and> e_entry eh < ke)" "list_all (seg_accepted ks ke img) (loads img eh)"
  then show ?thesis unfolding elf_acceptable_def by blast
next
  assume n: "elf_load ks ke img s = Some (None, s)"
  have False if acc: "elf_acceptable ks ke img"
  proof -
    obtain eh where eh: "valid_ehdr img eh" "elf_validate img = Some True" "list_all (seg_accepted ks ke img) (loads img eh)"
      "e_entry eh < 0x400000" "\<not> (ks \<le> e_entry eh \<and> e_entry eh < ke)" using acc by (auto simp: elf_acceptable_def)
    have "check_loop ks ke img eh 0 (unat (e_phnum eh)) = Some True"
      using check_loop_eq [of 0 "unat (e_phnum eh)" img eh ks ke] phdr_at_defined [OF eh(1) l] eh(3) by simp
    with eh n show False using valid_ehdr_unique [OF eh(1)]
      by (auto simp: elf_load_def ELF_LOAD_LIMIT_def not_le split: bind_splits if_splits)
  qed
  with n show ?thesis by auto
qed

definition program_file :: "platform \<Rightarrow> string \<Rightarrow> ramfs \<Rightarrow> u8 list \<Rightarrow> bool" where
  "program_file p name f img \<longleftrightarrow> (\<exists>off len. ramfs_file_data (Some name) f = Some (Some off, len) \<and> len \<noteq> 0 \<and>
     img = read_bytes (pool f) off (unat len) \<and> elf_acceptable (p_kernel_start p) (p_kernel_end p) img)"

text \<open>What is printed when the program is not started.\<close>

definition in_quotes :: "string \<Rightarrow> string" where "in_quotes name = [CHR 0x27] @ name @ [CHR 0x27]"

definition run_error :: "platform \<Rightarrow> string \<Rightarrow> ramfs \<Rightarrow> string" where
  "run_error p name f =
     (case ramfs_file_data (Some name) f of
        Some (Some off, len) \<Rightarrow>
          (if len = 0 then ''[elf] '' @ in_quotes name @ '' is empty or unreadable'' @ newline
           else
             the (message_text (the (the (elf_load_message (p_kernel_start p) (p_kernel_end p) (read_bytes (pool f) off (unat len)))))) @
             ''[elf] failed to load '' @ in_quotes name @ newline)
      | _ \<Rightarrow> ''[elf] cannot open '' @ in_quotes name @ newline)"

lemma say_message:
  assumes "reportable (fmt, args)" "tty_inv (m_screen (c_machine c))"
  shows "\<exists>t. say fmt args c = Some (on_machine (\<lambda>s. s\<lparr>m_screen := t\<rparr>) c) \<and> tty_inv t \<and>
    terminal_write (map of_char (the (message_text (fmt, args)))) (m_screen (c_machine c)) = Some t"
  using print_message_ok [of "m_screen (c_machine c)" "Some (fmt, args)"] assms
  by (auto simp: print_message_def say_def on_machine_def)

lemma reportable_name:
  assumes "length name < 1000"
  shows "reportable (''[elf] '' @ [CHR 0x27] @ ''%s'' @ [CHR 0x27] @ '' is empty or unreadable'', [AStr name])"
    "reportable (''[elf] failed to load '' @ [CHR 0x27] @ ''%s'' @ [CHR 0x27], [AStr name])"
    "reportable (''[elf] cannot open '' @ [CHR 0x27] @ ''%s'' @ [CHR 0x27], [AStr name])"
    "reportable (''[elf] executing '' @ [CHR 0x27] @ ''%s'' @ [CHR 0x27] @ '' (entry=0x%lx)'', [AStr name, AWord w])"
    "message_text (''[elf] '' @ [CHR 0x27] @ ''%s'' @ [CHR 0x27] @ '' is empty or unreadable'', [AStr name]) =
       Some (''[elf] '' @ in_quotes name @ '' is empty or unreadable'' @ newline)"
    "message_text (''[elf] failed to load '' @ [CHR 0x27] @ ''%s'' @ [CHR 0x27], [AStr name]) =
       Some (''[elf] failed to load '' @ in_quotes name @ newline)"
    "message_text (''[elf] cannot open '' @ [CHR 0x27] @ ''%s'' @ [CHR 0x27], [AStr name]) =
       Some (''[elf] cannot open '' @ in_quotes name @ newline)"
  using assms length_numeral_INT_MAX(1) [of w] by (simp_all add: reportable_numbers in_quotes_def)

lemma load_image_cases:
  assumes t: "tty_inv (m_screen (c_machine c))" and pg: "pt_maps U (kpaging (m_kern (c_machine c)))" and l: "length img < 4294967296"
  obtains m t' where "load_image p img c = Some (None, on_machine (\<lambda>s. s\<lparr>m_screen := t'\<rparr>) c)" "tty_inv t'"
      "\<not> elf_acceptable (p_kernel_start p) (p_kernel_end p) img"
      "elf_load_message (p_kernel_start p) (p_kernel_end p) img = Some (Some m)"
      "terminal_write (map of_char (the (message_text m))) (m_screen (c_machine c)) = Some t'"
  | entry m pg' where "load_image p img c =
        Some (Some entry, on_machine (\<lambda>s. s\<lparr>m_kern := (set_ram m (m_kern (c_machine c)))\<lparr>kpaging := pg'\<rparr>\<rparr>) c)"
      "elf_acceptable (p_kernel_start p) (p_kernel_end p) img"
      "elf_load (p_kernel_start p) (p_kernel_end p) img (mem_of (c_machine c), kpaging (m_kern (c_machine c))) = Some (Some entry, m, pg')"
proof -
  let ?ks = "p_kernel_start p" and ?ke = "p_kernel_end p" and ?k = "m_kern (c_machine c)"
  have pg2: "pt_maps U (snd (ram ?k, kpaging ?k))" using pg by simp
  obtain r m pg' where r: "elf_load ?ks ?ke img (ram ?k, kpaging ?k) = Some (r, m, pg')" "r \<noteq> None \<longleftrightarrow> elf_acceptable ?ks ?ke img"
    using elf_load_acceptable [OF l pg2, of ?ks ?ke] by auto
  obtain msg where msg: "elf_load_message ?ks ?ke img = Some msg" "r = None \<longleftrightarrow> msg \<noteq> None" "\<And>x. msg = Some x \<Longrightarrow> reportable x"
    using elf_load_message_iff [OF l pg2, of ?ks ?ke] r(1) by auto
  obtain t' where t': "print_message msg (m_screen (c_machine c)) = Some t'" "tty_inv t'"
    "case msg of None \<Rightarrow> t' = m_screen (c_machine c) | Some x \<Rightarrow> terminal_write (map of_char (the (message_text x))) (m_screen (c_machine c)) = Some t'"
    using print_message_ok [OF t msg(3)] by blast
  show thesis
  proof (cases r)
    case None
    then obtain x where x: "msg = Some x" using msg(2) by blast
    have "m = ram ?k" "pg' = kpaging ?k" using elf_load_spec [OF l pg2, of ?ks ?ke] r(1) None by auto
    with None x r msg(1) t' show thesis
      by (intro that(1) [of t' x]) (auto simp: load_image_def Let_def on_machine_def)
  next
    case (Some entry)
    then have "msg = None" using msg(2) by blast
    with Some r msg(1) t' show thesis
      by (intro that(2) [of entry pg' m]) (auto simp: load_image_def Let_def on_machine_def)
  qed
qed

lemma elf_load_entry:
  assumes "length img < 4294967296" "pt_maps U (snd s)" "elf_load ks ke img s = Some (Some entry, s')"
  shows "\<exists>eh. ehdr_of img = Some eh \<and> entry = e_entry eh"
  by (rule elf_load_cases [OF assms(1,2), of ks ke]) (use assms(3) valid_ehdr_unique in auto)

lemma elf_exec_loads:
  assumes "ramfs_file_data (Some name) (m_files (c_machine c)) = Some (Some off, len)" "len \<noteq> 0"
  shows "elf_exec_file b stack name c = do {
        (loaded, c1) \<leftarrow> load_image (b_platform b) (read_bytes (pool (m_files (c_machine c))) off (unat len)) c;
        (case loaded of
           None \<Rightarrow> map_option (Pair None) (say (''[elf] failed to load '' @ [CHR 0x27] @ ''%s'' @ [CHR 0x27]) [AStr name] c1)
         | Some entry \<Rightarrow> do {
             c2 \<leftarrow> say (''[elf] executing '' @ [CHR 0x27] @ ''%s'' @ [CHR 0x27] @ '' (entry=0x%lx)'') [AStr name, AWord entry] c1;
             (cpu, c3) \<leftarrow> enter_user_mode_at (b_esp b) (b_eflags b) entry (stack + 4096) c2;
             Some (Some cpu, c3) }) }"
  unfolding elf_exec_file_def stack_words using assms by (simp add: Let_def)

text \<open>A file that is not loaded, and one that is.\<close>

lemma elf_exec_refused:
  fixes c :: computer and b :: boot_image
  defines "f \<equiv> m_files (c_machine c)" and "p \<equiv> b_platform b"
  assumes n: "length name < 1000" and d: "ramfs_file_data (Some name) f = Some (Some off, len)" "len \<noteq> 0"
    and img: "img = read_bytes (pool f) off (unat len)"
    and a: "load_image p img c = Some (None, on_machine (\<lambda>s. s\<lparr>m_screen := t1\<rparr>) c)" "tty_inv t1"
      "elf_load_message (p_kernel_start p) (p_kernel_end p) img = Some (Some m)"
      "terminal_write (map of_char (the (message_text m))) (m_screen (c_machine c)) = Some t1"
  shows "\<exists>t'. elf_exec_file b stack name c = Some (None, on_machine (\<lambda>s. s\<lparr>m_screen := t'\<rparr>) c) \<and> tty_inv t' \<and>
    terminal_write (map of_char (run_error p name f)) (m_screen (c_machine c)) = Some t'"
proof -
  have e: "run_error p name f = the (message_text m) @ ''[elf] failed to load '' @ in_quotes name @ newline"
    using d a(3) by (simp add: run_error_def img)
  have "tty_inv (m_screen (c_machine (on_machine (\<lambda>s. s\<lparr>m_screen := t1\<rparr>) c)))" using a(2) by (simp add: on_machine_def)
  from say_message [OF reportable_name(2) [OF n] this] show ?thesis
    unfolding elf_exec_loads [OF d [unfolded f_def]] a(1) [unfolded img f_def p_def]
    using a(4) reportable_name(6) [OF n] by (auto simp: e terminal_write_append on_machine_def)
qed

lemma elf_exec_starts:
  fixes c :: computer and b :: boot_image
  defines "f \<equiv> m_files (c_machine c)" and "p \<equiv> b_platform b"
  assumes t: "tty_inv (m_screen (c_machine c))" and sp: "20 \<le> unat (b_esp b)" and n: "length name < 1000"
    and d: "ramfs_file_data (Some name) f = Some (Some off, len)" "len \<noteq> 0" and img: "img = read_bytes (pool f) off (unat len)"
    and a: "load_image p img c = Some (Some entry, on_machine (\<lambda>s. s\<lparr>m_kern := (set_ram m (m_kern (c_machine c)))\<lparr>kpaging := pg'\<rparr>\<rparr>) c)"
  shows "\<exists>c'. elf_exec_file b stack name c = Some (Some (user_registers entry (stack + 4096) (b_eflags b)), c') \<and>
    tty_inv (m_screen (c_machine c')) \<and> m_files (c_machine c') = f \<and> kpaging (m_kern (c_machine c')) = pg' \<and>
    (\<forall>x. unat x < unat (b_esp b) - 20 \<or> unat (b_esp b) \<le> unat x \<longrightarrow> mem_of (c_machine c') x = m x)"
proof -
  let ?c1 = "on_machine (\<lambda>s. s\<lparr>m_kern := (set_ram m (m_kern (c_machine c)))\<lparr>kpaging := pg'\<rparr>\<rparr>) c"
  have "tty_inv (m_screen (c_machine ?c1))" using t by (simp add: on_machine_def)
  from say_message [OF reportable_name(4) [OF n] this] obtain t2 where
    t2: "say (''[elf] executing '' @ [CHR 0x27] @ ''%s'' @ [CHR 0x27] @ '' (entry=0x%lx)'') [AStr name, AWord entry] ?c1 =
      Some (on_machine (\<lambda>s. s\<lparr>m_screen := t2\<rparr>) ?c1)" "tty_inv t2" by blast
  show ?thesis
    unfolding elf_exec_loads [OF d [unfolded f_def]] a [unfolded img f_def p_def] Option.bind_lunit prod.case option.case t2(1)
  proof (rule enter_user_mode_spec [of "on_machine (\<lambda>s. s\<lparr>m_screen := t2\<rparr>) ?c1" "b_esp b", OF _ sp], goal_cases)
    case (2 m' t3)
    then show ?case by (auto simp: on_machine_def f_def)
  qed (use t2(2) in \<open>simp add: on_machine_def\<close>)
qed

text \<open>C33: Running a file. \<open>elf_exec_file\<close> starts a program exactly when the path names a non-empty regular file
  whose contents are an executable image with all its segments below 4 MiB and apart from the kernel.
  Then the processor continues in ring 3 at the entry point of the image, on top of the loader's stack,
  with the segments loaded and mapped; of the rest of memory only the frame of \<open>iret\<close> on the kernel
  stack changed. Otherwise -1 is returned, the lines that say why are on the screen, and nothing but
  the screen changed.\<close>

theorem elf_exec_file_correct:
  fixes c :: computer and b :: boot_image
  assumes t: "tty_inv (m_screen (c_machine c))" and sp: "20 \<le> unat (b_esp b)"
    and pg: "pt_maps U (kpaging (m_kern (c_machine c)))" and n: "length name < 1000"
  shows "\<exists>r c'. elf_exec_file b stack name c = Some (r, c') \<and> tty_inv (m_screen (c_machine c')) \<and> m_files (c_machine c') = m_files (c_machine c) \<and>
    (case r of
       None \<Rightarrow> (\<forall>img. \<not> program_file (b_platform b) name (m_files (c_machine c)) img) \<and>
         (\<exists>t'. c' = on_machine (\<lambda>s. s\<lparr>m_screen := t'\<rparr>) c \<and>
            terminal_write (map of_char (run_error (b_platform b) name (m_files (c_machine c)))) (m_screen (c_machine c)) = Some t')
     | Some cpu \<Rightarrow>
         (\<exists>img eh m. program_file (b_platform b) name (m_files (c_machine c)) img \<and> ehdr_of img = Some eh \<and>
            cpu = user_registers (e_entry eh) (stack + 4096) (b_eflags b) \<and>
            elf_load (p_kernel_start (b_platform b)) (p_kernel_end (b_platform b)) img
              (mem_of (c_machine c), kpaging (m_kern (c_machine c))) = Some (Some (e_entry eh), m, kpaging (m_kern (c_machine c'))) \<and>
            (\<forall>a. unat a < unat (b_esp b) - 20 \<or> unat (b_esp b) \<le> unat a \<longrightarrow> mem_of (c_machine c') a = m a)))"
proof -
  let ?f = "m_files (c_machine c)" and ?p = "b_platform b"
  note sm = say_message [OF _ t]
  consider "\<And>off len. ramfs_file_data (Some name) ?f \<noteq> Some (Some off, len)" | off where "ramfs_file_data (Some name) ?f = Some (Some off, 0)"
    | off len where "ramfs_file_data (Some name) ?f = Some (Some off, len)" "len \<noteq> 0"
    by (metis)
  then show ?thesis
  proof cases
    case 1
    then have "run_error ?p name ?f = ''[elf] cannot open '' @ in_quotes name @ newline"
      "elf_exec_file b stack name c = map_option (Pair None) (say (''[elf] cannot open '' @ [CHR 0x27] @ ''%s'' @ [CHR 0x27]) [AStr name] c)"
      by (auto simp: run_error_def elf_exec_file_def Let_def split: option.split)
    with 1 sm [OF reportable_name(3) [OF n]] reportable_name(7) [OF n] show ?thesis
      by (intro exI [of _ None]) (auto simp: program_file_def)
  next
    case 2
    then have "run_error ?p name ?f = ''[elf] '' @ in_quotes name @ '' is empty or unreadable'' @ newline"
      "elf_exec_file b stack name c = map_option (Pair None) (say (''[elf] '' @ [CHR 0x27] @ ''%s'' @ [CHR 0x27] @ '' is empty or unreadable'') [AStr name] c)"
      by (auto simp: run_error_def elf_exec_file_def Let_def)
    with 2 sm [OF reportable_name(1) [OF n]] reportable_name(5) [OF n] show ?thesis
      by (intro exI [of _ None]) (auto simp: program_file_def)
  next
    case (3 off len)
    define img where "img = read_bytes (pool ?f) off (unat len)"
    have l: "length img < 4294967296" by (simp add: img_def unat_u32_less)
    have pf: "program_file ?p name ?f i \<longleftrightarrow> i = img \<and> elf_acceptable (p_kernel_start ?p) (p_kernel_end ?p) img" for i
      using 3 by (auto simp: program_file_def img_def)
    show ?thesis
    proof (rule load_image_cases [OF t pg l, of ?p])
      fix m t1
      assume a: "load_image ?p img c = Some (None, on_machine (\<lambda>s. s\<lparr>m_screen := t1\<rparr>) c)" "tty_inv t1"
        "\<not> elf_acceptable (p_kernel_start ?p) (p_kernel_end ?p) img"
        "elf_load_message (p_kernel_start ?p) (p_kernel_end ?p) img = Some (Some m)"
        "terminal_write (map of_char (the (message_text m))) (m_screen (c_machine c)) = Some t1"
      show ?thesis using elf_exec_refused [OF n 3 img_def a(1,2,4,5), of stack] a(3) by (auto simp: pf on_machine_def)
    next
      fix entry m pg'
      assume a: "load_image ?p img c = Some (Some entry, on_machine (\<lambda>s. s\<lparr>m_kern := (set_ram m (m_kern (c_machine c)))\<lparr>kpaging := pg'\<rparr>\<rparr>) c)"
        "elf_acceptable (p_kernel_start ?p) (p_kernel_end ?p) img"
        "elf_load (p_kernel_start ?p) (p_kernel_end ?p) img (mem_of (c_machine c), kpaging (m_kern (c_machine c))) = Some (Some entry, m, pg')"
      obtain eh where eh: "ehdr_of img = Some eh" "entry = e_entry eh"
        using elf_load_entry [OF l _ a(3), of U] pg by auto
      show ?thesis using elf_exec_starts [OF t sp n 3 img_def a(1), of stack] eh a(2,3) by (auto simp: pf)
    qed
  qed
qed

theorem elf_exec_file_correct_witness:
  "\<exists>cpu c'. elf_exec_file demo_image 0x105000 ''/f'' (on_machine (\<lambda>s. s\<lparr>m_files := demo_fs\<rparr>) demo_computer) = Some (Some cpu, c') \<and>
     r_eip cpu = 0x300000 \<and> r_esp cpu = 0x106000 \<and> r_cs cpu = 0x1B"
proof -
  let ?c = "on_machine (\<lambda>s. s\<lparr>m_files := demo_fs\<rparr>) demo_computer"
  have t: "tty_inv (m_screen (c_machine ?c))"
    using demo_boot_ready by (simp add: boot_ready_def Let_def on_machine_def)
  have pg: "pt_maps (\<lambda>i. False) (kpaging (m_kern (c_machine ?c)))"
    using pt_maps_identity by (simp add: on_machine_def demo_computer_def boot_kern_def)
  have k: "p_kernel_start (b_platform demo_image) = 0x100000" "p_kernel_end (b_platform demo_image) = 0x200000" "b_esp demo_image = 0x1FEF00"
    by (simp_all add: demo_image_def demo_platform_def)
  obtain e s' where e: "elf_load 0x100000 0x200000 tiny_elf (\<lambda>a. 0, identity_pt) = Some (e, s')" "e \<noteq> None \<longleftrightarrow> elf_acceptable 0x100000 0x200000 tiny_elf"
    using elf_load_acceptable [of tiny_elf "\<lambda>i. False" "(\<lambda>a. 0, identity_pt)" "0x100000" "0x200000"] pt_maps_identity by (auto simp: tiny_elf_def)
  then have "elf_acceptable 0x100000 0x200000 tiny_elf" using tiny_load by auto
  then have pf: "program_file (b_platform demo_image) ''/f'' demo_fs tiny_elf"
    using demo_file Exec_Run.demo_image by (auto simp: program_file_def k)
  have u: "e_entry eh = 0x300000" if "program_file (b_platform demo_image) ''/f'' demo_fs img" "ehdr_of img = Some eh" for img eh
    using that demo_file Exec_Run.demo_image tiny_ehdr_of by (auto simp: program_file_def tiny_ehdr_def)
  obtain r c' where r: "elf_exec_file demo_image 0x105000 ''/f'' ?c = Some (r, c')" "r \<noteq> None"
      "\<And>cpu. r = Some cpu \<Longrightarrow> \<exists>img eh. program_file (b_platform demo_image) ''/f'' demo_fs img \<and> ehdr_of img = Some eh \<and>
         cpu = user_registers (e_entry eh) 0x106000 (b_eflags demo_image)"
    using elf_exec_file_correct [OF t _ pg, of demo_image "''/f''" "0x105000"] pf
    by (auto simp: k on_machine_def split: option.splits) blast
  obtain cpu where cpu: "r = Some cpu" using r(2) by blast
  obtain img eh where "program_file (b_platform demo_image) ''/f'' demo_fs img" "ehdr_of img = Some eh"
      "cpu = user_registers (e_entry eh) 0x106000 (b_eflags demo_image)" using r(3) [OF cpu] by blast
  with u [of img eh] cpu r(1) show ?thesis by (simp add: user_registers_def)
qed

end
