(* ===== verification/Ramfs_Boot.thy ===== *)
theory Ramfs_Boot
  imports Ramfs_Spec
begin

text \<open>
  The file system that \<open>ramfs_init\<close> of \<open>kernel/kernel/ramfs.c\<close> builds: the root, \<open>/bin\<close>, and one file
  for each program that the build embeds. Its contents are described in closed form and the loop of
  \<open>ramfs_populate\<close> is shown to build it one file after the other.
\<close>

section \<open>The file system in closed form\<close>

text \<open>The block that a file of this size gets, and how much of the pool a list of files takes.\<close>

definition block_size :: "u8 list \<Rightarrow> u32" where
  "block_size bs = (if bs = [] then 0 else reserve_newcap 0 (of_nat (length bs)))"

definition used_by :: "(string \<times> u8 list) list \<Rightarrow> nat" where
  "used_by fs = sum_list (map (\<lambda>(nm, bs). unat (block_size bs)) fs)"

definition file_node :: "(string \<times> u8 list) list \<Rightarrow> nat \<Rightarrow> ramfs_inode" where
  "file_node fs j =
     (let (nm, bs) = fs ! j in
      \<lparr>i_ino = of_nat (j + 2), i_type = RAMFS_TYPE_FILE, i_name = nm, i_size = of_nat (length bs), i_parent_ino = 1,
       i_data = (if bs = [] then None else Some (of_nat (used_by (take j fs)))), i_capacity = block_size bs\<rparr>)"

definition file_pool :: "mem \<Rightarrow> (string \<times> u8 list) list \<Rightarrow> mem" where
  "file_pool m fs = fst (fold (\<lambda>(nm, bs) (m, u). (write_bytes m (of_nat u) bs, u + unat (block_size bs))) fs (m, 0))"

definition directories :: "ramfs_inode list" where
  "directories = [zero_inode\<lparr>i_type := RAMFS_TYPE_DIR, i_name := ''/''\<rparr>,
     zero_inode\<lparr>i_ino := 1, i_type := RAMFS_TYPE_DIR, i_name := ''bin''\<rparr>]"

definition populated :: "mem \<Rightarrow> (string \<times> u8 list) list \<Rightarrow> ramfs" where
  "populated m fs =
     \<lparr>inodes = directories @ map (file_node fs) [0..<length fs] @ replicate (62 - length fs) zero_inode,
      pool = file_pool m fs, pool_used = of_nat (used_by fs), fds = replicate 32 zero_fd, next_inode = of_nat (length fs + 2)\<rparr>"

text \<open>Names that differ, files that fit.\<close>

definition installable :: "(string \<times> u8 list) list \<Rightarrow> bool" where
  "installable fs \<longleftrightarrow> distinct (map fst fs) \<and> length fs \<le> 62 \<and> used_by fs \<le> 786432 \<and>
     (\<forall>(nm, bs) \<in> set fs. nm \<noteq> [] \<and> CHR ''/'' \<notin> set nm \<and> CHR 0x00 \<notin> set nm \<and> length nm < 256 \<and> length bs \<le> 262144)"

lemma used_by_snoc [simp]: "used_by (fs @ [(nm, bs)]) = used_by fs + unat (block_size bs)"
  by (simp add: used_by_def)

lemma used_by_Nil [simp]: "used_by [] = 0"
  by (simp add: used_by_def)

lemma file_pool_fold:
  "fold (\<lambda>(nm, bs) (m, u). (write_bytes m (of_nat u) bs, u + unat (block_size bs))) fs (m, 0) = (file_pool m fs, used_by fs)"
proof (induction fs rule: rev_induct)
  case (snoc x fs)
  obtain nm bs where x: "x = (nm, bs)" by fastforce
  have "fold (\<lambda>(nm, bs) (m, u). (write_bytes m (of_nat u) bs, u + unat (block_size bs))) (fs @ [x]) (m, 0) =
      (write_bytes (file_pool m fs) (of_nat (used_by fs)) bs, used_by (fs @ [x]))"
    by (simp add: snoc x)
  then show ?case by (simp only: file_pool_def [of m "fs @ [x]"] fst_conv)
qed (simp add: file_pool_def)

lemma file_pool_Nil [simp]: "file_pool m [] = m"
  by (simp add: file_pool_def)

lemma file_pool_snoc [simp]: "file_pool m (fs @ [(nm, bs)]) = write_bytes (file_pool m fs) (of_nat (used_by fs)) bs"
  by (simp add: file_pool_def [of m "fs @ [(nm, bs)]"] file_pool_fold)

lemma file_node_snoc:
  "j < length fs \<Longrightarrow> file_node (fs @ [x]) j = file_node fs j"
  "file_node (fs @ [(nm, bs)]) (length fs) =
     \<lparr>i_ino = of_nat (length fs + 2), i_type = RAMFS_TYPE_FILE, i_name = nm, i_size = of_nat (length bs), i_parent_ino = 1,
      i_data = (if bs = [] then None else Some (of_nat (used_by fs))), i_capacity = block_size bs\<rparr>"
  by (simp_all add: file_node_def nth_append split: prod.split)

lemma installable_snocD:
  assumes "installable (fs @ [(nm, bs)])"
  shows "installable fs" "nm \<notin> fst ` set fs" "nm \<noteq> []" "CHR ''/'' \<notin> set nm" "CHR 0x00 \<notin> set nm" "length nm < 256"
    "length bs \<le> 262144" "length fs < 62" "used_by fs + unat (block_size bs) \<le> 786432"
  using assms by (auto simp: installable_def)

section \<open>Paths\<close>

lemma last_slash_none: "CHR ''/'' \<notin> set p \<Longrightarrow> last_slash i p r = r"
  by (induction p arbitrary: i r) auto

lemma split_bin: "CHR ''/'' \<notin> set nm \<Longrightarrow> ramfs_split_path (''/bin/'' @ nm) 256 = (''/bin'', nm)"
  by (simp add: ramfs_split_path_def last_slash_none)

lemma resolve_bin: "inodes s = directories @ xs \<Longrightarrow> ramfs_resolve_dir ''/bin'' s = 1"
  by (simp add: ramfs_resolve_dir_def skip_slash_def resolve_loop.simps [of s "''bin''"] resolve_loop.simps [of s "[]"] not_slash_def
      directories_def zero_inode_def ramfs_root_ino_def dir_entry_matches_def cnth_def Let_def)

section \<open>Adding a file\<close>

lemma find_from_append:
  "find_from P i (xs @ ys) = (case find_from P i xs of None \<Rightarrow> find_from P (i + length xs) ys | Some k \<Rightarrow> Some k)"
  by (induction xs arbitrary: i) (auto split: option.split)

text \<open>The state while the new file is open.\<close>

definition adding :: "mem \<Rightarrow> u32 \<Rightarrow> (string \<times> u8 list) list \<Rightarrow> ramfs_inode \<Rightarrow> ramfs_fd \<Rightarrow> ramfs" where
  "adding m u fs i fd =
     \<lparr>inodes = directories @ map (file_node fs) [0..<length fs] @ i # replicate (61 - length fs) zero_inode,
      pool = m, pool_used = u, fds = fd # replicate 31 zero_fd, next_inode = of_nat (length fs + 3)\<rparr>"

lemma length_directories [simp]: "length directories = 2"
  by (simp add: directories_def)

lemma adding_simps [simp]:
  "inodes (adding m u fs i fd) ! (length fs + 2) = i" "inodes (adding m u fs i fd) ! Suc (Suc (length fs)) = i"
  "(adding m u fs i fd)\<lparr>inodes := (inodes (adding m u fs i fd))[length fs + 2 := i']\<rparr> = adding m u fs i' fd"
  "(adding m u fs i fd)\<lparr>inodes := (inodes (adding m u fs i fd))[Suc (Suc (length fs)) := i']\<rparr> = adding m u fs i' fd"
  "fds (adding m u fs i fd) ! 0 = fd" "(adding m u fs i fd)\<lparr>fds := (fds (adding m u fs i fd))[0 := fd']\<rparr> = adding m u fs i fd'"
  "pool (adding m u fs i fd) = m" "(adding m u fs i fd)\<lparr>pool := m'\<rparr> = adding m' u fs i fd"
  "pool_used (adding m u fs i fd) = u" "(adding m u fs i fd)\<lparr>pool_used := u'\<rparr> = adding m u' fs i fd"
  by (simp_all add: adding_def nth_append list_update_append)

definition new_file :: "nat \<Rightarrow> string \<Rightarrow> ramfs_inode" where
  "new_file n nm = zero_inode\<lparr>i_ino := of_nat (n + 2), i_name := nm, i_parent_ino := 1\<rparr>"

lemma small_ino: "j < 62 \<Longrightarrow> n < 62 \<Longrightarrow> (of_nat (j + 2) :: u32) = of_nat (n + 2) \<longleftrightarrow> j = n"
  "j < 62 \<Longrightarrow> (of_nat (j + 2) :: u32) \<noteq> 0" "j < 62 \<Longrightarrow> (of_nat (j + 2) :: u32) \<noteq> 1"
  using unat_of_nat32 [of "j + 2"] unat_of_nat32 [of "n + 2"] by (auto simp: word_unat_eq_iff simp del: of_nat_add)

lemma no_such_file:
  assumes "installable (fs @ [(nm, bs)])"
  shows "find_from (entry_matches 1 nm) i (directories @ map (file_node fs) [0..<length fs] @ replicate k zero_inode) = None"
proof -
  note D = installable_snocD [OF assms]
  have e: "\<not> entry_matches 1 nm (file_node fs j)" if "j < length fs" for j
  proof -
    have "fst (fs ! j) \<noteq> nm" using D(2) that by (metis image_eqI nth_mem)
    moreover have "CHR 0x00 \<notin> set (fst (fs ! j))" using D(1) that by (auto simp: installable_def dest!: bspec [OF _ nth_mem])
    ultimately show ?thesis using strcmp_l_eq_0 [OF _ D(5)] by (auto simp: entry_matches_def file_node_def split: prod.splits)
  qed
  have "\<not> entry_matches 1 nm x" if "x \<in> set directories \<or> x = zero_inode" for x
    using that by (auto simp: directories_def zero_inode_def entry_matches_def)
  with e show ?thesis by (auto simp: find_from_None_iff)
qed

lemma find_new_file:
  assumes "installable (fs @ [(nm, bs)])"
  shows "ramfs_find_inode (Some (''/bin/'' @ nm)) (populated m fs) = None"
proof -
  note D = installable_snocD [OF assms]
  have "ramfs_resolve_dir ''/bin'' (populated m fs) = 1" by (rule resolve_bin) (simp add: populated_def)
  with no_such_file [OF assms, of 0] D(3) split_bin [OF D(4)] show ?thesis
    by (simp add: ramfs_find_inode_def RAMFS_MAX_FILENAME_def populated_def)
qed

lemma zero_fds: "replicate 32 zero_fd = zero_fd # replicate 31 zero_fd"
  by (simp add: numeral_eq_Suc)

lemma open_new_file:
  assumes "installable (fs @ [(nm, bs)])"
  shows "ramfs_open (Some (''/bin/'' @ nm)) 1 (populated m fs) =
    Some (0, adding (file_pool m fs) (of_nat (used_by fs)) fs (new_file (length fs) nm) \<lparr>fd_ino = of_nat (length fs + 2), fd_offset = 0, fd_flags = CHALES_O_RDWR\<rparr>)"
proof -
  note D = installable_snocD [OF assms]
  let ?n = "length fs" and ?s = "populated m fs"
  have r: "replicate (62 - ?n) zero_inode = zero_inode # replicate (61 - ?n) zero_inode"
  proof -
    have "62 - ?n = Suc (61 - ?n)" using D(8) by simp
    then show ?thesis by simp
  qed
  have "find_from (\<lambda>i. i_ino i = 0) (Suc (Suc 0)) (map (file_node fs) [0..<?n]) = None"
    using small_ino(2) D(8) by (auto simp: find_from_None_iff file_node_def simp del: of_nat_add split: prod.splits)
  then have free: "ramfs_find_free_inode ?s = Some (?n + 2)"
    by (simp add: ramfs_find_free_inode_def populated_def directories_def find_from_append r) (simp add: zero_inode_def)
  have "ramfs_resolve_dir ''/bin'' ?s = 1" by (rule resolve_bin) (simp add: populated_def)
  with free find_new_file [OF assms] split_bin [OF D(4)] D(6)
  have "open_slot (Some (''/bin/'' @ nm)) 1 ?s = map_option (Pair (Some (?n + 2))) (create_node (?n + 2) RAMFS_TYPE_FILE nm 1 ?s)"
    by (simp add: open_slot_def RAMFS_MAX_FILENAME_def)
  also have "create_node (?n + 2) RAMFS_TYPE_FILE nm 1 ?s =
      Some (adding (file_pool m fs) (of_nat (used_by fs)) fs (new_file ?n nm) zero_fd)"
    using D(6) by (simp add: create_node_def RAMFS_MAX_FILENAME_def populated_def adding_def directories_def r nth_append list_update_append
        new_file_def zero_fds) (simp add: zero_inode_def)
  finally have "open_slot (Some (''/bin/'' @ nm)) 1 ?s =
      Some (Some (?n + 2), adding (file_pool m fs) (of_nat (used_by fs)) fs (new_file ?n nm) zero_fd)" by simp
  moreover have "ramfs_find_free_fd (adding p u fs i zero_fd) = Some 0" for p u i
    by (simp add: ramfs_find_free_fd_def adding_def zero_fd_def)
  moreover have "i_type (new_file ?n nm) = RAMFS_TYPE_FILE" "i_ino (new_file ?n nm) = of_nat (?n + 2)"
    by (simp_all add: new_file_def zero_inode_def)
  ultimately show ?thesis by (simp add: ramfs_open_def)
qed

lemma adding_slot:
  assumes "length fs < 62" "i_ino i = of_nat (length fs + 2)"
  shows "slot_of_ino (of_nat (length fs + 2)) (adding m u fs i fd) = Some (length fs + 2)"
proof -
  let ?P = "\<lambda>i. i_ino i = of_nat (length fs + 2)"
  have "find_from ?P (Suc (Suc 0)) (map (file_node fs) [0..<length fs]) = None"
    using small_ino(1) [of _ "length fs"] assms(1) by (auto simp: find_from_None_iff file_node_def simp del: of_nat_add split: prod.splits)
  then show ?thesis using small_ino(2,3) [OF assms(1)] assms(2)
    by (simp add: slot_of_ino_def adding_def directories_def find_from_append del: of_nat_add) (simp add: zero_inode_def)
qed

lemma pool_bounds:
  assumes "used + unat (c :: u32) \<le> 786432" "l \<le> unat c"
  shows "(of_nat used :: u32) + c \<le> 786432" "pool_ok (of_nat used) l" "(of_nat (used + unat c) :: u32) = of_nat used + c"
proof -
  have u: "unat (of_nat used :: u32) = used" using assms(1) by (intro unat_of_nat32) simp
  have "unat ((of_nat used :: u32) + c) = used + unat c" using assms(1) u by (subst unat_plus_simple [THEN iffD1]) (auto simp: word_le_nat_alt unat_word_ariths)
  then show "(of_nat used :: u32) + c \<le> 786432" using assms(1) by (simp add: word_le_nat_alt)
  show "pool_ok (of_nat used) l" using assms u by (simp add: pool_ok_def RAMFS_POOL_SIZE_def)
qed simp

lemma write_new_file:
  assumes "installable (fs @ [(nm, bs)])" "bs \<noteq> []"
  shows "\<exists>r fd. ramfs_write 0 (Some (\<lambda>i. bs ! i)) (of_nat (length bs))
      (adding p (of_nat (used_by fs)) fs (new_file (length fs) nm) \<lparr>fd_ino = of_nat (length fs + 2), fd_offset = 0, fd_flags = CHALES_O_RDWR\<rparr>) =
    Some (r, adding (write_bytes p (of_nat (used_by fs)) bs) (of_nat (used_by (fs @ [(nm, bs)]))) fs (file_node (fs @ [(nm, bs)]) (length fs)) fd) \<and>
    fd_ino fd = of_nat (length fs + 2)"
proof -
  note D = installable_snocD [OF assms(1)]
  let ?n = "length fs" and ?l = "of_nat (length bs) :: u32" and ?c = "block_size bs" and ?u = "of_nat (used_by fs) :: u32"
  have l: "unat ?l = length bs" "?l \<noteq> 0" "?l \<le> 262144"
    using D(7) assms(2) unat_of_nat32 [of "length bs"] by (auto simp: word_le_nat_alt word_unat_eq_iff)
  have c: "?c = reserve_newcap 0 ?l" "?l \<le> ?c" using reserve_newcap_bounds [of ?l 0] l(3) assms(2) by (simp_all add: block_size_def RAMFS_MAX_FILESIZE_def)
  have b: "?u + ?c \<le> 786432" "pool_ok ?u (length bs)" "(of_nat (used_by fs + unat ?c) :: u32) = ?u + ?c"
    using pool_bounds [OF D(9), of "length bs"] c(2) l(1) by (auto simp: word_le_nat_alt)
  have slot: "slot_of_ino (of_nat (?n + 2)) (adding p ?u fs (new_file ?n nm) fd) = Some (?n + 2)" for fd
    by (rule adding_slot [OF D(8)]) (simp add: new_file_def)
  have i: "i_type (new_file ?n nm) = RAMFS_TYPE_FILE" "i_size (new_file ?n nm) = 0" "i_capacity (new_file ?n nm) = 0" "i_data (new_file ?n nm) = None"
    by (simp_all add: new_file_def zero_inode_def)
  have res: "ramfs_reserve (?n + 2) ?l (adding p ?u fs (new_file ?n nm) fd) =
      Some (0, adding p (?u + ?c) fs ((new_file ?n nm)\<lparr>i_data := Some ?u, i_capacity := ?c\<rparr>) fd)" for fd
    using l b(1) c(1) by (simp add: ramfs_reserve_def Let_def i newest_block_def RAMFS_POOL_SIZE_def not_less)
  have m: "map ((!) bs) [0..<length bs] = bs" by (rule map_nth)
  have "write_reserving 0 (?n + 2) ((!) bs) 0 ?l (adding p ?u fs (new_file ?n nm) \<lparr>fd_ino = of_nat (?n + 2), fd_offset = 0, fd_flags = CHALES_O_RDWR\<rparr>) =
      Some (sint ?l, adding (write_bytes p ?u bs) (?u + ?c) fs ((new_file ?n nm)\<lparr>i_data := Some ?u, i_capacity := ?c, i_size := ?l\<rparr>)
        \<lparr>fd_ino = of_nat (?n + 2), fd_offset = ?l, fd_flags = CHALES_O_RDWR\<rparr>)"
    using res b(2) l m i by (simp add: write_reserving_def write_at_def Let_def word_gt_0)
  moreover have "(new_file ?n nm)\<lparr>i_data := Some ?u, i_capacity := ?c, i_size := ?l\<rparr> = file_node (fs @ [(nm, bs)]) ?n"
    using assms(2) by (simp add: file_node_snoc(2) new_file_def zero_inode_def)
  moreover have "(of_nat (?n + 2) :: u32) \<noteq> 0" by (rule small_ino(2) [OF D(8)])
  ultimately show ?thesis
    using slot l b(3) by (auto simp: ramfs_write_def Let_def i RAMFS_MAX_FILESIZE_def not_le not_less word_less_nat_alt word_le_nat_alt simp del: of_nat_add)
qed

lemma write_no_bytes:
  assumes "installable (fs @ [(nm, [])])"
  shows "ramfs_write 0 (Some buf) 0
      (adding p (of_nat (used_by fs)) fs (new_file (length fs) nm) \<lparr>fd_ino = of_nat (length fs + 2), fd_offset = 0, fd_flags = CHALES_O_RDWR\<rparr>) =
    Some (0, adding p (of_nat (used_by fs)) fs (file_node (fs @ [(nm, [])]) (length fs)) \<lparr>fd_ino = of_nat (length fs + 2), fd_offset = 0, fd_flags = CHALES_O_RDWR\<rparr>)"
proof -
  have n: "length fs < 62" using installable_snocD(8) [OF assms] .
  have "slot_of_ino (of_nat (length fs + 2)) (adding p (of_nat (used_by fs)) fs (new_file (length fs) nm) fd) = Some (length fs + 2)" for fd
    by (rule adding_slot [OF n]) (simp add: new_file_def)
  moreover have "new_file (length fs) nm = file_node (fs @ [(nm, [])]) (length fs)"
    by (simp add: file_node_snoc(2) new_file_def zero_inode_def block_size_def)
  moreover have "i_type (new_file (length fs) nm) = RAMFS_TYPE_FILE" by (simp add: new_file_def zero_inode_def)
  ultimately show ?thesis using small_ino(2) [OF n]
    by (simp add: ramfs_write_def Let_def RAMFS_MAX_FILESIZE_def del: of_nat_add)
qed

lemma close_new_file:
  assumes "installable (fs @ [(nm, bs)])" "fd_ino fd = of_nat (length fs + 2)"
  shows "snd (ramfs_close 0 (adding (file_pool m (fs @ [(nm, bs)])) (of_nat (used_by (fs @ [(nm, bs)]))) fs (file_node (fs @ [(nm, bs)]) (length fs)) fd)) =
    populated m (fs @ [(nm, bs)])"
proof -
  have n: "length fs < 62" using installable_snocD(8) [OF assms(1)] .
  have "map (file_node (fs @ [(nm, bs)])) [0..<length fs] = map (file_node fs) [0..<length fs]"
    by (simp add: file_node_snoc(1))
  then have "adding (file_pool m (fs @ [(nm, bs)])) (of_nat (used_by (fs @ [(nm, bs)]))) fs (file_node (fs @ [(nm, bs)]) (length fs)) zero_fd =
      populated m (fs @ [(nm, bs)])"
    by (simp add: adding_def populated_def zero_fds)
  with small_ino(2) [OF n] assms(2) show ?thesis by (simp add: ramfs_close_def)
qed

lemma add_new_file:
  assumes "installable (fs @ [(nm, bs)])"
  shows "ramfs_add_binary (''/bin/'' @ nm) bs (populated m fs) = Some (populated m (fs @ [(nm, bs)]))"
proof (cases "bs = []")
  case True
  have "snd (ramfs_close 0 (adding (file_pool m fs) (of_nat (used_by fs)) fs (file_node (fs @ [(nm, [])]) (length fs))
      \<lparr>fd_ino = of_nat (length fs + 2), fd_offset = 0, fd_flags = CHALES_O_RDWR\<rparr>)) = populated m (fs @ [(nm, [])])"
    using close_new_file [of fs nm "[]" _ m] assms True by (simp add: block_size_def)
  with write_no_bytes [of fs nm] open_new_file [OF assms, of m] assms show ?thesis by (simp add: ramfs_add_binary_def True)
next
  case False
  obtain r fd where w: "ramfs_write 0 (Some (\<lambda>i. bs ! i)) (of_nat (length bs))
      (adding (file_pool m fs) (of_nat (used_by fs)) fs (new_file (length fs) nm) \<lparr>fd_ino = of_nat (length fs + 2), fd_offset = 0, fd_flags = CHALES_O_RDWR\<rparr>) =
    Some (r, adding (write_bytes (file_pool m fs) (of_nat (used_by fs)) bs) (of_nat (used_by (fs @ [(nm, bs)]))) fs (file_node (fs @ [(nm, bs)]) (length fs)) fd)"
    "fd_ino fd = of_nat (length fs + 2)"
    using write_new_file [OF assms False] by blast
  have "snd (ramfs_close 0 (adding (write_bytes (file_pool m fs) (of_nat (used_by fs)) bs) (of_nat (used_by (fs @ [(nm, bs)]))) fs
      (file_node (fs @ [(nm, bs)]) (length fs)) fd)) = populated m (fs @ [(nm, bs)])"
    using close_new_file [OF assms w(2), of m] by simp
  with w(1) open_new_file [OF assms, of m] show ?thesis by (simp add: ramfs_add_binary_def)
qed

section \<open>The programs of the build\<close>

lemma blank_inodes: "inodes (ramfs_blank m) = hd directories # zero_inode # replicate 62 zero_inode"
proof -
  have "replicate 64 zero_inode = zero_inode # zero_inode # replicate 62 zero_inode" by (simp add: numeral_eq_Suc)
  then show ?thesis by (simp add: ramfs_blank_def directories_def zero_inode_def RAMFS_MAX_FILES_def)
qed

lemma mkdir_bin: "ramfs_mkdir (Some ''/bin'') (ramfs_blank m) = Some (0, populated m [])"
proof -
  have sp: "ramfs_split_path ''/bin'' 256 = ([], ''bin'')" by (simp add: ramfs_split_path_def)
  have rd: "ramfs_resolve_dir [] (ramfs_blank m) = 0" by (simp add: ramfs_resolve_dir_def skip_slash_def resolve_loop.simps ramfs_root_ino_def)
  have "\<not> entry_matches 0 ''bin'' (hd directories)" "\<not> entry_matches 0 ''bin'' zero_inode"
    by (simp_all add: entry_matches_def directories_def zero_inode_def)
  then have fi: "ramfs_find_inode (Some ''/bin'') (ramfs_blank m) = None"
    by (simp add: ramfs_find_inode_def sp rd RAMFS_MAX_FILENAME_def blank_inodes find_from_replicate)
  have ff: "ramfs_find_free_inode (ramfs_blank m) = Some 1"
    by (simp add: ramfs_find_free_inode_def blank_inodes) (simp add: zero_inode_def)
  have "create_node 1 RAMFS_TYPE_DIR ''bin'' 0 (ramfs_blank m) = Some (populated m [])"
    by (simp add: create_node_def RAMFS_MAX_FILENAME_def blank_inodes) (simp add: ramfs_blank_def populated_def directories_def zero_inode_def)
  then show ?thesis by (simp add: ramfs_mkdir_def fi ff sp rd RAMFS_MAX_FILENAME_def)
qed

lemma installable_append: "installable (fs @ gs) \<Longrightarrow> installable fs"
  by (auto simp: installable_def used_by_def)

lemma add_all:
  "installable (fs @ gs) \<Longrightarrow> add_binaries (map (\<lambda>(nm, bs). (''/bin/'' @ nm, bs)) gs) (populated m fs) = Some (populated m (fs @ gs))"
proof (induction gs arbitrary: fs)
  case (Cons g gs)
  obtain nm bs where g: "g = (nm, bs)" by fastforce
  have "installable ((fs @ [(nm, bs)]) @ gs)" using Cons.prems by (simp add: g)
  then show ?case using Cons.IH [of "fs @ [(nm, bs)]"] add_new_file [of fs nm bs m] installable_append [of "fs @ [(nm, bs)]" gs]
    by (simp add: g)
qed simp

text \<open>The programs that the build links into the kernel, in the order of \<open>ramfs_populate\<close>.\<close>

definition program_names :: "string list" where
  "program_names = [''hello'', ''uptime'', ''beep'', ''shell'', ''cowsay'', ''nltest'']"

definition programs :: "(string \<Rightarrow> u8 list) \<Rightarrow> (string \<times> u8 list) list" where
  "programs elf = map (\<lambda>nm. (nm, elf nm)) program_names"

lemma ramfs_init_populated:
  assumes "installable (programs elf)"
  shows "ramfs_init elf s = Some (populated (pool s) (programs elf))"
  using add_all [of "[]" "programs elf" "pool s"] assms
  by (simp add: ramfs_init_def ramfs_populate_def mkdir_bin programs_def program_names_def)

section \<open>Reading it back\<close>

lemma block_size_bound: "length bs \<le> 262144 \<Longrightarrow> length bs \<le> unat (block_size bs)"
proof -
  assume l: "length bs \<le> 262144"
  then have u: "unat (of_nat (length bs) :: u32) = length bs" by (intro unat_of_nat32) simp
  with l reserve_newcap_bounds(1) [of "of_nat (length bs)" 0] show ?thesis
    by (auto simp: block_size_def RAMFS_MAX_FILESIZE_def word_le_nat_alt)
qed

lemma used_take: "j < length fs \<Longrightarrow> fs ! j = (nm, bs) \<Longrightarrow> used_by (take j fs) + unat (block_size bs) \<le> used_by fs"
proof -
  assume j: "j < length fs" "fs ! j = (nm, bs)"
  have "used_by (take (Suc j) fs) \<le> used_by fs" by (metis append_take_drop_id le_add1 map_append sum_list.append used_by_def)
  with j show ?thesis by (simp add: take_Suc_conv_app_nth)
qed

lemma pool_holds:
  "installable fs \<Longrightarrow> j < length fs \<Longrightarrow> fs ! j = (nm, bs) \<Longrightarrow> read_bytes (file_pool m fs) (of_nat (used_by (take j fs))) (length bs) = bs"
proof (induction fs rule: rev_induct)
  case (snoc x fs)
  obtain nm' bs' where x: "x = (nm', bs')" by fastforce
  note D = installable_snocD [OF snoc.prems(1) [unfolded x]]
  show ?case
  proof (cases "j < length fs")
    case True
    then have IH: "read_bytes (file_pool m fs) (of_nat (used_by (take j fs))) (length bs) = bs" using snoc D(1) by (simp add: nth_append)
    have "length bs \<le> 262144" using D(1) snoc.prems(3) True by (auto simp: installable_def nth_append dest!: bspec [OF _ nth_mem])
    then have "used_by (take j fs) + length bs \<le> used_by fs"
      using used_take [OF True] block_size_bound snoc.prems(3) True by (fastforce simp: nth_append)
    moreover have u: "used_by fs + length bs' \<le> 786432" using D(9) block_size_bound [OF D(7)] by simp
    ultimately have "disjoint_regions (of_nat (used_by fs)) (length bs') (of_nat (used_by (take j fs))) (length bs)"
      by (intro disjoint_regions_below) (simp_all add: unat_of_nat32)
    then show ?thesis using IH u True \<open>used_by (take j fs) + length bs \<le> used_by fs\<close> by (simp add: x read_write_disjoint)
  next
    case False
    then have j: "j = length fs" using snoc.prems(2) by simp
    then have "bs' = bs" using snoc.prems(3) by (simp add: x)
    then show ?thesis using D(7) j by (simp add: x)
  qed
qed simp

text \<open>256 bytes at least, in steps of 16.\<close>

definition block_bytes :: "nat \<Rightarrow> nat" where
  "block_bytes n = (if n = 0 then 0 else max 256 ((n + 15) div 16 * 16))"

lemma block_size_bytes: "length bs \<le> 262144 \<Longrightarrow> unat (block_size bs) = block_bytes (length bs)"
proof (cases "bs = []")
  case False
  assume l: "length bs \<le> 262144"
  define z :: u32 where "z = (if 256 < (of_nat (length bs) :: u32) then of_nat (length bs) else 256)"
  have u: "unat (of_nat (length bs) :: u32) = length bs" using l by (intro unat_of_nat32) simp
  then have lw: "(of_nat (length bs) :: u32) \<le> 262144" using l by (simp add: word_le_nat_alt)
  from u have z: "unat z = max 256 (length bs)" "z \<le> 262144" using l by (auto simp: z_def word_less_nat_alt word_le_nat_alt)
  have "block_size bs = (z + 15) AND NOT 15"
    using False by (simp add: leD [OF lw] block_size_def reserve_newcap_def Let_def z_def RAMFS_MAX_FILESIZE_def not_less)
  moreover have "unat (z + 15) = unat z + 15" using z l by (subst unat_add_small) auto
  ultimately have "unat (block_size bs) = (max 256 (length bs) + 15) div 16 * 16" by (simp only: and_not_15 z)
  moreover have "(max 256 n + 15) div 16 * 16 = max 256 ((n + 15) div 16 * 16)" for n :: nat
  proof (cases "256 \<le> n")
    case True
    have "n \<le> (n + 15) div 16 * 16" by presburger
    with True show ?thesis by (simp add: max_def)
  next
    case False
    then have "(n + 15) div 16 \<le> 271 div 16" by (intro div_le_mono) simp
    with False show ?thesis by (simp add: max_def)
  qed
  ultimately show ?thesis using False by (simp add: block_bytes_def)
qed (simp add: block_size_def block_bytes_def)

lemma find_installed:
  assumes fs: "installable fs" and j: "j < length fs" "fs ! j = (nm, bs)"
  shows "ramfs_find_inode (Some (''/bin/'' @ nm)) (populated m fs) = Some (j + 2)"
proof -
  have names: "nm \<noteq> []" "CHR ''/'' \<notin> set nm" "length fs \<le> 62" and
    nul: "\<And>k. k < length fs \<Longrightarrow> CHR 0x00 \<notin> set (fst (fs ! k))"
    using fs j by (auto simp: installable_def dest!: bspec [OF _ nth_mem])
  let ?xs = "directories @ map (file_node fs) [0..<length fs] @ replicate (62 - length fs) zero_inode"
  have eq: "entry_matches 1 nm (file_node fs k) \<longleftrightarrow> k = j" if "k < length fs" for k
  proof -
    have "strcmp_l (fst (fs ! k)) nm = 0 \<longleftrightarrow> fst (fs ! k) = nm" using strcmp_l_eq_0 [OF nul [OF that]] nul [OF j(1)] j(2) by simp
    also have "\<dots> \<longleftrightarrow> k = j" using fs j that nth_eq_iff_index_eq [of "map fst fs" k j] by (auto simp: installable_def)
    finally show ?thesis using small_ino(2) [of k] names(3) that
      by (auto simp: entry_matches_def file_node_def simp del: of_nat_add split: prod.splits)
  qed
  have other: "\<not> entry_matches 1 nm x" if "x \<in> set directories \<or> x = zero_inode" for x
    using that by (auto simp: directories_def zero_inode_def entry_matches_def)
  have "find_idx (entry_matches 1 nm) ?xs = Some (j + 2)"
  proof (rule find_idx_unique)
    show "j + 2 < length ?xs" using j(1) by simp
    show "entry_matches 1 nm (?xs ! (j + 2))" using eq [OF j(1)] j(1) by (simp add: nth_append)
    fix k assume k: "k < length ?xs" "entry_matches 1 nm (?xs ! k)"
    have "k - 2 = j" if "2 \<le> k" "k < length fs + 2"
    proof -
      have "k - 2 < length fs" using that by arith
      with k(2) that(1) eq show ?thesis by (simp add: nth_append)
    qed
    moreover have "2 \<le> k" using k(2) other [of "directories ! k"] by (auto simp: nth_append intro: ccontr)
    moreover have "k < length fs + 2"
    proof (rule ccontr)
      assume "\<not> k < length fs + 2"
      then have "?xs ! k = zero_inode" using k(1) by (auto simp: nth_append)
      with k(2) other show False by simp
    qed
    ultimately show "k = j + 2" by simp
  qed
  then have "find_idx (entry_matches 1 nm) (inodes (populated m fs)) = Some (j + 2)" by (simp add: populated_def)
  moreover have "ramfs_resolve_dir ''/bin'' (populated m fs) = 1" by (rule resolve_bin) (simp add: populated_def)
  ultimately show ?thesis using names split_bin [OF names(2)] by (simp add: ramfs_find_inode_def RAMFS_MAX_FILENAME_def)
qed

lemma installed_data:
  assumes "installable fs" "j < length fs" "fs ! j = (nm, bs)"
  shows "ramfs_file_data (Some (''/bin/'' @ nm)) (populated m fs) =
    Some (if bs = [] then None else Some (of_nat (used_by (take j fs))), of_nat (length bs))"
proof -
  have "inodes (populated m fs) ! (j + 2) = file_node fs j" using assms(2) by (simp add: populated_def nth_append)
  then show ?thesis using find_installed [OF assms, of m] by (simp add: ramfs_file_data_def file_node_def assms(3))
qed

lemma installable_programs:
  assumes "\<forall>nm \<in> set program_names. length (elf nm) \<le> 262144" "(\<Sum>nm \<leftarrow> program_names. block_bytes (length (elf nm))) \<le> 786432"
  shows "installable (programs elf)"
  using assms by (simp add: installable_def programs_def program_names_def used_by_def block_size_bytes)

text \<open>C21: The file system after start-up: when the six embedded programs fit, \<open>ramfs_init\<close> ends with
  the root, the directory \<open>/bin\<close>, one file in it for each program in that order, every other
  inode and every descriptor free, and each file holds exactly the bytes of its program, which is what
  \<open>exec_run\<close> is given for its path. A file takes its size rounded up to 16 bytes, 256 at least.\<close>

theorem ramfs_init_installs:
  assumes "\<forall>nm \<in> set program_names. length (elf nm) \<le> 262144" "(\<Sum>nm \<leftarrow> program_names. block_bytes (length (elf nm))) \<le> 786432"
  shows "\<exists>s'. ramfs_init elf s = Some s' \<and>
    map (\<lambda>i. (i_type i, i_name i, i_parent_ino i)) (take 8 (inodes s')) =
      (RAMFS_TYPE_DIR, ''/'', 0) # (RAMFS_TYPE_DIR, ''bin'', 0) # map (\<lambda>nm. (RAMFS_TYPE_FILE, nm, 1)) program_names \<and>
    drop 8 (inodes s') = replicate 56 zero_inode \<and> fds s' = replicate 32 zero_fd \<and>
    (\<forall>nm \<in> set program_names. \<exists>off. ramfs_file_data (Some (''/bin/'' @ nm)) s' = Some (off, of_nat (length (elf nm))) \<and>
      (elf nm \<noteq> [] \<longrightarrow> (\<exists>a. off = Some a \<and> read_bytes (pool s') a (length (elf nm)) = elf nm)))"
proof -
  note inst = installable_programs [OF assms]
  let ?s = "populated (pool s) (programs elf)"
  have "map (\<lambda>i. (i_type i, i_name i, i_parent_ino i)) (take 8 (inodes ?s)) =
      (RAMFS_TYPE_DIR, ''/'', 0) # (RAMFS_TYPE_DIR, ''bin'', 0) # map (\<lambda>nm. (RAMFS_TYPE_FILE, nm, 1)) program_names"
    by (simp add: populated_def programs_def program_names_def directories_def file_node_def upt_rec zero_inode_def)
  moreover have "drop 8 (inodes ?s) = replicate 56 zero_inode" "fds ?s = replicate 32 zero_fd"
    by (simp_all add: populated_def programs_def program_names_def)
  moreover have "\<exists>off. ramfs_file_data (Some (''/bin/'' @ nm)) ?s = Some (off, of_nat (length (elf nm))) \<and>
      (elf nm \<noteq> [] \<longrightarrow> (\<exists>a. off = Some a \<and> read_bytes (pool ?s) a (length (elf nm)) = elf nm))"
    if nm: "nm \<in> set program_names" for nm
  proof -
    obtain j where j: "j < length (programs elf)" "programs elf ! j = (nm, elf nm)"
      using nm by (auto simp: in_set_conv_nth programs_def)
    show ?thesis using installed_data [OF inst j, of "pool s"] pool_holds [OF inst j, of "pool s"] by (simp add: populated_def)
  qed
  ultimately show ?thesis using ramfs_init_populated [OF inst, of s] by (intro exI [of _ ?s]) simp
qed

theorem ramfs_init_installs_witness:
  "\<exists>s' a. ramfs_init (\<lambda>nm. if nm = ''uptime'' then [0x7F, 0x45, 0x4C, 0x46] else []) one_file = Some s' \<and>
    ramfs_file_data (Some ''/bin/uptime'') s' = Some (Some a, 4) \<and> read_bytes (pool s') a 4 = [0x7F, 0x45, 0x4C, 0x46]"
proof -
  let ?elf = "\<lambda>nm. if nm = ''uptime'' then [0x7F, 0x45, 0x4C, 0x46 :: u8] else []"
  have a: "\<forall>nm \<in> set program_names. length (?elf nm) \<le> 262144" by (simp add: program_names_def)
  have b: "(\<Sum>nm \<leftarrow> program_names. block_bytes (length (?elf nm))) \<le> 786432" by (simp add: program_names_def block_bytes_def)
  have c: "''uptime'' \<in> set program_names" by (simp add: program_names_def)
  obtain s' where s': "ramfs_init ?elf one_file = Some s'"
    "\<forall>nm \<in> set program_names. \<exists>off. ramfs_file_data (Some (''/bin/'' @ nm)) s' = Some (off, of_nat (length (?elf nm))) \<and>
      (?elf nm \<noteq> [] \<longrightarrow> (\<exists>a. off = Some a \<and> read_bytes (pool s') a (length (?elf nm)) = ?elf nm))"
    using ramfs_init_installs [OF a b, of one_file] by blast
  from bspec [OF s'(2) c] s'(1) show ?thesis by (auto simp: eval_nat_numeral)
qed

end
