(* ===== verification/User_Calls.thy ===== *)
theory User_Calls
  imports Mem32 Abi
begin

text \<open>
  The system calls as user programs make them: the wrappers of \<open>libc/include/syscalls.h\<close>, inline
  assembly that loads \<open>eax\<close>, \<open>ebx\<close>, \<open>ecx\<close>, \<open>edx\<close> and executes \<open>int 0x80\<close>. What the interrupt does to the
  world of the program is the field \<open>trap\<close>: it is given the registers that the wrapper loads, in this
  order (the others keep what they held), and gives \<open>eax\<close> and the world when the program goes on,
  or \<open>None\<close> if it never does. The first program, \<open>kernel/user/main.c\<close>, consists of two of them.
\<close>

record 'w os =
  trap :: "u32 list \<Rightarrow> 'w \<Rightarrow> (u32 \<times> 'w) option"
  umem :: "'w \<Rightarrow> mem"
  uput :: "mem \<Rightarrow> 'w \<Rightarrow> 'w"

text \<open>A call whose result the wrapper drops.\<close>

definition trap_void :: "('w, 'z) os_scheme \<Rightarrow> u32 list \<Rightarrow> 'w \<Rightarrow> 'w option" where
  "trap_void e regs w = map_option snd (trap e regs w)"

definition syscall_putchar :: "('w, 'z) os_scheme \<Rightarrow> u32 \<Rightarrow> 'w \<Rightarrow> (u32 \<times> 'w) option" where
  "syscall_putchar e c w = map_option (Pair c) (trap_void e [1, c] w)"

definition syscall_getchar :: "('w, 'z) os_scheme \<Rightarrow> 'w \<Rightarrow> (u32 \<times> 'w) option" where
  "syscall_getchar e = trap e [2]"

definition syscall_exit :: "('w, 'z) os_scheme \<Rightarrow> u32 \<Rightarrow> 'w \<Rightarrow> 'w option" where
  "syscall_exit e code = trap_void e [0, code]"

definition syscall_outport8 :: "('w, 'z) os_scheme \<Rightarrow> u16 \<Rightarrow> u8 \<Rightarrow> 'w \<Rightarrow> (u32 \<times> 'w) option" where
  "syscall_outport8 e port v = trap e [14, ucast port, ucast v]"

definition syscall_outport16 :: "('w, 'z) os_scheme \<Rightarrow> u16 \<Rightarrow> u16 \<Rightarrow> 'w \<Rightarrow> (u32 \<times> 'w) option" where
  "syscall_outport16 e port v = trap e [15, ucast port, ucast v]"

definition syscall_outport32 :: "('w, 'z) os_scheme \<Rightarrow> u16 \<Rightarrow> u32 \<Rightarrow> 'w \<Rightarrow> (u32 \<times> 'w) option" where
  "syscall_outport32 e port v = trap e [16, ucast port, v]"

definition syscall_inport8 :: "('w, 'z) os_scheme \<Rightarrow> u16 \<Rightarrow> 'w \<Rightarrow> (u8 \<times> 'w) option" where
  "syscall_inport8 e port w = map_option (\<lambda>(r, w1). (ucast r, w1)) (trap e [17, ucast port] w)"

definition syscall_inport16 :: "('w, 'z) os_scheme \<Rightarrow> u16 \<Rightarrow> 'w \<Rightarrow> (u16 \<times> 'w) option" where
  "syscall_inport16 e port w = map_option (\<lambda>(r, w1). (ucast r, w1)) (trap e [18, ucast port] w)"

definition syscall_inport32 :: "('w, 'z) os_scheme \<Rightarrow> u16 \<Rightarrow> 'w \<Rightarrow> (u32 \<times> 'w) option" where
  "syscall_inport32 e port = trap e [19, ucast port]"

definition syscall_get_ticks :: "('w, 'z) os_scheme \<Rightarrow> 'w \<Rightarrow> (u32 \<times> 'w) option" where
  "syscall_get_ticks e = trap e [3]"

definition syscall_sbrk :: "('w, 'z) os_scheme \<Rightarrow> u32 \<Rightarrow> 'w \<Rightarrow> (u32 \<times> 'w) option" where
  "syscall_sbrk e increment = trap e [4, increment]"

definition syscall_ls :: "('w, 'z) os_scheme \<Rightarrow> u32 \<Rightarrow> 'w \<Rightarrow> 'w option" where
  "syscall_ls e p = trap_void e [5, p]"

definition syscall_open :: "('w, 'z) os_scheme \<Rightarrow> u32 \<Rightarrow> u32 \<Rightarrow> 'w \<Rightarrow> (u32 \<times> 'w) option" where
  "syscall_open e p flags = trap e [6, p, flags]"

definition syscall_close :: "('w, 'z) os_scheme \<Rightarrow> u32 \<Rightarrow> 'w \<Rightarrow> (u32 \<times> 'w) option" where
  "syscall_close e fd = trap e [7, fd]"

definition syscall_read :: "('w, 'z) os_scheme \<Rightarrow> u32 \<Rightarrow> u32 \<Rightarrow> u32 \<Rightarrow> 'w \<Rightarrow> (u32 \<times> 'w) option" where
  "syscall_read e fd buf n = trap e [8, fd, buf, n]"

definition syscall_write :: "('w, 'z) os_scheme \<Rightarrow> u32 \<Rightarrow> u32 \<Rightarrow> u32 \<Rightarrow> 'w \<Rightarrow> (u32 \<times> 'w) option" where
  "syscall_write e fd buf n = trap e [9, fd, buf, n]"

definition syscall_mkdir :: "('w, 'z) os_scheme \<Rightarrow> u32 \<Rightarrow> 'w \<Rightarrow> (u32 \<times> 'w) option" where
  "syscall_mkdir e p = trap e [10, p]"

definition syscall_rmdir :: "('w, 'z) os_scheme \<Rightarrow> u32 \<Rightarrow> 'w \<Rightarrow> (u32 \<times> 'w) option" where
  "syscall_rmdir e p = trap e [12, p]"

definition syscall_unlink :: "('w, 'z) os_scheme \<Rightarrow> u32 \<Rightarrow> 'w \<Rightarrow> (u32 \<times> 'w) option" where
  "syscall_unlink e p = trap e [11, p]"

definition syscall_clear :: "('w, 'z) os_scheme \<Rightarrow> 'w \<Rightarrow> 'w option" where
  "syscall_clear e = trap_void e [13]"

definition syscall_reboot :: "('w, 'z) os_scheme \<Rightarrow> 'w \<Rightarrow> 'w option" where
  "syscall_reboot e = trap_void e [20]"

definition syscall_execv :: "('w, 'z) os_scheme \<Rightarrow> u32 \<Rightarrow> u32 \<Rightarrow> u32 \<Rightarrow> 'w \<Rightarrow> (u32 \<times> 'w) option" where
  "syscall_execv e p argv envp = trap e [21, p, argv, envp]"

lemmas syscall_defs = trap_void_def syscall_putchar_def syscall_getchar_def syscall_exit_def syscall_outport8_def syscall_outport16_def
  syscall_outport32_def syscall_inport8_def syscall_inport16_def syscall_inport32_def syscall_get_ticks_def syscall_sbrk_def
  syscall_ls_def syscall_open_def syscall_close_def syscall_read_def syscall_write_def syscall_mkdir_def syscall_rmdir_def
  syscall_unlink_def syscall_clear_def syscall_reboot_def syscall_execv_def

text \<open>\<open>user_main\<close>, with the address of the literal \<open>"/bin/shell"\<close>.\<close>

definition user_main :: "('w, 'z) os_scheme \<Rightarrow> u32 \<Rightarrow> 'w \<Rightarrow> 'w option" where
  "user_main e bin_shell w = do { (_, w1) \<leftarrow> syscall_execv e bin_shell 0 0 w; syscall_exit e 0 w1 }"

end
