(* ===== verification/User_Machine.thy ===== *)
theory User_Machine
  imports User_Calls System_Calls
begin

text \<open>
  The kernel as user programs see it: \<open>int 0x80\<close> goes through the interrupt dispatcher of \<open>Syscall\<close>
  on the machine; and the machine with a user at the keyboard, whose keys arrive as interrupts
  between the instructions of the program.
\<close>

section \<open>The trap\<close>

definition load_regs :: "u32 list \<Rightarrow> interrupt_context \<Rightarrow> interrupt_context" where
  "load_regs regs c =
     (let reg = (\<lambda>i old. if i < length regs then regs ! i else old) in
      c\<lparr>int_no := 0x80, eax := reg 0 (eax c), ebx := reg 1 (ebx c), ecx := reg 2 (ecx c), edx := reg 3 (edx c)\<rparr>)"

text \<open>A call that switches to another task or halts does not return here.\<close>

definition kernel_trap :: "platform \<Rightarrow> interrupt_context \<Rightarrow> u32 list \<Rightarrow> machine \<Rightarrow> (u32 \<times> machine) option" where
  "kernel_trap p c regs s =
     (case interrupt_handler p (load_regs regs c) s of
        Some (Returns, c', s') \<Rightarrow> Some (eax c', s')
      | _ \<Rightarrow> None)"

lemma kernel_trap_syscall:
  "kernel_trap p c regs s =
     (let c1 = load_regs regs c in
      case syscall p (eax c1) (ebx c1) (ecx c1) (edx c1) s of
        Some (Returns, v, s') \<Rightarrow> Some (case v of None \<Rightarrow> eax c1 | Some x \<Rightarrow> x, s')
      | _ \<Rightarrow> None)"
proof -
  have "int_no (load_regs regs c) = 0x80" by (simp add: load_regs_def Let_def)
  then have i: "interrupt_handler p (load_regs regs c) s = syscall_handler p (load_regs regs c) s"
    by (simp add: interrupt_handler_def)
  show ?thesis
    unfolding kernel_trap_def i syscall_handler_def Let_def
    by (cases "syscall p (eax (load_regs regs c)) (ebx (load_regs regs c)) (ecx (load_regs regs c)) (edx (load_regs regs c)) s")
      (auto split: option.split exit_outcome.split)
qed

lemma load_regs4 [simp]:
  "eax (load_regs [a, b, d, x] c) = a" "ebx (load_regs [a, b, d, x] c) = b" "ecx (load_regs [a, b, d, x] c) = d" "edx (load_regs [a, b, d, x] c) = x"
  by (simp_all add: load_regs_def Let_def)

lemma load_regs_short [simp]:
  "eax (load_regs [a] c) = a" "eax (load_regs [a, b] c) = a" "ebx (load_regs [a, b] c) = b"
  "eax (load_regs [a, b, d] c) = a" "ebx (load_regs [a, b, d] c) = b" "ecx (load_regs [a, b, d] c) = d"
  by (simp_all add: load_regs_def Let_def)

section \<open>A user at the keyboard\<close>

text \<open>The interrupts that a sequence of scancodes raises.\<close>

definition keys_typed :: "interrupt_context \<Rightarrow> u8 list \<Rightarrow> machine \<Rightarrow> machine" where
  "keys_typed c scs = fold (\<lambda>sc. irq_handler (\<lambda>_ _. ucast sc) (c\<lparr>int_no := 33\<rparr>)) scs"

lemma ucast_wide [simp]: "ucast (ucast x :: u32) = x" for x :: u8
  by (rule bit_word_eqI) (auto simp: bit_simps)

lemma key_interrupt:
  "m_keys (irq_handler (\<lambda>_ _. ucast sc) (c\<lparr>int_no := 33\<rparr>) s) = irq_keyboard sc (m_keys s)"
  "m_kern (irq_handler (\<lambda>_ _. ucast sc) (c\<lparr>int_no := 33\<rparr>) s) = m_kern s"
  "m_files (irq_handler (\<lambda>_ _. ucast sc) (c\<lparr>int_no := 33\<rparr>) s) = m_files s"
  "m_screen (irq_handler (\<lambda>_ _. ucast sc) (c\<lparr>int_no := 33\<rparr>) s) = m_screen s"
  by (simp_all add: irq_handler_def irq_work_def irq_eoi_def keyboard_read_scancode_def inport8_def Let_def)

lemma keys_typed_parts [simp]:
  "m_keys (keys_typed c scs s) = fold irq_keyboard scs (m_keys s)" "m_kern (keys_typed c scs s) = m_kern s"
  "m_files (keys_typed c scs s) = m_files s" "m_screen (keys_typed c scs s) = m_screen s"
  unfolding keys_typed_def by (induction scs arbitrary: s) (simp_all add: key_interrupt)

text \<open>The world: the machine, and the scancodes that arrive before each system call.\<close>

type_synonym typing = "machine \<times> u8 list list"

definition arriving :: "u8 list list \<Rightarrow> u8 list" where
  "arriving sch = (case sch of [] \<Rightarrow> [] | b # _ \<Rightarrow> b)"

definition typing_trap :: "platform \<Rightarrow> interrupt_context \<Rightarrow> u32 list \<Rightarrow> typing \<Rightarrow> (u32 \<times> typing) option" where
  "typing_trap p c regs w =
     map_option (\<lambda>(r, s'). (r, (s', tl (snd w)))) (kernel_trap p c regs (keys_typed c (arriving (snd w)) (fst w)))"

definition typing_chars :: "typing \<Rightarrow> string" where
  "typing_chars w = kbd_contents (m_keys (fst w)) @ List.map_filter key_char (concat (snd w))"

definition typing_ok :: "typing \<Rightarrow> bool" where
  "typing_ok w \<longleftrightarrow> kbd_inv (m_keys (fst w)) \<and> tty_inv (m_screen (fst w)) \<and> length (typing_chars w) \<le> KEYBOARD_BUFFER_SIZE"

definition emit :: "u8 \<Rightarrow> tty \<Rightarrow> tty" where
  "emit b t = the (terminal_write [b] t)"

lemma terminal_write_emit: "tty_inv t \<Longrightarrow> terminal_write bs t = Some (fold emit bs t) \<and> tty_inv (fold emit bs t)"
proof (induction bs arbitrary: t)
  case (Cons b bs)
  obtain t1 where "terminal_write [b] t = Some t1" "tty_inv t1" using terminal_write_ok [OF Cons.prems, of "[b]"] by blast
  then show ?case using Cons.IH [of t1] terminal_write_append [of "[b]" bs t] by (simp add: emit_def)
qed (simp add: terminal_write_def)

text \<open>The keys that arrive join those in the buffer, which is large enough.\<close>

lemma arriving_keys:
  fixes c :: interrupt_context
  assumes "typing_ok (s, sch)"
  defines "s1 \<equiv> keys_typed c (arriving sch) s"
  shows "kbd_inv (m_keys s1)" "kbd_contents (m_keys s1) @ List.map_filter key_char (concat (tl sch)) = typing_chars (s, sch)"
proof -
  have k: "kbd_inv (m_keys s)" "length (kbd_contents (m_keys s) @ List.map_filter key_char (concat sch)) \<le> KEYBOARD_BUFFER_SIZE"
    using assms(1) by (simp_all add: typing_ok_def typing_chars_def)
  have c: "concat sch = arriving sch @ concat (tl sch)" by (cases sch) (simp_all add: arriving_def)
  have "length (kbd_contents (m_keys s) @ List.map_filter key_char (arriving sch)) \<le> KEYBOARD_BUFFER_SIZE"
    using k(2) unfolding c by (simp add: map_filter_def)
  then show "kbd_inv (m_keys s1)" "kbd_contents (m_keys s1) @ List.map_filter key_char (concat (tl sch)) = typing_chars (s, sch)"
    using keys_fifo [OF k(1), of "arriving sch"] unfolding typing_chars_def fst_conv snd_conv c by (simp_all add: s1_def map_filter_def)
qed

text \<open>A character written to standard output.\<close>

lemma typing_put:
  assumes ok: "typing_ok w" and ae: "ae \<noteq> 0"
  shows "\<exists>w'. typing_trap p c [9, 1, ae, 1] (set_mem ((mem_of (fst w))(ae := x)) (fst w), snd w) = Some (1, w') \<and> typing_ok w' \<and>
    typing_chars w' = typing_chars w \<and> m_screen (fst w') = emit x (m_screen (fst w)) \<and> m_files (fst w') = m_files (fst w) \<and>
    mem_of (fst w') = (mem_of (fst w))(ae := x)"
proof -
  obtain s sch where w: "w = (s, sch)" by fastforce
  have t: "typing_ok (s, sch)" using ok w by simp
  note a = arriving_keys [OF t, of c]
  have "typing_chars (s2, tl sch) = typing_chars (s, sch)" if "m_keys s2 = fold irq_keyboard (arriving sch) (m_keys s)" for s2
    using that a(2) by (simp add: typing_chars_def)
  moreover have "terminal_write [x] (m_screen s) = Some (emit x (m_screen s))" "tty_inv (emit x (m_screen s))"
    using terminal_write_emit [of "m_screen s" "[x]"] t by (simp_all add: typing_ok_def)
  ultimately show ?thesis using ae t a(1) w
    by (auto simp: typing_trap_def kernel_trap_syscall Let_def syscall_def sys_write_def read_bytes_def typing_ok_def)
qed

end
