(* ===== verification/First_Program.thy ===== *)
theory First_Program
  imports Elf_Run Ramfs_Boot User_Machine
begin

text \<open>
  From the start of the kernel to the first program: \<open>kernel_main\<close> enters \<open>user_main\<close>, whose first
  system call runs \<open>/bin/shell\<close>. Everything that can make \<open>exec_run\<close> refuse a program is excluded at
  this point: nothing has to be saved for the boot task, the heap is fresh, the file is there.
\<close>

section \<open>The first task\<close>

text \<open>The stack of a new task: \<open>sched_switch\<close> returns from it into \<open>enter_user_mode_at (entry, sp)\<close>.\<close>

definition starts_at :: "u32 \<Rightarrow> u32 \<Rightarrow> u32 \<Rightarrow> task \<Rightarrow> mem \<Rightarrow> bool" where
  "starts_at enter entry sp t m \<longleftrightarrow> (\<forall>j < 8. load32 m (t_esp t + of_nat (4 * j)) = [0, 0, 0, 0, enter, 0, entry, sp] ! j)"

lemma task_new_alone:
  assumes inv: "sched_inv hs he k [] L"
    and p: "tasks k (current_task k) = Some p" "t_next p = current_task k" and fresh: "kheap_fresh hs he (kheap k)"
    and room: "unat hs + 4208 \<le> unat he" "unat he + 5000 < 4294967296"
  obtains c k1 t where "sched_task_new hs he enter entry sp k = Some (c, k1)" "c \<noteq> 0" "c \<noteq> current_task k"
    "current_task k1 = current_task k" "tasks k1 c = Some t" "t_state t = TASK_READY" "starts_at enter entry sp t (ram k1)"
    "tasks k1 (current_task k) = Some (p\<lparr>t_next := c\<rparr>)" "same_out (unat hs) (unat he) (ram k) (ram k1)"
proof -
  obtain c k1 L' where c: "sched_task_new hs he enter entry sp k = Some (c, k1)"
    "k1\<lparr>tasks := tasks k, kheap := kheap k, next_pid := next_pid k\<rparr> = k"
    "same_out (unat hs) (unat he) (ram k) (ram k1)"
    "c \<noteq> 0 \<Longrightarrow> sched_inv hs he k1 [c] L' \<and> (\<exists>t. tasks k1 c = Some t \<and> t_state t = TASK_READY \<and> starts_at enter entry sp t (ram k1))"
    using sched_task_new_spec [OF inv room(2), of enter entry sp] unfolding starts_at_def by (auto simp del: of_nat_mult split: if_splits)
  have reap: "sched_reap he k = Some k" using p by (simp add: sched_reap_def reap_loop.simps)
  obtain x s1 y s2 where "kmalloc hs he 76 (kheap k) = Some (x, s1)" "x \<noteq> 0" "kmalloc hs he 4096 s1 = Some (y, s2)" "y \<noteq> 0"
    using kmalloc_two_fresh [OF fresh, of 76 4096] room by auto
  then have n: "c \<noteq> 0" "c \<noteq> current_task k \<Longrightarrow> tasks k1 (current_task k) = Some (p\<lparr>t_next := c\<rparr>)"
    using c(1) reap p by (auto simp: sched_task_new_def upd_task_def Let_def split: prod.splits if_splits)
  have cur: "current_task k1 = current_task k" by (metis c(2) kern.select_convs(2) kern.surjective kern.update_convs(1,3,5))
  then have "c \<noteq> current_task k" using c(4) [OF n(1)] by (auto simp: sched_inv_def ring_def)
  with n c cur that show thesis by blast
qed

text \<open>The rest of \<open>exec_child\<close> leaves the stack of the new task alone and switches to it.\<close>

lemma schedule_keeps:
  assumes "schedule k = Some (sw, k')"
  shows "ram k' = ram k" "map_option t_esp (tasks k' x) = map_option t_esp (tasks k x)"
  using assms by (auto simp: schedule_def switch_to_def upd_task_def split: if_splits Option.bind_splits option.splits)

lemma first_child:
  assumes ok: "exec_ok hs he ks ke k [] L" and lay: "layout_ok hs he ks ke"
    and p: "tasks k (current_task k) = Some p" "t_next p = current_task k" and fresh: "kheap_fresh hs he (kheap k)"
    and room: "unat hs + 4208 \<le> unat he" and ex: "exec_child hs he enter entry sp extent off fr k = Some (r, sw, k')"
  shows "r = 0 \<and> same_out (unat hs) (unat he) (ram k) (ram k') \<and>
    (\<exists>child t. sw = Some (current_task k, child) \<and> tasks k' child = Some t \<and> starts_at enter entry sp t (ram k'))"
proof -
  have "sched_inv hs he k [] L" "unat he + 5000 < 4294967296" using ok lay by (simp_all add: exec_ok_def layout_ok_def)
  note task_new_alone [OF this(1) p fresh room this(2), of enter entry sp]
  then obtain c k1 t where c: "sched_task_new hs he enter entry sp k = Some (c, k1)" "c \<noteq> 0" "c \<noteq> current_task k"
    "current_task k1 = current_task k" "tasks k1 c = Some t" "t_state t = TASK_READY" "starts_at enter entry sp t (ram k1)"
    "tasks k1 (current_task k) = Some (p\<lparr>t_next := c\<rparr>)" "same_out (unat hs) (unat he) (ram k) (ram k1)" by metis
  obtain k3 where k3: "map_option (\<lambda>(sw, k4). (0, sw, k4)) (schedule k3) = Some (r, sw, k')" "current_task k3 = current_task k"
    "tasks k3 (current_task k) = Some (p\<lparr>t_next := c, t_state := TASK_BLOCKED\<rparr>)" "ram k3 = ram k1"
    "\<exists>t'. tasks k3 c = Some t' \<and> t_state t' = TASK_READY \<and> t_esp t' = t_esp t"
    using ex c by (auto simp: exec_child_def upd_task_def)
  have 0: "current_task k \<noteq> 0" using ok by (auto simp: exec_ok_def sched_inv_def ring_def)
  then have "sw = Some (current_task k, c)" using k3(1-3,5) c(3)
    by (auto simp: schedule_def find_ready.simps split: Option.bind_splits)
  moreover obtain k4 where k4: "schedule k3 = Some (sw, k')" "r = 0" using k3(1) by auto
  moreover obtain t' where "tasks k' c = Some t'" "t_esp t' = t_esp t" using schedule_keeps(2) [OF k4(1), of c] k3(5) by auto
  moreover have "ram k' = ram k1" using schedule_keeps(1) [OF k4(1)] k3(4) by simp
  ultimately show ?thesis using c(7,9) by (auto simp: starts_at_def)
qed

section \<open>The first run\<close>

lemma first_image:
  assumes ok: "exec_ok hs he ks ke k [] L" and lay: "layout_ok hs he ks ke"
    and p: "tasks k (current_task k) = Some p" "t_next p = current_task k" "t_elf_hi p = 0"
    and fresh: "kheap_fresh hs he (kheap k)" and room: "unat hs + 4208 \<le> unat he" and pool: "exec_pool_used k = 0"
    and img: "length img < 4294967296" "elf_acceptable ks ke img" "ehdr_of img = Some eh"
    and run: "exec_image hs he ks ke enter img (lo, hi) ([], []) k = Some (r, sw, k')"
  shows "r = 0 \<and> (\<exists>child t sp m pg ml pgl. sw = Some (current_task k, child) \<and> tasks k' child = Some t \<and>
    starts_at enter (e_entry eh) sp t (ram k') \<and>
    elf_build_user_stack stack_base EXEC_STACK_TOP (Some []) (Some []) (ram k) = (sp, m) \<and>
    elf_load ks ke img (m, pg) = Some (Some (e_entry eh), ml, pgl) \<and> same_out (unat hs) (unat he) ml (ram k'))"
proof -
  obtain U where U: "pt_maps U (kpaging k)" using ok by (auto simp: exec_ok_def)
  have fr: "exec_frame p lo hi = (0, 0, 0)" by (simp add: exec_frame_def p(3))
  obtain ep where ep: "frame_save 0 0 0 0 (ram k) (exec_pool k) = Some ep"
    using frame_save_defined [of 0 0 0 0 "ram k" "exec_pool k"] by auto
  obtain U' pg where pg: "paging_map_user_range stack_base EXEC_STACK_TOP (kpaging k) = Some pg" "pt_maps U' pg"
    using map_user_range_maps [OF U] by blast
  obtain sp m where bs: "elf_build_user_stack stack_base EXEC_STACK_TOP (Some []) (Some []) (ram k) = (sp, m)" "sp \<noteq> 0"
    "\<And>a. a < stack_base \<or> EXEC_STACK_TOP \<le> a \<Longrightarrow> m a = ram k a" by (rule demo_stack [of "ram k"]) (rule that)
  have pg2: "pt_maps U' (snd (m, pg))" using pg(2) by simp
  obtain entry ml pgl where ld: "elf_load ks ke img (m, pg) = Some (Some entry, ml, pgl)"
    using elf_load_acceptable [OF img(1) pg2, of ks ke] img(2) by auto
  then have e: "entry = e_entry eh" using elf_load_entry [OF img(1) pg2] img(3) by fastforce
  obtain U2 where ld2: "\<And>a. ml a \<noteq> m a \<Longrightarrow> \<not> (ks \<le> a \<and> a < ke)" "pt_maps U2 pgl"
    using elf_load_spec [OF img(1) pg2, of ks ke] ld by auto
  have heap: "ml a = ram k a" if "unat hs \<le> unat a" "unat a < unat he + 8" for a
  proof -
    have "ks \<le> a \<and> a < ke" "a < stack_base" using that lay by (auto simp: layout_ok_def const_defs word_le_nat_alt word_less_nat_alt)
    then show ?thesis using ld2(1) bs(3) by metis
  qed
  let ?k2 = "k\<lparr>exec_pool := ep, exec_pool_used := 0, kheap := (kheap k)\<lparr>km_mem := ml\<rparr>, kpaging := pgl\<rparr>"
  have "exec_image hs he ks ke enter img (lo, hi) ([], []) k = exec_child hs he enter entry sp (lo, hi) 0 (0, 0, 0) ?k2"
    using ep pg(1) bs(1,2) ld p(1) pool by (simp add: exec_image_def fr Let_def align16_def EXEC_POOL_SIZE_def)
  then have ch: "exec_child hs he enter entry sp (lo, hi) 0 (0, 0, 0) ?k2 = Some (r, sw, k')" using run by simp
  have "exec_ok hs he ks ke (set_ram ml k) [] L" by (rule exec_ok_ram [OF ok heap])
  then have ok2: "exec_ok hs he ks ke ?k2 [] L" by (rule exec_ok_cong) (use ld2(2) in auto)
  have f2: "kheap_fresh hs he (kheap ?k2)"
    using kheap_fresh_frame [OF fresh, of ml] heap by (simp add: unat_of_nat32)
  from first_child [OF ok2 lay _ _ f2 room ch, of p] p(1,2) bs(1) ld e show ?thesis by fastforce
qed

lemma first_run:
  assumes ok: "exec_ok hs he ks ke k [] L" and lay: "layout_ok hs he ks ke"
    and p: "tasks k (current_task k) = Some p" "t_next p = current_task k" "t_elf_hi p = 0"
    and fresh: "kheap_fresh hs he (kheap k)" and room: "unat hs + 4208 \<le> unat he" and pool: "exec_pool_used k = 0"
    and data: "ramfs_file_data (Some prog) f = Some (Some off, len)" "img = read_bytes (pool f) off (unat len)"
    and img: "elf_acceptable ks ke img" "elf_extent img = Some (Some (lo, hi))" "ehdr_of img = Some eh"
  shows "\<exists>child k' rest' L' t sp m pg ml pgl.
    exec_run hs he ks ke enter f (Some prog) 0 0 k = Some (0, Some (current_task k, child), k') \<and> exec_ok hs he ks ke k' rest' L' \<and>
    child_started k (lo, hi) 0 (0, 0, 0) child k' \<and> tasks k' child = Some t \<and> starts_at enter (e_entry eh) sp t (ram k') \<and>
    elf_build_user_stack stack_base EXEC_STACK_TOP (Some []) (Some []) (ram k) = (sp, m) \<and>
    elf_load ks ke img (m, pg) = Some (Some (e_entry eh), ml, pgl) \<and> same_out (unat hs) (unat he) ml (ram k')"
proof -
  have l: "length img < 4294967296" by (simp add: data(2) unat_u32_less)
  have "len \<noteq> 0" using img(3) data(2) by (auto simp: ehdr_of_def)
  moreover have "exec_args (ram k) 0 0 = Some ([], [])" by (simp add: exec_args_def copy_strings_def)
  ultimately have x: "exec_run hs he ks ke enter f (Some prog) 0 0 k = exec_image hs he ks ke enter img (lo, hi) ([], []) k"
    using data img(2) by (simp add: exec_run_def)
  obtain r sw k' rest' L' where r: "exec_run hs he ks ke enter f (Some prog) 0 0 k = Some (r, sw, k')" "exec_ok hs he ks ke k' rest' L'"
    "r = 0 \<Longrightarrow> \<exists>child. sw = Some (current_task k, child) \<and> child_started k (lo, hi) (exec_pool_used k) (exec_frame p lo hi) child k'"
    using exec_run_spec [OF lay ok p(1), of enter f "Some prog" 0 0] data img(2) by fastforce
  have "exec_frame p lo hi = (0, 0, 0)" by (simp add: exec_frame_def p(3))
  with first_image [OF ok lay p fresh room pool l img(1,3), of enter lo hi r sw k'] r x pool show ?thesis by fastforce
qed

section \<open>From the boot loader to the shell\<close>

lemma installed_program:
  assumes "\<forall>nm \<in> set program_names. length (elf nm) \<le> 262144" "(\<Sum>nm \<leftarrow> program_names. block_bytes (length (elf nm))) \<le> 786432"
    and nm: "nm \<in> set program_names" "elf nm \<noteq> []"
  shows "\<exists>s' off. ramfs_init elf s = Some s' \<and> ramfs_file_data (Some (''/bin/'' @ nm)) s' = Some (Some off, of_nat (length (elf nm))) \<and>
    read_bytes (pool s') off (length (elf nm)) = elf nm"
proof -
  note inst = installable_programs [OF assms(1,2)]
  obtain j where j: "j < length (programs elf)" "programs elf ! j = (nm, elf nm)"
    using nm by (auto simp: in_set_conv_nth programs_def)
  show ?thesis using ramfs_init_populated [OF inst, of s] installed_data [OF inst j, of "pool s"] pool_holds [OF inst j, of "pool s"] nm(2)
    by (simp add: populated_def)
qed

text \<open>The call of \<open>user_main\<close> on the state that the start of the kernel left.\<close>

lemma first_call:
  assumes lay: "layout_ok (p_heap_start p) (p_heap_end p) (p_kernel_start p) (p_kernel_end p)"
    and ok: "exec_ok (p_heap_start p) (p_heap_end p) (p_kernel_start p) (p_kernel_end p) (m_kern s) [] L"
    and p0: "tasks (m_kern s) (current_task (m_kern s)) = Some p0" "t_next p0 = current_task (m_kern s)" "t_elf_hi p0 = 0"
    and fresh: "kheap_fresh (p_heap_start p) (p_heap_end p) (kheap (m_kern s))" and room: "unat (p_heap_start p) + 4208 \<le> unat (p_heap_end p)"
    and pool: "exec_pool_used (m_kern s) = 0" and path: "user_path (mem_of s) a = Some (Some prog)"
    and data: "ramfs_file_data (Some prog) (m_files s) = Some (Some off, len)" "img = read_bytes (pool (m_files s)) off (unat len)"
    and img: "elf_acceptable (p_kernel_start p) (p_kernel_end p) img" "elf_extent img = Some (Some (lo, hi))" "ehdr_of img = Some eh"
  shows "\<exists>cx' s' child t sp m pg ml pgl.
    interrupt_handler p (load_regs [21, a, 0, 0] cx) s = Some (Switches (current_task (m_kern s)) child, cx', s') \<and>
    current_task (m_kern s') = child \<and> tasks (m_kern s') child = Some t \<and> t_parent t = current_task (m_kern s) \<and> t_state t = TASK_RUNNING \<and>
    starts_at (p_task_enter p) (e_entry eh) sp t (mem_of s') \<and>
    elf_build_user_stack stack_base EXEC_STACK_TOP (Some []) (Some []) (mem_of s) = (sp, m) \<and>
    elf_load (p_kernel_start p) (p_kernel_end p) img (m, pg) = Some (Some (e_entry eh), ml, pgl) \<and>
    same_out (unat (p_heap_start p)) (unat (p_heap_end p)) ml (mem_of s') \<and> m_screen s' = m_screen s"
proof -
  let ?hs = "p_heap_start p" and ?he = "p_heap_end p" and ?ks = "p_kernel_start p" and ?ke = "p_kernel_end p" and ?k = "m_kern s"
  from first_run [OF ok lay p0 fresh room pool data img, of "p_task_enter p"]
  obtain child k' t sp m pg ml pgl where X:
    "exec_run ?hs ?he ?ks ?ke (p_task_enter p) (m_files s) (Some prog) 0 0 ?k = Some (0, Some (current_task ?k, child), k')"
    "child_started ?k (lo, hi) 0 (0, 0, 0) child k'" "tasks k' child = Some t" "starts_at (p_task_enter p) (e_entry eh) sp t (ram k')"
    "elf_build_user_stack stack_base EXEC_STACK_TOP (Some []) (Some []) (ram ?k) = (sp, m)"
    "elf_load ?ks ?ke img (m, pg) = Some (Some (e_entry eh), ml, pgl)" "same_out (unat ?hs) (unat ?he) ml (ram k')"
    by blast
  obtain U where "pt_maps U (kpaging ?k)" using ok by (auto simp: exec_ok_def)
  then have msg: "exec_message ?ks ?ke (m_files s) (Some prog) 0 0 ?k = Some None" by (rule exec_message_silent [OF _ X(1)])
  let ?s' = "s\<lparr>m_kern := k'\<rparr>" and ?cx = "load_regs [21, a, 0, 0] cx"
  have "interrupt_handler p ?cx s = Some (Switches (current_task ?k) child, ?cx\<lparr>eax := 0\<rparr>, ?s')"
    using X(1) msg path by (simp add: interrupt_handler_def syscall_handler_def syscall_def call_exec_def load_regs_def Let_def)
  then show ?thesis using X(2-7) by (intro exI [of _ "?cx\<lparr>eax := 0\<rparr>"] exI [of _ ?s']) (auto simp: child_started_def)
qed

text \<open>C2: The system comes up with its shell. If the memory map has enough memory, the six programs fit,
  the kernel heap has room for one task, and \<open>/bin/shell\<close> is an executable image with its segments below
  4 MiB and apart from the kernel, then \<open>kernel_main\<close> enters \<open>user_main\<close>, and the system call that
  \<open>user_main\<close> makes there, \<open>execv ("/bin/shell", NULL, NULL)\<close>, succeeds: the processor switches from the boot
  task to a new task, its child, whose kernel stack makes \<open>sched_switch\<close> return into
  \<open>enter_user_mode_at\<close> with the entry point of the shell and its stack pointer; in memory, outside the kernel heap, are the
  stack and the segments that the loader put there; nothing was printed.\<close>

theorem shell_starts:
  fixes b :: boot_image and c :: computer
  defines "p \<equiv> b_platform b"
  assumes ready: "boot_ready b c" and map: "boots_with mbi c rs" "3500 \<le> usable_kib rs"
    and progs: "\<forall>nm. length (b_programs b nm) \<le> 262144" "(\<Sum>nm \<leftarrow> program_names. block_bytes (length (b_programs b nm))) \<le> 786432"
    and room: "unat (p_heap_start p) + 4208 \<le> unat (p_heap_end p)"
    and path: "path_addr \<noteq> 0" "cstr (mem_of (c_machine c)) path_addr ''/bin/shell''" "unat path_addr + 11 < 4294967296"
      "unat path_addr + 11 \<le> unat (b_esp b) - 20 \<or> unat (b_esp b) \<le> unat path_addr"
    and img: "elf_acceptable (p_kernel_start p) (p_kernel_end p) (b_programs b ''shell'')" "elf_extent (b_programs b ''shell'') = Some (Some (lo, hi))"
      "ehdr_of (b_programs b ''shell'') = Some eh"
  shows "\<exists>cpu c' cx' s' child t sp m pg ml pgl.
    kernel_main b BOOT_MAGIC mbi c = Some (Some cpu, c') \<and> r_eip cpu = b_user_main b \<and>
    interrupt_handler p (load_regs [21, path_addr, 0, 0] cx) (c_machine c') = Some (Switches (b_task0 b) child, cx', s') \<and>
    current_task (m_kern s') = child \<and> tasks (m_kern s') child = Some t \<and> t_parent t = b_task0 b \<and> t_state t = TASK_RUNNING \<and>
    starts_at (p_task_enter p) (e_entry eh) sp t (mem_of s') \<and>
    elf_build_user_stack (EXEC_STACK_TOP - EXEC_STACK_SIZE) EXEC_STACK_TOP (Some []) (Some []) (mem_of (c_machine c')) = (sp, m) \<and>
    elf_load (p_kernel_start p) (p_kernel_end p) (b_programs b ''shell'') (m, pg) = Some (Some (e_entry eh), ml, pgl) \<and>
    same_out (unat (p_heap_start p)) (unat (p_heap_end p)) ml (mem_of s') \<and> m_screen s' = m_screen (c_machine c')"
proof -
  note r = ready [unfolded boot_ready_def Let_def, folded p_def]
  have lay: "layout_ok (p_heap_start p) (p_heap_end p) (p_kernel_start p) (p_kernel_end p)" using r by (simp add: platform_okD)
  have fits: "program_fits (b_programs b nm)" for nm using progs(1) [rule_format, of nm] by (simp add: program_fits_def)
  have "booted b c 5 (kernel_main b BOOT_MAGIC mbi c)"
    by (rule kernel_main_booted [OF ready fits map(1)]) (use map(2) in \<open>simp_all add: MIN_RAM_KIB_def not_less\<close>)
  then obtain cpu c' where k: "kernel_main b BOOT_MAGIC mbi c = Some (Some cpu, c')" "r_eip cpu = b_user_main b"
    "boot_leaves b (c_machine c) (c_machine c')" "current_task (m_kern (c_machine c')) = b_task0 b"
    "pt_maps (\<lambda>i. page_in (p_user_start p) (p_user_end p) i \<or> page_in (p_user_heap_start p) (p_user_heap_end p) i) (kpaging (m_kern (c_machine c')))"
    by (auto simp: booted_def user_registers_def Let_def p_def)
  define s where "s = c_machine c'"
  define p0 where "p0 = (boot_task b)\<lparr>t_pid := next_pid (m_kern (c_machine c))\<rparr>"
  have L: "ramfs_init (b_programs b) (m_files (c_machine c)) = Some (m_files s)" "tasks (m_kern s) (current_task (m_kern s)) = Some p0"
    "exec_pool_used (m_kern s) = 0" "kheap_fresh (p_heap_start p) (p_heap_end p) (kheap (m_kern s))"
    "\<And>a. unat a < unat (b_esp b) - 20 \<or> unat (b_esp b) \<le> unat a \<Longrightarrow> mem_of s a = mem_of (c_machine c) a"
    using k(3,4) by (auto simp: boot_leaves_def s_def p0_def p_def)
  have p0: "t_next p0 = current_task (m_kern s)" "t_elf_hi p0 = 0" using k(4) by (simp_all add: p0_def boot_task_def zero_task_def s_def)
  have ok: "exec_ok (p_heap_start p) (p_heap_end p) (p_kernel_start p) (p_kernel_end p) (m_kern s) [] {}"
    by (rule boot_exec_ok [OF L(4) _ L(3)]) (use k(4,5) r L(2) in \<open>auto simp: s_def p0_def boot_task_def zero_task_def\<close>)
  have nm: "''shell'' \<in> set program_names" by (simp add: program_names_def)
  have ne: "b_programs b ''shell'' \<noteq> []" using img(3) by (auto simp: ehdr_of_def)
  have small: "\<forall>nm \<in> set program_names. length (b_programs b nm) \<le> 262144" using progs(1) by blast
  obtain off where off: "ramfs_file_data (Some ''/bin/shell'') (m_files s) = Some (Some off, of_nat (length (b_programs b ''shell'')))"
    "read_bytes (pool (m_files s)) off (length (b_programs b ''shell'')) = b_programs b ''shell''"
    using installed_program [OF small progs(2) nm ne, of "m_files (c_machine c)"] L(1) by auto
  have len: "unat (of_nat (length (b_programs b ''shell'')) :: u32) = length (b_programs b ''shell'')"
    using progs(1) [rule_format, of "''shell''"] by (intro unat_of_nat32) simp
  have "mem_of s (path_addr + of_nat i) = mem_of (c_machine c) (path_addr + of_nat i)" if "i \<le> 10" for i
    by (rule L(5)) (use that path(3,4) in \<open>auto simp: unat_add_small unat_of_nat32\<close>)
  then have "cstr (mem_of s) path_addr ''/bin/shell''" using path(2) cstr_cong [of "''/bin/shell''" "mem_of s" path_addr "mem_of (c_machine c)"] by simp
  then have up: "user_path (mem_of s) path_addr = Some (Some ''/bin/shell'')" using path(1) by (simp add: user_path_def cstr_read_cstr)
  from first_call [OF lay ok L(2) p0 L(4) room L(3) up off(1) _ img, of cx] off(2) len k(1,2,4) show ?thesis
    unfolding s_def by metis
qed

section \<open>An example\<close>

lemma boot_ready_mem:
  assumes "boot_ready b c" "\<And>a. unat (p_heap_start (b_platform b)) \<le> unat a \<Longrightarrow> unat a < unat (p_heap_end (b_platform b)) + 8 \<Longrightarrow> m a = mem_of (c_machine c) a"
  shows "boot_ready b (on_machine (set_mem m) c)"
  using assms kheap_fresh_frame [of "p_heap_start (b_platform b)" "p_heap_end (b_platform b)" "kheap (m_kern (c_machine c))" m]
  by (auto simp: boot_ready_def Let_def unat_of_nat32)

theorem shell_starts_witness:
  "\<exists>cpu c' cx' s' child t sp. kernel_main (demo_image\<lparr>b_programs := \<lambda>nm. if nm = ''shell'' then tiny_elf else []\<rparr>) BOOT_MAGIC 0x500
      (on_machine (set_mem (write_bytes demo_mbi 0x104F00 (map of_char ''/bin/shell'' @ [0]))) demo_computer) = Some (Some cpu, c') \<and>
    interrupt_handler demo_platform (load_regs [21, 0x104F00, 0, 0] (demo_context 0 0)) (c_machine c') = Some (Switches 0x109000 child, cx', s') \<and>
    tasks (m_kern s') child = Some t \<and> starts_at 0x100123 0x300000 sp t (mem_of s')"
proof -
  let ?b = "demo_image\<lparr>b_programs := \<lambda>nm. if nm = ''shell'' then tiny_elf else []\<rparr>"
  let ?m = "write_bytes demo_mbi 0x104F00 (map of_char ''/bin/shell'' @ [0])"
  let ?c = "on_machine (set_mem ?m) demo_computer"
  have "boot_ready ?b demo_computer" using demo_boot_ready by (simp add: boot_ready_def)
  then have 1: "boot_ready ?b ?c"
    by (rule boot_ready_mem) (simp add: write_bytes_out in_region_iff demo_image_def demo_platform_def demo_computer_def)
  have 2: "boots_with 0x500 ?c [demo_region]"
    by (simp add: boots_with_def demo_mbi_def demo_region_def multiboot_info_at_def mmap_entry_at_def
      load32_def load64_def store32_def MBI_FLAG_MMAP_def write_bytes_def)
  have 3: "3500 \<le> usable_kib [demo_region]" by (simp add: usable_kib_def region_kib_def demo_region_def drop_bit_eq_div)
  have 4: "\<forall>nm. length (b_programs ?b nm) \<le> 262144" by (simp add: tiny_elf_def)
  have 5: "(\<Sum>nm \<leftarrow> program_names. block_bytes (length (b_programs ?b nm))) \<le> 786432"
    by (simp add: program_names_def block_bytes_def tiny_elf_def)
  have 6: "cstr (mem_of (c_machine ?c)) 0x104F00 ''/bin/shell''"
    using cstr_write_bytes [of "''/bin/shell''" demo_mbi "0x104F00"] by simp
  have 7: "elf_acceptable 0x100000 0x200000 tiny_elf"
    using elf_load_acceptable [of tiny_elf "\<lambda>i. False" "(\<lambda>a. 0, identity_pt)" "0x100000" "0x200000"] pt_maps_identity tiny_load
    by (auto simp: tiny_elf_def)
  have 8: "elf_extent tiny_elf = Some (Some (0x300000, 0x300008))" "ehdr_of tiny_elf = Some tiny_ehdr" "e_entry tiny_ehdr = 0x300000"
    using tiny_extent tiny_ehdr_of by (simp_all add: tiny_ehdr_def)
  have p: "b_platform ?b = demo_platform" "p_heap_start demo_platform = 0x110000" "p_heap_end demo_platform = 0x1F0000"
    "p_kernel_start demo_platform = 0x100000" "p_kernel_end demo_platform = 0x200000" "p_task_enter demo_platform = 0x100123"
    "b_task0 ?b = 0x109000" "b_esp ?b = 0x1FEF00" "b_programs ?b ''shell'' = tiny_elf"
    by (simp_all add: demo_image_def demo_platform_def)
  from shell_starts [OF 1 2 3 4 5 _ _ 6, where lo = "0x300000" and hi = "0x300008" and eh = tiny_ehdr and cx = "demo_context 0 0", unfolded p]
  show ?thesis using 7 8 by auto
qed

end
