(* ===== verification/Newlib.thy ===== *)
theory Newlib
  imports User_Calls Prelude
begin

text \<open>
  The system-call layer of the C library, \<open>libc/newlib/newlib_syscalls.c\<close>: the conversion of the
  kernel's results to the conventions of C (-1 and \<open>errno\<close>), the line discipline of standard input,
  and the calls that programs make through newlib. Locals whose addresses are passed to the kernel
  are memory at the addresses \<open>at_c\<close>, \<open>at_echo\<close>, \<open>at_k\<close>; the line buffer, which the kernel never sees, is
  a field of the state.
\<close>

section \<open>State\<close>

record newlib =
  global_errno :: int
  errno :: int
  line_buf :: "u8 list"
  line_len :: nat
  line_pos :: nat

record 'w newlib_os = "'w os" +
  at_c :: u32
  at_echo :: u32
  at_k :: u32

text \<open>The members of newlib's \<open>struct stat\<close> that are set; the others are zero. Their types are newlib's;
  here they keep the width of the kernel's.\<close>

record newlib_stat =
  n_mode :: u32
  n_size :: u32
  n_ino :: u32
  n_nlink :: u32
  n_blksize :: u32
  n_blocks :: u32

section \<open>Results\<close>

definition EAGAIN :: int where "EAGAIN = 11"
definition ENOENT :: int where "ENOENT = 2"
definition ENOMEM :: int where "ENOMEM = 12"
definition EBADF :: int where "EBADF = 9"
definition ENOTTY :: int where "ENOTTY = 25"
definition EEXIST :: int where "EEXIST = 17"
definition EMLINK :: int where "EMLINK = 31"

definition set_errno :: "int \<Rightarrow> newlib \<Rightarrow> newlib" where
  "set_errno x n = n\<lparr>global_errno := x, errno := x\<rparr>"

definition sys3 :: "('w, 'z) os_scheme \<Rightarrow> u32 \<Rightarrow> u32 \<Rightarrow> u32 \<Rightarrow> u32 \<Rightarrow> 'w \<Rightarrow> (u32 \<times> 'w) option" where
  "sys3 e num a b c = trap e [num, a, b, c]"

definition sys_result :: "u32 \<Rightarrow> newlib \<Rightarrow> int \<times> newlib" where
  "sys_result r n = (if sint r < 0 \<and> - 4095 \<le> sint r then (-1, set_errno (- sint r) n) else (sint r, n))"

type_synonym 'w result = "(int \<times> newlib \<times> 'w) option"

definition result :: "newlib \<Rightarrow> (u32 \<times> 'w) option \<Rightarrow> 'w result" where
  "result n r = map_option (\<lambda>(v, w). let (x, n1) = sys_result v n in (x, n1, w)) r"

text \<open>A call that fails with the same error whatever the kernel says.\<close>

definition result_or :: "int \<Rightarrow> newlib \<Rightarrow> (u32 \<times> 'w) option \<Rightarrow> 'w result" where
  "result_or err n r = map_option (\<lambda>(v, w). if sint v < 0 then (-1, set_errno err n, w) else (0, n, w)) r"

section \<open>Processes and memory\<close>

text \<open>\<open>_exit\<close> waits for ever after the call.\<close>

definition newlib_exit :: "('w, 'z) os_scheme \<Rightarrow> u32 \<Rightarrow> 'w \<Rightarrow> 'w option" where
  "newlib_exit e code w = Option.bind (sys3 e 0 code 0 0 w) (\<lambda>_. None)"

definition newlib_getpid :: "('w, 'z) os_scheme \<Rightarrow> newlib \<Rightarrow> 'w \<Rightarrow> 'w result" where
  "newlib_getpid e n w = map_option (\<lambda>(v, w1). (sint v, n, w1)) (sys3 e SYS_getpid 0 0 0 w)"

definition newlib_kill :: "('w, 'z) os_scheme \<Rightarrow> u32 \<Rightarrow> u32 \<Rightarrow> newlib \<Rightarrow> 'w \<Rightarrow> 'w result" where
  "newlib_kill e pid sig n w = result n (sys3 e SYS_kill pid sig 0 w)"

definition newlib_fork :: "newlib \<Rightarrow> 'w \<Rightarrow> 'w result" where
  "newlib_fork n w = Some (-1, set_errno EAGAIN n, w)"

definition newlib_execve :: "('w, 'z) os_scheme \<Rightarrow> u32 \<Rightarrow> u32 \<Rightarrow> u32 \<Rightarrow> newlib \<Rightarrow> 'w \<Rightarrow> 'w result" where
  "newlib_execve e p argv envp n w =
     map_option (\<lambda>(r, w1). if sint r < 0 then (-1, set_errno ENOENT n, w1) else (sint r, n, w1)) (sys3 e 21 p argv envp w)"

definition newlib_wait :: "('w, 'z) os_scheme \<Rightarrow> u32 \<Rightarrow> newlib \<Rightarrow> 'w \<Rightarrow> 'w result" where
  "newlib_wait e status n w = result n (sys3 e SYS_wait status 0 0 w)"

definition newlib_sbrk :: "('w, 'z) os_scheme \<Rightarrow> u32 \<Rightarrow> newlib \<Rightarrow> 'w \<Rightarrow> (u32 \<times> newlib \<times> 'w) option" where
  "newlib_sbrk e increment n w =
     map_option (\<lambda>(prev, w1). (prev, (if prev = - 1 then set_errno ENOMEM n else n), w1)) (sys3 e 4 increment 0 0 w)"

section \<open>Files\<close>

definition newlib_open :: "('w, 'z) os_scheme \<Rightarrow> u32 \<Rightarrow> u32 \<Rightarrow> newlib \<Rightarrow> 'w \<Rightarrow> 'w result" where
  "newlib_open e p flags n w = result n (sys3 e SYS_open2 p flags 0 w)"

definition newlib_close :: "('w, 'z) os_scheme \<Rightarrow> u32 \<Rightarrow> newlib \<Rightarrow> 'w \<Rightarrow> 'w result" where
  "newlib_close e fd n w = result n (sys3 e 7 fd 0 0 w)"

text \<open>\<open>echo (c)\<close> passes the address of its parameter.\<close>

definition echo :: "('w, 'z) newlib_os_scheme \<Rightarrow> u8 \<Rightarrow> 'w \<Rightarrow> 'w option" where
  "echo e c w = map_option snd (sys3 e 9 1 (at_echo e) 1 (uput e ((umem e w)(at_echo e := c)) w))"

text \<open>One character of the line: the new state and whether the line is complete. \<open>char\<close> is signed.\<close>

definition line_char :: "('w, 'z) newlib_os_scheme \<Rightarrow> u8 \<Rightarrow> newlib \<Rightarrow> 'w \<Rightarrow> (bool \<times> newlib \<times> 'w) option" where
  "line_char e c n w =
     (if c = 10 \<or> c = 13 then do {
        buf \<leftarrow> arr_set (line_buf n) (line_len n) 10;
        w1 \<leftarrow> echo e 10 w;
        Some (True, n\<lparr>line_buf := buf, line_len := line_len n + 1\<rparr>, w1)
      }
      else if c = 8 then
        (if 0 < line_len n then do { w1 \<leftarrow> echo e 8 w; Some (False, n\<lparr>line_len := line_len n - 1\<rparr>, w1) } else Some (False, n, w))
      else if 32 \<le> sint c \<and> sint c < 127 \<and> line_len n < 256 - 1 then do {
        buf \<leftarrow> arr_set (line_buf n) (line_len n) c;
        w1 \<leftarrow> echo e c w;
        Some (False, n\<lparr>line_buf := buf, line_len := line_len n + 1\<rparr>, w1)
      }
      else Some (False, n, w))"

text \<open>\<open>for (;;)\<close>: the loop ends only with a complete line.\<close>

partial_function (option) read_line_loop :: "('w, 'z) newlib_os_scheme \<Rightarrow> newlib \<Rightarrow> 'w \<Rightarrow> (newlib \<times> 'w) option" where
  "read_line_loop e n w =
     do {
       (r, w1) \<leftarrow> sys3 e 8 0 (at_c e) 1 w;
       (if sint r = - CHALES_EAGAIN then read_line_loop e n w1
        else if sint r \<le> 0 then read_line_loop e n w1
        else do {
          (done, n1, w2) \<leftarrow> line_char e (umem e w1 (at_c e)) n w1;
          (if done then Some (n1, w2) else read_line_loop e n1 w2)
        })
     }"

definition read_line :: "('w, 'z) newlib_os_scheme \<Rightarrow> newlib \<Rightarrow> 'w \<Rightarrow> (newlib \<times> 'w) option" where
  "read_line e n w = read_line_loop e (n\<lparr>line_len := 0, line_pos := 0\<rparr>) w"

text \<open>\<open>while (n < len && line_pos < line_len) buf[n++] = line_buf[line_pos++];\<close>\<close>

definition take_line :: "('w, 'z) newlib_os_scheme \<Rightarrow> u32 \<Rightarrow> nat \<Rightarrow> newlib \<Rightarrow> 'w \<Rightarrow> 'w result" where
  "take_line e buf len n w =
     (let k = min len (line_len n - line_pos n); bs = take k (drop (line_pos n) (line_buf n)) in
      Some (int k, n\<lparr>line_pos := line_pos n + k\<rparr>, uput e (write_bytes (umem e w) buf bs) w))"

definition newlib_read :: "('w, 'z) newlib_os_scheme \<Rightarrow> u32 \<Rightarrow> u32 \<Rightarrow> u32 \<Rightarrow> newlib \<Rightarrow> 'w \<Rightarrow> 'w result" where
  "newlib_read e fd buf len n w =
     (if sint fd = CHALES_FD_STDIN then
        (if sint len \<le> 0 then Some (0, n, w)
         else do {
           (n1, w1) \<leftarrow> (if line_len n \<le> line_pos n then read_line e n w else Some (n, w));
           take_line e buf (nat (sint len)) n1 w1
         })
      else result n (sys3 e 8 fd buf len w))"

definition newlib_write :: "('w, 'z) os_scheme \<Rightarrow> u32 \<Rightarrow> u32 \<Rightarrow> u32 \<Rightarrow> newlib \<Rightarrow> 'w \<Rightarrow> 'w result" where
  "newlib_write e fd buf len n w = result n (sys3 e 9 fd buf len w)"

definition newlib_lseek :: "('w, 'z) os_scheme \<Rightarrow> u32 \<Rightarrow> u32 \<Rightarrow> u32 \<Rightarrow> newlib \<Rightarrow> 'w \<Rightarrow> 'w result" where
  "newlib_lseek e fd off whence n w = result n (sys3 e SYS_lseek fd off whence w)"

definition newlib_isatty :: "('w, 'z) os_scheme \<Rightarrow> u32 \<Rightarrow> newlib \<Rightarrow> 'w \<Rightarrow> 'w result" where
  "newlib_isatty e fd n w =
     (if sint fd < 0 then Some (0, set_errno EBADF n, w)
      else map_option (\<lambda>(r, w1). (sint r, (if r = 0 then set_errno ENOTTY n else n), w1)) (sys3 e SYS_isatty fd 0 0 w))"

definition chales_stat_at :: "mem \<Rightarrow> u32 \<Rightarrow> chales_stat" where
  "chales_stat_at m k =
     \<lparr>st_mode = load32 m k, st_size = load32 m (k + 4), st_ino = load32 m (k + 8), st_nlink = load32 m (k + 12)\<rparr>"

definition fill_stat :: "chales_stat \<Rightarrow> newlib_stat" where
  "fill_stat k =
     \<lparr>n_mode = st_mode k, n_size = st_size k, n_ino = st_ino k, n_nlink = st_nlink k, n_blksize = 512,
      n_blocks = (st_size k + 511) div 512\<rparr>"

text \<open>The result of a stat call and what it stores, if anything.\<close>

definition stat_result :: "('w, 'z) newlib_os_scheme \<Rightarrow> newlib \<Rightarrow> (u32 \<times> 'w) option \<Rightarrow> (int \<times> newlib_stat option \<times> newlib \<times> 'w) option" where
  "stat_result e n r =
     map_option (\<lambda>(v, n1, w1). if v < 0 then (-1, None, n1, w1) else (0, Some (fill_stat (chales_stat_at (umem e w1) (at_k e))), n1, w1))
       (result n r)"

definition newlib_fstat :: "('w, 'z) newlib_os_scheme \<Rightarrow> u32 \<Rightarrow> newlib \<Rightarrow> 'w \<Rightarrow> (int \<times> newlib_stat option \<times> newlib \<times> 'w) option" where
  "newlib_fstat e fd n w = stat_result e n (sys3 e SYS_fstat fd (at_k e) 0 w)"

definition newlib_stat :: "('w, 'z) newlib_os_scheme \<Rightarrow> u32 \<Rightarrow> newlib \<Rightarrow> 'w \<Rightarrow> (int \<times> newlib_stat option \<times> newlib \<times> 'w) option" where
  "newlib_stat e p n w = stat_result e n (sys3 e SYS_stat p (at_k e) 0 w)"

definition newlib_unlink :: "('w, 'z) os_scheme \<Rightarrow> u32 \<Rightarrow> newlib \<Rightarrow> 'w \<Rightarrow> 'w result" where
  "newlib_unlink e p n w = result_or ENOENT n (sys3 e 11 p 0 0 w)"

definition newlib_link :: "newlib \<Rightarrow> 'w \<Rightarrow> 'w result" where
  "newlib_link n w = Some (-1, set_errno EMLINK n, w)"

definition newlib_mkdir :: "('w, 'z) os_scheme \<Rightarrow> u32 \<Rightarrow> newlib \<Rightarrow> 'w \<Rightarrow> 'w result" where
  "newlib_mkdir e p n w = result_or EEXIST n (sys3 e 10 p 0 0 w)"

definition newlib_rmdir :: "('w, 'z) os_scheme \<Rightarrow> u32 \<Rightarrow> newlib \<Rightarrow> 'w \<Rightarrow> 'w result" where
  "newlib_rmdir e p n w = result_or ENOENT n (sys3 e 12 p 0 0 w)"

section \<open>Time\<close>

definition chales_tms_at :: "mem \<Rightarrow> u32 \<Rightarrow> chales_tms" where
  "chales_tms_at m k =
     \<lparr>tms_utime = load32 m k, tms_stime = load32 m (k + 4), tms_cutime = load32 m (k + 8), tms_cstime = load32 m (k + 12)\<rparr>"

definition newlib_times :: "('w, 'z) newlib_os_scheme \<Rightarrow> bool \<Rightarrow> 'w \<Rightarrow> (u32 \<times> chales_tms option \<times> 'w) option" where
  "newlib_times e buf w =
     map_option (\<lambda>(ticks, w1). (ticks, if buf then Some (chales_tms_at (umem e w1) (at_k e)) else None, w1)) (sys3 e SYS_times (at_k e) 0 0 w)"

definition newlib_gettimeofday :: "('w, 'z) newlib_os_scheme \<Rightarrow> bool \<Rightarrow> newlib \<Rightarrow> 'w \<Rightarrow> (int \<times> chales_timeval option \<times> newlib \<times> 'w) option" where
  "newlib_gettimeofday e tv n w =
     map_option (\<lambda>(v, n1, w1). if v < 0 then (-1, None, n1, w1)
         else (0, if tv then Some \<lparr>tv_sec = load32 (umem e w1) (at_k e), tv_usec = load32 (umem e w1) (at_k e + 4)\<rparr> else None, n1, w1))
       (result n (sys3 e SYS_gettimeofday (at_k e) 0 0 w))"

end
