(* ===== verification/Abi_Types.thy ===== *)
theory Abi_Types
  imports System_Calls Newlib
begin

text \<open>
  The types of the system calls: what each call promises to return in \<open>eax\<close>, as \<open>syscalls.h\<close> and
  \<open>abi.h\<close> declare it, and that the dispatcher keeps the promise. The conversion of results in
  newlib, which takes every value from -4095 to -1 for an error, rests on it.
\<close>

section \<open>Types of results\<close>

text \<open>No result, a character, a word of a number of bits, zero or an error, a number up to a bound or an
  error, a descriptor or an error.\<close>

datatype result_type = No_result | Char_result | Word_result nat | Count_result nat | Fd_result

text \<open>The error numbers of \<open>abi.h\<close> that the kernel uses, and the 1 of calls that return -1.\<close>

definition abi_errors :: "int set" where
  "abi_errors = {1, CHALES_ENOENT, CHALES_ESRCH, CHALES_EBADF, CHALES_ECHILD, CHALES_EAGAIN, CHALES_EFAULT, CHALES_EEXIST,
     CHALES_EISDIR, CHALES_EINVAL, CHALES_EMFILE, CHALES_ENOSPC, CHALES_ESPIPE, CHALES_ENOSYS}"

fun of_type :: "u32 \<Rightarrow> result_type \<Rightarrow> bool" where
  "of_type v No_result \<longleftrightarrow> False"
| "of_type v Char_result \<longleftrightarrow> - 128 \<le> sint v \<and> sint v < 128"
| "of_type v (Word_result bits) \<longleftrightarrow> unat v < 2 ^ bits"
| "of_type v (Count_result n) \<longleftrightarrow> 0 \<le> sint v \<and> sint v \<le> int n \<or> - sint v \<in> abi_errors"
| "of_type v Fd_result \<longleftrightarrow> 3 \<le> sint v \<and> sint v < 3 + 32 \<or> - sint v \<in> abi_errors"

definition has_type :: "u32 option \<Rightarrow> result_type \<Rightarrow> bool" where
  "has_type v t \<longleftrightarrow> (case v of None \<Rightarrow> t = No_result | Some x \<Rightarrow> of_type x t)"

text \<open>In the order of the dispatcher; \<open>a3\<close> is the count of \<open>read\<close> and \<open>write\<close>.\<close>

definition call_type :: "u32 \<Rightarrow> u32 \<Rightarrow> result_type" where
  "call_type n a3 =
     (if n = 0 \<or> n = 1 \<or> n = 20 then No_result
      else if n = 2 then Char_result
      else if n = 6 \<or> n = SYS_open2 then Fd_result
      else if n = 8 \<or> n = 9 then Count_result (unat a3)
      else if n = SYS_lseek then Count_result 262144
      else if n = SYS_isatty then Count_result 1
      else if n = 14 \<or> n = 17 then Word_result 8
      else if n = 15 \<or> n = 18 then Word_result 16
      else if n \<in> {3, 4, 16, 19, SYS_getpid, SYS_times, SYS_wait} then Word_result 32
      else Count_result 0)"

definition typed :: "sys_result \<Rightarrow> result_type \<Rightarrow> bool" where
  "typed r t \<longleftrightarrow> (\<forall>out v s. r = Some (out, v, s) \<longrightarrow> has_type v t)"

section \<open>Results of the services\<close>

lemma typed_ret [simp]: "typed (ret v s) t \<longleftrightarrow> of_type v t"
  by (simp add: typed_def has_type_def)

lemma typed_bind: "(\<And>y. x = Some y \<Longrightarrow> typed (f y) t) \<Longrightarrow> typed (Option.bind x f) t"
  by (cases x) (auto simp: typed_def)

lemma sint_of_small: "- 2147483648 \<le> r \<Longrightarrow> r < 2147483648 \<Longrightarrow> sint (word_of_int r :: u32) = r"
  by (simp add: signed_of_int signed_take_bit_int_eq_self)

text \<open>A result, as an exact integer.\<close>

definition int_result :: "nat \<Rightarrow> int \<Rightarrow> bool" where
  "int_result n r \<longleftrightarrow> 0 \<le> r \<and> r \<le> int n \<or> - r \<in> abi_errors"

lemma abi_errors_bounds: "e \<in> abi_errors \<Longrightarrow> 1 \<le> e \<and> e \<le> 88"
  by (auto simp: abi_errors_def)

lemma of_type_int: "int_result n r \<Longrightarrow> r < 2147483648 \<Longrightarrow> of_type (word_of_int r) (Count_result n)"
  using abi_errors_bounds [of "- r"] by (auto simp: int_result_def sint_of_small)

lemma of_type_fd: "3 \<le> r \<and> r < 3 + 32 \<or> - r \<in> abi_errors \<Longrightarrow> of_type (word_of_int r) Fd_result"
  using abi_errors_bounds [of "- r"] by (auto simp: sint_of_small)

lemma of_type_error: "e \<in> abi_errors \<Longrightarrow> of_type (word_of_int (- e)) (Count_result n)"
  by (rule of_type_int) (auto simp: int_result_def abi_errors_def)

lemma int_le_uint: "m \<le> unat w \<Longrightarrow> int m \<le> uint w" for w :: u32
  using of_nat_mono [of m "unat w", where 'a = int] by simp

lemma sys_read_result:
  assumes ok: "machine_ok p n s" and r: "sys_read fd buf len s = Some (r, s')"
  shows "int_result (unat len) r \<and> r < 2147483648"
proof (cases "buf \<noteq> 0 \<and> fd \<ge> 3")
  case True
  obtain q bs f where q: "ramfs_read (fd - 3) False len (m_files s) = Some (q, bs, f)" "r = (if q < 0 then - CHALES_EBADF else q)"
    using r True by (auto simp: sys_read_def split: bind_splits)
  have inv: "ramfs_inv (m_files s)" using machine_okD(2) [OF ok] by (simp add: ramfs_inv_n_def)
  have "q = -1 \<or> 0 \<le> q \<and> q \<le> int (unat len) \<and> q < 2147483648"
  proof -
    have b: "0 \<le> sint w \<and> sint w \<le> int (unat len) \<and> sint w < 2147483648"
      if "w = (if len < av then len else av)" "unat av \<le> 262144" for w av :: u32
    proof -
      have "unat w \<le> unat len" "unat w \<le> 262144" using that by (auto simp: word_less_nat_alt)
      then have "sint w = int (unat w)" using sint_of_nat_small [of "unat w"] by simp
      then show ?thesis using \<open>unat w \<le> unat len\<close> \<open>unat w \<le> 262144\<close> by linarith
    qed
    let ?fd = "fds (m_files s) ! nat (fd - 3)"
    show ?thesis
    proof (cases "slot_of_ino (fd_ino ?fd) (m_files s)")
      case None
      then show ?thesis using q(1) by (auto simp: ramfs_read_def Let_def split: if_splits)
    next
      case (Some k)
      define av where "av = i_size (inodes (m_files s) ! k) - fd_offset ?fd"
      have "k < RAMFS_MAX_FILES" using find_idx_SomeD [OF Some [unfolded slot_of_ino_def]] ramfs_invD(1) [OF inv] by simp
      from ramfs_invD(7) [OF inv this] have "unat (i_size (inodes (m_files s) ! k)) \<le> 262144"
        by (auto simp: inode_ok_def word_le_nat_alt RAMFS_MAX_FILESIZE_def)
      then have av: "unat av \<le> 262144" if "\<not> i_size (inodes (m_files s) ! k) \<le> fd_offset ?fd"
        using that by (simp add: av_def unat_sub word_le_nat_alt)
      have "q = -1 \<or> q = 0 \<or> \<not> i_size (inodes (m_files s) ! k) \<le> fd_offset ?fd \<and> q = sint (if len < av then len else av)"
        using q(1) Some by (auto simp: ramfs_read_def Let_def av_def split: if_splits option.splits)
      then show ?thesis using b [OF refl av] by auto
    qed
  qed
  then show ?thesis using q(2) by (auto simp: int_result_def abi_errors_def)
next
  case False
  have kl: "length (kbd_contents (m_keys s)) \<le> 256" using kq.contents_cap [OF machine_okD(3) [OF ok]] by (simp add: KEYBOARD_BUFFER_SIZE_def)
  have "length (fst (drain keyboard_buffer_has_data keyboard_buffer_pop (unat len) (m_keys s))) \<le> min (unat len) 256"
    using kq.drain_spec(1) [OF machine_okD(3) [OF ok], of "unat len"] kl by simp
  then show ?thesis using r False int_le_uint
    by (auto simp: sys_read_def int_result_def abi_errors_def split: prod.splits if_splits)
qed

lemma sys_write_result:
  assumes ok: "machine_ok p n s" and l: "unat len < 2147483648" and r: "sys_write fd buf len s = Some (r, s')"
  shows "int_result (unat len) r \<and> r < 2147483648"
proof -
  have b: "0 \<le> int m \<and> int m \<le> uint len \<and> int m < 2147483648" if "m \<le> unat len" for m
    using int_le_uint [OF that] that l by linarith
  have w: "q = -1 \<or> q = - CHALES_ENOSPC \<or> 0 \<le> q \<and> q \<le> uint len \<and> q < 2147483648"
    if q: "ramfs_write fd' bufp len (m_files s) = Some (q, f)" for fd' bufp q f
  proof (cases "\<exists>buf k. bufp = Some buf \<and> open_on (m_files s) fd' k \<and>
      fd_flags (fds (m_files s) ! nat fd') AND CHALES_O_ACCMODE \<noteq> CHALES_O_RDONLY")
    case True
    then obtain buf k where k: "bufp = Some buf" "open_on (m_files s) fd' k"
      "fd_flags (fds (m_files s) ! nat fd') AND CHALES_O_ACCMODE \<noteq> CHALES_O_RDONLY" by blast
    have "ramfs_inv (m_files s)" using machine_okD(2) [OF ok] by (simp add: ramfs_inv_n_def)
    from ramfs_write_cases [OF this k(2,3), of len buf] l k(1) q b show ?thesis by auto
  qed (use q ramfs_write_reject in auto)
  have "sint len = int (unat len)" using sint_of_nat_small [of "unat len"] l by simp
  with b [of "unat len"] have "0 \<le> sint len \<and> sint len \<le> uint len \<and> sint len < 2147483648" by simp
  then show ?thesis using r
    by (auto simp: sys_write_def int_result_def abi_errors_def split: bind_splits if_splits dest: w)
qed

lemma sys_close_result: "int_result 0 (fst (sys_close fd s))"
  by (auto simp: sys_close_def int_result_def abi_errors_def split: prod.splits)

lemma sys_lseek_result: "int_result 262144 (fst (sys_lseek fd off wh s))"
  by (auto simp: sys_lseek_def ramfs_lseek_def Let_def RAMFS_MAX_FILESIZE_def int_result_def abi_errors_def split: prod.splits option.splits if_splits)

lemma sys_fstat_result: "int_result 0 (fst (sys_fstat fd st s))"
  by (auto simp: sys_fstat_def ramfs_fstat_def int_result_def abi_errors_def split: prod.splits option.splits if_splits)

lemma ramfs_stat_result: "ramfs_stat prog f = (r, x) \<Longrightarrow> int_result 0 r"
  by (auto simp: ramfs_stat_def int_result_def abi_errors_def split: option.splits)

lemma dir_results:
  "ramfs_mkdir prog f = Some (r, f') \<Longrightarrow> int_result 0 r"
  "ramfs_unlink prog f = (r, f') \<Longrightarrow> int_result 0 r" "ramfs_rmdir prog f = (r, f') \<Longrightarrow> int_result 0 r"
  by (auto simp: ramfs_mkdir_def ramfs_unlink_def ramfs_rmdir_def Let_def int_result_def abi_errors_def split: option.splits if_splits prod.splits)

lemma free_fd_bound: "ramfs_find_free_fd f = Some k \<Longrightarrow> ramfs_inv f \<Longrightarrow> k < 32"
  using find_idx_SomeD ramfs_invD(2) by (metis ramfs_find_free_fd_def)

lemma open_results:
  assumes inv: "ramfs_inv_n (Suc n) f" and ok: "path_ok prog"
  shows "ramfs_open prog flags f = Some (r, f') \<Longrightarrow> r = -1 \<or> 0 \<le> r \<and> r < 32"
    and "ramfs_open2 prog flags f = Some (r, f') \<Longrightarrow> - r \<in> abi_errors \<or> 0 \<le> r \<and> r < 32"
proof -
  show "ramfs_open prog flags f = Some (r, f') \<Longrightarrow> r = -1 \<or> 0 \<le> r \<and> r < 32"
    using ramfs_open_spec [OF assms, of flags] by (auto simp: open_on_def)
  assume r: "ramfs_open2 prog flags f = Some (r, f')"
  have "(\<exists>k. opened prog flags f r k f') \<or> r < 0" using ramfs_open2_spec [OF assms, of flags] r by auto
  then show "- r \<in> abi_errors \<or> 0 \<le> r \<and> r < 32"
    using r by (auto simp: opened_def open_on_def ramfs_open2_def open2_slot_def abi_errors_def Let_def
      split: option.splits if_splits bind_splits sum.splits prod.splits)
qed

section \<open>The dispatcher\<close>

lemma typed_if: "(b \<Longrightarrow> typed x t) \<Longrightarrow> (\<not> b \<Longrightarrow> typed y t) \<Longrightarrow> typed (if b then x else y) t"
  by simp

lemma typed_int: "int_result n (fst r) \<Longrightarrow> fst r < 2147483648 \<Longrightarrow> typed (ret_int r) (Count_result n)"
  by (simp add: of_type_int del: of_type.simps)

lemma typed_on_exit: "has_type v t \<Longrightarrow> typed (on_exit r v s) t"
  by (auto simp: typed_def on_exit_def split: bind_splits)

lemma of_type_0 [simp]: "of_type 0 (Count_result n)" "of_type 0 Char_result" "of_type 1 (Count_result (Suc n))"
  by simp_all

lemma typed_port: "LENGTH('a) \<le> 32 \<Longrightarrow> typed (call_port (acc :: port_log \<Rightarrow> 'a::len word \<times> port_log) s) (Word_result (LENGTH('a)))"
  by (auto simp: call_port_def unsigned_ucast_eq intro!: order.strict_trans1 [OF take_bit_nat_less_eq_self] unsigned_less split: prod.splits)

lemma typed_getchar: "typed (call_getchar s) Char_result"
proof -
  have "- 128 \<le> sint (scast c :: u32) \<and> sint (scast c :: u32) < 128" for c :: u8
    using sint_ge [of c] sint_lt [of c] by (simp add: signed_scast_eq signed_take_bit_int_eq_self)
  then show ?thesis by (auto simp: call_getchar_def Let_def split: prod.splits)
qed

lemma typed_open:
  assumes ok: "machine_ok p (Suc n) s" and a: "path_arg s a1"
  shows "typed (call_open a1 a2 s) Fd_result" "typed (call_open2 a1 a2 s) Fd_result"
proof -
  obtain prog where prog: "user_path (mem_of s) a1 = Some prog" "path_ok prog" using a by (auto simp: path_arg_def)
  note o = open_results [OF machine_okD(2) [OF ok] prog(2), of a2]
  have "typed (ret_int (if r < 0 then -1 else sys_wrap_fd r, s\<lparr>m_files := f\<rparr>)) Fd_result" if "ramfs_open prog a2 (m_files s) = Some (r, f)" for r f
    using o(1) [OF that] unfolding typed_ret by (intro of_type_fd) (auto simp: sys_wrap_fd_def abi_errors_def)
  then show "typed (call_open a1 a2 s) Fd_result" unfolding call_open_def prog(1)
    by (auto intro!: typed_bind split: prod.splits)
  have "typed (ret_int (sys_wrap_fd r, s\<lparr>m_files := f\<rparr>)) Fd_result" if "ramfs_open2 prog a2 (m_files s) = Some (r, f)" for r f
    using o(2) [OF that] abi_errors_bounds [of "- r"] unfolding typed_ret by (intro of_type_fd) (auto simp: sys_wrap_fd_def)
  then show "typed (call_open2 a1 a2 s) Fd_result" unfolding call_open2_def prog(1)
    by (auto intro!: typed_bind split: prod.splits)
qed

lemma small_result: "int_result n r \<Longrightarrow> n < 2147483648 \<Longrightarrow> r < 2147483648"
  using abi_errors_bounds [of "- r"] by (auto simp: int_result_def)

lemma small_type: "int_result n r \<Longrightarrow> n < 2147483648 \<Longrightarrow> of_type (word_of_int r) (Count_result n)"
  by (rule of_type_int) (simp_all add: small_result)

declare of_type.simps [simp del]

lemma typed_dirs: "typed (call_mkdir a1 s) (Count_result 0)" "typed (call_unlink a1 s) (Count_result 0)" "typed (call_rmdir a1 s) (Count_result 0)"
proof -
  have i: "of_type (word_of_int r) (Count_result 0)" if "int_result 0 r" for r
    using that by (rule small_type) simp
  show "typed (call_mkdir a1 s) (Count_result 0)" unfolding call_mkdir_def
    by (auto intro!: typed_bind dest!: dir_results simp: i split: prod.splits)
  show "typed (call_unlink a1 s) (Count_result 0)" unfolding call_unlink_def
    by (auto intro!: typed_bind dest!: dir_results simp: i split: prod.splits)
  show "typed (call_rmdir a1 s) (Count_result 0)" unfolding call_rmdir_def
    by (auto intro!: typed_bind dest!: dir_results simp: i split: prod.splits)
qed

lemma typed_calls:
  "typed (call_exit a1 s) No_result" "typed (call_putchar a1 s) No_result" "typed (call_reset dev s) No_result"
  "typed (call_sbrk p a1 s) (Word_result 32)" "typed (call_ls a1 s) (Count_result 0)" "typed (call_clear_screen s) (Count_result 0)"
  "typed (call_wait a1 s) (Word_result 32)" "typed (call_getpid s) (Word_result 32)" "typed (call_times a1 s) (Word_result 32)"
  "typed (call_gettimeofday a1 s) (Count_result 0)" "typed (call_unknown k s) (Count_result 0)" "typed (call_kill a1 sg s) (Count_result 0)"
  "typed (call_stat a1 a2 s) (Count_result 0)"
proof -
  have w: "of_type v (Word_result 32)" for v using unsigned_less [of v] by (simp add: of_type.simps)
  have e: "of_type (- 14) (Count_result 0)" "of_type (- 88) (Count_result 0)" "of_type (- 22) (Count_result 0)" "of_type (- 3) (Count_result 0)"
    using of_type_error [of 14 0] of_type_error [of 88 0] of_type_error [of 22 0] of_type_error [of 3 0] by (simp_all add: abi_errors_def)
  note defs = call_exit_def call_putchar_def call_reset_def call_sbrk_def call_ls_def call_clear_screen_def call_wait_def call_getpid_def
    call_times_def call_gettimeofday_def call_unknown_def call_kill_def call_stat_def Let_def
  show "typed (call_exit a1 s) No_result" unfolding defs by (rule typed_on_exit) (simp add: has_type_def)
  show "typed (call_putchar a1 s) No_result" unfolding defs by (auto simp: typed_def has_type_def)
  show "typed (call_reset dev s) No_result" unfolding defs by (auto simp: typed_def has_type_def split: bind_splits)
  show "typed (call_sbrk p a1 s) (Word_result 32)" "typed (call_wait a1 s) (Word_result 32)" "typed (call_getpid s) (Word_result 32)"
    "typed (call_times a1 s) (Word_result 32)"
    unfolding defs by (auto intro!: typed_bind w split: prod.splits)
  show "typed (call_ls a1 s) (Count_result 0)" "typed (call_clear_screen s) (Count_result 0)" "typed (call_gettimeofday a1 s) (Count_result 0)"
    "typed (call_unknown k s) (Count_result 0)" unfolding defs by (auto intro!: typed_bind simp: e)
  show "typed (call_kill a1 sg s) (Count_result 0)" unfolding defs
    by (auto intro!: typed_bind typed_on_exit simp: e has_type_def)
  show "typed (call_stat a1 a2 s) (Count_result 0)" unfolding defs
    by (auto intro!: typed_bind small_type dest: ramfs_stat_result simp: e split: prod.splits option.splits)
qed

lemma typed_exec:
  assumes "platform_ok p" "machine_ok p n s"
  shows "typed (call_exec p a1 a2 a3 s) (Count_result 0)"
proof -
  have "r = 0 \<or> r = -1" if "exec_run (p_heap_start p) (p_heap_end p) (p_kernel_start p) (p_kernel_end p) (p_task_enter p) f prog x y (m_kern s) =
      Some (r, sw, k)" for f prog x y r sw k
  proof -
    obtain rest L where e: "exec_ok (p_heap_start p) (p_heap_end p) (p_kernel_start p) (p_kernel_end p) (m_kern s) rest L"
      using machine_okD(1) [OF assms(2)] by (auto simp: kern_ok_def proc_good_def)
    obtain t where "tasks (m_kern s) (current_task (m_kern s)) = Some t" using kern_ok_current [OF machine_okD(1) [OF assms(2)]] by blast
    from exec_run_spec [OF platform_okD [OF assms(1)] e this, of "p_task_enter p" f prog x y] that show ?thesis by auto
  qed
  moreover have "of_type (- 1) (Count_result 0)" using of_type_error [of 1 0] by (simp add: abi_errors_def)
  ultimately show ?thesis
    by (fastforce simp: typed_def has_type_def call_exec_def split: bind_splits)
qed

text \<open>How newlib reads a result of such a type: an error number, or the value unchanged.\<close>

lemma sys_result_typed:
  assumes "of_type v (Count_result n)"
  shows "sys_result v st = (if sint v < 0 then (-1, set_errno (- sint v) st) else (sint v, st))"
    "sint v < 0 \<Longrightarrow> - sint v \<in> abi_errors" "\<not> sint v < 0 \<Longrightarrow> sint v \<le> int n"
  using assms abi_errors_bounds [of "- sint v"] by (auto simp: sys_result_def of_type.simps)



end
