(* ===== verification/Programs.thy ===== *)
theory Programs
  imports User_Calls
begin

text \<open>
  What the user programs of \<open>userland\<close> use of the C library beyond the system calls, and the small
  programs: \<open>hello.c\<close>, \<open>uptime.c\<close> and \<open>beep.c\<close>. The C library is newlib, which is not part of the
  repository: \<open>printf\<close> formats its arguments as the standard says, and what becomes of the characters
  is the field \<open>out\<close>. String literals are constants; those whose address goes to the kernel are
  stored at addresses of their own.
\<close>

section \<open>Formatted output\<close>

record 'w program = "'w os" +
  out :: "u8 list \<Rightarrow> 'w \<Rightarrow> 'w option"

datatype fmt_arg = Str string | Chr u8 | Num u32

fun decimal_loop :: "nat \<Rightarrow> nat \<Rightarrow> string \<Rightarrow> string" where
  "decimal_loop 0 n s = s"
| "decimal_loop (Suc k) n s =
     (let s1 = char_of (48 + n mod 10) # s in if n div 10 = 0 then s1 else decimal_loop k (n div 10) s1)"

text \<open>A 32-bit number has at most ten digits.\<close>

definition decimal :: "u32 \<Rightarrow> string" where
  "decimal v = decimal_loop 10 (unat v) []"

fun c_format :: "string \<Rightarrow> fmt_arg list \<Rightarrow> u8 list option" where
  "c_format [] args = Some []"
| "c_format (c # f) args =
     (if c \<noteq> CHR ''%'' then map_option ((#) (of_char c)) (c_format f args)
      else case (f, args) of
          (CHR ''s'' # f1, Str s # args1) \<Rightarrow> map_option ((@) (map of_char s)) (c_format f1 args1)
        | (CHR ''c'' # f1, Chr x # args1) \<Rightarrow> map_option ((#) x) (c_format f1 args1)
        | (CHR ''l'' # CHR ''u'' # f1, Num v # args1) \<Rightarrow> map_option ((@) (map of_char (decimal v))) (c_format f1 args1)
        | _ \<Rightarrow> None)"

definition printf :: "('w, 'z) program_scheme \<Rightarrow> string \<Rightarrow> fmt_arg list \<Rightarrow> 'w \<Rightarrow> 'w option" where
  "printf e format args w = Option.bind (c_format format args) (\<lambda>bs. out e bs w)"

abbreviation nl :: string where "nl \<equiv> [CHR 0x0A]"

text \<open>A store to the program's memory, and \<open>strcmp\<close> with a string literal.\<close>

definition poke :: "('w, 'z) os_scheme \<Rightarrow> u32 \<Rightarrow> u8 \<Rightarrow> 'w \<Rightarrow> 'w" where
  "poke e a v w = uput e ((umem e w)(a := v)) w"

definition strcmp_lit :: "mem \<Rightarrow> u32 \<Rightarrow> string \<Rightarrow> int option" where
  "strcmp_lit m a s = map_option (\<lambda>t. strcmp_l t s) (read_cstr m a)"

section \<open>The small programs\<close>

definition hello_main :: "('w, 'z) program_scheme \<Rightarrow> u32 list \<Rightarrow> 'w \<Rightarrow> (int \<times> 'w) option" where
  "hello_main e argv w =
     do {
       w1 \<leftarrow> printf e (''Hello from an ELF-loaded user program!'' @ nl) [] w;
       (if 1 < length argv then do {
          s \<leftarrow> read_cstr (umem e w1) (argv ! 1);
          w2 \<leftarrow> printf e (''%s'' @ nl) [Str s] w1;
          Some (0, w2)
        } else None)
     }"

definition uptime_main :: "('w, 'z) program_scheme \<Rightarrow> 'w \<Rightarrow> (int \<times> 'w) option" where
  "uptime_main e w =
     do {
       (ticks, w1) \<leftarrow> syscall_get_ticks e w;
       w2 \<leftarrow> printf e (''uptime: %lu timer ticks since boot'' @ nl) [Num ticks] w1;
       Some (0, w2)
     }"

definition PIT_FREQ_HZ :: u32 where "PIT_FREQ_HZ = 1193182"

definition speaker_on :: "('w, 'z) program_scheme \<Rightarrow> u32 \<Rightarrow> 'w \<Rightarrow> 'w option" where
  "speaker_on e frequency w =
     (if frequency = 0 then None
      else let divisor = PIT_FREQ_HZ div frequency in do {
        (_, w1) \<leftarrow> syscall_outport8 e 0x43 0xB6 w;
        (_, w2) \<leftarrow> syscall_outport8 e 0x42 (ucast (divisor AND 0xFF)) w1;
        (_, w3) \<leftarrow> syscall_outport8 e 0x42 (ucast (drop_bit 8 divisor AND 0xFF)) w2;
        (tmp, w4) \<leftarrow> syscall_inport8 e 0x61 w3;
        (if tmp AND 3 \<noteq> 3 then map_option snd (syscall_outport8 e 0x61 (tmp OR 3) w4) else Some w4)
      })"

definition speaker_off :: "('w, 'z) program_scheme \<Rightarrow> 'w \<Rightarrow> 'w option" where
  "speaker_off e w =
     do {
       (tmp, w1) \<leftarrow> syscall_inport8 e 0x61 w;
       map_option snd (syscall_outport8 e 0x61 (tmp AND 0xFC) w1)
     }"

text \<open>\<open>while (_syscall_get_ticks() - start < 30)\<close>, unsigned.\<close>

partial_function (option) wait_ticks :: "('w, 'z) program_scheme \<Rightarrow> u32 \<Rightarrow> 'w \<Rightarrow> 'w option" where
  "wait_ticks e start w =
     Option.bind (syscall_get_ticks e w) (\<lambda>(t, w1). if t - start < 30 then wait_ticks e start w1 else Some w1)"

definition beep_main :: "('w, 'z) program_scheme \<Rightarrow> 'w \<Rightarrow> (int \<times> 'w) option" where
  "beep_main e w =
     do {
       w1 \<leftarrow> printf e (''beep: 880Hz for 30 ticks...'' @ nl) [] w;
       w2 \<leftarrow> speaker_on e 880 w1;
       (start, w3) \<leftarrow> syscall_get_ticks e w2;
       w4 \<leftarrow> wait_ticks e start w3;
       w5 \<leftarrow> speaker_off e w4;
       w6 \<leftarrow> printf e (''beep: done.'' @ nl) [] w5;
       Some (0, w6)
     }"

end
