(* ===== verification/Shell.thy ===== *)
theory Shell
  imports Programs
begin

text \<open>
  The shell, \<open>userland/shell.c\<close>: the reading of a line, its division into words, the built-in commands
  and the execution of programs from \<open>bin/\<close>. The line is memory at \<open>line_at\<close>; the local arrays \<open>path\<close>
  and \<open>new_argv\<close>, which the kernel reads, are memory at \<open>path_at\<close> and \<open>new_argv_at\<close>. The array \<open>argv\<close> of
  \<open>main\<close>, which only the program itself uses, is the list of the addresses of the words, of length
  \<open>argc\<close>. The allocator of newlib is the fields \<open>u_malloc\<close> and \<open>u_free\<close>.
\<close>

definition SHELL_BUFFER_SIZE :: u32 where "SHELL_BUFFER_SIZE = 256"
definition SHELL_MAX_ARGS :: int where "SHELL_MAX_ARGS = 16"
definition CAT_BUF_SIZE :: u32 where "CAT_BUF_SIZE = 256"
definition BIN_PATH_PREFIX :: string where "BIN_PATH_PREFIX = ''bin/''"
definition BIN_PATH_MAX :: u32 where "BIN_PATH_MAX = SHELL_BUFFER_SIZE + (of_nat (length BIN_PATH_PREFIX) + 1)"

record 'w shell_os = "'w program" +
  line_at :: u32
  path_at :: u32
  new_argv_at :: u32
  space_at :: u32
  empty_at :: u32
  u_malloc :: "u32 \<Rightarrow> 'w \<Rightarrow> (u32 \<times> 'w) option"
  u_free :: "u32 \<Rightarrow> 'w \<Rightarrow> 'w option"
  unbuffer :: "'w \<Rightarrow> 'w"

type_synonym 'w ran = "(int \<times> 'w) option"

section \<open>The table of commands\<close>

datatype handler =
    Cmd_help | Cmd_clear | Cmd_echo | Cmd_ls | Cmd_cat | Cmd_touch | Cmd_write | Cmd_mkdir | Cmd_rmdir | Cmd_rm
  | Cmd_uname | Cmd_reboot | Cmd_exec | Cmd_exit

definition commands :: "(string \<times> handler \<times> string) list" where
  "commands =
     [(''help'', Cmd_help, ''Show available commands''),
      (''clear'', Cmd_clear, ''Clear the screen''),
      (''echo'', Cmd_echo, ''Print text''),
      (''ls'', Cmd_ls, ''List files in directory''),
      (''cat'', Cmd_cat, ''Display file contents''),
      (''touch'', Cmd_touch, ''Create an empty file''),
      (''write'', Cmd_write, ''Write text to a file''),
      (''mkdir'', Cmd_mkdir, ''Create a directory''),
      (''rmdir'', Cmd_rmdir, ''Remove a directory''),
      (''rm'', Cmd_rm, ''Delete a file''),
      (''uname'', Cmd_uname, ''Display system information''),
      (''reboot'', Cmd_reboot, ''Reboot the system''),
      (''exec'', Cmd_exec, ''Load and run an ELF binary''),
      (''exit'', Cmd_exit, ''Exit the shell'')]"

section \<open>Commands that print\<close>

fun help_lines :: "('w, 'z) shell_os_scheme \<Rightarrow> (string \<times> handler \<times> string) list \<Rightarrow> 'w \<Rightarrow> 'w option" where
  "help_lines e [] w = Some w"
| "help_lines e ((name, _, description) # cmds) w =
     do { w1 \<leftarrow> printf e (''  %s - %s'' @ nl) [Str name, Str description] w; help_lines e cmds w1 }"

definition cmd_help :: "('w, 'z) shell_os_scheme \<Rightarrow> 'w \<Rightarrow> 'w ran" where
  "cmd_help e w =
     do { w1 \<leftarrow> printf e (''Available commands:'' @ nl) [] w; w2 \<leftarrow> help_lines e commands w1; Some (0, w2) }"

text \<open>A message about an argument.\<close>

definition print_arg :: "('w, 'z) shell_os_scheme \<Rightarrow> string \<Rightarrow> u32 \<Rightarrow> 'w \<Rightarrow> 'w option" where
  "print_arg e format a w = do { s \<leftarrow> read_cstr (umem e w) a; printf e format [Str s] w }"

definition cmd_clear :: "('w, 'z) shell_os_scheme \<Rightarrow> 'w \<Rightarrow> 'w ran" where
  "cmd_clear e w = do { w1 \<leftarrow> syscall_clear e w; Some (0, w1) }"

fun echo_args :: "('w, 'z) shell_os_scheme \<Rightarrow> u32 list \<Rightarrow> 'w \<Rightarrow> 'w option" where
  "echo_args e [] w = Some w"
| "echo_args e (a # as) w =
     do {
       w1 \<leftarrow> print_arg e ''%s'' a w;
       w2 \<leftarrow> (if as \<noteq> [] then printf e '' '' [] w1 else Some w1);
       echo_args e as w2
     }"

definition cmd_echo :: "('w, 'z) shell_os_scheme \<Rightarrow> u32 list \<Rightarrow> 'w \<Rightarrow> 'w ran" where
  "cmd_echo e argv w = do { w1 \<leftarrow> echo_args e (tl argv) w; w2 \<leftarrow> printf e nl [] w1; Some (0, w2) }"

definition cmd_uname :: "('w, 'z) shell_os_scheme \<Rightarrow> 'w \<Rightarrow> 'w ran" where
  "cmd_uname e w =
     do {
       w1 \<leftarrow> printf e (''System Information:'' @ nl) [] w;
       w2 \<leftarrow> printf e (''  Kernel: chales-os'' @ nl) [] w1;
       w3 \<leftarrow> printf e (''  Architecture: i386'' @ nl) [] w2;
       w4 \<leftarrow> printf e (''  Compiler: GCC (cross-compiler)'' @ nl) [] w3;
       Some (0, w4)
     }"

definition cmd_reboot :: "('w, 'z) shell_os_scheme \<Rightarrow> 'w \<Rightarrow> 'w ran" where
  "cmd_reboot e w = do { w1 \<leftarrow> printf e (''Rebooting...'' @ nl) [] w; w2 \<leftarrow> syscall_reboot e w1; Some (0, w2) }"

definition cmd_exit :: "('w, 'z) shell_os_scheme \<Rightarrow> 'w \<Rightarrow> 'w ran" where
  "cmd_exit e w = do { w1 \<leftarrow> syscall_exit e 0 w; Some (0, w1) }"

section \<open>Commands on files\<close>

text \<open>A usage message, or an error about an argument: the handlers return 1 after it.\<close>

definition usage :: "('w, 'z) shell_os_scheme \<Rightarrow> string \<Rightarrow> 'w \<Rightarrow> 'w ran" where
  "usage e msg w = map_option (Pair 1) (printf e (msg @ nl) [] w)"

definition failed :: "('w, 'z) shell_os_scheme \<Rightarrow> string \<Rightarrow> u32 \<Rightarrow> 'w \<Rightarrow> 'w ran" where
  "failed e msg a w = map_option (Pair 1) (print_arg e (msg @ '' '%s'' @ [CHR 0x27] @ nl) a w)"

definition cmd_ls :: "('w, 'z) shell_os_scheme \<Rightarrow> u32 list \<Rightarrow> 'w \<Rightarrow> 'w ran" where
  "cmd_ls e argv w =
     (let p = (if 2 \<le> length argv then argv ! 1 else empty_at e) in
      do { w1 \<leftarrow> syscall_ls e p w; Some (0, w1) })"

text \<open>The characters \<open>buffer[i]\<close> for \<open>i < bytes\<close>.\<close>

fun print_chars :: "('w, 'z) shell_os_scheme \<Rightarrow> u32 \<Rightarrow> nat \<Rightarrow> 'w \<Rightarrow> 'w option" where
  "print_chars e a 0 w = Some w"
| "print_chars e a (Suc n) w = do { w1 \<leftarrow> printf e ''%c'' [Chr (umem e w a)] w; print_chars e (a + 1) n w1 }"

partial_function (option) cat_loop :: "('w, 'z) shell_os_scheme \<Rightarrow> u32 \<Rightarrow> u32 \<Rightarrow> 'w \<Rightarrow> 'w option" where
  "cat_loop e fd buffer w =
     do {
       (bytes, w1) \<leftarrow> syscall_read e fd buffer CAT_BUF_SIZE w;
       (if 0 < sint bytes then do { w2 \<leftarrow> print_chars e buffer (unat bytes) w1; cat_loop e fd buffer w2 } else Some w1)
     }"

definition cmd_cat :: "('w, 'z) shell_os_scheme \<Rightarrow> u32 list \<Rightarrow> 'w \<Rightarrow> 'w ran" where
  "cmd_cat e argv w =
     (if length argv < 2 then usage e ''Usage: cat <filename>'' w
      else do {
        (fd, w1) \<leftarrow> syscall_open e (argv ! 1) 0 w;
        (if sint fd < 0 then failed e ''Error: cannot open file'' (argv ! 1) w1
         else do {
           (buffer, w2) \<leftarrow> u_malloc e CAT_BUF_SIZE w1;
           (if buffer = 0 then do {
              w3 \<leftarrow> printf e (''Error: out of memory'' @ nl) [] w2;
              (_, w4) \<leftarrow> syscall_close e fd w3;
              Some (1, w4)
            }
            else do {
              w3 \<leftarrow> cat_loop e fd buffer w2;
              w4 \<leftarrow> printf e nl [] w3;
              w5 \<leftarrow> u_free e buffer w4;
              (_, w6) \<leftarrow> syscall_close e fd w5;
              Some (0, w6)
            })
         })
      })"

definition cmd_touch :: "('w, 'z) shell_os_scheme \<Rightarrow> u32 list \<Rightarrow> 'w \<Rightarrow> 'w ran" where
  "cmd_touch e argv w =
     (if length argv < 2 then usage e ''Usage: touch <filename>'' w
      else do {
        (fd, w1) \<leftarrow> syscall_open e (argv ! 1) 1 w;
        (if sint fd < 0 then failed e ''Error: cannot create file'' (argv ! 1) w1
         else do { (_, w2) \<leftarrow> syscall_close e fd w1; Some (0, w2) })
      })"

text \<open>The words from the third on, with single spaces between them. The results of the calls are dropped.\<close>

fun write_args :: "('w, 'z) shell_os_scheme \<Rightarrow> u32 \<Rightarrow> u32 list \<Rightarrow> 'w \<Rightarrow> 'w option" where
  "write_args e fd [] w = Some w"
| "write_args e fd (a # as) w =
     do {
       n \<leftarrow> strlen (umem e w) a;
       (_, w1) \<leftarrow> syscall_write e fd a n w;
       w2 \<leftarrow> (if as \<noteq> [] then map_option snd (syscall_write e fd (space_at e) 1 w1) else Some w1);
       write_args e fd as w2
     }"

definition cmd_write :: "('w, 'z) shell_os_scheme \<Rightarrow> u32 list \<Rightarrow> 'w \<Rightarrow> 'w ran" where
  "cmd_write e argv w =
     (if length argv < 3 then usage e ''Usage: write <file> <text>'' w
      else do {
        (fd, w1) \<leftarrow> syscall_open e (argv ! 1) 1 w;
        (if sint fd < 0 then failed e ''Error: cannot open'' (argv ! 1) w1
         else do {
           w2 \<leftarrow> write_args e fd (drop 2 argv) w1;
           (_, w3) \<leftarrow> syscall_close e fd w2;
           Some (0, w3)
         })
      })"

text \<open>\<open>redirect\<close>, which no command calls: it ends without a return value, here \<open>None\<close> in the first component.\<close>

definition redirect :: "('w, 'z) shell_os_scheme \<Rightarrow> u32 list \<Rightarrow> 'w \<Rightarrow> (int option \<times> 'w) option" where
  "redirect e argv w =
     (if argv = [] then None
      else do {
        (fd, w1) \<leftarrow> syscall_open e (last argv) 1 w;
        (if sint fd < 0 then map_option (\<lambda>(r, w2). (Some r, w2)) (failed e ''Error: cannot open'' (last argv) w1)
         else map_option (Pair None) (write_args e fd (drop 2 argv) w1))
      })"

definition cmd_mkdir :: "('w, 'z) shell_os_scheme \<Rightarrow> u32 list \<Rightarrow> 'w \<Rightarrow> 'w ran" where
  "cmd_mkdir e argv w =
     (if length argv < 2 then usage e ''Usage: mkdir <dirname>'' w
      else do {
        (r, w1) \<leftarrow> syscall_mkdir e (argv ! 1) w;
        (if sint r < 0 then failed e ''Error: cannot create directory'' (argv ! 1) w1 else Some (0, w1))
      })"

definition cmd_rmdir :: "('w, 'z) shell_os_scheme \<Rightarrow> u32 list \<Rightarrow> 'w \<Rightarrow> 'w ran" where
  "cmd_rmdir e argv w =
     (if length argv < 2 then usage e ''Usage: rmdir <dirname>'' w
      else do {
        (r, w1) \<leftarrow> syscall_rmdir e (argv ! 1) w;
        (if sint r < 0 then failed e ''Error: cannot remove directory'' (argv ! 1) w1 else Some (0, w1))
      })"

definition cmd_rm :: "('w, 'z) shell_os_scheme \<Rightarrow> u32 list \<Rightarrow> 'w \<Rightarrow> 'w ran" where
  "cmd_rm e argv w =
     (if length argv < 2 then usage e ''Usage: rm <filename>'' w
      else do {
        (r, w1) \<leftarrow> syscall_unlink e (argv ! 1) w;
        (if sint r < 0 then failed e ''Error: cannot delete'' (argv ! 1) w1 else Some (0, w1))
      })"

section \<open>Programs\<close>

text \<open>The argument array in memory and the call. \<open>exec\<close> returns 1 whether the program ran or not.\<close>

definition cmd_exec :: "('w, 'z) shell_os_scheme \<Rightarrow> u32 list \<Rightarrow> 'w \<Rightarrow> 'w ran" where
  "cmd_exec e argv w =
     (if length argv < 2 then usage e ''Usage: exec <path> [<arg>...]'' w
      else do {
        (_, w1) \<leftarrow> syscall_execv e (argv ! 1) (new_argv_at e) 0
          (uput e (store_words (new_argv_at e) (tl argv @ [0]) (umem e w)) w);
        Some (1, w1)
      })"

definition run_handler :: "('w, 'z) shell_os_scheme \<Rightarrow> handler \<Rightarrow> u32 list \<Rightarrow> 'w \<Rightarrow> 'w ran" where
  "run_handler e h argv w =
     (case h of
        Cmd_help \<Rightarrow> cmd_help e w | Cmd_clear \<Rightarrow> cmd_clear e w | Cmd_echo \<Rightarrow> cmd_echo e argv w | Cmd_ls \<Rightarrow> cmd_ls e argv w
      | Cmd_cat \<Rightarrow> cmd_cat e argv w | Cmd_touch \<Rightarrow> cmd_touch e argv w | Cmd_write \<Rightarrow> cmd_write e argv w
      | Cmd_mkdir \<Rightarrow> cmd_mkdir e argv w | Cmd_rmdir \<Rightarrow> cmd_rmdir e argv w | Cmd_rm \<Rightarrow> cmd_rm e argv w
      | Cmd_uname \<Rightarrow> cmd_uname e w | Cmd_reboot \<Rightarrow> cmd_reboot e w | Cmd_exec \<Rightarrow> cmd_exec e argv w | Cmd_exit \<Rightarrow> cmd_exit e w)"

fun find_command :: "mem \<Rightarrow> u32 \<Rightarrow> (string \<times> handler \<times> string) list \<Rightarrow> handler option option" where
  "find_command m a [] = Some None"
| "find_command m a ((name, h, _) # cmds) =
     do { d \<leftarrow> strcmp_lit m a name; if d = 0 then Some (Some h) else find_command m a cmds }"

text \<open>The characters of a literal, stored one after the other.\<close>

fun store_chars_at :: "u32 \<Rightarrow> string \<Rightarrow> mem \<Rightarrow> mem" where
  "store_chars_at a [] m = m"
| "store_chars_at a (c # s) m = store_chars_at (a + 1) s (m(a := of_char c))"

definition run_program :: "('w, 'z) shell_os_scheme \<Rightarrow> u32 list \<Rightarrow> 'w \<Rightarrow> 'w ran" where
  "run_program e argv w =
     do {
       name_len \<leftarrow> strlen (umem e w) (argv ! 0);
       (if BIN_PATH_MAX < name_len + (of_nat (length BIN_PATH_PREFIX) + 1)
        then map_option (Pair 127) (print_arg e (''Unknown command: %s'' @ nl) (argv ! 0) w)
        else
          let start = path_at e + of_nat (length BIN_PATH_PREFIX);
              m1 = store_chars_at (path_at e) BIN_PATH_PREFIX (umem e w);
              m2 = memcpy m1 start (argv ! 0) (unat name_len);
              m3 = m2(start + name_len := 0);
              m4 = store_words (new_argv_at e) (path_at e # tl argv @ [0]) m3
          in do {
            (ret, w1) \<leftarrow> syscall_execv e (path_at e) (new_argv_at e) 0 (uput e m4 w);
            (if ret \<noteq> 0 then map_option (Pair 127) (print_arg e (''Unknown command: %s'' @ nl) (argv ! 0) w1)
             else Some (0, w1))
          })
     }"

definition shell_execute_command :: "('w, 'z) shell_os_scheme \<Rightarrow> u32 list \<Rightarrow> 'w \<Rightarrow> 'w ran" where
  "shell_execute_command e argv w =
     (if argv = [] then Some (0, w)
      else do {
        found \<leftarrow> find_command (umem e w) (argv ! 0) commands;
        (case found of Some h \<Rightarrow> run_handler e h argv w | None \<Rightarrow> run_program e argv w)
      })"

section \<open>Reading a line\<close>

text \<open>\<open>char\<close> is signed. The result is the index, the line is in the buffer.\<close>

partial_function (option) read_chars :: "('w, 'z) shell_os_scheme \<Rightarrow> u32 \<Rightarrow> u32 \<Rightarrow> nat \<Rightarrow> 'w \<Rightarrow> (nat \<times> 'w) option" where
  "read_chars e buffer max_size index w =
     (if int index < sint max_size - 1 then do {
        (r, w1) \<leftarrow> syscall_getchar e w;
        (let c = ucast r :: u8; here = buffer + of_nat index in
         if c = 0 then read_chars e buffer max_size index w1
         else if c = 10 then do { w2 \<leftarrow> printf e nl [] (poke e here 0 w1); Some (index, w2) }
         else if c = 8 then
           (if 0 < index then do { w2 \<leftarrow> printf e [CHR 0x08] [] w1; read_chars e buffer max_size (index - 1) w2 }
            else read_chars e buffer max_size index w1)
         else if 32 \<le> sint c \<and> sint c < 127 then
           do { w2 \<leftarrow> printf e ''%c'' [Chr c] (poke e here c w1); read_chars e buffer max_size (index + 1) w2 }
         else read_chars e buffer max_size index w1)
      }
      else Some (index, poke e (buffer + of_nat index) 0 w))"

definition shell_read_line :: "('w, 'z) shell_os_scheme \<Rightarrow> u32 \<Rightarrow> u32 \<Rightarrow> 'w \<Rightarrow> (nat \<times> 'w) option" where
  "shell_read_line e buffer max_size = read_chars e buffer max_size 0"

section \<open>Dividing it into words\<close>

partial_function (option) skip_blanks :: "mem \<Rightarrow> u32 \<Rightarrow> u32 option" where
  "skip_blanks m p = (if m p \<noteq> 0 \<and> (m p = 32 \<or> m p = 9) then skip_blanks m (p + 1) else Some p)"

partial_function (option) word_end :: "mem \<Rightarrow> u32 \<Rightarrow> u32 option" where
  "word_end m p = (if m p \<noteq> 0 \<and> m p \<noteq> 32 \<and> m p \<noteq> 9 then word_end m (p + 1) else Some p)"

text \<open>The addresses of the words, and the memory, where they are terminated.\<close>

partial_function (option) parse_words :: "int \<Rightarrow> u32 \<Rightarrow> u32 list \<Rightarrow> mem \<Rightarrow> (u32 list \<times> mem) option" where
  "parse_words max_args p argv m =
     (if m p \<noteq> 0 \<and> int (length argv) < max_args then do {
        p1 \<leftarrow> skip_blanks m p;
        (if m p1 = 0 then Some (argv, m)
         else do {
           p2 \<leftarrow> word_end m p1;
           (if m p2 \<noteq> 0 then parse_words max_args (p2 + 1) (argv @ [p1]) (m(p2 := 0))
            else parse_words max_args p2 (argv @ [p1]) m)
         })
      }
      else Some (argv, m))"

definition shell_parse_command :: "u32 \<Rightarrow> int \<Rightarrow> mem \<Rightarrow> (u32 list \<times> mem) option" where
  "shell_parse_command line max_args m = parse_words max_args line [] m"

section \<open>The main loop\<close>

definition shell_turn :: "('w, 'z) shell_os_scheme \<Rightarrow> 'w \<Rightarrow> 'w option" where
  "shell_turn e w =
     do {
       w1 \<leftarrow> printf e ''> '' [] w;
       (_, w2) \<leftarrow> shell_read_line e (line_at e) SHELL_BUFFER_SIZE w1;
       (argv, m) \<leftarrow> shell_parse_command (line_at e) SHELL_MAX_ARGS (umem e w2);
       let w3 = uput e m w2;
       (if 0 < length argv then map_option snd (shell_execute_command e argv w3) else Some w3)
     }"

definition shell_start :: "('w, 'z) shell_os_scheme \<Rightarrow> 'w \<Rightarrow> 'w option" where
  "shell_start e w =
     do {
       w1 \<leftarrow> printf e (nl @ ''chales-os shell'' @ nl) [] (unbuffer e w);
       printf e (''Type 'help' for available commands'' @ nl @ nl) [] w1
     }"

text \<open>\<open>main\<close> does not end: the first \<open>n\<close> turns of \<open>while (1)\<close>.\<close>

primrec shell_turns :: "('w, 'z) shell_os_scheme \<Rightarrow> nat \<Rightarrow> 'w \<Rightarrow> 'w option" where
  "shell_turns e 0 w = Some w"
| "shell_turns e (Suc n) w = Option.bind (shell_turn e w) (shell_turns e n)"

definition shell_main :: "('w, 'z) shell_os_scheme \<Rightarrow> nat \<Rightarrow> 'w \<Rightarrow> 'w option" where
  "shell_main e n w = Option.bind (shell_start e w) (shell_turns e n)"

end
