(* ===== verification/Newlib_Spec.thy ===== *)
theory Newlib_Spec
  imports Newlib User_Machine
begin

text \<open>
  What the C library's standard input promises: a line editor. The interface \<open>typed_input\<close> is what it
  needs of the kernel and the keyboard; it is interpreted on the kernel's model, with keys that
  arrive while the program polls.
\<close>

section \<open>The line editor\<close>

definition printable :: "u8 \<Rightarrow> bool" where
  "printable c \<longleftrightarrow> 32 \<le> c \<and> c < 127"

definition ends_line :: "u8 \<Rightarrow> bool" where
  "ends_line c \<longleftrightarrow> c = 10 \<or> c = 13"

text \<open>What one key makes of a line of at most \<open>cap\<close> characters, and what appears on the screen.\<close>

definition edit_key :: "nat \<Rightarrow> u8 list \<Rightarrow> u8 \<Rightarrow> u8 list" where
  "edit_key cap l c = (if c = 8 then butlast l else if printable c \<and> length l < cap then l @ [c] else l)"

definition key_echo :: "nat \<Rightarrow> u8 list \<Rightarrow> u8 \<Rightarrow> u8 list" where
  "key_echo cap l c = (if c = 8 then (if l = [] then [] else [8]) else if printable c \<and> length l < cap then [c] else [])"

fun edit_line :: "nat \<Rightarrow> u8 list \<Rightarrow> u8 list \<Rightarrow> u8 list" where
  "edit_line cap l [] = l"
| "edit_line cap l (c # ks) = edit_line cap (edit_key cap l c) ks"

fun line_echo :: "nat \<Rightarrow> u8 list \<Rightarrow> u8 list \<Rightarrow> u8 list" where
  "line_echo cap l [] = []"
| "line_echo cap l (c # ks) = key_echo cap l c @ line_echo cap (edit_key cap l c) ks"

lemma length_edit_key: "length l \<le> cap \<Longrightarrow> length (edit_key cap l c) \<le> cap"
  by (auto simp: edit_key_def)

lemma length_edit_line: "length l \<le> cap \<Longrightarrow> length (edit_line cap l ks) \<le> cap"
  by (induction ks arbitrary: l) (simp_all add: length_edit_key)

text \<open>A line without corrections that fits is taken as it is typed.\<close>

lemma edit_line_plain:
  "list_all printable ks \<Longrightarrow> length l + length ks \<le> cap \<Longrightarrow> edit_line cap l ks = l @ ks \<and> line_echo cap l ks = ks"
proof (induction ks arbitrary: l)
  case (Cons c ks)
  then have "c \<noteq> 8" by (auto simp: printable_def)
  then show ?case using Cons by (simp add: edit_key_def key_echo_def)
qed simp

lemma printable_signed: "printable c \<longleftrightarrow> 32 \<le> sint c \<and> sint c < 127" for c :: u8
  using uint_lt2p [of c] by (auto simp: printable_def word_le_def word_less_def sint_u8)

section \<open>The line in the buffer\<close>

abbreviation same_rest :: "newlib \<Rightarrow> newlib \<Rightarrow> bool" where
  "same_rest n1 n \<equiv> global_errno n1 = global_errno n \<and> errno n1 = errno n \<and> line_pos n1 = line_pos n"

definition line_is :: "newlib \<Rightarrow> u8 list \<Rightarrow> bool" where
  "line_is n l \<longleftrightarrow> length (line_buf n) = 256 \<and> line_len n \<le> 256 \<and> take (line_len n) (line_buf n) = l"

lemma line_isD: "line_is n l \<Longrightarrow> length (line_buf n) = 256 \<and> line_len n = length l \<and> length l \<le> 256"
  by (auto simp: line_is_def)

lemma line_is_snoc:
  assumes "line_is n l" "length l < 256"
  shows "line_is (n\<lparr>line_buf := (line_buf n)[line_len n := c], line_len := line_len n + 1\<rparr>) (l @ [c])"
  using assms line_isD [OF assms(1)] by (simp add: line_is_def take_Suc_conv_app_nth)

lemma line_is_butlast:
  assumes "line_is n l"
  shows "line_is (n\<lparr>line_len := line_len n - 1\<rparr>) (butlast l)"
proof -
  have "butlast (take (line_len n) (line_buf n)) = take (line_len n - 1) (line_buf n)"
    by (rule butlast_take) (use assms in \<open>simp add: line_is_def\<close>)
  then show ?thesis using assms by (auto simp: line_is_def)
qed

section \<open>The interface to the kernel\<close>

text \<open>A world in which a user types: the characters still to come, those already in the key buffer
  included; how many more reads can find the buffer empty before the next one arrives; and the
  screen.\<close>

locale typed_input =
  fixes e :: "'w newlib_os" and ok :: "'w \<Rightarrow> bool" and pending :: "'w \<Rightarrow> u8 list" and lag :: "'w \<Rightarrow> nat"
    and screen :: "'w \<Rightarrow> 't" and emit :: "u8 \<Rightarrow> 't \<Rightarrow> 't"
  assumes read_char: "ok w \<Longrightarrow> pending w = c # ks \<Longrightarrow> \<exists>r w'. trap e [8, 0, at_c e, 1] w = Some (r, w') \<and> ok w' \<and> screen w' = screen w \<and>
      (r = 1 \<and> umem e w' (at_c e) = c \<and> pending w' = ks \<or> r = - 11 \<and> pending w' = pending w \<and> lag w' < lag w)"
    and write_char: "ok w \<Longrightarrow> \<exists>w'. trap e [9, 1, at_echo e, 1] (uput e ((umem e w)(at_echo e := c)) w) = Some (1, w') \<and> ok w' \<and>
      pending w' = pending w \<and> screen w' = emit c (screen w)"
    and mem_put: "umem e (uput e m w) = m"
begin

lemma echo_spec: "ok w \<Longrightarrow> \<exists>w'. echo e c w = Some w' \<and> ok w' \<and> pending w' = pending w \<and> screen w' = emit c (screen w)"
  using write_char [of w c] by (auto simp: echo_def sys3_def)

text \<open>The loop waits for the next character and then handles it.\<close>

lemma read_line_next:
  assumes "ok w" "pending w = c # ks"
  shows "\<exists>w1. ok w1 \<and> pending w1 = ks \<and> screen w1 = screen w \<and>
    read_line_loop e n w = do { (done, n1, w2) \<leftarrow> line_char e c n w1; (if done then Some (n1, w2) else read_line_loop e n1 w2) }"
  using assms
proof (induction "lag w" arbitrary: w rule: less_induct)
  case less
  obtain r w' where r: "trap e [8, 0, at_c e, 1] w = Some (r, w')" "ok w'" "screen w' = screen w"
    "r = 1 \<and> umem e w' (at_c e) = c \<and> pending w' = ks \<or> r = - 11 \<and> pending w' = pending w \<and> lag w' < lag w"
    using read_char [OF less.prems] by blast
  from r(4) show ?case
  proof
    assume "r = 1 \<and> umem e w' (at_c e) = c \<and> pending w' = ks"
    then have "read_line_loop e n w = do { (done, n1, w2) \<leftarrow> line_char e c n w'; (if done then Some (n1, w2) else read_line_loop e n1 w2) }"
      using r(1) by (subst read_line_loop.simps) (simp add: sys3_def)
    then show ?thesis using r(2,3) \<open>r = 1 \<and> _\<close> by blast
  next
    assume a: "r = - 11 \<and> pending w' = pending w \<and> lag w' < lag w"
    then have "read_line_loop e n w = read_line_loop e n w'"
      using r(1) by (subst read_line_loop.simps) (simp add: sys3_def)
    then show ?thesis using less.hyps [of w'] a r(2,3) less.prems(2) by auto
  qed
qed

lemma line_char_edits:
  assumes ok: "ok w" and l: "line_is n l" "length l \<le> 255" and c: "\<not> ends_line c"
  shows "\<exists>n1 w1. line_char e c n w = Some (False, n1, w1) \<and> ok w1 \<and> pending w1 = pending w \<and> line_is n1 (edit_key 255 l c) \<and>
    screen w1 = fold emit (key_echo 255 l c) (screen w) \<and> same_rest n1 n"
proof -
  have p: "32 \<le> sint c \<and> sint c < 127 \<longleftrightarrow> printable c" by (simp add: printable_signed)
  have n: "line_len n = length l" "length (line_buf n) = 256" using line_isD [OF l(1)] by simp_all
  consider "c = 8" "l = []" | "c = 8" "l \<noteq> []" | "c \<noteq> 8" "printable c \<and> length l < 255" | "c \<noteq> 8" "\<not> (printable c \<and> length l < 255)" by blast
  then show ?thesis
  proof cases
    case 1
    then show ?thesis using ok l n c by (auto simp: line_char_def edit_key_def key_echo_def)
  next
    case 2
    then show ?thesis using echo_spec [OF ok, of 8] line_is_butlast [OF l(1)] n by (auto simp: line_char_def edit_key_def key_echo_def)
  next
    case 3
    then show ?thesis using echo_spec [OF ok, of c] line_is_snoc [OF l(1), of c] n c p
      by (auto simp: line_char_def edit_key_def key_echo_def ends_line_def)
  next
    case 4
    then show ?thesis using ok l n c p by (auto simp: line_char_def edit_key_def key_echo_def ends_line_def)
  qed
qed

lemma line_char_ends:
  assumes ok: "ok w" and l: "line_is n l" "length l \<le> 255" and c: "ends_line c"
  shows "\<exists>n1 w1. line_char e c n w = Some (True, n1, w1) \<and> ok w1 \<and> pending w1 = pending w \<and> line_is n1 (l @ [10]) \<and>
    screen w1 = emit 10 (screen w) \<and> same_rest n1 n"
  using echo_spec [OF ok, of 10] line_is_snoc [OF l(1), of 10] line_isD [OF l(1)] l(2) c
  by (auto simp: line_char_def ends_line_def)

text \<open>The loop is the line editor: it returns as soon as the line is complete, with the edited line.\<close>

lemma read_line_loop_spec:
  assumes "ok w" "pending w = ks @ d # rest" "\<forall>c \<in> set ks. \<not> ends_line c" "ends_line d" "line_is n l" "length l \<le> 255"
  shows "\<exists>n1 w1. read_line_loop e n w = Some (n1, w1) \<and> ok w1 \<and> pending w1 = rest \<and> line_is n1 (edit_line 255 l ks @ [10]) \<and>
    screen w1 = fold emit (line_echo 255 l ks @ [10]) (screen w) \<and> same_rest n1 n"
  using assms
proof (induction ks arbitrary: w n l)
  case Nil
  obtain w1 where w1: "ok w1" "pending w1 = rest" "screen w1 = screen w" "read_line_loop e n w =
      do { (done, n1, w2) \<leftarrow> line_char e d n w1; (if done then Some (n1, w2) else read_line_loop e n1 w2) }"
    using read_line_next [OF Nil.prems(1), of d rest n] Nil.prems(2) by auto
  obtain n2 w2 where "line_char e d n w1 = Some (True, n2, w2)" "ok w2" "pending w2 = pending w1" "line_is n2 (l @ [10])"
    "screen w2 = emit 10 (screen w1)" "same_rest n2 n"
    using line_char_ends [OF w1(1) Nil.prems(5,6,4)] by blast
  then show ?case using w1 by auto
next
  case (Cons c ks)
  obtain w1 where w1: "ok w1" "pending w1 = ks @ d # rest" "screen w1 = screen w" "read_line_loop e n w =
      do { (done, n1, w2) \<leftarrow> line_char e c n w1; (if done then Some (n1, w2) else read_line_loop e n1 w2) }"
    using read_line_next [OF Cons.prems(1), of c "ks @ d # rest" n] Cons.prems(2) by auto
  obtain n2 w2 where w2: "line_char e c n w1 = Some (False, n2, w2)" "ok w2" "pending w2 = pending w1" "line_is n2 (edit_key 255 l c)"
    "screen w2 = fold emit (key_echo 255 l c) (screen w1)" "same_rest n2 n"
    using line_char_edits [OF w1(1) Cons.prems(5,6)] Cons.prems(3) by fastforce
  obtain n3 w3 where w3: "read_line_loop e n2 w2 = Some (n3, w3)" "ok w3" "pending w3 = rest"
    "line_is n3 (edit_line 255 (edit_key 255 l c) ks @ [10])"
    "screen w3 = fold emit (line_echo 255 (edit_key 255 l c) ks @ [10]) (screen w2)" "same_rest n3 n2"
    using Cons.IH [of w2 n2 "edit_key 255 l c"] Cons.prems w1(2) w2 length_edit_key [of l 255 c] by auto
  with w1(3,4) w2(1,5,6) show ?case by auto
qed

end

text \<open>What is left of the line.\<close>

definition unread :: "newlib \<Rightarrow> u8 list" where
  "unread n = drop (line_pos n) (take (line_len n) (line_buf n))"

lemma take_line_unread:
  fixes len :: nat
  assumes "line_len n \<le> length (line_buf n)"
  defines "k \<equiv> min len (length (unread n))"
  shows "take_line e buf len n w =
      Some (int k, n\<lparr>line_pos := line_pos n + k\<rparr>, uput e (write_bytes (umem e w) buf (take k (unread n))) w)"
    and "unread (n\<lparr>line_pos := line_pos n + k\<rparr>) = drop k (unread n)"
proof -
  have k: "k = min len (line_len n - line_pos n)" using assms(1) by (simp add: k_def unread_def)
  then have "take k (drop (line_pos n) (line_buf n)) = take k (unread n)" by (simp add: unread_def drop_take)
  then show "take_line e buf len n w =
      Some (int k, n\<lparr>line_pos := line_pos n + k\<rparr>, uput e (write_bytes (umem e w) buf (take k (unread n))) w)"
    by (simp add: take_line_def k Let_def)
  show "unread (n\<lparr>line_pos := line_pos n + k\<rparr>) = drop k (unread n)"
    by (simp add: unread_def add.commute)
qed

context typed_input
begin

text \<open>\<open>read\<close> from standard input while a line is pending returns its next characters and leaves the
  rest; otherwise it first waits for a line.\<close>

lemma read_pending:
  assumes "line_is n l" "unread n \<noteq> []" "0 < sint len"
  defines "k \<equiv> min (nat (sint len)) (length (unread n))"
  shows "newlib_read e 0 buf len n w =
      Some (int k, n\<lparr>line_pos := line_pos n + k\<rparr>, uput e (write_bytes (umem e w) buf (take k (unread n))) w)"
    and "unread (n\<lparr>line_pos := line_pos n + k\<rparr>) = drop k (unread n)"
proof -
  have b: "line_len n \<le> length (line_buf n)" using assms(1) by (auto simp: line_is_def)
  have "\<not> line_len n \<le> line_pos n" using assms(2) by (auto simp: unread_def)
  then show "newlib_read e 0 buf len n w =
      Some (int k, n\<lparr>line_pos := line_pos n + k\<rparr>, uput e (write_bytes (umem e w) buf (take k (unread n))) w)"
    using assms(3) take_line_unread(1) [OF b, of e buf "nat (sint len)" w] by (simp add: newlib_read_def k_def)
  show "unread (n\<lparr>line_pos := line_pos n + k\<rparr>) = drop k (unread n)"
    using take_line_unread(2) [OF b, of "nat (sint len)"] by (simp add: k_def)
qed

lemma read_waits:
  assumes "ok w" "pending w = ks @ d # rest" "\<forall>c \<in> set ks. \<not> ends_line c" "ends_line d"
    and "length (line_buf n) = 256" "unread n = []" "line_len n \<le> 256" "0 < sint len"
  defines "l \<equiv> edit_line 255 [] ks @ [10]"
  defines "k \<equiv> min (nat (sint len)) (length l)"
  shows "\<exists>n1 w1. newlib_read e 0 buf len n w = Some (int k, n1, uput e (write_bytes (umem e w1) buf (take k l)) w1) \<and>
    ok w1 \<and> pending w1 = rest \<and> screen w1 = fold emit (line_echo 255 [] ks @ [10]) (screen w) \<and>
    unread n1 = drop k l \<and> line_is n1 l \<and> errno n1 = errno n"
proof -
  let ?n = "n\<lparr>line_len := 0, line_pos := 0\<rparr>"
  have "line_is ?n []" using assms(5) by (simp add: line_is_def)
  from read_line_loop_spec [OF assms(1-4) this] obtain n1 w1 where r: "read_line_loop e ?n w = Some (n1, w1)" "ok w1" "pending w1 = rest"
    "line_is n1 l" "screen w1 = fold emit (line_echo 255 [] ks @ [10]) (screen w)" "same_rest n1 ?n"
    unfolding l_def by auto
  have u: "unread n1 = l" using r(4,6) by (simp add: unread_def line_is_def)
  have b: "line_len n1 \<le> length (line_buf n1)" using r(4) by (auto simp: line_is_def)
  have "line_len n \<le> line_pos n" using assms(5-7) by (simp add: unread_def)
  then have "newlib_read e 0 buf len n w = take_line e buf (nat (sint len)) n1 w1"
    using assms(8) r(1) by (simp add: newlib_read_def read_line_def)
  also have "\<dots> = Some (int k, n1\<lparr>line_pos := line_pos n1 + k\<rparr>, uput e (write_bytes (umem e w1) buf (take k l)) w1)"
    using take_line_unread(1) [OF b, of e buf "nat (sint len)" w1] by (simp add: u k_def)
  finally have "newlib_read e 0 buf len n w = Some (int k, n1\<lparr>line_pos := line_pos n1 + k\<rparr>, uput e (write_bytes (umem e w1) buf (take k l)) w1)" .
  moreover have "unread (n1\<lparr>line_pos := line_pos n1 + k\<rparr>) = drop k l"
    using take_line_unread(2) [OF b, of "nat (sint len)"] by (simp add: u k_def)
  moreover have "line_is (n1\<lparr>line_pos := line_pos n1 + k\<rparr>) l" using r(4) by (simp add: line_is_def)
  ultimately show ?thesis using r by force
qed

end

section \<open>The kernel provides the interface\<close>

definition typing_os :: "platform \<Rightarrow> interrupt_context \<Rightarrow> u32 \<Rightarrow> u32 \<Rightarrow> u32 \<Rightarrow> typing newlib_os" where
  "typing_os p c ac ae ak =
     \<lparr>trap = typing_trap p c, umem = (\<lambda>w. mem_of (fst w)), uput = (\<lambda>m w. (set_mem m (fst w), snd w)),
      at_c = ac, at_echo = ae, at_k = ak\<rparr>"

definition typing_ready :: "u32 \<Rightarrow> u32 \<Rightarrow> typing \<Rightarrow> bool" where
  "typing_ready ac ae w \<longleftrightarrow> ac \<noteq> 0 \<and> ae \<noteq> 0 \<and> typing_ok w"

definition typing_bytes :: "typing \<Rightarrow> u8 list" where
  "typing_bytes w = map of_char (typing_chars w)"

lemma write_bytes_same: "write_bytes m a (x # xs) a = x"
  by (simp add: write_bytes_def)

lemma typing_read:
  assumes ok: "typing_ready ac ae w" and k: "typing_bytes w = x # ks"
  shows "\<exists>r w'. typing_trap p c [8, 0, ac, 1] w = Some (r, w') \<and> typing_ready ac ae w' \<and> m_screen (fst w') = m_screen (fst w) \<and>
    (r = 1 \<and> mem_of (fst w') ac = x \<and> typing_bytes w' = ks \<or>
     r = - 11 \<and> typing_bytes w' = typing_bytes w \<and> length (snd w') < length (snd w))"
proof -
  obtain s sch where w: "w = (s, sch)" by fastforce
  let ?s = "keys_typed c (arriving sch) s"
  have t: "typing_ok (s, sch)" "ac \<noteq> 0" using ok w by (simp_all add: typing_ready_def)
  note a = arriving_keys [OF t(1), of c]
  obtain out q where d: "drain keyboard_buffer_has_data keyboard_buffer_pop 1 (m_keys ?s) = (out, q)" by fastforce
  have q: "out = take 1 (kbd_contents (m_keys ?s))" "kbd_contents q = drop 1 (kbd_contents (m_keys ?s))" "kbd_inv q"
    using kq.drain_spec [OF a(1), of 1] unfolding d by simp_all
  show ?thesis
  proof (cases "kbd_contents (m_keys ?s)")
    case Nil
    have "sch \<noteq> []" using a(2) Nil k w by (auto simp: typing_bytes_def)
    then have "length (tl sch) < length sch" by simp
    moreover have "typing_chars (set_mem (mem_of s) (?s\<lparr>m_keys := q\<rparr>), tl sch) = typing_chars (s, sch)"
      using a(2) q(2) Nil by (simp add: typing_chars_def)
    ultimately show ?thesis using ok t(1) q d Nil k w
      by (auto simp: typing_trap_def kernel_trap_syscall Let_def syscall_def sys_read_def typing_ready_def typing_ok_def typing_bytes_def)
  next
    case (Cons y ys)
    have "typing_chars (s, sch) = y # ys @ List.map_filter key_char (concat (tl sch))" using a(2) Cons by simp
    moreover have "typing_chars (s2, tl sch) = ys @ List.map_filter key_char (concat (tl sch))" if "m_keys s2 = q" for s2
      using that q(2) Cons by (simp add: typing_chars_def)
    ultimately show ?thesis using ok t q d Cons k w
      by (auto simp: typing_trap_def kernel_trap_syscall Let_def syscall_def sys_read_def typing_ready_def typing_ok_def typing_bytes_def write_bytes_same)
  qed
qed

lemma typing_write:
  assumes ok: "typing_ready ac ae w"
  shows "\<exists>w'. typing_trap p c [9, 1, ae, 1] (set_mem ((mem_of (fst w))(ae := x)) (fst w), snd w) = Some (1, w') \<and> typing_ready ac ae w' \<and>
    typing_bytes w' = typing_bytes w \<and> m_screen (fst w') = emit x (m_screen (fst w))"
  using typing_put [of w ae p c x] ok by (auto simp: typing_ready_def typing_bytes_def)

interpretation ti: typed_input "typing_os p c ac ae ak" "typing_ready ac ae" typing_bytes "\<lambda>w. length (snd w)" "\<lambda>w. m_screen (fst w)" emit
  for p c ac ae ak
proof (unfold_locales, goal_cases)
  case (1 w x ks)
  then show ?case using typing_read [OF 1, of p c] by (simp add: typing_os_def)
next
  case (2 w x)
  then show ?case using typing_write [OF 2, of p c x] by (simp add: typing_os_def)
next
  case (3 m w)
  then show ?case by (simp add: typing_os_def)
qed

section \<open>Standard input\<close>

text \<open>C16: Standard input is a line editor. However the keystrokes of a line are spread over the program's
  polling, \<open>read\<close> on descriptor 0 returns once the line is ended, with the first characters of the
  edited line - backspace takes back the last character, other control characters and what goes
  beyond 255 are dropped, the end is a newline - and keeps the rest, which the next \<open>read\<close> returns
  without waiting. The screen shows the edits, what is typed later stays in the key buffer, and the
  line buffer is never overrun. The keys typed meanwhile have to fit the kernel's key buffer.\<close>

theorem stdin_is_line_editor:
  assumes ready: "typing_ready ac ae (s, sch)" and keys: "typing_bytes (s, sch) = ks @ d # rest" "\<forall>c \<in> set ks. \<not> ends_line c" "ends_line d"
    and n: "length (line_buf n) = 256" "line_len n \<le> 256" "unread n = []" and len: "0 < sint len"
  defines "l \<equiv> edit_line 255 [] ks @ [10]"
  defines "k \<equiv> min (nat (sint len)) (length l)"
  shows "\<exists>n1 s1 sch1. newlib_read (typing_os p c ac ae ak) 0 buf len n (s, sch) = Some (int k, n1, (s1, sch1)) \<and>
    read_bytes (mem_of s1) buf k = take k l \<and> typing_bytes (s1, sch1) = rest \<and>
    terminal_write (line_echo 255 [] ks @ [10]) (m_screen s) = Some (m_screen s1) \<and>
    (\<forall>buf' len'. 0 < sint len' \<and> k < length l \<longrightarrow>
       (\<exists>k' n2 s2. newlib_read (typing_os p c ac ae ak) 0 buf' len' n1 (s1, sch1) = Some (int k', n2, (s2, sch1)) \<and>
         k' = min (nat (sint len')) (length l - k) \<and> read_bytes (mem_of s2) buf' k' = take k' (drop k l)))"
proof -
  let ?e = "typing_os p c ac ae ak"
  obtain n1 w1 where r: "newlib_read ?e 0 buf len n (s, sch) = Some (int k, n1, uput ?e (write_bytes (umem ?e w1) buf (take k l)) w1)"
    "typing_ready ac ae w1" "typing_bytes w1 = rest" "m_screen (fst w1) = fold emit (line_echo 255 [] ks @ [10]) (m_screen s)"
    "unread n1 = drop k l" "line_is n1 l"
    using ti.read_waits [OF ready keys(1-3) n(1,3,2) len, of p c ak buf] unfolding l_def k_def by (auto simp only: fst_conv)
  obtain s1 sch1 where w1: "w1 = (s1, sch1)" by fastforce
  have l: "length l \<le> 256" using length_edit_line [of "[]" 255 ks] by (simp add: l_def)
  have rb: "read_bytes (write_bytes m a (take j xs)) a j = take j xs" if "j \<le> length xs" "length xs \<le> 256" for m a j and xs :: "u8 list"
    using read_write_same [of "take j xs" m a] that by simp
  have "k \<le> length l" by (simp add: k_def)
  let ?s1 = "set_mem (write_bytes (mem_of s1) buf (take k l)) s1"
  have "newlib_read ?e 0 buf len n (s, sch) = Some (int k, n1, (?s1, sch1))" using r(1) w1 by (simp add: typing_os_def)
  moreover have "read_bytes (mem_of ?s1) buf k = take k l" using rb [OF \<open>k \<le> length l\<close> l] by simp
  moreover have "typing_bytes (?s1, sch1) = rest" using r(3) w1 by (simp add: typing_bytes_def typing_chars_def)
  moreover have "terminal_write (line_echo 255 [] ks @ [10]) (m_screen s) = Some (m_screen ?s1)"
    using terminal_write_emit [of "m_screen s"] ready r(4) w1 by (simp add: typing_ready_def typing_ok_def)
  moreover have "\<exists>k' n2 s2. newlib_read ?e 0 buf' len' n1 (?s1, sch1) = Some (int k', n2, (s2, sch1)) \<and>
      k' = min (nat (sint len')) (length l - k) \<and> read_bytes (mem_of s2) buf' k' = take k' (drop k l)"
    if "0 < sint len'" "k < length l" for buf' len'
  proof -
    have "unread n1 \<noteq> []" using r(5) that(2) by simp
    from ti.read_pending(1) [OF r(6) this that(1), of p c ac ae ak buf' "(?s1, sch1)"]
    show ?thesis using rb [of "min (nat (sint len')) (length l - k)" "drop k l"] l by (simp add: r(5) typing_os_def)
  qed
  ultimately show ?thesis by blast
qed

text \<open>With the keys \<open>l\<close>, \<open>x\<close>, backspace, \<open>s\<close> and return, read in two pieces.\<close>

theorem stdin_is_line_editor_witness:
  "\<exists>n1 s1 sch1. newlib_read (typing_os demo_platform (demo_context 0 0) 0x300000 0x300004 0x300008) 0 0x300100 2
       \<lparr>global_errno = 0, errno = 0, line_buf = replicate 256 0, line_len = 0, line_pos = 0\<rparr>
       (demo_machine, [[], [0x26, 0xA6], [], [0x2D, 0x0E], [0x1F], [], [0x1C]]) = Some (int 2, n1, (s1, sch1)) \<and>
    read_bytes (mem_of s1) 0x300100 2 = [108, 115]"
proof -
  let ?sch = "[[], [0x26, 0xA6], [], [0x2D, 0x0E], [0x1F], [], [0x1C]]"
  have t: "typing_chars (demo_machine, ?sch) = [CHR ''l'', CHR ''x'', CHR 0x08, CHR ''s'', CHR 0x0A]"
    by (simp add: typing_chars_def demo_machine_def kbd_contents_def kbd_init_def) code_simp
  then have keys: "typing_bytes (demo_machine, ?sch) = [108, 120, 8, 115] @ 10 # []" by (simp add: typing_bytes_def)
  have ready: "typing_ready 0x300000 0x300004 (demo_machine, ?sch)"
    using t machine_okD(3,4) [OF demo_machine_ok(2)] by (simp add: typing_ready_def typing_ok_def KEYBOARD_BUFFER_SIZE_def)
  have no: "\<forall>c \<in> set [108, 120, 8, 115 :: u8]. \<not> ends_line c" "ends_line 10" by (simp_all add: ends_line_def)
  have l: "edit_line 255 [] [108, 120, 8, 115] @ [10] = [108, 115, 10]" by (simp add: edit_key_def printable_def)
  have k: "min (nat (sint (2 :: u32))) (length [108, 115, 10 :: u8]) = 2" "take 2 [108, 115, 10 :: u8] = [108, 115]" by simp_all
  obtain n1 s1 sch1 where
    "newlib_read (typing_os demo_platform (demo_context 0 0) 0x300000 0x300004 0x300008) 0 0x300100 2
       \<lparr>global_errno = 0, errno = 0, line_buf = replicate 256 0, line_len = 0, line_pos = 0\<rparr> (demo_machine, ?sch) = Some (int 2, n1, (s1, sch1))"
    "read_bytes (mem_of s1) 0x300100 2 = [108, 115]"
    using stdin_is_line_editor [OF ready keys no, of "\<lparr>global_errno = 0, errno = 0, line_buf = replicate 256 0, line_len = 0, line_pos = 0\<rparr>" 2
        demo_platform "demo_context 0 0" "0x300008" "0x300100"]
    unfolding l k by (auto simp: unread_def simp del: int_nat_eq of_nat_numeral)
  then show ?thesis by blast
qed

section \<open>Structures and error codes\<close>

definition machine_os :: "platform \<Rightarrow> interrupt_context \<Rightarrow> u32 \<Rightarrow> u32 \<Rightarrow> u32 \<Rightarrow> machine newlib_os" where
  "machine_os p c ac ae ak =
     \<lparr>trap = kernel_trap p c, umem = (\<lambda>s. mem_of s), uput = set_mem, at_c = ac, at_echo = ae, at_k = ak\<rparr>"

lemma at_k_machine_os [simp]: "at_k (machine_os p c ac ae ak) = ak"
  by (simp add: machine_os_def)

text \<open>The C library reads the members of the structure where the kernel stores them.\<close>

lemma stat_layout: "chales_stat_at (store_words a (stat_words x) m) a = x"
proof -
  have o: "load32 (store32 m (a + 4) v) a = load32 m a" "load32 (store32 m (a + 8) v) a = load32 m a" "load32 (store32 m (a + 12) v) a = load32 m a"
    for m a v using load32_store32_off(1) [of 4 m a v] load32_store32_off(1) [of 8 m a v] load32_store32_off(1) [of 12 m a v] by simp_all
  have "load32 (store32 m (a + 8) v) (a + 4) = load32 m (a + 4)" "load32 (store32 m (a + 12) v) (a + 4) = load32 m (a + 4)"
    "load32 (store32 m (a + 12) v) (a + 8) = load32 m (a + 8)" for m v
    using o(1) [of m "a + 4" v] o(2) [of m "a + 4" v] o(1) [of m "a + 8" v] by (simp_all add: add.assoc)
  then show ?thesis by (simp add: chales_stat_at_def stat_words_def o add.assoc)
qed

lemma sys_result_int:
  assumes "- 4095 \<le> r" "r < 2147483648"
  shows "sys_result (word_of_int r) n = (if r < 0 then (-1, set_errno (- r) n) else (r, n))"
proof -
  have "sint (word_of_int r :: u32) = r"
    using assms by (simp add: signed_of_int signed_take_bit_int_eq_self)
  then show ?thesis using assms by (simp add: sys_result_def)
qed

lemma sys_result_0 [simp]: "sys_result 0 n = (0, n)"
  by (simp add: sys_result_def)

text \<open>What a program gets for an answer of the kernel.\<close>

definition stat_answer :: "u32 \<Rightarrow> newlib \<Rightarrow> machine \<Rightarrow> int \<times> chales_stat option \<Rightarrow> (int \<times> newlib_stat option \<times> newlib \<times> machine) option" where
  "stat_answer ak n s r = (case r of
      (x, None) \<Rightarrow> Some (-1, None, set_errno (- x) n, s)
    | (x, Some st) \<Rightarrow> Some (0, Some (fill_stat st), n, set_mem (store_words ak (stat_words st) (mem_of s)) s))"

definition device_stat :: "u32 \<Rightarrow> chales_stat" where
  "device_stat fd = \<lparr>st_mode = CHALES_S_IFCHR OR 0x190, st_size = 0, st_ino = fd, st_nlink = 1\<rparr>"

lemma stat_result_kernel:
  assumes "(case r of (x, None) \<Rightarrow> -4095 \<le> x \<and> x < 0 | (x, Some st) \<Rightarrow> x = 0)"
  shows "stat_result (machine_os p c ac ae ak) n (case r of (x, None) \<Rightarrow> Some (word_of_int x, s)
      | (x, Some st) \<Rightarrow> Some (word_of_int x, set_mem (store_words ak (stat_words st) (mem_of s)) s)) = stat_answer ak n s r"
  using assms
  by (cases r; cases "snd r") (auto simp: stat_answer_def stat_result_def result_def sys_result_int Let_def stat_layout machine_os_def)

lemma small_fd: "0 \<le> sint fd \<and> sint fd < 3 \<longleftrightarrow> fd < 3" for fd :: u32
  using uint_lt2p [of fd] by (simp add: sint_u32 word_less_def)


definition demo_newlib :: newlib where
  "demo_newlib = \<lparr>global_errno = 0, errno = 0, line_buf = replicate 256 0, line_len = 0, line_pos = 0\<rparr>"


end
