(* ===== verification/Shell_Spec.thy ===== *)
theory Shell_Spec
  imports Shell Newlib_Spec
begin

text \<open>
  What the shell promises: the words of a line (\<open>words\<close>, the reference of \<open>shell_parse_command\<close>), the line
  that keys make (\<open>typed_line\<close>, the reference of \<open>shell_read_line\<close>), and the turns of the main loop. The
  interface \<open>console\<close> is what the shell needs of the kernel, the keyboard and standard output;
  \<open>Shell_Machine\<close> interprets it on the kernel's model.
\<close>

section \<open>Words\<close>

definition is_blank :: "char \<Rightarrow> bool" where
  "is_blank c \<longleftrightarrow> c = CHR '' '' \<or> c = CHR 0x09"

function words :: "string \<Rightarrow> string list" where
  "words s =
     (case dropWhile is_blank s of [] \<Rightarrow> []
      | c # t \<Rightarrow> (c # takeWhile (\<lambda>d. \<not> is_blank d) t) # words (dropWhile (\<lambda>d. \<not> is_blank d) t))"
  by pat_completeness auto
termination
proof (relation "measure length")
  fix s :: string and c t
  assume "dropWhile is_blank s = c # t"
  then have "length (c # t) \<le> length s" by (metis length_dropWhile_le)
  then show "(dropWhile (\<lambda>d. \<not> is_blank d) t, s) \<in> measure length"
    using length_dropWhile_le [of "\<lambda>d. \<not> is_blank d" t] by simp
qed simp

declare words.simps [simp del]

lemma words_blanks: "dropWhile is_blank s = [] \<Longrightarrow> words s = []"
  by (simp only: words.simps [of s] list.case)

lemma words_word: "dropWhile is_blank s = c # t \<Longrightarrow> words s = (c # takeWhile (\<lambda>d. \<not> is_blank d) t) # words (dropWhile (\<lambda>d. \<not> is_blank d) t)"
  by (simp only: words.simps [of s] list.case)

lemma words_blank: "is_blank c \<Longrightarrow> words (c # s) = words s"
  by (simp add: words.simps [of "c # s"] words.simps [of s])

fun unwords :: "string list \<Rightarrow> string" where
  "unwords [] = []"
| "unwords (w # ws) = w @ (if ws = [] then [] else CHR '' '' # unwords ws)"

definition is_word :: "string \<Rightarrow> bool" where
  "is_word w \<longleftrightarrow> w \<noteq> [] \<and> list_all (\<lambda>c. \<not> is_blank c) w"

lemma words_unwords: "list_all is_word ws \<Longrightarrow> words (unwords ws) = ws"
proof (induction ws)
  case (Cons w ws)
  let ?r = "if ws = [] then [] else CHR '' '' # unwords ws"
  obtain c t where w: "w = c # t" using Cons.prems by (cases w) (auto simp: is_word_def)
  have c: "\<not> is_blank c" and t: "\<And>d. d \<in> set t \<Longrightarrow> \<not> is_blank d" using Cons.prems by (simp_all add: w is_word_def list_all_iff)
  have "takeWhile (\<lambda>d. \<not> is_blank d) (t @ ?r) = t" "dropWhile (\<lambda>d. \<not> is_blank d) (t @ ?r) = ?r"
    using t by (simp_all add: takeWhile_append2 dropWhile_append2 is_blank_def)
  then have "words (unwords (w # ws)) = w # words ?r" using c by (subst words_word [of _ c "t @ ?r"]) (simp_all add: w)
  moreover have "words ?r = ws" using Cons words_blank [of "CHR '' ''" "unwords ws"] by (auto simp: words_blanks is_blank_def)
  ultimately show ?case by simp
qed (simp add: words_blanks)

lemma list_all_words: "list_all is_word (words s)"
proof (induction s rule: words.induct)
  case (1 s)
  show ?case
  proof (cases "dropWhile is_blank s")
    case Nil
    then show ?thesis by (simp add: words_blanks)
  next
    case (Cons c t)
    have "\<not> is_blank c" using Cons hd_dropWhile [of is_blank s] by (metis list.sel(1) list.simps(3))
    then have "is_word (c # takeWhile (\<lambda>d. \<not> is_blank d) t)" by (auto simp: is_word_def list_all_iff dest: set_takeWhileD)
    then show ?thesis using 1 [OF Cons] unfolding words_word [OF Cons] by simp
  qed
qed

section \<open>Dividing the line\<close>

lemma blank_byte: "is_blank c \<longleftrightarrow> (of_char c :: u8) = 32 \<or> (of_char c :: u8) = 9"
  using of_char_u8_inject [of c "CHR '' ''"] of_char_u8_inject [of c "CHR 0x09"] by (simp add: is_blank_def del: of_char_u8_inject)

lemma cstr_skip_blanks:
  "cstr m p s \<Longrightarrow> skip_blanks m p = Some (p + of_nat (length (takeWhile is_blank s))) \<and>
     cstr m (p + of_nat (length (takeWhile is_blank s))) (dropWhile is_blank s)"
proof (induction s arbitrary: p)
  case Nil
  then show ?case by (simp add: skip_blanks.simps)
next
  case (Cons c s)
  then have "skip_blanks m p = (if is_blank c then skip_blanks m (p + 1) else Some p)"
    by (subst skip_blanks.simps) (simp add: blank_byte)
  then show ?case using Cons.prems Cons.IH [of "p + 1"] by (simp add: add.assoc)
qed

lemma cstr_word_end:
  "cstr m p s \<Longrightarrow> word_end m p = Some (p + of_nat (length (takeWhile (\<lambda>c. \<not> is_blank c) s))) \<and>
     cstr m (p + of_nat (length (takeWhile (\<lambda>c. \<not> is_blank c) s))) (dropWhile (\<lambda>c. \<not> is_blank c) s)"
proof (induction s arbitrary: p)
  case Nil
  then show ?case by (simp add: word_end.simps)
next
  case (Cons c s)
  then have "word_end m p = (if is_blank c then Some p else word_end m (p + 1))"
    by (subst word_end.simps) (simp add: blank_byte)
  then show ?case using Cons.prems Cons.IH [of "p + 1"] by (simp add: add.assoc)
qed

text \<open>A word of a line of \<open>n\<close> characters.\<close>

definition word_at :: "mem \<Rightarrow> u32 \<Rightarrow> nat \<Rightarrow> u32 \<Rightarrow> string \<Rightarrow> bool" where
  "word_at m line n a s \<longleftrightarrow> cstr m a s \<and> (\<exists>j. a = line + of_nat j \<and> j + length s \<le> n)"

lemma word_at_shift:
  assumes "word_at m (line + of_nat k) n a s"
  shows "word_at m line (k + n) a s"
proof -
  obtain j where "cstr m a s" "a = line + of_nat k + of_nat j" "j + length s \<le> n" using assms by (auto simp: word_at_def)
  then show ?thesis unfolding word_at_def by (intro conjI exI [of _ "k + j"]) simp_all
qed

text \<open>The loop stores the words as the reference function finds them, and writes only inside the string.\<close>

lemma parse_words_spec:
  assumes "cstr m p s" "length s < 2 ^ 32"
  shows "\<exists>argv m'. parse_words n p acc m = Some (acc @ argv, m') \<and>
    list_all2 (word_at m' p (length s)) argv (take (nat (n - int (length acc))) (words s)) \<and> (\<forall>x. length s \<le> unat (x - p) \<longrightarrow> m' x = m x)"
  using assms
proof (induction "length s" arbitrary: s p m acc rule: less_induct)
  case less
  define b t where "b = length (takeWhile is_blank s)" and "t = dropWhile is_blank s"
  note skip = cstr_skip_blanks [OF less.prems(1), folded b_def t_def]
  have len: "length s = b + length t" by (simp add: b_def t_def flip: length_append)
  have step: "parse_words n p acc m = (if m p \<noteq> 0 \<and> int (length acc) < n then
      (if t = [] then Some (acc, m)
       else do { p2 \<leftarrow> word_end m (p + of_nat b);
          (if m p2 \<noteq> 0 then parse_words n (p2 + 1) (acc @ [p + of_nat b]) (m(p2 := 0))
           else parse_words n p2 (acc @ [p + of_nat b]) m) })
      else Some (acc, m))"
    using skip by (subst parse_words.simps) (cases t; simp)
  have mp: "m p = 0 \<longleftrightarrow> s = []" using less.prems(1) by (cases s) auto
  consider "\<not> (s \<noteq> [] \<and> int (length acc) < n)" | "int (length acc) < n" "s \<noteq> []" "t = []" | "int (length acc) < n" "s \<noteq> []" "t \<noteq> []" by blast
  then show ?case
  proof cases
    case 1
    then have "take (nat (n - int (length acc))) (words s) = []" by (auto simp: words_blanks)
    moreover have "parse_words n p acc m = Some (acc, m)" unfolding step using 1 mp by auto
    ultimately show ?thesis by simp
  next
    case 2
    then show ?thesis using step mp by (simp add: t_def words_blanks)
  next
    case 3
    then obtain c u where t: "t = c # u" by (cases t) auto
    define w r where "w = c # takeWhile (\<lambda>d. \<not> is_blank d) u" and "r = dropWhile (\<lambda>d. \<not> is_blank d) u"
    define p1 p2 where "p1 = p + of_nat b" and "p2 = p1 + of_nat (length w)"
    have nc: "\<not> is_blank c" using hd_dropWhile [of is_blank s] 3(3) by (simp add: t t_def [symmetric])
    have wr: "takeWhile (\<lambda>d. \<not> is_blank d) t = w" "dropWhile (\<lambda>d. \<not> is_blank d) t = r" "t = w @ r" using nc by (simp_all add: t w_def r_def)
    have cp1: "cstr m p1 (w @ r)" using skip by (simp add: p1_def wr(3))
    have p2: "word_end m p1 = Some p2" "cstr m p2 r" using cstr_word_end [of m p1 t] cp1 by (simp_all add: wr p2_def flip: wr(3))
    have ws: "words s = w # words r" unfolding words_word [OF t [unfolded t_def]] by (simp add: w_def r_def)
    obtain k where k: "nat (n - int (length acc)) = Suc k" "nat (n - int (length (acc @ [p1]))) = k" using 3(1) by (cases "nat (n - int (length acc))") auto
    show ?thesis
    proof (cases r)
      case Nil
      then have "parse_words n p acc m = Some (acc @ [p1], m)"
        using step 3 mp p2 by (simp add: parse_words.simps [of n p2] p1_def [symmetric])
      moreover have "words s = [w]" using ws Nil by (simp add: words_blanks)
      moreover have "word_at m p (length s) p1 w" using cp1 Nil len by (auto simp: word_at_def p1_def wr(3))
      ultimately show ?thesis using k by auto
    next
      case (Cons d v)
      let ?m = "m(p2 := 0)"
      have d: "is_blank d" using hd_dropWhile [of "\<lambda>d. \<not> is_blank d" u] Cons by (simp add: r_def [symmetric])
      define j where "j = b + length w + 1"
      have j: "length s = j + length v" "p2 + 1 = p + of_nat j" "p2 = p + of_nat (j - 1)" using len Cons by (simp_all add: wr(3) j_def p1_def p2_def add.assoc)
      have cw: "cstr ?m p1 w" unfolding p2_def by (rule cstr_cut [OF cp1]) (use less.prems(2) len wr(3) in simp)
      have cv: "cstr ?m (p2 + 1) v"
      proof (rule cstr_cong [THEN iffD2])
        show "cstr m (p2 + 1) v" using p2(2) Cons by simp
        fix i assume "i \<le> length v"
        then have "p2 + 1 + of_nat i \<noteq> p2" using addr_eq_iff [of "Suc i" p2 p2] less.prems(2) j(1) by (auto simp: add.assoc j_def)
        then show "?m (p2 + 1 + of_nat i) = m (p2 + 1 + of_nat i)" by simp
      qed
      obtain argv m' where ih: "parse_words n (p2 + 1) (acc @ [p1]) ?m = Some ((acc @ [p1]) @ argv, m')"
        "list_all2 (word_at m' (p2 + 1) (length v)) argv (take k (words v))" "\<forall>x. length v \<le> unat (x - (p2 + 1)) \<longrightarrow> m' x = ?m x"
        using less.hyps [OF _ cv, of "acc @ [p1]"] less.prems(2) j(1) k(2) by (auto simp: j_def)
      have "cstr m' p1 w"
      proof (rule cstr_cong [THEN iffD2, OF _ cw])
        fix i assume "i \<le> length w"
        then have "length v \<le> unat (of_nat (b + i) - of_nat j :: u32)" using behind [of "b + i" j "length v"] less.prems(2) j(1) by (simp add: j_def)
        moreover have "p1 + of_nat i - (p2 + 1) = of_nat (b + i) - of_nat j" unfolding j(2) p1_def by simp
        ultimately show "m' (p1 + of_nat i) = ?m (p1 + of_nat i)" by (intro ih(3) [rule_format]) (simp only:)
      qed
      moreover have "m' x = m x" if "length s \<le> unat (x - p)" for x
      proof -
        have "length v \<le> unat (x - (p2 + 1))" using ahead [of j "length v" "x - p"] that j(1) by (simp add: j(2) diff_diff_eq)
        moreover have "x \<noteq> p2" using addr_eq_iff [of "j - 1" x p] that less.prems(2) j by (auto simp: j_def)
        ultimately show ?thesis using ih(3) by simp
      qed
      moreover have "parse_words n p acc m = Some (acc @ p1 # argv, m')"
        using step 3 mp p2 Cons ih(1) by (simp add: p1_def [symmetric])
      moreover have "take (nat (n - int (length acc))) (words s) = w # take k (words v)"
        using words_blank [OF d] by (simp add: ws k Cons)
      moreover have "list_all2 (word_at m' p (length s)) argv (take k (words v))"
        using ih(2) word_at_shift [of m' p j] by (auto simp: j(1,2) elim!: list_all2_mono)
      moreover have "word_at m' p (length s) p1 w" if "cstr m' p1 w" using that j(1) by (auto simp: word_at_def p1_def j_def)
      ultimately show ?thesis by (intro exI [of _ "p1 # argv"] exI [of _ m']) simp
    qed
  qed
qed


text \<open>C8: The division of a line into words computes the reference function \<open>words\<close>: the addresses that
  \<open>shell_parse_command\<close> returns are those of the first \<open>max_args\<close> words of the line, in order, inside the line and each
  terminated, however the blanks and tabs stand before, between and after them; only bytes of the line are written,
  and words written with single spaces between them are read back.\<close>

theorem shell_parse_words:
  assumes "cstr m line s" "length s < 2 ^ 32"
  shows "\<exists>argv m'. shell_parse_command line n m = Some (argv, m') \<and> list_all2 (word_at m' line (length s)) argv (take (nat n) (words s)) \<and>
    (\<forall>x. \<not> in_region x line (length s) \<longrightarrow> m' x = m x) \<and> (\<forall>ws. list_all is_word ws \<and> s = unwords ws \<longrightarrow> words s = ws)"
  using parse_words_spec [OF assms, of n "[]"] words_unwords
  by (auto simp: shell_parse_command_def in_region_def not_less)

theorem shell_parse_words_witness:
  "\<exists>argv m'. shell_parse_command 0x1000 16 (write_bytes (\<lambda>a. 0) 0x1000 (map of_char ''echo  a b '')) = Some (argv, m') \<and>
     list_all2 (word_at m' 0x1000 10) argv [''echo'', ''a'', ''b'']"
proof -
  have "cstr (write_bytes (\<lambda>a. 0) 0x1000 (map of_char ''echo  a b '')) 0x1000 ''echo  a b ''"
    by (simp add: write_bytes_def)
  moreover have l: "length ''echo  a b '' = 10" by simp
  ultimately have "\<exists>argv m'. shell_parse_command 0x1000 16 (write_bytes (\<lambda>a. 0) 0x1000 (map of_char ''echo  a b '')) = Some (argv, m') \<and>
     list_all2 (word_at m' 0x1000 10) argv (take 16 (words ''echo  a b ''))"
    using shell_parse_words [where s = "''echo  a b ''" and n = 16, unfolded l] by fastforce
  moreover have "words ''echo  a b '' = [''echo'', ''a'', ''b'']" by code_simp
  ultimately show ?thesis by simp
qed

section \<open>Reading the line\<close>

text \<open>What the keys typed make of a line: the line, what the screen shows, and the keys left. Return ends
  it, and so does the last character that fits.\<close>

fun typed_line :: "nat \<Rightarrow> u8 list \<Rightarrow> u8 list \<Rightarrow> (u8 list \<times> u8 list \<times> u8 list) option" where
  "typed_line cap l [] = (if cap \<le> length l then Some (l, [], []) else None)"
| "typed_line cap l (c # ks) =
     (if cap \<le> length l then Some (l, [], c # ks)
      else if c = 10 then Some (l, [10], ks)
      else map_option (\<lambda>(line, disp, rest). (line, key_echo cap l c @ disp, rest)) (typed_line cap (edit_key cap l c) ks))"

text \<open>While there is room, it is the line editor of the C library's standard input.\<close>

lemma typed_line_edits:
  "list_all (\<lambda>c. c \<noteq> 10) ks \<Longrightarrow> length l + length ks < cap \<Longrightarrow>
     typed_line cap l (ks @ 10 # rest) = Some (edit_line cap l ks, line_echo cap l ks @ [10], rest)"
proof (induction ks arbitrary: l)
  case (Cons c ks)
  have "length (edit_key cap l c) \<le> length l + 1" by (auto simp: edit_key_def)
  then show ?case using Cons by simp
qed simp

lemma typed_line_printable:
  "typed_line cap l ks = Some (line, disp, rest) \<Longrightarrow> list_all printable l \<Longrightarrow> list_all printable line"
proof (induction cap l ks arbitrary: line disp rest rule: typed_line.induct)
  case (2 cap l c ks)
  have "list_all printable (edit_key cap l c)" using 2(3) by (auto simp: edit_key_def list_all_iff dest: in_set_butlastD)
  then show ?case using 2 by (auto split: if_splits)
qed (auto split: if_splits)

lemma typed_line_length: "typed_line cap l ks = Some (line, disp, rest) \<Longrightarrow> length l \<le> cap \<Longrightarrow> length line \<le> cap"
proof (induction cap l ks arbitrary: line disp rest rule: typed_line.induct)
  case (2 cap l c ks)
  then show ?case using length_edit_key [of l cap c] by (auto split: if_splits)
qed (auto split: if_splits)

locale console =
  fixes e :: "'w shell_os" and ok :: "'w \<Rightarrow> bool" and pending :: "'w \<Rightarrow> u8 list" and lag :: "'w \<Rightarrow> nat"
    and screen :: "'w \<Rightarrow> 't" and emit :: "u8 \<Rightarrow> 't \<Rightarrow> 't" and files :: "'w \<Rightarrow> 'f" and libmem :: "u32 \<Rightarrow> bool"
  assumes get_char: "ok w \<Longrightarrow> pending w = c # ks \<Longrightarrow> \<exists>r w'. trap e [2] w = Some (r, w') \<and> ok w' \<and> screen w' = screen w \<and>
      files w' = files w \<and> umem e w' = umem e w \<and>
      (ucast r = c \<and> c \<noteq> 0 \<and> pending w' = ks \<or> r = 0 \<and> pending w' = pending w \<and> lag w' < lag w)"
    and put_chars: "ok w \<Longrightarrow> \<exists>w'. out e bs w = Some w' \<and> ok w' \<and> pending w' = pending w \<and> files w' = files w \<and>
      screen w' = fold emit bs (screen w) \<and> (\<forall>x. \<not> libmem x \<longrightarrow> umem e w' x = umem e w x)"
    and put_mem: "umem e (uput e m w) = m" "ok w \<Longrightarrow> ok (uput e m w)" "pending (uput e m w) = pending w"
      "screen (uput e m w) = screen w" "files (uput e m w) = files w" "lag (uput e m w) = lag w"
begin

text \<open>Nothing but the memory of \<open>R\<close>, the keys and the screen has changed.\<close>

definition reaches :: "(u32 \<Rightarrow> bool) \<Rightarrow> u8 list \<Rightarrow> u8 list \<Rightarrow> 'w \<Rightarrow> 'w \<Rightarrow> bool" where
  "reaches R disp ks w w' \<longleftrightarrow> ok w' \<and> pending w' = ks \<and> files w' = files w \<and> screen w' = fold emit disp (screen w) \<and>
     (\<forall>x. \<not> libmem x \<longrightarrow> \<not> R x \<longrightarrow> umem e w' x = umem e w x)"

lemma reaches_refl: "ok w \<Longrightarrow> reaches R [] (pending w) w w"
  by (simp add: reaches_def)

lemma reaches_trans: "reaches R s1 k1 w w1 \<Longrightarrow> reaches R s2 k2 w1 w2 \<Longrightarrow> reaches R (s1 @ s2) k2 w w2"
  by (simp add: reaches_def)

lemma reaches_ok: "reaches R s k w w1 \<Longrightarrow> ok w1 \<and> pending w1 = k"
  by (simp add: reaches_def)

lemma reaches_mono: "reaches R s k w w1 \<Longrightarrow> (\<And>x. R x \<Longrightarrow> Q x) \<Longrightarrow> reaches Q s k w w1"
  by (auto simp: reaches_def)

lemma printf_reaches:
  assumes "ok w" "c_format f args = Some bs"
  shows "\<exists>w'. printf e f args w = Some w' \<and> reaches R bs (pending w) w w'"
  using put_chars [OF assms(1), of bs] assms(2) by (auto simp: printf_def reaches_def)

lemma poke_reaches: "ok w \<Longrightarrow> R a \<Longrightarrow> reaches R [] (pending w) w (poke e a v w)"
  by (auto simp: reaches_def poke_def put_mem)

text \<open>The loop waits for the next character and then handles it.\<close>

lemma read_chars_next:
  assumes "ok w" "pending w = c # ks" "int i < sint n - 1"
  shows "\<exists>w1. c \<noteq> 0 \<and> reaches R [] ks w w1 \<and> umem e w1 = umem e w \<and>
    read_chars e buf n i w =
      (if c = 10 then do { w2 \<leftarrow> printf e nl [] (poke e (buf + of_nat i) 0 w1); Some (i, w2) }
       else if c = 8 then
         (if 0 < i then do { w2 \<leftarrow> printf e [CHR 0x08] [] w1; read_chars e buf n (i - 1) w2 } else read_chars e buf n i w1)
       else if printable c then
         do { w2 \<leftarrow> printf e ''%c'' [Chr c] (poke e (buf + of_nat i) c w1); read_chars e buf n (i + 1) w2 }
       else read_chars e buf n i w1)"
  using assms(1,2)
proof (induction "lag w" arbitrary: w rule: less_induct)
  case less
  obtain r w' where r: "trap e [2] w = Some (r, w')" "ok w'" "screen w' = screen w" "files w' = files w" "umem e w' = umem e w"
    "ucast r = c \<and> c \<noteq> 0 \<and> pending w' = ks \<or> r = 0 \<and> pending w' = pending w \<and> lag w' < lag w"
    using get_char [OF less.prems] by blast
  from r(6) show ?case
  proof
    assume a: "ucast r = c \<and> c \<noteq> 0 \<and> pending w' = ks"
    then show ?thesis using r(1-5) assms(3)
      by (intro exI [of _ w'], subst read_chars.simps) (simp add: syscall_getchar_def printable_signed reaches_def Let_def)
  next
    assume a: "r = 0 \<and> pending w' = pending w \<and> lag w' < lag w"
    then have "read_chars e buf n i w = read_chars e buf n i w'"
      using r(1) assms(3) by (subst read_chars.simps) (simp add: syscall_getchar_def)
    then show ?thesis using less.hyps [of w'] a r(2-5) less.prems(2) by (auto simp: reaches_def)
  qed
qed

text \<open>The line in the buffer, with room for the rest of it.\<close>

lemma read_bytes_upd:
  assumes "length l < k" "k \<le> 2 ^ 32" "read_bytes m buf (length l) = l"
  shows "read_bytes (m(buf + of_nat (length l) := c)) buf (length l + 1) = l @ [c]"
proof -
  have "buf + of_nat i \<noteq> buf + of_nat (length l)" if "i < length l" for i
    using of_nat_eq32 [of i "length l"] that assms(1,2) by simp
  then have "read_bytes (m(buf + of_nat (length l) := c)) buf (length l) = read_bytes m buf (length l)"
    by (simp add: read_bytes_def)
  then show ?thesis using assms(3) by (simp add: read_bytes_Suc)
qed

lemma read_bytes_reaches:
  "reaches (\<lambda>x. False) k q w w1 \<Longrightarrow> (\<And>x. in_region x buf j \<Longrightarrow> \<not> libmem x) \<Longrightarrow> i \<le> j \<Longrightarrow> j \<le> 2 ^ 32 \<Longrightarrow>
     read_bytes (umem e w1) buf i = read_bytes (umem e w) buf i"
  by (simp add: read_bytes_def reaches_def)

text \<open>A key that does not end the line edits it.\<close>

lemma read_chars_edit:
  assumes "ok w" "pending w = c # ks" "c \<noteq> 10" "length l < cap" "sint n = int cap + 1"
    "read_bytes (umem e w) buf (length l) = l" "\<And>x. in_region x buf (cap + 1) \<Longrightarrow> \<not> libmem x"
  defines "l1 \<equiv> edit_key cap l c"
  shows "\<exists>w1. read_chars e buf n (length l) w = read_chars e buf n (length l1) w1 \<and>
    reaches (\<lambda>x. in_region x buf (cap + 1)) (key_echo cap l c) ks w w1 \<and> read_bytes (umem e w1) buf (length l1) = l1"
proof -
  let ?R = "\<lambda>x. in_region x buf (cap + 1)"
  have cap: "cap + 1 \<le> 2 ^ 31" using assms(5) sint_lt [of n] by simp
  have lt: "int (length l) < sint n - 1" using assms(4,5) by simp
  obtain w1 where w1: "reaches ?R [] ks w w1" "umem e w1 = umem e w" and
    step: "read_chars e buf n (length l) w =
      (if c = 8 then
         (if 0 < length l then do { w2 \<leftarrow> printf e [CHR 0x08] [] w1; read_chars e buf n (length l - 1) w2 } else read_chars e buf n (length l) w1)
       else if printable c then
         do { w2 \<leftarrow> printf e ''%c'' [Chr c] (poke e (buf + of_nat (length l)) c w1); read_chars e buf n (length l + 1) w2 }
       else read_chars e buf n (length l) w1)"
    using read_chars_next [OF assms(1,2) lt, of ?R buf] assms(3) by auto
  note ok1 = reaches_ok [OF w1(1)]
  consider "c = 8" "l = []" | "c = 8" "l \<noteq> []" | "c \<noteq> 8" "printable c" | "c \<noteq> 8" "\<not> printable c" by blast
  then show ?thesis
  proof cases
    case 1
    then show ?thesis using step w1 assms(6) by (intro exI [of _ w1]) (simp add: l1_def edit_key_def key_echo_def)
  next
    case 2
    obtain w2 where w2: "printf e [CHR 0x08] [] w1 = Some w2" "reaches (\<lambda>x. False) [8] ks w1 w2"
      using printf_reaches [of w1 "[CHR 0x08]" "[]" "[8]"] ok1 by auto
    have "read_bytes (umem e w2) buf (length l - 1) = butlast l"
    proof -
      have "read_bytes (umem e w2) buf (length l - 1) = read_bytes (umem e w) buf (length l - 1)"
        using read_bytes_reaches [OF w2(2), of buf "cap + 1"] assms(4,7) cap w1(2) by simp
      also have "\<dots> = butlast (read_bytes (umem e w) buf (length l))" by (simp add: read_bytes_def butlast_conv_take take_map)
      finally show ?thesis using assms(6) by simp
    qed
    then show ?thesis using 2 step w2 reaches_trans [OF w1(1) reaches_mono [OF w2(2)]]
      by (intro exI [of _ w2]) (simp add: l1_def edit_key_def key_echo_def)
  next
    case 3
    let ?w = "poke e (buf + of_nat (length l)) c w1"
    have p: "reaches ?R [] ks w1 ?w" using poke_reaches [of w1 ?R "buf + of_nat (length l)" c] ok1 assms(4) cap by simp
    obtain w2 where w2: "printf e ''%c'' [Chr c] ?w = Some w2" "reaches (\<lambda>x. False) [c] ks ?w w2"
      using printf_reaches [of ?w "''%c''" "[Chr c]" "[c]"] reaches_ok [OF p] by auto
    have "read_bytes (umem e w2) buf (length l + 1) = read_bytes (umem e ?w) buf (length l + 1)"
      using read_bytes_reaches [OF w2(2), of buf "cap + 1"] assms(4,7) cap by simp
    also have "\<dots> = l @ [c]"
      using read_bytes_upd [of l "cap + 1" "umem e w1" buf c] assms(4,6) cap w1(2) by (simp add: poke_def put_mem)
    finally show ?thesis using 3 step w2 reaches_trans [OF reaches_trans [OF w1(1) p] reaches_mono [OF w2(2)]] assms(4)
      by (intro exI [of _ w2]) (simp add: l1_def edit_key_def key_echo_def)
  next
    case 4
    then show ?thesis using step w1 assms(6) by (intro exI [of _ w1]) (simp add: l1_def edit_key_def key_echo_def)
  qed
qed

lemma read_chars_return:
  assumes "ok w" "pending w = 10 # ks" "length l < cap" "sint n = int cap + 1"
    "read_bytes (umem e w) buf (length l) = l" "\<And>x. in_region x buf (cap + 1) \<Longrightarrow> \<not> libmem x"
  shows "\<exists>w1. read_chars e buf n (length l) w = Some (length l, w1) \<and> reaches (\<lambda>x. in_region x buf (cap + 1)) [10] ks w w1 \<and>
    read_bytes (umem e w1) buf (length l + 1) = l @ [0]"
proof -
  let ?R = "\<lambda>x. in_region x buf (cap + 1)"
  have cap: "cap + 1 \<le> 2 ^ 31" using assms(4) sint_lt [of n] by simp
  have lt: "int (length l) < sint n - 1" using assms(3,4) by simp
  obtain w1 where w1: "reaches ?R [] ks w w1" "umem e w1 = umem e w" and
    step: "read_chars e buf n (length l) w = do { w2 \<leftarrow> printf e nl [] (poke e (buf + of_nat (length l)) 0 w1); Some (length l, w2) }"
    using read_chars_next [OF assms(1,2) lt, of ?R buf] by auto
  let ?w = "poke e (buf + of_nat (length l)) 0 w1"
  have p: "reaches ?R [] ks w1 ?w" using poke_reaches [of w1 ?R "buf + of_nat (length l)" 0] reaches_ok [OF w1(1)] assms(3) cap by simp
  obtain w2 where w2: "printf e nl [] ?w = Some w2" "reaches (\<lambda>x. False) [10] ks ?w w2"
    using printf_reaches [of ?w nl "[]" "[10]"] reaches_ok [OF p] by auto
  have "read_bytes (umem e w2) buf (length l + 1) = read_bytes (umem e ?w) buf (length l + 1)"
    using read_bytes_reaches [OF w2(2), of buf "cap + 1"] assms(3,6) cap by simp
  also have "\<dots> = l @ [0]"
    using read_bytes_upd [of l "cap + 1" "umem e w1" buf 0] assms(3,5) cap w1(2) by (simp add: poke_def put_mem)
  finally show ?thesis using step w2 reaches_trans [OF reaches_trans [OF w1(1) p] reaches_mono [OF w2(2)]] by simp
qed

lemma read_chars_full:
  assumes "ok w" "length l = cap" "sint n = int cap + 1" "read_bytes (umem e w) buf (length l) = l"
  shows "\<exists>w1. read_chars e buf n (length l) w = Some (length l, w1) \<and> reaches (\<lambda>x. in_region x buf (cap + 1)) [] (pending w) w w1 \<and>
    read_bytes (umem e w1) buf (length l + 1) = l @ [0]"
proof -
  have cap: "cap + 1 \<le> 2 ^ 31" using assms(3) sint_lt [of n] by simp
  have "read_chars e buf n (length l) w = Some (length l, poke e (buf + of_nat (length l)) 0 w)"
    using assms(2,3) by (subst read_chars.simps) simp
  moreover have "reaches (\<lambda>x. in_region x buf (cap + 1)) [] (pending w) w (poke e (buf + of_nat (length l)) 0 w)"
    by (rule poke_reaches [OF assms(1)]) (use assms(2) cap in simp)
  ultimately show ?thesis using read_bytes_upd [of l "cap + 1" "umem e w" buf 0] assms(2,4) cap by (simp add: poke_def put_mem)
qed

text \<open>The loop is the reference function: it ends as soon as the line is complete.\<close>

lemma read_chars_spec:
  assumes "typed_line cap l ks = Some (line, disp, rest)" "sint n = int cap + 1" "ok w" "pending w = ks" "length l \<le> cap"
    "read_bytes (umem e w) buf (length l) = l" "\<And>x. in_region x buf (cap + 1) \<Longrightarrow> \<not> libmem x"
  shows "\<exists>w1. read_chars e buf n (length l) w = Some (length line, w1) \<and> reaches (\<lambda>x. in_region x buf (cap + 1)) disp rest w w1 \<and>
    read_bytes (umem e w1) buf (length line + 1) = line @ [0]"
  using assms(1,3-6)
proof (induction ks arbitrary: l w line disp rest)
  case Nil
  then show ?case using read_chars_full [of w l cap n buf] assms(2) by (auto split: if_splits)
next
  case (Cons c ks)
  consider "cap \<le> length l" | "length l < cap" "c = 10" | "length l < cap" "c \<noteq> 10" by linarith
  then show ?case
  proof cases
    case 1
    then show ?thesis using Cons.prems read_chars_full [of w l cap n buf] assms(2) by auto
  next
    case 2
    then show ?thesis using Cons.prems read_chars_return [of w ks l cap n buf] assms(2,7) by auto
  next
    case 3
    let ?l = "edit_key cap l c"
    obtain d where d: "typed_line cap ?l ks = Some (line, d, rest)" "disp = key_echo cap l c @ d"
      using Cons.prems(1) 3 by auto
    obtain w1 where w1: "read_chars e buf n (length l) w = read_chars e buf n (length ?l) w1"
      "reaches (\<lambda>x. in_region x buf (cap + 1)) (key_echo cap l c) ks w w1" "read_bytes (umem e w1) buf (length ?l) = ?l"
      using read_chars_edit [of w c ks l cap n buf] Cons.prems 3 assms(2,7) by blast
    show ?thesis
      using Cons.IH [OF d(1), of w1] reaches_ok [OF w1(2)] length_edit_key [OF Cons.prems(4)] w1 reaches_trans [OF w1(2)] d(2) by auto
  qed
qed

end

section \<open>Built-in commands and arrays of arguments\<close>

lemma store_chars_at_eq: "length s < 2 ^ 32 \<Longrightarrow> store_chars_at a s m = write_bytes m a (map of_char s)"
  by (induction s arbitrary: a m) (simp_all add: write_bytes_Cons)

lemma vector_from_array:
  "list_all2 (\<lambda>a s. a \<noteq> 0 \<and> cstr m a s) as ws \<Longrightarrow> (\<And>i. i \<le> length as \<Longrightarrow> load32 m (src + of_nat (4 * (n + i))) = (as @ [0]) ! i) \<Longrightarrow>
     vector_from m src n ws"
proof (induction as ws arbitrary: n rule: list_all2_induct)
  case Nil
  then show ?case using Nil [of 0] by simp
next
  case (Cons a as s ws)
  have "load32 m (src + of_nat (4 * (Suc n + i))) = (as @ [0]) ! i" if "i \<le> length as" for i
    using Cons.prems [of "Suc i"] that by simp
  then show ?case using Cons.IH [of "Suc n"] Cons.prems [of 0] Cons.hyps(1) by simp
qed

lemma find_command_spec:
  assumes "cstr m a s" "list_all (\<lambda>(name, _, _). CHR 0x00 \<notin> set name) cmds"
  shows "find_command m a cmds = Some (map_option fst (map_of cmds s))"
  using assms(2)
proof (induction cmds)
  case (Cons x cmds)
  obtain name h d where x: "x = (name, h, d)" by (cases x)
  show ?case using Cons strcmp_l_eq_0 [OF cstr_no_nul [OF assms(1)], of name] cstr_read_cstr [OF assms(1)]
    by (auto simp: x strcmp_lit_def)
qed simp

definition builtin :: "string \<Rightarrow> handler option" where
  "builtin s = map_option fst (map_of commands s)"

lemma find_builtin: "cstr m a s \<Longrightarrow> find_command m a commands = Some (builtin s)"
  unfolding builtin_def by (rule find_command_spec) (simp_all add: commands_def)

section \<open>The layout of the memory\<close>

text \<open>The line and the local arrays lie apart from each other.\<close>

definition shell_layout :: "('w, 'z) shell_os_scheme \<Rightarrow> bool" where
  "shell_layout e \<longleftrightarrow> line_at e \<noteq> 0 \<and> path_at e \<noteq> 0 \<and> new_argv_at e \<noteq> 0 \<and> unat (line_at e) + 256 \<le> 2 ^ 32 \<and>
     disjoint_regions (path_at e) 261 (line_at e) 256 \<and> disjoint_regions (new_argv_at e) 68 (line_at e) 256 \<and>
     disjoint_regions (new_argv_at e) 68 (path_at e) 261"

text \<open>The words of a line that was read.\<close>

abbreviation line_words :: "('w, 'z) shell_os_scheme \<Rightarrow> 'w \<Rightarrow> u32 list \<Rightarrow> string list \<Rightarrow> bool" where
  "line_words e w argv ws \<equiv> list_all2 (word_at (umem e w) (line_at e) 255) argv ws"

lemma word_atD: "word_at m line n a s \<Longrightarrow> cstr m a s \<and> length s \<le> n"
  by (auto simp: word_at_def)

lemma word_at_region: "word_at m line 255 a s \<Longrightarrow> i \<le> length s \<Longrightarrow> in_region (a + of_nat i) line 256"
  using in_region_offset [of "_ + i" 256 line] by (auto simp: word_at_def add.assoc)

lemma word_at_frame:
  "word_at m line 255 a s \<Longrightarrow> (\<And>x. in_region x line 256 \<Longrightarrow> m' x = m x) \<Longrightarrow> word_at m' line 255 a s"
  using word_at_region [of m line a s] cstr_cong [of s m' a m] unfolding word_at_def by blast

lemma word_at_nonnull: "word_at m line 255 a s \<Longrightarrow> unat line + 256 \<le> 2 ^ 32 \<Longrightarrow> line \<noteq> 0 \<Longrightarrow> a \<noteq> 0"
  using in_region_iff [of line 256 0] word_at_region [of m line a s 0] by (auto simp: unat_eq_0)

section \<open>The path and the arguments of a program\<close>

text \<open>What \<open>shell_execute_command\<close> builds before the call.\<close>

lemma run_program_spec:
  assumes lay: "shell_layout e" and ws: "line_words e w argv (name # args)" and len: "length argv \<le> 16"
  shows "\<exists>m. run_program e argv w = do {
      (ret, w1) \<leftarrow> syscall_execv e (path_at e) (new_argv_at e) 0 (uput e m w);
      (if ret \<noteq> 0 then map_option (Pair 127) (print_arg e (''Unknown command: %s'' @ nl) (argv ! 0) w1) else Some (0, w1)) } \<and>
    cstr m (path_at e) (''bin/'' @ name) \<and> vector_at m (new_argv_at e) ((''bin/'' @ name) # args) \<and>
    (\<forall>x. \<not> in_region x (path_at e) 261 \<and> \<not> in_region x (new_argv_at e) 68 \<longrightarrow> m x = umem e w x)"
proof -
  obtain a0 as where argv: "argv = a0 # as" and a0: "word_at (umem e w) (line_at e) 255 a0 name"
    and as: "list_all2 (word_at (umem e w) (line_at e) 255) as args"
    using ws by (auto simp: list_all2_Cons2)
  let ?m = "umem e w" and ?p = "path_at e" and ?v = "new_argv_at e" and ?n = "length name"
  have n: "?n \<le> 255" "cstr ?m a0 name" using word_atD [OF a0] by simp_all
  define m3 where "m3 = write_bytes ?m ?p (map of_char (''bin/'' @ name) @ [0])"
  define m4 where "m4 = store_words ?v (?p # as @ [0]) m3"
  note disj = lay [unfolded shell_layout_def]
  have line: "\<not> in_region x ?p 261 \<and> \<not> in_region x ?v 68" if "in_region x (line_at e) 256" for x
    using that disj by (auto simp: disjoint_regions_def)
  have b: "store_chars_at ?p BIN_PATH_PREFIX ?m = write_bytes ?m ?p (map of_char ''bin/'')"
    unfolding BIN_PATH_PREFIX_def by (rule store_chars_at_eq) simp
  have c: "memcpy (write_bytes ?m ?p (map of_char ''bin/'')) (?p + 4) a0 ?n = write_bytes ?m ?p (map of_char (''bin/'' @ name))"
  proof -
    let ?m1 = "write_bytes ?m ?p (map of_char ''bin/'')"
    have "in_region x (line_at e) 256" if x: "in_region x a0 ?n" for x
    proof -
      have "in_region (a0 + of_nat (unat (x - a0))) (line_at e) 256"
        by (rule word_at_region [OF a0]) (use x in \<open>simp add: in_region_def\<close>)
      then show ?thesis by simp
    qed
    moreover have "in_region x ?p 261" if "in_region x (?p + 4) ?n" for x
      using in_region_shift [of x ?p 4 ?n] that n(1) in_region_mono [of x ?p "4 + ?n" 261] by simp
    ultimately have "disjoint_regions (?p + 4) ?n a0 ?n" using line by (auto simp: disjoint_regions_def)
    then have "memcpy ?m1 (?p + 4) a0 ?n = write_bytes ?m1 (?p + 4) (read_bytes ?m1 a0 ?n)"
      using n(1) by (simp add: memcpy_disjoint)
    moreover have "?m1 x = ?m x" if "in_region x (line_at e) 256" for x
      by (rule write_bytes_out) (use line [OF that] in_region_mono [of x ?p "length (map of_char ''bin/'' :: u8 list)" 261] in auto)
    then have "cstr ?m1 a0 name" using word_atD [OF word_at_frame [OF a0]] by blast
    ultimately show ?thesis using write_bytes_append [of "map of_char ''bin/''" "map of_char name" ?m ?p] n(1)
      by (simp add: cstr_read_bytes)
  qed
  have d: "(write_bytes ?m ?p (map of_char (''bin/'' @ name)))(?p + 4 + of_nat ?n := 0) = m3"
    using write_bytes_snoc [of "map of_char (''bin/'' @ name)" ?m ?p 0] n(1) by (simp add: m3_def add.assoc)
  have small: "\<not> BIN_PATH_MAX < of_nat ?n + 5"
  proof -
    have "(of_nat ?n :: u32) \<le> 255" using n(1) by (simp add: word_le_nat_alt unat_of_nat_pow del: unat_of_nat unsigned_of_nat)
    then show ?thesis by (simp add: BIN_PATH_MAX_def SHELL_BUFFER_SIZE_def BIN_PATH_PREFIX_def) unat_arith
  qed
  have "strlen ?m a0 = Some (of_nat ?n)" using cstr_strlen [OF n(2)] .
  then have run: "run_program e argv w = do {
      (ret, w1) \<leftarrow> syscall_execv e ?p ?v 0 (uput e m4 w);
      (if ret \<noteq> 0 then map_option (Pair 127) (print_arg e (''Unknown command: %s'' @ nl) (argv ! 0) w1) else Some (0, w1)) }"
    unfolding argv using small b c d n(1) by (simp add: run_program_def m4_def BIN_PATH_PREFIX_def unat_of_nat_pow Let_def)
  have out4: "m4 x = m3 x" if "\<not> in_region x ?v 68" for x
    unfolding m4_def by (rule store_words_out) (use that in_region_mono [of x ?v "4 * length (?p # as @ [0])" 68] len argv in auto)
  have out3: "m3 x = ?m x" if "\<not> in_region x ?p 261" for x
    unfolding m3_def by (rule write_bytes_out) (use that in_region_mono [of x ?p "length (map of_char (''bin/'' @ name) @ [0 :: u8])" 261] n(1) in auto)
  have line4: "m4 x = ?m x" if "in_region x (line_at e) 256" for x
    using line [OF that] out3 out4 by simp
  have path: "cstr m4 ?p (''bin/'' @ name)"
  proof (rule cstr_cong [THEN iffD2])
    show "cstr m3 ?p (''bin/'' @ name)" unfolding m3_def using cstr_no_nul [OF n(2)] n(1) by (intro cstr_write_bytes) auto
    fix i assume "i \<le> length (''bin/'' @ name)"
    then have "in_region (?p + of_nat i) ?p 261" using n(1) by (intro in_region_offset) auto
    then show "m4 (?p + of_nat i) = m3 (?p + of_nat i)" using out4 disj by (auto simp: disjoint_regions_def)
  qed
  have "a \<noteq> 0 \<and> cstr m4 a s" if "word_at ?m (line_at e) 255 a s" for a s
    using word_at_nonnull [OF that] word_atD [OF word_at_frame [OF that line4]] disj by blast
  with as have "list_all2 (\<lambda>a s. a \<noteq> 0 \<and> cstr m4 a s) as args" by (rule list_all2_mono)
  then have "list_all2 (\<lambda>a s. a \<noteq> 0 \<and> cstr m4 a s) (?p # as) ((''bin/'' @ name) # args)" using path disj by simp
  moreover have "load32 m4 (?v + of_nat (4 * i)) = ((?p # as) @ [0]) ! i" if "i \<le> length (?p # as)" for i
    unfolding m4_def using load32_store_words [of i "?p # as @ [0]" ?v m3] that len argv by simp
  ultimately have "vector_from m4 ?v 0 ((''bin/'' @ name) # args)" by (intro vector_from_array [where as = "?p # as"]) auto
  then have "vector_at m4 ?v ((''bin/'' @ name) # args)" using disj by (simp add: vector_at_def)
  moreover have "\<forall>x. \<not> in_region x ?p 261 \<and> \<not> in_region x ?v 68 \<longrightarrow> m4 x = ?m x" using out3 out4 by simp
  ultimately show ?thesis using run path by (intro exI [of _ m4] conjI)
qed

section \<open>Turns of the main loop\<close>

context console
begin

text \<open>One turn of the main loop: the prompt, the line, its words, and then the command.\<close>

lemma turn_reads:
  assumes lay: "shell_layout e" and ok: "ok w" and line: "typed_line 255 [] (pending w) = Some (l, disp, rest)"
    and lib: "\<And>x. in_region x (line_at e) 256 \<Longrightarrow> \<not> libmem x"
  shows "\<exists>argv w1. shell_turn e w = (if argv \<noteq> [] then map_option snd (shell_execute_command e argv w1) else Some w1) \<and>
    reaches (\<lambda>x. in_region x (line_at e) 256) (map of_char ''> '' @ disp) rest w w1 \<and>
    line_words e w1 argv (take 16 (words (map u8_char l)))"
proof -
  let ?R = "\<lambda>x. in_region x (line_at e) 256"
  obtain w1 where w1: "printf e ''> '' [] w = Some w1" "reaches ?R (map of_char ''> '') (pending w) w w1"
    using printf_reaches [of w "''> ''" "[]" "map of_char ''> ''" ?R] ok by auto
  obtain w2 where w2: "shell_read_line e (line_at e) SHELL_BUFFER_SIZE w1 = Some (length l, w2)" "reaches ?R disp rest w1 w2"
    "read_bytes (umem e w2) (line_at e) (length l + 1) = l @ [0]"
    using read_chars_spec [OF line, of SHELL_BUFFER_SIZE w1 "line_at e"] lib reaches_ok [OF w1(2)]
    by (auto simp: shell_read_line_def SHELL_BUFFER_SIZE_def read_bytes_def)
  have l: "length l \<le> 255" "list_all printable l"
    using typed_line_length [OF line] typed_line_printable [OF line] by simp_all
  then have "0 \<notin> set l" by (auto simp: list_all_iff printable_def)
  from cstr_of_bytes [OF w2(3) this] have c: "cstr (umem e w2) (line_at e) (map u8_char l)" .
  obtain argv m where parse: "shell_parse_command (line_at e) SHELL_MAX_ARGS (umem e w2) = Some (argv, m)"
    "list_all2 (word_at m (line_at e) (length l)) argv (take 16 (words (map u8_char l)))"
    "\<And>x. length l \<le> unat (x - line_at e) \<Longrightarrow> m x = umem e w2 x"
    using parse_words_spec [OF c, of 16 "[]"] l(1) by (auto simp: shell_parse_command_def SHELL_MAX_ARGS_def)
  have "word_at m (line_at e) (length l) a s \<Longrightarrow> word_at m (line_at e) 255 a s" for a s
    using l(1) by (fastforce simp: word_at_def)
  with parse(2) have "line_words e (uput e m w2) argv (take 16 (words (map u8_char l)))"
    unfolding put_mem(1) by (rule list_all2_mono)
  moreover have "reaches ?R [] rest w2 (uput e m w2)"
    using reaches_ok [OF w2(2)] parse(3) l(1) by (auto simp: reaches_def put_mem in_region_def not_less)
  then have "reaches ?R (map of_char ''> '' @ disp) rest w (uput e m w2)"
    using reaches_trans [OF w1(2) reaches_trans [OF w2(2), of "[]" rest "uput e m w2"]] by simp
  moreover have "shell_turn e w = (if argv \<noteq> [] then map_option snd (shell_execute_command e argv (uput e m w2)) else Some (uput e m w2))"
    using w1(1) w2(1) parse(1) by (simp add: shell_turn_def Let_def)
  ultimately show ?thesis by blast
qed

text \<open>What is printed does not touch the words.\<close>

lemma word_at_reaches:
  "reaches (\<lambda>x. False) k q w w1 \<Longrightarrow> (\<And>x. in_region x line 256 \<Longrightarrow> \<not> libmem x) \<Longrightarrow>
     word_at (umem e w) line 255 a s \<Longrightarrow> word_at (umem e w1) line 255 a s"
  by (erule word_at_frame) (simp add: reaches_def)

lemma echo_args_spec:
  assumes "list_all2 (word_at (umem e w) line 255) as ws" "ok w" "\<And>x. in_region x line 256 \<Longrightarrow> \<not> libmem x"
  shows "\<exists>w1. echo_args e as w = Some w1 \<and> reaches (\<lambda>x. False) (map of_char (unwords ws)) (pending w) w w1"
  using assms(1,2)
proof (induction as arbitrary: ws w)
  case Nil
  then show ?case using reaches_refl by auto
next
  case (Cons a as)
  let ?R = "\<lambda>x. False"
  obtain s ws' where ws: "ws = s # ws'" "word_at (umem e w) line 255 a s" "list_all2 (word_at (umem e w) line 255) as ws'"
    using Cons.prems(1) by (auto simp: list_all2_Cons1)
  obtain w1 where w1: "printf e ''%s'' [Str s] w = Some w1" "reaches ?R (map of_char s) (pending w) w w1"
    using printf_reaches [of w "''%s''" "[Str s]" "map of_char s" ?R] Cons.prems(2) by auto
  let ?sp = "if as \<noteq> [] then '' '' else []"
  obtain w2 where w2: "(if as \<noteq> [] then printf e '' '' [] w1 else Some w1) = Some w2" "reaches ?R (map of_char ?sp) (pending w) w1 w2"
    using printf_reaches [of w1 "'' ''" "[]" "[32]" ?R] reaches_ok [OF w1(2)] reaches_refl [of w1 ?R] by (cases "as = []") auto
  note r = reaches_trans [OF w1(2) w2(2)]
  have "list_all2 (word_at (umem e w2) line 255) as ws'"
    using ws(3) word_at_reaches [OF r assms(3)] by (rule list_all2_mono)
  from Cons.IH [OF this] obtain w3 where w3: "echo_args e as w2 = Some w3" "reaches ?R (map of_char (unwords ws')) (pending w) w2 w3"
    using reaches_ok [OF r] by auto
  have "as = [] \<longleftrightarrow> ws' = []" using ws(3) by auto
  then have "map of_char s @ map of_char ?sp @ map of_char (unwords ws') = (map of_char (unwords ws) :: u8 list)" by (simp add: ws(1))
  then have "reaches ?R (map of_char (unwords ws)) (pending w) w w3" using reaches_trans [OF r w3(2)] by simp
  moreover have "echo_args e (a # as) w = Some w3"
    using w1(1) w2(1) w3(1) cstr_read_cstr [OF conjunct1 [OF word_atD [OF ws(2)]]] by (simp add: print_arg_def)
  ultimately show ?case by blast
qed

lemma echo_turn:
  assumes lay: "shell_layout e" and ok: "ok w" and line: "typed_line 255 [] (pending w) = Some (l, disp, rest)"
    and lib: "\<And>x. in_region x (line_at e) 256 \<Longrightarrow> \<not> libmem x" and ws: "words (map u8_char l) = ''echo'' # ws"
  shows "\<exists>w1. shell_turn e w = Some w1 \<and>
    reaches (\<lambda>x. in_region x (line_at e) 256) (map of_char ''> '' @ disp @ map of_char (unwords (take 15 ws)) @ [10]) rest w w1"
proof -
  let ?R = "\<lambda>x. in_region x (line_at e) 256"
  obtain argv w1 where t: "shell_turn e w = (if argv \<noteq> [] then map_option snd (shell_execute_command e argv w1) else Some w1)"
    "reaches ?R (map of_char ''> '' @ disp) rest w w1" "line_words e w1 argv (''echo'' # take 15 ws)"
    using turn_reads [OF lay ok line lib] ws by auto
  obtain a as where argv: "argv = a # as" "word_at (umem e w1) (line_at e) 255 a ''echo''" "line_words e w1 as (take 15 ws)"
    using t(3) by (auto simp: list_all2_Cons2)
  obtain w2 where w2: "echo_args e as w1 = Some w2" "reaches (\<lambda>x. False) (map of_char (unwords (take 15 ws))) rest w1 w2"
    using echo_args_spec [OF argv(3) _ lib] reaches_ok [OF t(2)] by auto
  obtain w3 where w3: "printf e nl [] w2 = Some w3" "reaches ?R [10] rest w2 w3"
    using printf_reaches [of w2 nl "[]" "[10]" ?R] reaches_ok [OF w2(2)] by auto
  have "find_command (umem e w1) a commands = Some (Some Cmd_echo)"
    using find_builtin [OF conjunct1 [OF word_atD [OF argv(2)]]] by (simp add: builtin_def commands_def)
  then have "shell_turn e w = Some w3"
    using w2(1) w3(1) by (simp add: t(1) argv(1) shell_execute_command_def run_handler_def cmd_echo_def)
  moreover have "reaches ?R (map of_char (unwords (take 15 ws))) rest w1 w2" by (rule reaches_mono [OF w2(2)]) simp
  then have "reaches ?R (map of_char ''> '' @ disp @ map of_char (unwords (take 15 ws)) @ [10]) rest w w3"
    using reaches_trans [OF t(2) reaches_trans [OF _ w3(2)]] by simp
  ultimately show ?thesis by blast
qed

lemma program_turn:
  assumes lay: "shell_layout e" and ok: "ok w" and line: "typed_line 255 [] (pending w) = Some (l, disp, rest)"
    and lib: "\<And>x. in_region x (line_at e) 256 \<Longrightarrow> \<not> libmem x"
    and ws: "take 16 (words (map u8_char l)) = name # args" "builtin name = None"
  shows "\<exists>a m w1. shell_turn e w = do {
      (ret, w2) \<leftarrow> syscall_execv e (path_at e) (new_argv_at e) 0 (uput e m w1);
      (if ret \<noteq> 0 then print_arg e (''Unknown command: %s'' @ nl) a w2 else Some w2) } \<and>
    reaches (\<lambda>x. in_region x (line_at e) 256 \<or> in_region x (path_at e) 261 \<or> in_region x (new_argv_at e) 68)
      (map of_char ''> '' @ disp) rest w (uput e m w1) \<and>
    cstr m a name \<and> cstr m (path_at e) (''bin/'' @ name) \<and> vector_at m (new_argv_at e) ((''bin/'' @ name) # args)"
proof -
  let ?R = "\<lambda>x. in_region x (line_at e) 256"
  obtain argv w1 where t: "shell_turn e w = (if argv \<noteq> [] then map_option snd (shell_execute_command e argv w1) else Some w1)"
    "reaches ?R (map of_char ''> '' @ disp) rest w w1" "line_words e w1 argv (name # args)"
    using turn_reads [OF lay ok line lib] ws(1) by auto
  obtain a as where argv: "argv = a # as" "word_at (umem e w1) (line_at e) 255 a name"
    using t(3) by (auto simp: list_all2_Cons2)
  have "length argv = length (take 16 (words (map u8_char l)))" using list_all2_lengthD [OF t(3)] ws(1) by simp
  then have len: "length argv \<le> 16" by simp
  have "find_command (umem e w1) a commands = Some None"
    using find_builtin [of _ a name] word_atD [OF argv(2)] ws(2) by simp
  then have "shell_turn e w = map_option snd (run_program e argv w1)"
    by (simp add: t(1) argv(1) shell_execute_command_def)
  moreover obtain m where m: "run_program e argv w1 = do {
      (ret, w2) \<leftarrow> syscall_execv e (path_at e) (new_argv_at e) 0 (uput e m w1);
      (if ret \<noteq> 0 then map_option (Pair 127) (print_arg e (''Unknown command: %s'' @ nl) (argv ! 0) w2) else Some (0, w2)) }"
    "cstr m (path_at e) (''bin/'' @ name)" "vector_at m (new_argv_at e) ((''bin/'' @ name) # args)"
    "\<And>x. \<not> in_region x (path_at e) 261 \<and> \<not> in_region x (new_argv_at e) 68 \<Longrightarrow> m x = umem e w1 x"
    using run_program_spec [OF lay t(3) len] by blast
  ultimately have "shell_turn e w = do {
      (ret, w2) \<leftarrow> syscall_execv e (path_at e) (new_argv_at e) 0 (uput e m w1);
      (if ret \<noteq> 0 then print_arg e (''Unknown command: %s'' @ nl) a w2 else Some w2) }"
    by (cases "syscall_execv e (path_at e) (new_argv_at e) 0 (uput e m w1)")
      (auto simp: argv(1) option.map_comp comp_def option.map_ident split: prod.splits)
  moreover have "m x = umem e w1 x" if "in_region x (line_at e) 256" for x
    using m(4) [of x] that lay by (auto simp: shell_layout_def disjoint_regions_def)
  then have "cstr m a name" using word_atD [OF word_at_frame [OF argv(2)]] by blast
  moreover have "reaches (\<lambda>x. ?R x \<or> in_region x (path_at e) 261 \<or> in_region x (new_argv_at e) 68) [] rest w1 (uput e m w1)"
    using m(4) reaches_ok [OF t(2)] by (auto simp: reaches_def put_mem)
  ultimately show ?thesis using m(2,3) reaches_trans [OF reaches_mono [OF t(2)], of "\<lambda>x. ?R x \<or> in_region x (path_at e) 261 \<or> in_region x (new_argv_at e) 68" "[]" rest]
    by (intro exI [of _ a] exI [of _ m] exI [of _ w1]) simp
qed

end

end
