(* ===== verification/Shell_Machine.thy ===== *)
theory Shell_Machine
  imports Shell_Spec
begin

text \<open>
  The shell on the machine: the kernel's model provides the interface \<open>console\<close>, with a user at the
  keyboard, and the theorems on the shell hold of it.
\<close>

section \<open>The kernel provides the interface\<close>

text \<open>The shell on the machine: its standard output makes one \<open>write\<close> for each character, from a byte at
  \<open>ao\<close>. The addresses of the buffers and newlib's allocator are those of \<open>e\<close>.\<close>

fun typing_out :: "platform \<Rightarrow> interrupt_context \<Rightarrow> u32 \<Rightarrow> u8 list \<Rightarrow> typing \<Rightarrow> typing option" where
  "typing_out p c ao [] w = Some w"
| "typing_out p c ao (b # bs) w =
     do {
       (_, w1) \<leftarrow> typing_trap p c [9, 1, ao, 1] (set_mem ((mem_of (fst w))(ao := b)) (fst w), snd w);
       typing_out p c ao bs w1
     }"

definition typing_shell :: "platform \<Rightarrow> interrupt_context \<Rightarrow> u32 \<Rightarrow> typing shell_os \<Rightarrow> typing shell_os" where
  "typing_shell p c ao e =
     e\<lparr>trap := typing_trap p c, umem := (\<lambda>w. mem_of (fst w)), uput := (\<lambda>m w. (set_mem m (fst w), snd w)),
       out := typing_out p c ao\<rparr>"

lemma typing_shell_simps [simp]:
  "trap (typing_shell p c ao e) = typing_trap p c" "umem (typing_shell p c ao e) w = mem_of (fst w)"
  "uput (typing_shell p c ao e) m w = (set_mem m (fst w), snd w)" "out (typing_shell p c ao e) = typing_out p c ao"
  "line_at (typing_shell p c ao e) = line_at e" "path_at (typing_shell p c ao e) = path_at e"
  "new_argv_at (typing_shell p c ao e) = new_argv_at e"
  by (simp_all add: typing_shell_def)

text \<open>No key gives the character NUL, which \<open>getchar\<close> returns for an empty buffer.\<close>

definition shell_ready :: "u32 \<Rightarrow> typing \<Rightarrow> bool" where
  "shell_ready ao w \<longleftrightarrow> ao \<noteq> 0 \<and> typing_ok w \<and> 0 \<notin> set (typing_bytes w)"

lemma shell_ready_cong: "typing_ok w' \<Longrightarrow> set (typing_bytes w') \<subseteq> set (typing_bytes w) \<Longrightarrow> shell_ready ao w \<Longrightarrow> shell_ready ao w'"
  by (auto simp: shell_ready_def)

lemma typing_out_spec:
  "shell_ready ao w \<Longrightarrow> \<exists>w'. typing_out p c ao bs w = Some w' \<and> shell_ready ao w' \<and> typing_bytes w' = typing_bytes w \<and>
     m_files (fst w') = m_files (fst w) \<and> m_screen (fst w') = fold emit bs (m_screen (fst w)) \<and> (\<forall>x. x \<noteq> ao \<longrightarrow> mem_of (fst w') x = mem_of (fst w) x)"
proof (induction bs arbitrary: w)
  case (Cons b bs)
  obtain w1 where w1: "typing_trap p c [9, 1, ao, 1] (set_mem ((mem_of (fst w))(ao := b)) (fst w), snd w) = Some (1, w1)" "typing_ok w1"
    "typing_chars w1 = typing_chars w" "m_screen (fst w1) = emit b (m_screen (fst w))" "m_files (fst w1) = m_files (fst w)"
    "mem_of (fst w1) = (mem_of (fst w))(ao := b)"
    using typing_put [of w ao p c b] Cons.prems by (auto simp: shell_ready_def)
  then have "shell_ready ao w1" using Cons.prems by (simp add: shell_ready_def typing_bytes_def)
  from Cons.IH [OF this] w1 show ?case by (auto simp: typing_bytes_def)
qed simp

lemma typing_getchar:
  assumes ok: "shell_ready ao w" and k: "typing_bytes w = x # ks"
  shows "\<exists>r w'. typing_trap p c [2] w = Some (r, w') \<and> shell_ready ao w' \<and> m_screen (fst w') = m_screen (fst w) \<and>
    m_files (fst w') = m_files (fst w) \<and> mem_of (fst w') = mem_of (fst w) \<and>
    (ucast r = x \<and> x \<noteq> 0 \<and> typing_bytes w' = ks \<or> r = 0 \<and> typing_bytes w' = typing_bytes w \<and> length (snd w') < length (snd w))"
proof -
  obtain s sch where w: "w = (s, sch)" by fastforce
  let ?s = "keys_typed c (arriving sch) s" and ?k = "fold irq_keyboard (arriving sch) (m_keys s)"
  have t: "typing_ok (s, sch)" "x \<noteq> 0" using ok k w by (auto simp: shell_ready_def)
  note a = arriving_keys [OF t(1), of c]
  show ?thesis
  proof (cases "kbd_contents ?k")
    case Nil
    have "sch \<noteq> []" using a(2) Nil k w by (auto simp: typing_bytes_def)
    then have "length (tl sch) < length sch" by simp
    moreover have "typing_chars (?s, tl sch) = typing_chars (s, sch)" using a(2) by (simp add: typing_chars_def)
    moreover have "\<not> keyboard_buffer_has_data ?k" using kq.has_data_iff [of ?k] Nil a(1) by simp
    ultimately show ?thesis using ok t(1) a(1) w k
      by (auto simp: typing_trap_def kernel_trap_syscall Let_def syscall_def call_getchar_def shell_ready_def typing_ok_def typing_bytes_def)
  next
    case (Cons y ys)
    obtain q where q: "keyboard_buffer_pop ?k = (y, q)" "kbd_contents q = ys" "kbd_inv q" "keyboard_buffer_has_data ?k"
      using kq.pop_contents [of ?k] kq.pop_inv [of ?k] kq.pop_value [of ?k] kq.has_data_iff [of ?k] a(1) Cons
      by (cases "keyboard_buffer_pop ?k") auto
    have c: "typing_chars (s, sch) = y # ys @ List.map_filter key_char (concat (tl sch))" using a(2) Cons by simp
    have "ucast (scast (of_char y :: u8) :: u32) = (of_char y :: u8)" by (rule bit_word_eqI) (auto simp: bit_simps)
    moreover have "typing_chars (s2, tl sch) = ys @ List.map_filter key_char (concat (tl sch))" if "m_keys s2 = q" for s2
      using that q(2) by (simp add: typing_chars_def)
    ultimately show ?thesis using ok t c q k w
      by (auto simp: typing_trap_def kernel_trap_syscall Let_def syscall_def call_getchar_def shell_ready_def typing_ok_def typing_bytes_def)
  qed
qed

interpretation sh: console "typing_shell p c ao e" "shell_ready ao" typing_bytes "\<lambda>w. length (snd w)" "\<lambda>w. m_screen (fst w)" emit
  "\<lambda>w. m_files (fst w)" "\<lambda>x. x = ao"
  for p c ao e
proof (unfold_locales, goal_cases)
  case (1 w x ks)
  then show ?case using typing_getchar [OF 1, of p c] by simp
next
  case (2 w bs)
  then show ?case using typing_out_spec [OF 2, of p c bs] by auto
qed (auto simp: shell_ready_def typing_ok_def typing_bytes_def typing_chars_def)

section \<open>The shell on the machine\<close>

lemma shell_reaches:
  assumes "shell_ready ao w" "sh.reaches p c ao e R bs ks w w1"
  shows "typing_bytes w1 = ks \<and> m_files (fst w1) = m_files (fst w) \<and> terminal_write bs (m_screen (fst w)) = Some (m_screen (fst w1))"
  using terminal_write_emit [of "m_screen (fst w)" bs] assms by (simp add: shell_ready_def typing_ok_def sh.reaches_def)

text \<open>C6: From the keyboard to the screen: whenever the interrupts of the keys of a line arrive while the
  shell waits, a line whose first word is \<open>echo\<close> makes one turn of its main loop return, the screen
  shows the prompt, the editing of the line as it happened, and then the other words of the line -
  fifteen at most - with single spaces between them; the files are untouched and what was typed
  after the line is still in the key buffer. The keys have to fit that buffer.\<close>

theorem shell_echoes:
  assumes ready: "shell_ready ao w" and lay: "shell_layout e" and ao: "\<not> in_region ao (line_at e) 256"
    and keys: "typed_line 255 [] (typing_bytes w) = Some (l, disp, rest)" and ws: "words (map u8_char l) = ''echo'' # ws"
  shows "\<exists>w1. shell_turn (typing_shell p c ao e) w = Some w1 \<and> typing_bytes w1 = rest \<and> m_files (fst w1) = m_files (fst w) \<and>
    terminal_write (map of_char ''> '' @ disp @ map of_char (unwords (take 15 ws)) @ [10]) (m_screen (fst w)) = Some (m_screen (fst w1))"
proof -
  have "shell_layout (typing_shell p c ao e)" using lay by (simp add: shell_layout_def)
  from sh.echo_turn [OF this ready keys _ ws] ao obtain w1 where w1: "shell_turn (typing_shell p c ao e) w = Some w1"
    "sh.reaches p c ao e (\<lambda>x. in_region x (line_at e) 256) (map of_char ''> '' @ disp @ map of_char (unwords (take 15 ws)) @ [10]) rest w w1"
    by auto
  show ?thesis using w1(1) shell_reaches [OF ready w1(2)] by blast
qed


lemma length_dropWhile_hd: "length (dropWhile P s) + (if s \<noteq> [] \<and> P (hd s) then 1 else 0) \<le> length s"
  by (cases s) (auto simp: length_dropWhile_le le_imp_less_Suc)

lemma strings_size_words: "strings_size (words s) \<le> length s + (if s \<noteq> [] \<and> \<not> is_blank (hd s) then 1 else 0)"
proof (induction s rule: words.induct)
  case (1 s)
  show ?case
  proof (cases "dropWhile is_blank s")
    case (Cons c t)
    let ?w = "takeWhile (\<lambda>d. \<not> is_blank d) t" and ?r = "dropWhile (\<lambda>d. \<not> is_blank d) t"
    have "length ?w + length ?r = length t" by (simp flip: length_append)
    moreover have "strings_size (words ?r) \<le> length ?r" using 1 [OF Cons] hd_dropWhile [of "\<lambda>d. \<not> is_blank d" t] by (auto split: if_splits)
    moreover have "strings_size (words s) = length ?w + 2 + strings_size (words ?r)" unfolding words_word [OF Cons] by simp
    moreover have "length t + 1 + (if s \<noteq> [] \<and> is_blank (hd s) then 1 else 0) \<le> length s" using length_dropWhile_hd [of is_blank s] by (simp add: Cons)
    moreover have "s \<noteq> []" using Cons by auto
    ultimately show ?thesis by (auto split: if_splits)
  qed (simp add: words_blanks)
qed

lemma strings_size_take: "strings_size (take k ws) \<le> strings_size ws"
proof (induction ws arbitrary: k)
  case (Cons w ws)
  then show ?case by (cases k) auto
qed simp

text \<open>C4: A line whose first word is not a built-in command runs a program: the shell calls the kernel with the
  path \<open>bin/\<close> and the word, and the kernel reads from the arguments exactly that path and the other words of the line,
  at most fifteen - a line never exceeds the limits on arguments, and the buffers the shell builds on its stack are
  never overrun nor do they touch the words. If the program cannot be run the shell says so.\<close>

theorem shell_runs_program:
  assumes ready: "shell_ready ao w" and lay: "shell_layout e" and ao: "\<not> in_region ao (line_at e) 256"
    and keys: "typed_line 255 [] (typing_bytes w) = Some (l, disp, rest)"
    and ws: "words (map u8_char l) = name # args" "builtin name = None"
  shows "\<exists>a w1. shell_turn (typing_shell p c ao e) w = do {
      (ret, w2) \<leftarrow> typing_trap p c [21, path_at e, new_argv_at e, 0] w1;
      (if ret \<noteq> 0 then print_arg (typing_shell p c ao e) (''Unknown command: %s'' @ nl) a w2 else Some w2) } \<and>
    read_cstr (mem_of (fst w1)) a = Some name \<and>
    user_path (mem_of (fst w1)) (path_at e) = Some (Some (''bin/'' @ name)) \<and>
    exec_args (mem_of (fst w1)) (new_argv_at e) 0 = Some ((''bin/'' @ name) # take 15 args, []) \<and>
    typing_bytes w1 = rest \<and> m_files (fst w1) = m_files (fst w) \<and>
    terminal_write (map of_char ''> '' @ disp) (m_screen (fst w)) = Some (m_screen (fst w1)) \<and>
    (\<forall>x. x \<noteq> ao \<and> \<not> in_region x (line_at e) 256 \<and> \<not> in_region x (path_at e) 261 \<and> \<not> in_region x (new_argv_at e) 68 \<longrightarrow>
      mem_of (fst w1) x = mem_of (fst w) x)"
proof -
  let ?e = "typing_shell p c ao e"
  have lay': "shell_layout ?e" using lay by (simp add: shell_layout_def)
  have lib: "x \<noteq> ao" if "in_region x (line_at ?e) 256" for x using that ao by auto
  have "take 16 (words (map u8_char l)) = name # take 15 args" using ws(1) by simp
  from sh.program_turn [OF lay' ready keys lib this ws(2)] obtain a m w1 where t:
    "shell_turn ?e w = do {
      (ret, w2) \<leftarrow> syscall_execv ?e (path_at e) (new_argv_at e) 0 (set_mem m (fst w1), snd w1);
      (if ret \<noteq> 0 then print_arg ?e (''Unknown command: %s'' @ nl) a w2 else Some w2) }"
    "sh.reaches p c ao e (\<lambda>x. in_region x (line_at e) 256 \<or> in_region x (path_at e) 261 \<or> in_region x (new_argv_at e) 68)
      (map of_char ''> '' @ disp) rest w (set_mem m (fst w1), snd w1)"
    "cstr m a name" "cstr m (path_at e) (''bin/'' @ name)" "vector_at m (new_argv_at e) ((''bin/'' @ name) # take 15 args)"
    by auto
  have "length l \<le> 255" using typed_line_length [OF keys] by simp
  then have "strings_size (name # args) \<le> 256" using strings_size_words [of "map u8_char l"] ws(1) by (auto split: if_splits)
  then have "strings_size ((''bin/'' @ name) # take 15 args) \<le> 4096" using strings_size_take [of 15 args] by simp
  then have "exec_args m (new_argv_at e) 0 = Some ((''bin/'' @ name) # take 15 args, [])"
    using exec_args_copies [OF t(5), of 0 "[]"] by (simp add: vector_at_def)
  moreover have "user_path m (path_at e) = Some (Some (''bin/'' @ name))"
    using lay cstr_read_cstr [OF t(4)] by (simp add: user_path_def shell_layout_def)
  ultimately show ?thesis using shell_reaches [OF ready t(2)] t(1,2) cstr_read_cstr [OF t(3)]
    by (intro exI [of _ a] exI [of _ "(set_mem m (fst w1), snd w1)"]) (auto simp: sh.reaches_def syscall_execv_def)
qed

section \<open>Examples\<close>

definition demo_shell :: "typing shell_os" where
  "demo_shell = \<lparr>trap = (\<lambda>_ _. None), umem = (\<lambda>_ _. 0), uput = (\<lambda>_ w. w), out = (\<lambda>_ _. None), line_at = 0x300000, path_at = 0x301000,
     new_argv_at = 0x302000, space_at = 0x304000, empty_at = 0x304002, u_malloc = (\<lambda>_ _. None), u_free = (\<lambda>_ _. None), unbuffer = (\<lambda>w. w)\<rparr>"

text \<open>The keys \<open>echo  hi\<close> and return; the keys \<open>ls\<close>, \<open>x\<close>, backspace, \<open>y a\<close> and return.\<close>

abbreviation echo_typed :: typing where
  "echo_typed \<equiv> (demo_machine, [[], [0x12, 0x2E], [0x23], [], [0x18, 0x39], [0x39, 0x23, 0x17], [0x1C]])"

abbreviation program_typed :: typing where
  "program_typed \<equiv> (demo_machine, [[0x26, 0x1F], [0x2D, 0x0E], [], [0x15, 0x39, 0x1E, 0x1C]])"

lemma demo_typed:
  "typing_chars echo_typed = ''echo  hi'' @ [CHR 0x0A]" "typing_chars program_typed = ''lsx'' @ [CHR 0x08] @ ''y a'' @ [CHR 0x0A]"
  by (simp_all add: typing_chars_def demo_machine_def kbd_contents_def kbd_init_def) code_simp+

lemma demo_shell_ready: "shell_ready 0x303000 echo_typed" "shell_ready 0x303000 program_typed"
  using demo_typed machine_okD(3,4) [OF demo_machine_ok(2)]
  by (simp_all add: shell_ready_def typing_ok_def typing_bytes_def KEYBOARD_BUFFER_SIZE_def)

lemma demo_shell_layout: "shell_layout demo_shell" "\<not> in_region 0x303000 (line_at demo_shell) 256"
  by (simp_all add: shell_layout_def demo_shell_def in_region_def disjoint_regions_below)

lemma demo_lines:
  "typed_line 255 [] (typing_bytes echo_typed) = Some (map of_char ''echo  hi'', map of_char (''echo  hi'' @ nl), [])"
  "typed_line 255 [] (typing_bytes program_typed) = Some (map of_char ''lsy a'', map of_char (''lsx'' @ [CHR 0x08] @ ''y a'' @ nl), [])"
  by (simp_all add: typing_bytes_def demo_typed edit_key_def key_echo_def printable_def)

lemma demo_words:
  "words (map u8_char (map of_char ''echo  hi'')) = ''echo'' # [''hi'']" "words (map u8_char (map of_char ''lsy a'')) = ''lsy'' # [''a'']"
  by (simp_all add: comp_def) code_simp+

theorem shell_echoes_witness:
  "\<exists>w1. shell_turn (typing_shell demo_platform (demo_context 0 0) 0x303000 demo_shell) echo_typed = Some w1 \<and>
     terminal_write (map of_char (''> echo  hi'' @ nl @ ''hi'' @ nl)) (m_screen demo_machine) = Some (m_screen (fst w1))"
proof -
  have "map of_char ''> '' @ map of_char (''echo  hi'' @ nl) @ map of_char (unwords (take 15 [''hi''])) @ [10] =
      (map of_char (''> echo  hi'' @ nl @ ''hi'' @ nl) :: u8 list)" by simp
  then show ?thesis
    using shell_echoes [OF demo_shell_ready(1) demo_shell_layout demo_lines(1) demo_words(1), of demo_platform "demo_context 0 0"]
    by (auto simp del: map_append)
qed


theorem shell_runs_program_witness:
  "\<exists>a w1. shell_turn (typing_shell demo_platform (demo_context 0 0) 0x303000 demo_shell) program_typed = do {
      (ret, w2) \<leftarrow> typing_trap demo_platform (demo_context 0 0) [21, path_at demo_shell, new_argv_at demo_shell, 0] w1;
      (if ret \<noteq> 0 then print_arg (typing_shell demo_platform (demo_context 0 0) 0x303000 demo_shell) (''Unknown command: %s'' @ nl) a w2 else Some w2) } \<and>
    exec_args (mem_of (fst w1)) (new_argv_at demo_shell) 0 = Some ([''bin/lsy'', ''a''], [])"
proof -
  have "builtin ''lsy'' = None" by (simp add: builtin_def commands_def)
  from shell_runs_program [OF demo_shell_ready(2) demo_shell_layout demo_lines(2) demo_words(2) this, of demo_platform "demo_context 0 0"]
  show ?thesis by fastforce
qed

end
