(* ===== verification/Shell_Files.thy ===== *)
theory Shell_Files
  imports Shell_Machine
begin

text \<open>
  The shell's commands on files: the interface \<open>file_console\<close> adds the calls that take a path to the
  interface \<open>console\<close>.
\<close>

section \<open>Commands that take a path\<close>

text \<open>The commands that pass a path to the kernel: the name, the number of the call, the message.\<close>

definition path_commands :: "(string \<times> u32 \<times> string) set" where
  "path_commands = {(''mkdir'', 10, ''Error: cannot create directory''), (''rm'', 11, ''Error: cannot delete''),
     (''rmdir'', 12, ''Error: cannot remove directory'')}"

lemma run_path_command:
  assumes "(name, n, msg) \<in> path_commands"
  shows "\<exists>h. builtin name = Some h \<and> (\<forall>a b as w. run_handler e h (a # b # as) w = do {
      (r, w1) \<leftarrow> trap e [n, b] w; (if sint r < 0 then failed e msg b w1 else Some (0, w1)) })"
proof -
  note defs = builtin_def commands_def run_handler_def syscall_mkdir_def syscall_rmdir_def syscall_unlink_def
  consider "(name, n, msg) = (''mkdir'', 10, ''Error: cannot create directory'')" | "(name, n, msg) = (''rm'', 11, ''Error: cannot delete'')"
    | "(name, n, msg) = (''rmdir'', 12, ''Error: cannot remove directory'')" using assms unfolding path_commands_def by blast
  then show ?thesis
  proof cases
    case 1
    then show ?thesis by (intro exI [of _ Cmd_mkdir]) (simp add: defs cmd_mkdir_def cong: if_cong)
  next
    case 2
    then show ?thesis by (intro exI [of _ Cmd_rm]) (simp add: defs cmd_rm_def cong: if_cong)
  next
    case 3
    then show ?thesis by (intro exI [of _ Cmd_rmdir]) (simp add: defs cmd_rmdir_def cong: if_cong)
  qed
qed

lemma path_message:
  assumes "(name, n, msg) \<in> path_commands"
  shows "c_format ((msg @ '' '%s'' @ [CHR 0x27]) @ nl) [Str s] = Some (map of_char (msg @ '' '' @ [CHR 0x27] @ s @ [CHR 0x27] @ nl))"
  using assms by (auto simp: path_commands_def)

locale file_console = console e ok pending lag screen emit files libmem
  for e :: "'w shell_os" and ok :: "'w \<Rightarrow> bool" and pending :: "'w \<Rightarrow> u8 list" and lag :: "'w \<Rightarrow> nat"
    and screen :: "'w \<Rightarrow> 't" and emit :: "u8 \<Rightarrow> 't \<Rightarrow> 't" and files :: "'w \<Rightarrow> 'f" and libmem :: "u32 \<Rightarrow> bool" +
  fixes path_op :: "u32 \<Rightarrow> string \<Rightarrow> 'f \<Rightarrow> (int \<times> 'f) option"
  assumes path_call: "ok w \<Longrightarrow> n \<in> {10, 11, 12} \<Longrightarrow> a \<noteq> 0 \<Longrightarrow> cstr (umem e w) a s \<Longrightarrow> path_op n s (files w) = Some (r, f) \<Longrightarrow>
      \<exists>w'. trap e [n, a] w = Some (word_of_int r, w') \<and> ok w' \<and> pending w' = pending w \<and> screen w' = screen w \<and>
        umem e w' = umem e w \<and> files w' = f \<and> - 4095 \<le> r \<and> r \<le> 0"
begin

lemma path_turn:
  assumes lay: "shell_layout e" and ok: "ok w" and line: "typed_line 255 [] (pending w) = Some (l, disp, rest)"
    and lib: "\<And>x. in_region x (line_at e) 256 \<Longrightarrow> \<not> libmem x" and cmd: "(name, n, msg) \<in> path_commands"
    and ws: "words (map u8_char l) = name # s # xs" and op: "path_op n s (files w) = Some (r, f)"
  shows "\<exists>w1. shell_turn e w = Some w1 \<and> ok w1 \<and> pending w1 = rest \<and> files w1 = f \<and>
    screen w1 = fold emit (map of_char ''> '' @ disp @
      (if r < 0 then map of_char (msg @ '' '' @ [CHR 0x27] @ s @ [CHR 0x27] @ nl) else [])) (screen w)"
proof -
  let ?R = "\<lambda>x. in_region x (line_at e) 256"
  obtain argv w1 where t: "shell_turn e w = (if argv \<noteq> [] then map_option snd (shell_execute_command e argv w1) else Some w1)"
    "reaches ?R (map of_char ''> '' @ disp) rest w w1" "line_words e w1 argv (name # s # take 14 xs)"
    using turn_reads [OF lay ok line lib] ws by auto
  obtain a b as where argv: "argv = a # b # as" "word_at (umem e w1) (line_at e) 255 a name" "word_at (umem e w1) (line_at e) 255 b s"
    using t(3) by (auto simp: list_all2_Cons2)
  obtain h where h: "builtin name = Some h" "\<And>a b as w. run_handler e h (a # b # as) w = do {
      (r, w1) \<leftarrow> trap e [n, b] w; (if sint r < 0 then failed e msg b w1 else Some (0, w1)) }"
    using run_path_command [OF cmd, of e] by blast
  have b: "cstr (umem e w1) b s" "b \<noteq> 0" "n \<in> {10, 11, 12}"
    using word_atD [OF argv(3)] word_at_nonnull [OF argv(3)] lay cmd by (auto simp: shell_layout_def path_commands_def)
  have "find_command (umem e w1) a commands = Some (Some h)" using find_builtin [of _ a name] word_atD [OF argv(2)] h(1) by simp
  then have turn: "shell_turn e w = map_option snd (run_handler e h argv w1)"
    by (simp add: t(1) argv(1) shell_execute_command_def)
  have w1: "ok w1" "pending w1 = rest" "files w1 = files w" "screen w1 = fold emit (map of_char ''> '' @ disp) (screen w)"
    using t(2) by (simp_all add: reaches_def)
  obtain w2 where w2: "trap e [n, b] w1 = Some (word_of_int r, w2)" "ok w2" "pending w2 = rest" "screen w2 = screen w1"
    "umem e w2 = umem e w1" "files w2 = f" "- 4095 \<le> r" "r \<le> 0"
    using path_call [OF w1(1) b(3,2,1), of r f] op w1(2,3) by auto
  have r: "sint (word_of_int r :: u32) = r" using w2(7,8) by (simp add: signed_of_int signed_take_bit_int_eq_self)
  show ?thesis
  proof (cases "r < 0")
    case True
    obtain w3 where w3: "printf e ((msg @ '' '%s'' @ [CHR 0x27]) @ nl) [Str s] w2 = Some w3"
      "reaches (\<lambda>x. False) (map of_char (msg @ '' '' @ [CHR 0x27] @ s @ [CHR 0x27] @ nl)) rest w2 w3"
      using printf_reaches [OF w2(2) path_message [OF cmd, of s], of "\<lambda>x. False"] w2(3) by auto
    have "failed e msg b w2 = Some (1, w3)" using w3(1) cstr_read_cstr [OF b(1)] w2(5) by (simp add: failed_def print_arg_def)
    then have "shell_turn e w = Some w3" using turn w2(1) r True by (simp add: argv(1) h(2))
    then show ?thesis using w3(2) w2(4,6) w1(4) True by (simp add: reaches_def)
  next
    case False
    then have "shell_turn e w = Some w2" using turn w2(1) r by (simp add: argv(1) h(2))
    then show ?thesis using w2 w1(4) False by simp
  qed
qed

end

section \<open>The file system behind the shell\<close>

definition path_op :: "u32 \<Rightarrow> string \<Rightarrow> ramfs \<Rightarrow> (int \<times> ramfs) option" where
  "path_op n s f =
     (if n = 10 then ramfs_mkdir (Some s) f else if n = 11 then Some (ramfs_unlink (Some s) f) else Some (ramfs_rmdir (Some s) f))"

text \<open>A call of the kernel that neither reads keys nor shows anything.\<close>

lemma typing_trap_call:
  fixes c :: interrupt_context and regs :: "u32 list"
  assumes ready: "shell_ready ao (t, sch)"
  defines "c1 \<equiv> load_regs regs c"
  assumes s: "syscall p (eax c1) (ebx c1) (ecx c1) (edx c1) (keys_typed c (arriving sch) t) = Some (Returns, Some v, t1)"
    "m_keys t1 = fold irq_keyboard (arriving sch) (m_keys t)" "m_screen t1 = m_screen t"
  shows "typing_trap p c regs (t, sch) = Some (v, (t1, tl sch))" "shell_ready ao (t1, tl sch)" "typing_bytes (t1, tl sch) = typing_bytes (t, sch)"
proof -
  have ok: "typing_ok (t, sch)" using ready by (simp add: shell_ready_def)
  note k = arriving_keys [OF ok, of c]
  show "typing_trap p c regs (t, sch) = Some (v, (t1, tl sch))"
    using s by (simp add: typing_trap_def kernel_trap_syscall Let_def c1_def)
  have "typing_chars (t1, tl sch) = typing_chars (t, sch)" using k(2) s(2) by (simp add: typing_chars_def)
  then show "typing_bytes (t1, tl sch) = typing_bytes (t, sch)" "shell_ready ao (t1, tl sch)"
    using ready ok k(1) s by (simp_all add: shell_ready_def typing_ok_def typing_bytes_def)
qed

lemma path_op_result: "path_op n s f = Some (r, f1) \<Longrightarrow> r = 0 \<or> r = -1"
  by (auto simp: path_op_def ramfs_mkdir_def ramfs_rmdir_def ramfs_unlink_def Let_def split: if_splits option.splits prod.splits)

lemma typing_path_call:
  assumes ready: "shell_ready ao w" and n: "n \<in> {10, 11, 12}" and a: "a \<noteq> 0" "cstr (mem_of (fst w)) a s"
    and op: "path_op n s (m_files (fst w)) = Some (r, f)"
  shows "\<exists>w'. typing_trap p c [n, a] w = Some (word_of_int r, w') \<and> shell_ready ao w' \<and> typing_bytes w' = typing_bytes w \<and>
    m_screen (fst w') = m_screen (fst w) \<and> mem_of (fst w') = mem_of (fst w) \<and> m_files (fst w') = f"
proof -
  obtain t sch where w: "w = (t, sch)" by fastforce
  have "user_path (mem_of t) a = Some (Some s)" using a w cstr_read_cstr [OF a(2)] by (simp add: user_path_def)
  then have "syscall p (eax (load_regs [n, a] c)) (ebx (load_regs [n, a] c)) (ecx (load_regs [n, a] c)) (edx (load_regs [n, a] c))
      (keys_typed c (arriving sch) t) = Some (Returns, Some (word_of_int r), (keys_typed c (arriving sch) t)\<lparr>m_files := f\<rparr>)"
    using n op w by (auto simp: syscall_def call_mkdir_def call_unlink_def call_rmdir_def path_op_def split: prod.splits)
  from typing_trap_call [OF ready [unfolded w] this] show ?thesis unfolding w by fastforce
qed

interpretation fc: file_console "typing_shell p c ao e" "shell_ready ao" typing_bytes "\<lambda>w. length (snd w)" "\<lambda>w. m_screen (fst w)" emit
  "\<lambda>w. m_files (fst w)" "\<lambda>x. x = ao" path_op
  for p c ao e
proof (unfold_locales, goal_cases)
  case (1 w n a s r f)
  then show ?case using typing_path_call [OF 1(1-3) _ 1(5), of p c] path_op_result [OF 1(5)] by auto
qed

text \<open>C9: The shell's commands on directories and names are the operations of the file system. A line
  \<open>mkdir d\<close>, \<open>rmdir d\<close> or \<open>rm f\<close>, whatever stands after the path, applies the operation to the path
  as it was typed; the files afterwards are exactly what the operation makes of them, and the
  screen shows an error message with the path if and only if it failed.\<close>

theorem shell_path_commands:
  assumes ready: "shell_ready ao w" and lay: "shell_layout e" and ao: "\<not> in_region ao (line_at e) 256"
    and keys: "typed_line 255 [] (typing_bytes w) = Some (l, disp, rest)" and ws: "words (map u8_char l) = cmd # d # xs"
    and op: "(cmd, op, msg) \<in> {(''mkdir'', ramfs_mkdir, ''create directory''), (''rmdir'', \<lambda>a f. Some (ramfs_rmdir a f), ''remove directory''),
        (''rm'', \<lambda>a f. Some (ramfs_unlink a f), ''delete'')}" "op (Some d) (m_files (fst w)) = Some (r, f)"
  shows "\<exists>w1. shell_turn (typing_shell p c ao e) w = Some w1 \<and> typing_bytes w1 = rest \<and> m_files (fst w1) = f \<and>
    terminal_write (map of_char ''> '' @ disp @
      (if r < 0 then map of_char (''Error: cannot '' @ msg @ '' '' @ [CHR 0x27] @ d @ [CHR 0x27] @ nl) else []))
      (m_screen (fst w)) = Some (m_screen (fst w1))"
proof -
  have lay': "shell_layout (typing_shell p c ao e)" using lay by (simp add: shell_layout_def)
  have lib: "x \<noteq> ao" if "in_region x (line_at (typing_shell p c ao e)) 256" for x using that ao by auto
  define n :: u32 where "n = (if cmd = ''mkdir'' then 10 else if cmd = ''rm'' then 11 else 12)"
  have "(cmd, n, ''Error: cannot '' @ msg) \<in> path_commands" "path_op n d (m_files (fst w)) = Some (r, f)"
    using op by (auto simp: path_commands_def path_op_def n_def)
  from fc.path_turn [OF lay' ready keys lib this(1) ws this(2)] obtain w1 where
    "shell_turn (typing_shell p c ao e) w = Some w1" "shell_ready ao w1" "typing_bytes w1 = rest" "m_files (fst w1) = f"
    "m_screen (fst w1) = fold emit (map of_char ''> '' @ disp @
      (if r < 0 then map of_char ((''Error: cannot '' @ msg) @ '' '' @ [CHR 0x27] @ d @ [CHR 0x27] @ nl) else [])) (m_screen (fst w))"
    by auto
  then show ?thesis using terminal_write_emit [of "m_screen (fst w)"] ready by (intro exI [of _ w1]) (simp add: shell_ready_def typing_ok_def)
qed

section \<open>Opening and reading a file through the kernel\<close>

lemma typing_open:
  assumes ready: "shell_ready ao w" and a: "a \<noteq> 0" "cstr (mem_of (fst w)) a d"
    and op: "ramfs_open (Some d) flags (m_files (fst w)) = Some (int fd, f)"
  shows "\<exists>w'. typing_trap p c [6, a, flags] w = Some (of_nat (fd + 3), w') \<and> shell_ready ao w' \<and> typing_bytes w' = typing_bytes w \<and>
    m_screen (fst w') = m_screen (fst w) \<and> m_files (fst w') = f"
proof -
  obtain t sch where w: "w = (t, sch)" by fastforce
  have u: "user_path (mem_of t) a = Some (Some d)" using a w cstr_read_cstr [OF a(2)] by (simp add: user_path_def)
  let ?t = "(keys_typed c (arriving sch) t)\<lparr>m_files := f\<rparr>"
  have "syscall p (eax (load_regs [6, a, flags] c)) (ebx (load_regs [6, a, flags] c)) (ecx (load_regs [6, a, flags] c)) (edx (load_regs [6, a, flags] c))
      (keys_typed c (arriving sch) t) = Some (Returns, Some (of_nat (fd + 3)), ?t)"
    using u op w by (simp add: syscall_def call_open_def sys_wrap_fd_def)
  from typing_trap_call [OF ready [unfolded w] this] show ?thesis unfolding w by fastforce
qed

lemma typing_file_read:
  assumes ready: "shell_ready ao w" and fd: "fd < 32" and buf: "buf \<noteq> 0" and len: "length bs \<le> 2 ^ 30"
    and rd: "ramfs_read (int fd) False n (m_files (fst w)) = Some (int (length bs), bs, f)"
  shows "\<exists>w'. typing_trap p c [8, of_nat (fd + 3), buf, n] w = Some (of_nat (length bs), w') \<and> shell_ready ao w' \<and>
    typing_bytes w' = typing_bytes w \<and> m_screen (fst w') = m_screen (fst w) \<and> m_files (fst w') = f \<and>
    mem_of (fst w') = write_bytes (mem_of (fst w)) buf bs"
proof -
  obtain t sch where w: "w = (t, sch)" by fastforce
  let ?t = "set_mem (write_bytes (mem_of t) buf bs) ((keys_typed c (arriving sch) t)\<lparr>m_files := f\<rparr>)"
  let ?r = "[8, of_nat (fd + 3), buf, n]"
  have s: "sint (of_nat (fd + 3) :: u32) = int fd + 3" using fd sint_of_nat_small [of "fd + 3"] by simp
  have "syscall p (eax (load_regs ?r c)) (ebx (load_regs ?r c)) (ecx (load_regs ?r c)) (edx (load_regs ?r c))
      (keys_typed c (arriving sch) t) = Some (Returns, Some (of_nat (length bs)), ?t)"
    using rd w s buf by (simp add: syscall_def sys_read_def)
  from typing_trap_call [OF ready [unfolded w] this] show ?thesis unfolding w by fastforce
qed


lemma typing_close:
  assumes ready: "shell_ready ao w" and fd: "fd < 32" "fd_ino (fds (m_files (fst w)) ! fd) \<noteq> 0"
  shows "\<exists>w'. typing_trap p c [7, of_nat (fd + 3)] w = Some (0, w') \<and> shell_ready ao w' \<and> typing_bytes w' = typing_bytes w \<and>
    m_screen (fst w') = m_screen (fst w) \<and> m_files (fst w') = upd_fd fd zero_fd (m_files (fst w))"
proof -
  obtain t sch where w: "w = (t, sch)" by fastforce
  let ?r = "[7, of_nat (fd + 3)]" and ?t = "(keys_typed c (arriving sch) t)\<lparr>m_files := upd_fd fd zero_fd (m_files t)\<rparr>"
  have s: "sint (of_nat (fd + 3) :: u32) = int fd + 3" using fd(1) sint_of_nat_small [of "fd + 3"] by simp
  have "syscall p (eax (load_regs ?r c)) (ebx (load_regs ?r c)) (ecx (load_regs ?r c)) (edx (load_regs ?r c))
      (keys_typed c (arriving sch) t) = Some (Returns, Some 0, ?t)"
    using w s fd by (simp add: syscall_def sys_close_def ramfs_close_def)
  from typing_trap_call [OF ready [unfolded w] this] show ?thesis unfolding w by fastforce
qed

text \<open>A regular file is opened with the first free descriptor.\<close>

lemma ramfs_open_file:
  assumes inv: "ramfs_inv s" and k: "ramfs_find_inode p s = Some k" "i_type (inodes s ! k) = RAMFS_TYPE_FILE"
    and fd: "ramfs_find_free_fd s = Some fd"
  defines "s1 \<equiv> upd_fd fd \<lparr>fd_ino = i_ino (inodes s ! k), fd_offset = 0, fd_flags = CHALES_O_RDWR\<rparr> s"
  shows "ramfs_open p flags s = Some (int fd, s1)" "ramfs_inv s1" "open_on s1 (int fd) k" "fd < 32"
proof -
  note D = ramfs_invD [OF inv]
  have k0: "k < RAMFS_MAX_FILES" "k \<noteq> 0" using find_inode_SomeD(1) [OF inv k(1)] k(2) D(6) by (cases k; simp)+
  then have ino: "i_ino (inodes s ! k) \<noteq> 0" using find_inode_SomeD(2,3) [OF inv k(1)] by simp
  show fd32: "fd < 32" using find_free_fdD [OF inv fd] by simp
  show "ramfs_open p flags s = Some (int fd, s1)" using k fd by (simp add: ramfs_open_def open_slot_def s1_def)
  show "ramfs_inv s1" unfolding s1_def
    using inode_ino_less [OF inv k0(1)] by (intro ramfs_inv_upd_fd [OF inv]) (simp add: fd_ok_def)
  show "open_on s1 (int fd) k"
    using slot_of_live_ino [OF inv k0(1) ino] fd32 D(2) ino k(2) by (simp add: open_on_def s1_def slot_of_ino_def)
qed

text \<open>The file system while the file is being read: the offset of the descriptor.\<close>

definition read_to :: "nat \<Rightarrow> nat \<Rightarrow> ramfs \<Rightarrow> ramfs" where
  "read_to fd n s = upd_fd fd ((fds s ! fd)\<lparr>fd_offset := of_nat n\<rparr>) s"

lemma ramfs_read_on:
  fixes len :: u32
  assumes inv: "ramfs_inv s" and o: "open_on s (int fd) k" and fd: "fd_flags (fds s ! fd) = CHALES_O_RDWR" and n: "n \<le> length (file_bytes s k)"
  defines "bs \<equiv> take (unat len) (drop n (file_bytes s k))"
  shows "ramfs_read (int fd) False len (read_to fd n s) = Some (int (length bs), bs, read_to fd (n + length bs) s)"
proof -
  note O = open_onD [OF inv o] and D = ramfs_invD [OF inv]
  have fd32: "fd < 32" using o by (simp add: open_on_def)
  have lim: "length (file_bytes s k) \<le> 262144"
    using length_file_bytes [OF inv O(1)] inode_okD(1,2) [OF D(7) [OF O(1)] D(3)] by simp
  then have n32: "unat (of_nat n :: u32) = n" using n lim by (intro unat_of_nat_pow) simp
  have "fd_ok (next_inode s) (fds s ! fd)" using D(9) [OF fd32] .
  then have inv1: "ramfs_inv (read_to fd n s)" unfolding read_to_def
    using lim n n32 by (intro ramfs_inv_upd_fd [OF inv]) (simp add: fd_ok_def word_le_nat_alt RAMFS_MAX_FILESIZE_def)
  have o1: "open_on (read_to fd n s) (int fd) k" using o D(2) fd32 by (simp add: read_to_def open_on_def slot_of_ino_def)
  have f: "fds (read_to fd n s) ! nat (int fd) = (fds s ! fd)\<lparr>fd_offset := of_nat n\<rparr>" using D(2) fd32 by (simp add: read_to_def)
  have b: "file_bytes (read_to fd n s) k = file_bytes s k" by (simp add: read_to_def)
  show ?thesis
    using ramfs_read_eq [OF inv1 o1, of bs len] fd n32 fd32 D(2) by (simp add: f b bs_def) (simp add: read_to_def)
qed


context console
begin

lemma print_chars_spec:
  "ok w \<Longrightarrow> read_bytes (umem e w) a (length bs) = bs \<Longrightarrow> (\<And>x. in_region x a (length bs) \<Longrightarrow> \<not> libmem x) \<Longrightarrow> length bs \<le> 2 ^ 32 \<Longrightarrow>
     \<exists>w1. print_chars e a (length bs) w = Some w1 \<and> reaches (\<lambda>x. False) bs (pending w) w w1"
proof (induction bs arbitrary: a w)
  case Nil
  then show ?case using reaches_refl by auto
next
  case (Cons b bs)
  have b: "umem e w a = b" "read_bytes (umem e w) (a + 1) (length bs) = bs" using Cons.prems(2) by (simp_all add: read_bytes_Cons)
  have r: "\<not> libmem x" if "in_region x (a + 1) (length bs)" for x
    using in_region_shift [of x a 1 "length bs"] that Cons.prems(3) [of x] by simp
  obtain w1 where w1: "printf e ''%c'' [Chr b] w = Some w1" "reaches (\<lambda>x. False) [b] (pending w) w w1"
    using printf_reaches [of w "''%c''" "[Chr b]" "[b]"] Cons.prems(1) by auto
  have "read_bytes (umem e w1) (a + 1) (length bs) = bs"
    using read_bytes_reaches [OF w1(2) r, where i = "length bs"] b(2) Cons.prems(4) by simp
  from Cons.IH [OF _ this r] obtain w2 where "print_chars e (a + 1) (length bs) w1 = Some w2" "reaches (\<lambda>x. False) bs (pending w) w1 w2"
    using reaches_ok [OF w1(2)] Cons.prems(4) by auto
  then show ?case using w1 reaches_trans [OF w1(2), of bs "pending w" w2] b(1) by auto
qed

end

section \<open>The command \<open>cat\<close>\<close>

lemma cat_loop_spec:
  fixes p :: platform and c :: interrupt_context and x :: "typing shell_os" and ao :: u32
  defines "e \<equiv> typing_shell p c ao x"
  assumes inv: "ramfs_inv s" and o: "open_on s (int fd) k" and fl: "fd_flags (fds s ! fd) = CHALES_O_RDWR"
    and buf: "buf \<noteq> 0" "\<not> in_region ao buf 256"
    and w: "shell_ready ao w" "m_files (fst w) = read_to fd n s" "n \<le> length (file_bytes s k)"
  shows "\<exists>w1. cat_loop e (of_nat (fd + 3)) buf w = Some w1 \<and> shell_ready ao w1 \<and> typing_bytes w1 = typing_bytes w \<and>
    m_files (fst w1) = read_to fd (length (file_bytes s k)) s \<and> m_screen (fst w1) = fold emit (drop n (file_bytes s k)) (m_screen (fst w))"
  using w
proof (induction "length (file_bytes s k) - n" arbitrary: n w rule: less_induct)
  case less
  define bs where "bs = take 256 (drop n (file_bytes s k))"
  have fd32: "fd < 32" using o by (simp add: open_on_def)
  have len: "length bs \<le> 256" by (simp add: bs_def)
  have "ramfs_read (int fd) False 256 (m_files (fst w)) = Some (int (length bs), bs, read_to fd (n + length bs) s)"
    using ramfs_read_on [OF inv o fl less.prems(3), of 256] by (simp add: less.prems(2) bs_def)
  from typing_file_read [OF less.prems(1) fd32 buf(1) _ this, of p c] len obtain w1 where w1:
    "trap e [8, of_nat (fd + 3), buf, 256] w = Some (of_nat (length bs), w1)" "shell_ready ao w1"
    "typing_bytes w1 = typing_bytes w" "m_screen (fst w1) = m_screen (fst w)" "m_files (fst w1) = read_to fd (n + length bs) s"
    "mem_of (fst w1) = write_bytes (mem_of (fst w)) buf bs"
    by (auto simp: e_def)
  have i: "sint (of_nat (length bs) :: u32) = int (length bs)" "unat (of_nat (length bs) :: u32) = length bs"
    using len by (simp_all add: sint_of_nat_small unat_of_nat_pow del: unat_of_nat unsigned_of_nat)
  have step: "cat_loop e (of_nat (fd + 3)) buf w =
      (if bs \<noteq> [] then Option.bind (print_chars e buf (length bs) w1) (cat_loop e (of_nat (fd + 3)) buf) else Some w1)"
    using w1(1) i by (subst cat_loop.simps) (simp add: syscall_read_def CAT_BUF_SIZE_def)
  show ?case
  proof (cases "bs = []")
    case True
    then have "n = length (file_bytes s k)" using less.prems(3) by (simp add: bs_def)
    then show ?thesis using step w1 True by auto
  next
    case False
    have "read_bytes (umem e w1) buf (length bs) = bs" using len by (simp add: e_def w1(6))
    from sh.print_chars_spec [OF w1(2) this [unfolded e_def]] len buf(2) in_region_mono [of ao buf "length bs" 256]
    obtain w2 where w2: "print_chars e buf (length bs) w1 = Some w2" "sh.reaches p c ao x (\<lambda>x. False) bs (typing_bytes w1) w1 w2"
      by (auto simp: e_def)
    note r = w2(2) [unfolded sh.reaches_def]
    have n: "n + length bs \<le> length (file_bytes s k)" "length (file_bytes s k) - (n + length bs) < length (file_bytes s k) - n"
      using False less.prems(3) by (auto simp: bs_def)
    have d: "drop n (file_bytes s k) = bs @ drop (n + length bs) (file_bytes s k)"
      by (simp add: bs_def min_def) (metis add.commute append_take_drop_id drop_drop)
    obtain w3 where "cat_loop e (of_nat (fd + 3)) buf w2 = Some w3" "shell_ready ao w3" "typing_bytes w3 = typing_bytes w2"
      "m_files (fst w3) = read_to fd (length (file_bytes s k)) s"
      "m_screen (fst w3) = fold emit (drop (n + length bs) (file_bytes s k)) (m_screen (fst w2))"
      using less.hyps [OF n(2) _ _ n(1), of w2] r w1(5) by auto
    then show ?thesis using step w2(1) False r w1(3,4) by (auto simp: d)
  qed
qed


text \<open>What newlib's allocator leaves alone.\<close>

definition quiet :: "u32 \<Rightarrow> typing \<Rightarrow> typing \<Rightarrow> bool" where
  "quiet ao w w' \<longleftrightarrow> shell_ready ao w' \<and> typing_bytes w' = typing_bytes w \<and> m_files (fst w') = m_files (fst w) \<and> m_screen (fst w') = m_screen (fst w)"



section \<open>Examples\<close>

text \<open>The keys \<open>rm x\<close> and return, and \<open>cat f\<close> and return.\<close>

abbreviation rm_typed :: typing where
  "rm_typed \<equiv> (demo_machine, [[0x13], [0x32, 0x39], [], [0x2D, 0x1C]])"

abbreviation cat_typed :: typing where
  "cat_typed \<equiv> (demo_machine, [[0x2E, 0x1E, 0x14], [0x39], [0x21, 0x1C]])"

lemma demo_files_typed:
  "typing_chars rm_typed = ''rm x'' @ [CHR 0x0A]" "typing_chars cat_typed = ''cat f'' @ [CHR 0x0A]"
  by (simp_all add: typing_chars_def demo_machine_def kbd_contents_def kbd_init_def) code_simp+

lemma demo_files_ready: "shell_ready 0x303000 rm_typed" "shell_ready 0x303000 cat_typed"
  using demo_files_typed machine_okD(3,4) [OF demo_machine_ok(2)]
  by (simp_all add: shell_ready_def typing_ok_def typing_bytes_def KEYBOARD_BUFFER_SIZE_def)

lemma demo_files_lines:
  "typed_line 255 [] (typing_bytes rm_typed) = Some (map of_char ''rm x'', map of_char (''rm x'' @ nl), [])"
  "typed_line 255 [] (typing_bytes cat_typed) = Some (map of_char ''cat f'', map of_char (''cat f'' @ nl), [])"
  by (simp_all add: typing_bytes_def demo_files_typed edit_key_def key_echo_def printable_def)

lemma demo_files_words:
  "words (map u8_char (map of_char ''rm x'')) = ''rm'' # ''x'' # []" "words (map u8_char (map of_char ''cat f'')) = ''cat'' # ''f'' # []"
  by (simp_all add: comp_def) code_simp+

lemma demo_files_ops:
  "ramfs_unlink (Some ''x'') one_file = (-1, one_file)" "ramfs_find_inode (Some ''f'') one_file = Some 1"
  "i_type (inodes one_file ! 1) = RAMFS_TYPE_FILE" "ramfs_find_free_fd one_file = Some 1"
proof -
  have "ramfs_find_inode (Some ''x'') one_file = None" by code_simp
  then show "ramfs_unlink (Some ''x'') one_file = (-1, one_file)" by (simp add: ramfs_unlink_def)
  show "ramfs_find_inode (Some ''f'') one_file = Some 1" "ramfs_find_free_fd one_file = Some 1" by code_simp+
  show "i_type (inodes one_file ! 1) = RAMFS_TYPE_FILE" by code_simp
qed


theorem shell_path_commands_witness:
  "\<exists>w1. shell_turn (typing_shell demo_platform (demo_context 0 0) 0x303000 demo_shell) rm_typed = Some w1 \<and>
     m_files (fst w1) = one_file \<and>
     terminal_write (map of_char (''> rm x'' @ nl @ ''Error: cannot delete '' @ [CHR 0x27, CHR ''x'', CHR 0x27] @ nl)) (m_screen demo_machine) =
       Some (m_screen (fst w1))"
proof -
  have m: "(''rm'', \<lambda>a f. Some (ramfs_unlink a f), ''delete'') \<in> {(''mkdir'', ramfs_mkdir, ''create directory''),
      (''rmdir'', \<lambda>a f. Some (ramfs_rmdir a f), ''remove directory''), (''rm'', \<lambda>a f. Some (ramfs_unlink a f), ''delete'')}" by simp
  have "Some (ramfs_unlink (Some ''x'') (m_files (fst rm_typed))) = Some (-1, one_file)"
    by (simp add: demo_files_ops(1) demo_machine_def)
  from shell_path_commands [OF demo_files_ready(1) demo_shell_layout demo_files_lines(1) demo_files_words(1) m this, of demo_platform "demo_context 0 0"]
  show ?thesis by auto
qed

text \<open>An allocator that always gives the same buffer.\<close>

abbreviation cat_shell :: "typing shell_os" where
  "cat_shell \<equiv> demo_shell\<lparr>u_malloc := \<lambda>n w. Some (0x305000, w), u_free := \<lambda>a w. Some w\<rparr>"


end
