(* ===== verification/Cowsay.thy ===== *)
theory Cowsay
  imports Programs
begin

text \<open>
  The program \<open>userland/cowsay.c\<close>. The variables \<open>eyes\<close>, \<open>upperbubble\<close> and \<open>lowerbubble\<close> are single
  characters that the program passes to \<open>strcpy\<close>: they are memory at the addresses \<open>eyes_at\<close>,
  \<open>upper_at\<close> and \<open>lower_at\<close>, wherever the linker puts them. The counters are arguments of the loops.
\<close>

record 'w cow_os = "'w program" +
  eyes_at :: u32
  upper_at :: u32
  lower_at :: u32

section \<open>Output\<close>

definition backslash :: string where "backslash = [CHR 0x5C]"

definition displayhelp :: "('w, 'z) cow_os_scheme \<Rightarrow> 'w \<Rightarrow> 'w option" where
  "displayhelp e w = printf e
     (''This program displays all of its arguments in a speech bubble.'' @ nl @
      ''With your choice of animal/person/thing underneath it. Or in'' @ nl @
      ''other words this program is a re-make of the famous Perl'' @ nl @
      ''program ``cowsay'' @ [CHR 0x22] @ nl @
      nl @
      ''Usage:'' @ nl @
      ''    The flags should be the first set of arguments.'' @ nl @
      ''    ccowsay <flag(s)> Sentence to say'' @ nl @
      nl @
      ''Flags:'' @ nl @
      ''    -h or --help    - Displays this help text'' @ nl @
      ''    -l or --list    - List all cowfiles'' @ nl @
      ''    -e or --eyes    - Specify character used for the eyes. Must be ONE character!'' @ nl @
      ''    -t or --thought - Thought bubble'' @ nl) [] w"

definition cow_format :: string where
  "cow_format =
     ''        %c   ^__^'' @ nl @
     ''         %c  (%c%c)'' @ backslash @ ''_______'' @ nl @
     ''            (__)'' @ backslash @ ''       )'' @ backslash @ ''/'' @ backslash @ nl @
     ''                ||----w |'' @ nl @
     ''                ||     ||'' @ nl"

definition printcow :: "('w, 'z) cow_os_scheme \<Rightarrow> 'w \<Rightarrow> 'w option" where
  "printcow e w = printf e cow_format
     [Chr (umem e w (upper_at e)), Chr (umem e w (lower_at e)), Chr (umem e w (eyes_at e)), Chr (umem e w (eyes_at e))] w"

text \<open>\<open>for (counter = 1; counter <= n; counter++) printf(s)\<close>, with an unsigned counter.\<close>

partial_function (option) repeat_print :: "('w, 'z) cow_os_scheme \<Rightarrow> string \<Rightarrow> u32 \<Rightarrow> u32 \<Rightarrow> 'w \<Rightarrow> 'w option" where
  "repeat_print e s n counter w =
     (if counter \<le> n then Option.bind (printf e s [] w) (repeat_print e s n (counter + 1)) else Some w)"

section \<open>The arguments\<close>

definition is_flag :: "mem \<Rightarrow> u32 \<Rightarrow> string \<Rightarrow> string \<Rightarrow> bool option" where
  "is_flag m a short long =
     do { x \<leftarrow> strcmp_lit m a short; y \<leftarrow> strcmp_lit m a long; Some (x = 0 \<or> y = 0) }"

text \<open>\<open>strcpy\<close> of a literal of one character.\<close>

definition strcpy_lit1 :: "u32 \<Rightarrow> char \<Rightarrow> mem \<Rightarrow> mem" where
  "strcpy_lit1 d c m = m(d := of_char c, d + 1 := 0)"

text \<open>The first loop, over the arguments from the second on: the value that \<open>main\<close> returns at once, or
  \<open>None\<close>, and the variable \<open>thought\<close>. The argument after the last is NULL.\<close>

fun scan_args :: "('w, 'z) cow_os_scheme \<Rightarrow> u32 list \<Rightarrow> u16 \<Rightarrow> 'w \<Rightarrow> (int option \<times> u16 \<times> 'w) option" where
  "scan_args e [] thought w = Some (None, thought, w)"
| "scan_args e (a # as) thought w =
     do {
       eyes \<leftarrow> is_flag (umem e w) a ''-e'' ''--eyes'';
       (if eyes then
          (case as of
             [] \<Rightarrow> None
           | nxt # _ \<Rightarrow> do {
               n \<leftarrow> strlen (umem e w) nxt;
               (if n = 1 then do {
                  m \<leftarrow> strcpy (umem e w) (eyes_at e) nxt;
                  scan_args e as thought (uput e m w)
                }
                else do { w1 \<leftarrow> displayhelp e w; Some (Some (-1), thought, w1) })
             })
        else do {
          think \<leftarrow> is_flag (umem e w) a ''-t'' ''--thought'';
          (if think then
             scan_args e as 1 (uput e (strcpy_lit1 (lower_at e) CHR ''o'' (strcpy_lit1 (upper_at e) CHR ''O'' (umem e w))) w)
           else do {
             help \<leftarrow> is_flag (umem e w) a ''-h'' ''--help'';
             (if help then do { w1 \<leftarrow> displayhelp e w; Some (Some 0, thought, w1) } else scan_args e as thought w)
           })
        })
     }"

text \<open>The number of characters to display.\<close>

fun count_chars :: "mem \<Rightarrow> u32 list \<Rightarrow> u32 \<Rightarrow> u32 option" where
  "count_chars m [] argscharcount = Some argscharcount"
| "count_chars m (a # as) argscharcount =
     do {
       skip \<leftarrow> is_flag m a ''-t'' ''--thought'';
       (if skip then count_chars m as argscharcount
        else do { n \<leftarrow> strlen m a; count_chars m as (argscharcount + 1 + n) })
     }"

fun print_words :: "('w, 'z) cow_os_scheme \<Rightarrow> u32 list \<Rightarrow> 'w \<Rightarrow> 'w option" where
  "print_words e [] w = Some w"
| "print_words e (a # as) w =
     do {
       skip \<leftarrow> is_flag (umem e w) a ''-t'' ''--thought'';
       (if skip then print_words e as w
        else do {
          s \<leftarrow> read_cstr (umem e w) a;
          w1 \<leftarrow> printf e ''%s '' [Str s] w;
          print_words e as w1
        })
     }"

text \<open>A message that depends on \<open>thought\<close>.\<close>

definition print_edge :: "('w, 'z) cow_os_scheme \<Rightarrow> u16 \<Rightarrow> string \<Rightarrow> string \<Rightarrow> 'w \<Rightarrow> 'w option" where
  "print_edge e thought speech think w =
     (if thought = 0 then printf e speech [] w else if thought = 1 then printf e think [] w else Some w)"

definition cowsay_main :: "('w, 'z) cow_os_scheme \<Rightarrow> u32 list \<Rightarrow> 'w \<Rightarrow> (int \<times> 'w) option" where
  "cowsay_main e argv w =
     (if length argv = 1 then do { w1 \<leftarrow> displayhelp e w; Some (-1, w1) }
      else do {
        (stop, thought, w1) \<leftarrow> scan_args e (tl argv) 0 w;
        (case stop of Some r \<Rightarrow> Some (r, w1)
         | None \<Rightarrow> do {
             n0 \<leftarrow> count_chars (umem e w1) (tl argv) 0;
             (if n0 = 0 then do { w2 \<leftarrow> displayhelp e w1; Some (-1, w2) }
              else let argscharcount = n0 + 1 in do {
                w2 \<leftarrow> printf e '' '' [] w1;
                w3 \<leftarrow> repeat_print e ''_'' argscharcount 1 w2;
                w4 \<leftarrow> print_edge e thought (nl @ ''< '') (nl @ ''( '') w3;
                w5 \<leftarrow> print_words e (tl argv) w4;
                w6 \<leftarrow> print_edge e thought (''>'' @ nl @ '' '') ('')'' @ nl @ '' '') w5;
                w7 \<leftarrow> repeat_print e ''-'' argscharcount 1 w6;
                w8 \<leftarrow> printf e nl [] w7;
                w9 \<leftarrow> printcow e w8;
                Some (0, w9)
              })
           })
      })"

end
