(* ===== verification/Cowsay_Spec.thy ===== *)
theory Cowsay_Spec
  imports Cowsay Shell_Machine
begin

text \<open>
  What \<open>cowsay\<close> shows, and what its copies of strings into single characters do to their neighbours.
  The interface \<open>printer\<close> is what the program needs of standard output.
\<close>

section \<open>The picture\<close>

definition said :: "string list \<Rightarrow> string" where
  "said ws = concat (map (\<lambda>s. s @ '' '') ws)"

definition cow :: "char \<Rightarrow> char \<Rightarrow> char \<Rightarrow> string" where
  "cow upper lower eye =
     ''        '' @ [upper] @ ''   ^__^'' @ nl @
     ''         '' @ [lower] @ ''  ('' @ [eye, eye] @ '')'' @ backslash @ ''_______'' @ nl @
     ''            (__)'' @ backslash @ ''       )'' @ backslash @ ''/'' @ backslash @ nl @
     ''                ||----w |'' @ nl @
     ''                ||     ||'' @ nl"

definition bubble :: "bool \<Rightarrow> string \<Rightarrow> string" where
  "bubble thought s =
     (let n = length s + 1 in
      '' '' @ replicate n CHR ''_'' @ nl @ (if thought then ''( '' else ''< '') @ s @ (if thought then '')'' else ''>'') @ nl @
      '' '' @ replicate n CHR ''-'' @ nl)"

definition flags :: "string set" where
  "flags = {''-e'', ''--eyes'', ''-t'', ''--thought'', ''-h'', ''--help''}"

lemma is_flag_cstr:
  assumes "cstr m a s" "CHR 0x00 \<notin> set x" "CHR 0x00 \<notin> set y"
  shows "is_flag m a x y = Some (s = x \<or> s = y)"
  using strcmp_l_eq_0 [OF cstr_no_nul [OF assms(1)]] assms(2,3) cstr_read_cstr [OF assms(1)] by (simp add: is_flag_def strcmp_lit_def)

section \<open>The loops\<close>

text \<open>A thought or words to say, without other flags.\<close>

lemma scan_plain:
  "list_all2 (cstr (umem e w)) as ws \<Longrightarrow> set ws \<inter> flags = {} \<Longrightarrow> scan_args e as t w = Some (None, t, w)"
proof (induction as arbitrary: ws)
  case (Cons a as)
  then obtain s ws' where "ws = s # ws'" "cstr (umem e w) a s" "list_all2 (cstr (umem e w)) as ws'" by (auto simp: list_all2_Cons1)
  moreover from this have "s \<noteq> ''-e''" "s \<noteq> ''--eyes''" "s \<noteq> ''-t''" "s \<noteq> ''--thought''" "s \<noteq> ''-h''" "s \<noteq> ''--help''" "set ws' \<inter> flags = {}"
    using Cons.prems(2) by (auto simp: flags_def)
  ultimately show ?case using Cons.IH [of ws'] by (simp add: is_flag_cstr)
qed simp

lemma length_said: "length (said ws) = length ws + sum_list (map length ws)"
  by (induction ws) (simp_all add: said_def)

lemma count_plain:
  "list_all2 (cstr m) as ws \<Longrightarrow> count_chars m as n = Some (n + of_nat (length (said (filter (\<lambda>s. s \<notin> {''-t'', ''--thought''}) ws))))"
proof (induction as arbitrary: ws n)
  case (Cons a as)
  then obtain s ws' where "ws = s # ws'" "cstr m a s" "list_all2 (cstr m) as ws'" by (auto simp: list_all2_Cons1)
  then show ?case using Cons.IH [of ws'] by (simp add: is_flag_cstr cstr_strlen said_def add.assoc)
qed (simp add: said_def)

lemma cow_picture:
  "c_format cow_format [Chr u, Chr l, Chr x, Chr x] = Some (map of_char (cow (u8_char u) (u8_char l) (u8_char x)))"
  by (simp add: cow_def cow_format_def backslash_def)

locale printer =
  fixes e :: "'w cow_os" and ok :: "'w \<Rightarrow> bool" and screen :: "'w \<Rightarrow> 't" and emit :: "u8 \<Rightarrow> 't \<Rightarrow> 't" and libmem :: "u32 \<Rightarrow> bool"
  assumes put_chars: "ok w \<Longrightarrow> \<exists>w'. out e bs w = Some w' \<and> ok w' \<and> screen w' = fold emit bs (screen w) \<and>
      (\<forall>x. \<not> libmem x \<longrightarrow> umem e w' x = umem e w x)"
    and put_mem: "umem e (uput e m w) = m" "ok w \<Longrightarrow> ok (uput e m w)" "screen (uput e m w) = screen w"
begin

definition shows_text :: "string \<Rightarrow> 'w \<Rightarrow> 'w \<Rightarrow> bool" where
  "shows_text s w w' \<longleftrightarrow> ok w' \<and> screen w' = fold emit (map of_char s) (screen w) \<and> (\<forall>x. \<not> libmem x \<longrightarrow> umem e w' x = umem e w x)"

lemma shows_trans: "shows_text s w w1 \<Longrightarrow> shows_text t w1 w2 \<Longrightarrow> shows_text (s @ t) w w2"
  by (simp add: shows_text_def)

lemma shows_ok: "shows_text s w w1 \<Longrightarrow> ok w1"
  by (simp add: shows_text_def)

lemma printf_shows: "ok w \<Longrightarrow> c_format f args = Some (map of_char s) \<Longrightarrow> \<exists>w1. printf e f args w = Some w1 \<and> shows_text s w w1"
  using put_chars [of w "map of_char s"] by (auto simp: printf_def shows_text_def)

lemma repeat_shows:
  "ok w \<Longrightarrow> c \<noteq> CHR ''%'' \<Longrightarrow> i + k = n + 1 \<Longrightarrow> n < 2 ^ 32 - 1 \<Longrightarrow>
     \<exists>w1. repeat_print e [c] (of_nat n) (of_nat k) w = Some w1 \<and> shows_text (replicate i c) w w1"
proof (induction i arbitrary: w k)
  case 0
  then have "\<not> (of_nat k :: u32) \<le> of_nat n" by (simp add: word_le_nat_alt unat_of_nat_pow del: unat_of_nat unsigned_of_nat of_nat_Suc)
  then show ?case using 0 by (subst repeat_print.simps) (simp add: shows_text_def)
next
  case (Suc i)
  obtain w1 where w1: "printf e [c] [] w = Some w1" "shows_text [c] w w1" using printf_shows [of w "[c]" "[]" "[c]"] Suc.prems(1,2) by auto
  have "(of_nat k :: u32) \<le> of_nat n"
    using Suc.prems(3,4) by (simp add: word_le_nat_alt unat_of_nat_pow del: unat_of_nat unsigned_of_nat)
  moreover obtain w2 where "repeat_print e [c] (of_nat n) (of_nat (Suc k)) w1 = Some w2" "shows_text (replicate i c) w1 w2"
    using Suc.IH [of w1 "Suc k"] Suc.prems shows_ok [OF w1(2)] by auto
  ultimately show ?case using w1 shows_trans [OF w1(2), of "replicate i c" w2]
    by (subst repeat_print.simps) (simp add: add.commute)
qed

text \<open>Strings that printing does not change.\<close>

definition safe_at :: "'w \<Rightarrow> u32 \<Rightarrow> string \<Rightarrow> bool" where
  "safe_at w a s \<longleftrightarrow> cstr (umem e w) a s \<and> (\<forall>i \<le> length s. \<not> libmem (a + of_nat i))"

lemma safe_at_shows: "shows_text t w w1 \<Longrightarrow> safe_at w a s \<Longrightarrow> safe_at w1 a s"
  using cstr_cong [of s "umem e w1" a "umem e w"] by (auto simp: safe_at_def shows_text_def)

lemma print_words_shows:
  "ok w \<Longrightarrow> list_all2 (safe_at w) as ws \<Longrightarrow>
     \<exists>w1. print_words e as w = Some w1 \<and> shows_text (said (filter (\<lambda>s. s \<notin> {''-t'', ''--thought''}) ws)) w w1"
proof (induction as arbitrary: ws w)
  case Nil
  then show ?case by (simp add: shows_text_def said_def)
next
  case (Cons a as)
  obtain s ws' where ws: "ws = s # ws'" "safe_at w a s" "list_all2 (safe_at w) as ws'" using Cons.prems(2) by (auto simp: list_all2_Cons1)
  have c: "cstr (umem e w) a s" using ws(2) by (simp add: safe_at_def)
  show ?case
  proof (cases "s \<in> {''-t'', ''--thought''}")
    case True
    then have "print_words e (a # as) w = print_words e as w" using is_flag_cstr [OF c] by auto
    then show ?thesis using Cons.IH [OF Cons.prems(1) ws(3)] True by (auto simp: ws(1))
  next
    case False
    obtain w1 where w1: "printf e ''%s '' [Str s] w = Some w1" "shows_text (s @ '' '') w w1"
      using printf_shows [of w "''%s ''" "[Str s]" "s @ '' ''"] Cons.prems(1) by auto
    have "list_all2 (safe_at w1) as ws'" using ws(3) safe_at_shows [OF w1(2)] by (rule list_all2_mono)
    from Cons.IH [OF shows_ok [OF w1(2)] this] obtain w2 where
      w2: "print_words e as w1 = Some w2" "shows_text (said (filter (\<lambda>s. s \<notin> {''-t'', ''--thought''}) ws')) w1 w2" by auto
    have "print_words e (a # as) w = Some w2"
      using is_flag_cstr [OF c] False w1(1) w2(1) cstr_read_cstr [OF c] by simp
    then show ?thesis using shows_trans [OF w1(2) w2(2)] False by (simp add: ws(1) said_def)
  qed
qed

lemma print_edge_shows:
  assumes "ok w" "c_format x [] = Some (map of_char x)" "c_format y [] = Some (map of_char y)"
  shows "\<exists>w1. print_edge e (of_bool th) x y w = Some w1 \<and> shows_text (if th then y else x) w w1"
  using printf_shows [OF assms(1,2)] printf_shows [OF assms(1,3)] by (cases th) (simp_all add: print_edge_def)

text \<open>The whole program, after the flags.\<close>

lemma cowsay_shows:
  assumes scan: "scan_args e as 0 w = Some (None, of_bool th, w0)" and ok: "ok w0" and ws: "list_all2 (safe_at w0) as ws"
    and cells: "\<not> libmem (upper_at e)" "\<not> libmem (lower_at e)" "\<not> libmem (eyes_at e)" and prog: "as \<noteq> []"
  defines "t \<equiv> said (filter (\<lambda>s. s \<notin> {''-t'', ''--thought''}) ws)"
  assumes small: "t \<noteq> []" "length t < 2 ^ 32 - 2"
  shows "\<exists>w1. cowsay_main e (a0 # as) w = Some (0, w1) \<and>
    shows_text (bubble th t @ cow (u8_char (umem e w0 (upper_at e))) (u8_char (umem e w0 (lower_at e))) (u8_char (umem e w0 (eyes_at e)))) w0 w1"
proof -
  let ?n = "length t + 1"
  have c: "list_all2 (cstr (umem e w0)) as ws" using ws by (rule list_all2_mono) (simp add: safe_at_def)
  have n: "count_chars (umem e w0) as 0 = Some (of_nat (length t))" "(of_nat (length t) :: u32) \<noteq> 0" "of_nat (length t) + 1 = (of_nat ?n :: u32)"
    using count_plain [OF c, of 0] small unat_of_nat_pow [of "length t"] by (auto simp: t_def)
  obtain w1 where w1: "printf e '' '' [] w0 = Some w1" "shows_text '' '' w0 w1" using printf_shows [of w0 "'' ''" "[]" "'' ''"] ok by auto
  obtain w2 where w2: "repeat_print e ''_'' (of_nat ?n) 1 w1 = Some w2" "shows_text (replicate ?n CHR ''_'') w1 w2"
    using repeat_shows [of w1 "CHR ''_''" ?n 1 ?n] shows_ok [OF w1(2)] small by auto
  let ?l = "if th then nl @ ''( '' else nl @ ''< ''" and ?r = "if th then '')'' @ nl @ '' '' else ''>'' @ nl @ '' ''"
  obtain w3 where w3: "print_edge e (of_bool th) (nl @ ''< '') (nl @ ''( '') w2 = Some w3" "shows_text ?l w2 w3"
    using print_edge_shows [OF shows_ok [OF w2(2)], of "nl @ ''< ''" "nl @ ''( ''" th] by auto
  have s3: "list_all2 (safe_at w3) as ws"
    using ws by (rule list_all2_mono) (use safe_at_shows [OF w1(2)] safe_at_shows [OF w2(2)] safe_at_shows [OF w3(2)] in blast)
  obtain w4 where w4: "print_words e as w3 = Some w4" "shows_text t w3 w4"
    using print_words_shows [OF shows_ok [OF w3(2)] s3] unfolding t_def by blast
  obtain w5 where w5: "print_edge e (of_bool th) (''>'' @ nl @ '' '') ('')'' @ nl @ '' '') w4 = Some w5" "shows_text ?r w4 w5"
    using print_edge_shows [OF shows_ok [OF w4(2)], of "''>'' @ nl @ '' ''" "'')'' @ nl @ '' ''" th] by auto
  obtain w6 where w6: "repeat_print e ''-'' (of_nat ?n) 1 w5 = Some w6" "shows_text (replicate ?n CHR ''-'') w5 w6"
    using repeat_shows [of w5 "CHR ''-''" ?n 1 ?n] shows_ok [OF w5(2)] small by auto
  obtain w7 where w7: "printf e nl [] w6 = Some w7" "shows_text nl w6 w7" using printf_shows [of w6 nl "[]" nl] shows_ok [OF w6(2)] by auto
  note r = shows_trans [OF w1(2) shows_trans [OF w2(2) shows_trans [OF w3(2) shows_trans [OF w4(2) shows_trans [OF w5(2) shows_trans [OF w6(2) w7(2)]]]]]]
  have "'' '' @ replicate ?n CHR ''_'' @ ?l @ t @ ?r @ replicate ?n CHR ''-'' @ nl = bubble th t" by (simp add: bubble_def Let_def)
  with r have r: "shows_text (bubble th t) w0 w7" by (simp only:)
  let ?c = "cow (u8_char (umem e w0 (upper_at e))) (u8_char (umem e w0 (lower_at e))) (u8_char (umem e w0 (eyes_at e)))"
  have "umem e w7 (upper_at e) = umem e w0 (upper_at e)" "umem e w7 (lower_at e) = umem e w0 (lower_at e)" "umem e w7 (eyes_at e) = umem e w0 (eyes_at e)"
    using r cells by (simp_all add: shows_text_def)
  then obtain w8 where w8: "printcow e w7 = Some w8" "shows_text ?c w7 w8"
    unfolding printcow_def using printf_shows [OF shows_ok [OF r] cow_picture] by metis
  have "cowsay_main e (a0 # as) w = Some (0, w8)"
    using scan prog n w1(1) w2(1) w3(1) w4(1) w5(1) w6(1) w7(1) w8(1) by (simp add: cowsay_main_def Let_def del: of_nat_add of_nat_Suc)
  then show ?thesis using shows_trans [OF r w8(2)] by blast
qed

end

section \<open>On the machine\<close>

definition typing_cow :: "platform \<Rightarrow> interrupt_context \<Rightarrow> u32 \<Rightarrow> typing cow_os \<Rightarrow> typing cow_os" where
  "typing_cow p c ao e =
     e\<lparr>trap := typing_trap p c, umem := (\<lambda>w. mem_of (fst w)), uput := (\<lambda>m w. (set_mem m (fst w), snd w)),
       out := typing_out p c ao\<rparr>"

lemma typing_cow_simps [simp]:
  "umem (typing_cow p c ao e) w = mem_of (fst w)" "uput (typing_cow p c ao e) m w = (set_mem m (fst w), snd w)"
  "out (typing_cow p c ao e) = typing_out p c ao" "eyes_at (typing_cow p c ao e) = eyes_at e"
  "upper_at (typing_cow p c ao e) = upper_at e" "lower_at (typing_cow p c ao e) = lower_at e"
  by (simp_all add: typing_cow_def)

interpretation cw: printer "typing_cow p c ao e" "shell_ready ao" "\<lambda>w. m_screen (fst w)" emit "\<lambda>x. x = ao"
  for p c ao e
proof (unfold_locales, goal_cases)
  case (1 w bs)
  then show ?case using typing_out_spec [OF 1, of p c bs] by auto
qed (auto simp: shell_ready_def typing_ok_def typing_bytes_def typing_chars_def)

text \<open>The characters of the picture lie apart from each other, from the arguments and from the byte of
  standard output.\<close>

definition cow_apart :: "('w, 'z) cow_os_scheme \<Rightarrow> u32 \<Rightarrow> u32 list \<Rightarrow> string list \<Rightarrow> bool" where
  "cow_apart e ao as ws \<longleftrightarrow>
     (let cells = {upper_at e, upper_at e + 1, lower_at e, lower_at e + 1} in
      ao \<notin> cells \<and> eyes_at e \<notin> insert ao cells \<and> upper_at e \<noteq> lower_at e \<and> upper_at e \<noteq> lower_at e + 1 \<and> lower_at e \<noteq> upper_at e + 1 \<and>
      list_all2 (\<lambda>a s. \<forall>i \<le> length s. a + of_nat i \<notin> insert ao cells) as ws)"

text \<open>C38: \<open>cowsay\<close> shows its words in a bubble above the cow: the bubble is exactly as wide as the words with
  the spaces after them, round with \<open>-t\<close> as the first argument; the lines to the cow are then \<open>O\<close> and
  \<open>o\<close>, and the eyes are what the variable holds. For this the three variables, each of one character,
  and the byte after two of them must lie apart, because they are written with \<open>strcpy\<close>.\<close>

theorem cowsay_says:
  assumes ready: "shell_ready ao w" and args: "list_all2 (cstr (mem_of (fst w))) as ((if th then [''-t''] else []) @ ws)"
    and plain: "set ws \<inter> flags = {}" "ws \<noteq> []" "length (said ws) < 2 ^ 32 - 2"
    and apart: "cow_apart e ao as ((if th then [''-t''] else []) @ ws)"
  defines "m \<equiv> mem_of (fst w)"
  shows "\<exists>w1. cowsay_main (typing_cow p c ao e) (a0 # as) w = Some (0, w1) \<and>
    terminal_write (map of_char (bubble th (said ws) @
        (if th then cow CHR ''O'' CHR ''o'' (u8_char (m (eyes_at e)))
         else cow (u8_char (m (upper_at e))) (u8_char (m (lower_at e))) (u8_char (m (eyes_at e)))))) (m_screen (fst w)) =
      Some (m_screen (fst w1))"
proof -
  let ?e = "typing_cow p c ao e" and ?ws = "(if th then [''-t''] else []) @ ws"
  define m0 where "m0 = (if th then strcpy_lit1 (lower_at e) CHR ''o'' (strcpy_lit1 (upper_at e) CHR ''O'' m) else m)"
  define w0 :: typing where "w0 = (set_mem m0 (fst w), snd w)"
  note A = apart [unfolded cow_apart_def Let_def]
  have X: "cw.safe_at p c ao e w0 a s" if "cstr m a s \<and> (\<forall>i \<le> length s. a + of_nat i \<notin> insert ao {upper_at e, upper_at e + 1, lower_at e, lower_at e + 1})" for a s
    using that cstr_cong [of s m0 a m] by (auto simp: cw.safe_at_def w0_def m0_def strcpy_lit1_def)
  have L: "list_all2 (\<lambda>a s. cstr m a s \<and> (\<forall>i \<le> length s. a + of_nat i \<notin> insert ao {upper_at e, upper_at e + 1, lower_at e, lower_at e + 1})) as ?ws"
    using args A unfolding m_def list_all2_conv_all_nth by blast
  have safe: "list_all2 (cw.safe_at p c ao e w0) as ?ws" using L X by (rule list_all2_mono)
  then have c0: "list_all2 (cstr m0) as ?ws" by (rule list_all2_mono) (simp add: cw.safe_at_def w0_def)
  have scan: "scan_args ?e as 0 w = Some (None, of_bool th, w0)"
  proof (cases th)
    case False
    then have "w0 = w" by (cases w) (simp add: w0_def m0_def m_def)
    then show ?thesis using scan_plain [of ?e w as ws 0] args False plain(1) by simp
  next
    case True
    then obtain b bs where b: "as = b # bs" "cstr m b ''-t''" "list_all2 (cstr m0) bs ws"
      using args c0 by (auto simp: m_def list_all2_Cons2)
    have "scan_args ?e as 0 w = scan_args ?e bs 1 w0"
      using is_flag_cstr [OF b(2)] True by (simp add: b(1) m_def [symmetric] m0_def w0_def del: cstr.simps)
    then show ?thesis using scan_plain [of ?e w0 bs ws 1] b(3) plain(1) True by (simp add: w0_def)
  qed
  have f: "filter (\<lambda>s. s \<notin> {''-t'', ''--thought''}) ?ws = ws" using plain(1) by (auto simp: flags_def filter_id_conv)
  have "as \<noteq> []" "said ws \<noteq> []" using args plain(2) by (auto simp: said_def)
  from cw.cowsay_shows [OF scan _ safe _ _ _ this(1), unfolded f, OF _ _ _ _ this(2) plain(3), of a0] obtain w1 where
    w1: "cowsay_main ?e (a0 # as) w = Some (0, w1)"
    "cw.shows_text p c ao e (bubble th (said ws) @ cow (u8_char (m0 (upper_at e))) (u8_char (m0 (lower_at e))) (u8_char (m0 (eyes_at e)))) w0 w1"
    using A ready by (auto simp: w0_def shell_ready_def typing_ok_def typing_bytes_def typing_chars_def)
  have "m0 (eyes_at e) = m (eyes_at e)" "th \<Longrightarrow> m0 (upper_at e) = of_char CHR ''O''" "th \<Longrightarrow> m0 (lower_at e) = of_char CHR ''o''"
    using A by (auto simp: m0_def strcpy_lit1_def)
  moreover have "u8_char 79 = CHR ''O''" "u8_char 111 = CHR ''o''" using u8_char_of_char [of "CHR ''O''"] u8_char_of_char [of "CHR ''o''"] by simp_all
  moreover have "m_screen (fst w0) = m_screen (fst w)" by (simp add: w0_def)
  ultimately show ?thesis using w1 terminal_write_emit [of "m_screen (fst w)"] ready
    by (intro exI [of _ w1]) (auto simp: cw.shows_text_def shell_ready_def typing_ok_def m0_def)
qed

text \<open>With the arguments \<open>cowsay -t hi\<close>.\<close>

definition demo_cow :: "typing cow_os" where
  "demo_cow = \<lparr>trap = (\<lambda>_ _. None), umem = (\<lambda>_ _. 0), uput = (\<lambda>_ w. w), out = (\<lambda>_ _. None), eyes_at = 0x306000, upper_at = 0x306004,
     lower_at = 0x306008\<rparr>"

abbreviation cow_machine :: typing where
  "cow_machine \<equiv> (set_mem ((\<lambda>a. 0)(0x307000 := 45, 0x307001 := 116, 0x307003 := 104, 0x307004 := 105, 0x306000 := 111)) demo_machine, [])"

theorem cowsay_says_witness:
  "\<exists>w1. cowsay_main (typing_cow demo_platform (demo_context 0 0) 0x303000 demo_cow) [0, 0x307000, 0x307003] cow_machine = Some (0, w1) \<and>
     terminal_write (map of_char ('' ____'' @ nl @ ''( hi )'' @ nl @ '' ----'' @ nl @ cow CHR ''O'' CHR ''o'' CHR ''o'')) (m_screen demo_machine) =
       Some (m_screen (fst w1))"
proof -
  have "shell_ready 0x303000 cow_machine"
    using machine_okD(3,4) [OF demo_machine_ok(2)]
    by (simp add: shell_ready_def typing_ok_def typing_bytes_def typing_chars_def demo_machine_def kbd_contents_def kbd_init_def)
  moreover have "list_all2 (cstr (mem_of (fst cow_machine))) [0x307000, 0x307003] ((if True then [''-t''] else []) @ [''hi''])" by simp
  moreover have "set [''hi''] \<inter> flags = {}" "[''hi''] \<noteq> []" "length (said [''hi'']) < 2 ^ 32 - 2" by (simp_all add: flags_def said_def)
  moreover have two: "i \<le> Suc (Suc 0) \<longleftrightarrow> i = 0 \<or> i = 1 \<or> i = 2" for i by auto
  have "cow_apart demo_cow 0x303000 [0x307000, 0x307003] ((if True then [''-t''] else []) @ [''hi''])"
    by (simp add: cow_apart_def demo_cow_def two)
  moreover have "u8_char 111 = CHR ''o''" using u8_char_of_char [of "CHR ''o''"] by simp
  then have "u8_char (mem_of (fst cow_machine) (eyes_at demo_cow)) = CHR ''o''" by (simp add: demo_cow_def)
  moreover have "bubble True (said [''hi'']) = '' ____'' @ nl @ ''( hi )'' @ nl @ '' ----'' @ nl" by (simp add: bubble_def said_def Let_def numeral_eq_Suc)
  ultimately show ?thesis
    using cowsay_says [where th = True and w = cow_machine and e = demo_cow and ao = "0x303000" and as = "[0x307000, 0x307003]" and ws = "[''hi'']"
        and ?a0.0 = "0" and p = demo_platform and c = "demo_context 0 0"] by auto
qed

text \<open>What happens when the linker does put them side by side: in one order \<open>-t\<close> erases the eyes and the
  upper line, in the other \<open>-e\<close> erases the upper line.\<close>

lemma cow_neighbours:
  assumes "cstr m a [x]"
  shows "upper_at e = lower_at e + 1 \<and> eyes_at e = upper_at e + 1 \<Longrightarrow>
      (let m1 = strcpy_lit1 (lower_at e) CHR ''o'' (strcpy_lit1 (upper_at e) CHR ''O'' m) in m1 (eyes_at e) = 0 \<and> m1 (upper_at e) = 0)"
    and "upper_at e = eyes_at e + 1 \<Longrightarrow> strcpy m (eyes_at e) a = Some m2 \<Longrightarrow> eyes_at e \<noteq> a + 1 \<Longrightarrow> m2 (upper_at e) = 0"
proof -
  show "upper_at e = lower_at e + 1 \<and> eyes_at e = upper_at e + 1 \<Longrightarrow>
      (let m1 = strcpy_lit1 (lower_at e) CHR ''o'' (strcpy_lit1 (upper_at e) CHR ''O'' m) in m1 (eyes_at e) = 0 \<and> m1 (upper_at e) = 0)"
    by (simp add: strcpy_lit1_def Let_def)
  have "strcpy m (eyes_at e) a = Some (m(eyes_at e := of_char x, eyes_at e + 1 := 0))" if "eyes_at e \<noteq> a + 1"
    using assms that by (subst strcpy.simps, subst strcpy.simps) simp
  then show "upper_at e = eyes_at e + 1 \<Longrightarrow> strcpy m (eyes_at e) a = Some m2 \<Longrightarrow> eyes_at e \<noteq> a + 1 \<Longrightarrow> m2 (upper_at e) = 0" by auto
qed

end
